(* ===== verification/Prelude.thy ===== *)
theory Prelude
  imports "HOL-Library.Word"
begin

text \<open>
  Shared vocabulary of the development: 32-bit machine words and byte-addressed memory, the
  outcome type of a C function (it may not return, it may end the process, it may return a
  value), and the lemmas about pointer arithmetic that every component uses.

  The code is built with \<open>-m32\<close> (runtime/Makefile and tools/Makefile), so \<open>int\<close>, \<open>size_t\<close>
  and every pointer are 32 bits wide: all three are \<open>32 word\<close> here, and every operation on
  them wraps as it does on the machine.
\<close>

unbundle bit_operations_syntax

section \<open>Machine words\<close>

type_synonym u8 = "8 word"
type_synonym u32 = "32 word"
type_synonym addr = "32 word"

text \<open>The programs outside lama-tools are built for 64-bit machines.\<close>

type_synonym u64 = "64 word"

named_theorems outcome_simps \<open>rewriting of sequenced outcomes\<close>
named_theorems ptr_simps \<open>pointer arithmetic inside one region\<close>
named_theorems mem_simps \<open>reads after writes\<close>

lemma unat_u32_lt [simp]: "unat (x :: u32) < 4294967296"
  using unsigned_less [of x] by simp

lemma unat_of_nat_u32: "k < 4294967296 \<Longrightarrow> unat (word_of_nat k :: u32) = k"
  by (simp add: unat_of_nat take_bit_eq_mod)

lemma sint_bounds: "- 2147483648 \<le> sint (w :: u32)" "sint (w :: u32) < 2147483648"
  using sint_range_size [of w] by (simp_all add: word_size)

lemma sint_nonneg: "0 \<le> sint (w :: u32) \<Longrightarrow> sint w = int (unat w)"
proof -
  assume "0 \<le> sint w"
  then have "take_bit 32 (sint w) = sint w"
    using sint_bounds [of w] by (intro take_bit_int_eq_self) simp_all
  then show ?thesis using uint_sint [of w] by simp
qed

lemma sint_small: "unat (w :: u32) < 2147483648 \<Longrightarrow> sint w = int (unat w)"
proof -
  assume w: "unat w < 2147483648"
  obtain n where n: "w = word_of_nat n" "unat w = n" by (metis of_nat_unat ucast_id)
  with w show ?thesis by (simp add: signed_of_nat signed_take_bit_int_eq_self)
qed

text \<open>
  \<open>ptr b k\<close> is the address \<open>k\<close> bytes after \<open>b\<close>. Facts about a region that starts at \<open>b\<close> speak
  of its addresses in this form, so that they reduce to arithmetic on the offsets.
\<close>

definition ptr :: "addr \<Rightarrow> nat \<Rightarrow> addr" where
  "ptr b k = b + word_of_nat k"

lemma ptr_0 [simp]: "ptr b 0 = b"
  by (simp add: ptr_def)

lemma ptr_plus_numeral [simp]: "ptr b k + numeral n = ptr b (k + numeral n)"
  by (simp add: ptr_def)

lemma ptr_plus_1 [simp]: "ptr b k + 1 = ptr b (k + 1)"
  by (simp add: ptr_def)

lemma ptr_ptr [simp]: "ptr (ptr b i) j = ptr b (i + j)"
  by (simp add: ptr_def)

lemma ptr_plus_word: "ptr b k + w = ptr b (k + unat w)"
  by (simp add: ptr_def)

lemma plus_word_ptr: "b + w = ptr b (unat w)"
  by (simp add: ptr_def)

lemma ptr_minus_ptr: "i \<le> j \<Longrightarrow> ptr b j - ptr b i = word_of_nat (j - i)"
  by (simp add: ptr_def)

lemma ptr_minus_base [simp]: "ptr b j - b = word_of_nat j"
  by (simp add: ptr_def)

lemma unat_ptr [ptr_simps]: "unat b + k < 4294967296 \<Longrightarrow> unat (ptr b k) = unat b + k"
  by (simp add: ptr_def unat_word_ariths unat_of_nat take_bit_eq_mod mod_simps)

lemma ptr_eq_iff [ptr_simps]:
  "i < 4294967296 \<Longrightarrow> j < 4294967296 \<Longrightarrow> (ptr b i = ptr b j) = (i = j)"
  by (metis add_left_cancel ptr_def unat_of_nat_u32)

lemma ptr_less_iff [ptr_simps]:
  "unat b + i < 4294967296 \<Longrightarrow> unat b + j < 4294967296 \<Longrightarrow> (ptr b i < ptr b j) = (i < j)"
  by (simp add: word_less_nat_alt unat_ptr)

lemma ptr_le_iff [ptr_simps]:
  "unat b + i < 4294967296 \<Longrightarrow> unat b + j < 4294967296 \<Longrightarrow> (ptr b i \<le> ptr b j) = (i \<le> j)"
  by (simp add: word_le_nat_alt unat_ptr)

lemma address_as_ptr: "b \<le> p \<Longrightarrow> p = ptr b (unat p - unat b)"
  by (simp add: ptr_def word_le_nat_alt)

lemma address_as_ptr_0: "p = ptr 0 (unat p)"
  by (simp add: ptr_def)

lemma unat_ptr_diff_less:
  assumes "i < 4294967296" "j < 4294967296" "i + n \<le> 4294967296"
  shows "(unat (ptr b j - ptr b i) < n) = (i \<le> j \<and> j < i + n)"
proof (cases "i \<le> j")
  case True
  with assms have "unat (ptr b j - ptr b i) = j - i"
    by (simp add: ptr_minus_ptr unat_of_nat_u32 del: of_nat_diff)
  with True show ?thesis by auto
next
  case False
  then have "ptr b j - ptr b i = - word_of_nat (i - j)"
    by (simp add: ptr_def)
  moreover have "- word_of_nat (i - j) = (word_of_nat (4294967296 - (i - j)) :: u32)"
    using assms(1) by (simp add: of_nat_diff)
  ultimately have "unat (ptr b j - ptr b i) = 4294967296 - (i - j)"
    using False by (simp add: unat_of_nat_u32 del: of_nat_diff)
  with False assms show ?thesis by simp
qed

section \<open>Outcomes of C functions\<close>

text \<open>
  The ways in which the modelled code ends the process. Each constructor stands for one
  \<open>exit\<close>, \<open>kill\<close>, failed \<open>assert\<close>, \<open>failure\<close> or \<open>FAIL\<close> site, or for one hardware trap.
\<close>

datatype c_error =
    UnknownHeader            \<comment> \<open>gc.c get_type_header_ptr: kill (getpid (), SIGSEGV)\<close>
  | MmapFailed               \<comment> \<open>gc.c __init\<close>
  | MremapFailed             \<comment> \<open>gc.c compact_phase\<close>
  | RootsOverflow            \<comment> \<open>gc.c push_extra_root\<close>
  | RootsEmpty               \<comment> \<open>gc.c pop_extra_root\<close>
  | RootsMismatch            \<comment> \<open>gc.c pop_extra_root\<close>
  | AssertFailed             \<comment> \<open>assert (...)\<close>
  | Failure string           \<comment> \<open>runtime.c failure: exit (255)\<close>
  | DivideTrap               \<comment> \<open>idiv: zero divisor or quotient overflow\<close>
  | OutOfBounds              \<comment> \<open>access outside a C array: undefined behaviour\<close>
  | Exited                   \<comment> \<open>exit (0)\<close>
  | Fail string              \<comment> \<open>tools/error.h FAIL: exit (code)\<close>

text \<open>\<open>None\<close>: the function does not return. \<open>Inl\<close>: the process ends. \<open>Inr\<close>: it returns.\<close>

type_synonym 'a outcome = "(c_error + 'a) option"

abbreviation ok :: "'a \<Rightarrow> 'a outcome" where
  "ok x \<equiv> Some (Inr x)"

abbreviation err :: "c_error \<Rightarrow> 'a outcome" where
  "err e \<equiv> Some (Inl e)"

text \<open>Sequencing: \<open>andthen r f\<close> runs \<open>f\<close> on what \<open>r\<close> returned.\<close>

definition andthen :: "'a outcome \<Rightarrow> ('a \<Rightarrow> 'b outcome) \<Rightarrow> 'b outcome" where
  "andthen r f = Option.bind r (\<lambda>v. case v of Inl e \<Rightarrow> err e | Inr x \<Rightarrow> f x)"

lemma andthen_simps [simp, outcome_simps]:
  "andthen None f = None"
  "andthen (err e) f = err e"
  "andthen (ok x) f = f x"
  by (simp_all add: andthen_def)

lemma andthen_assoc: "andthen (andthen r f) g = andthen r (\<lambda>x. andthen (f x) g)"
  by (auto simp: andthen_def split: Option.bind_splits sum.splits)

lemma andthen_eq_ok: "andthen r f = ok y \<longleftrightarrow> (\<exists>x. r = ok x \<and> f x = ok y)"
  by (auto simp: andthen_def split: Option.bind_splits sum.splits)

lemma andthen_cong: "(\<And>x. r = ok x \<Longrightarrow> f x = g x) \<Longrightarrow> andthen r f = andthen r g"
  by (cases r) (auto simp: andthen_def split: sum.splits)

lemma andthen_defined: "r \<noteq> None \<Longrightarrow> (\<And>x. r = ok x \<Longrightarrow> g x \<noteq> None) \<Longrightarrow> andthen r g \<noteq> None"
  by (cases r) (auto simp: andthen_def split: sum.splits)

lemma andthen_pair_defined:
  "r \<noteq> None \<Longrightarrow> (\<And>a b. r = ok (a, b) \<Longrightarrow> g a b \<noteq> None) \<Longrightarrow> andthen r (\<lambda>(a, b). g a b) \<noteq> None"
  by (rule andthen_defined) auto

lemma andthen_mono [partial_function_mono]:
  assumes "mono_option B" and "\<And>y. mono_option (\<lambda>f. C y f)"
  shows "mono_option (\<lambda>f. andthen (B f) (\<lambda>y. C y f))"
  unfolding andthen_def
proof (rule bind_mono [OF assms(1)])
  fix v
  show "mono_option (\<lambda>f. case v of Inl e \<Rightarrow> err e | Inr x \<Rightarrow> C x f)"
    by (cases v) (auto intro: assms(2) option.const_mono)
qed

text \<open>\<open>for_each\<close> runs an operation over a list, left to right, stopping where it stops.\<close>

fun for_each :: "('a \<Rightarrow> 's \<Rightarrow> 's outcome) \<Rightarrow> 'a list \<Rightarrow> 's \<Rightarrow> 's outcome" where
  "for_each f [] s = ok s"
| "for_each f (x # xs) s = andthen (f x s) (for_each f xs)"

lemma for_each_append: "for_each f (xs @ ys) s = andthen (for_each f xs s) (for_each f ys)"
proof (induction xs arbitrary: s)
  case Nil
  show ?case by simp
next
  case (Cons x xs)
  then have "for_each f (xs @ ys) = (\<lambda>s. andthen (for_each f xs s) (for_each f ys))"
    by (rule ext)
  then show ?case by (simp add: andthen_assoc)
qed

lemma for_each_mono [partial_function_mono]:
  assumes "\<And>x s. mono_option (\<lambda>f. C f x s)"
  shows "mono_option (\<lambda>f. for_each (\<lambda>x s. C f x s) xs s)"
proof (induction xs arbitrary: s)
  case Nil
  show ?case by (simp add: option.const_mono)
next
  case (Cons x xs)
  have "mono_option (\<lambda>f. andthen (C f x s) (\<lambda>y. for_each (\<lambda>x s. C f x s) xs y))"
    by (rule andthen_mono [OF assms Cons])
  then show ?case by simp
qed

text \<open>\<open>first_such P f xs\<close> runs \<open>f\<close> over a list until a result satisfies \<open>P\<close>; \<open>d\<close> if none does.\<close>

fun first_such :: "('b \<Rightarrow> bool) \<Rightarrow> 'b \<Rightarrow> ('a \<Rightarrow> 'b outcome) \<Rightarrow> 'a list \<Rightarrow> 'b outcome" where
  "first_such P d f [] = ok d"
| "first_such P d f (x # xs) = andthen (f x) (\<lambda>c. if P c then ok c else first_such P d f xs)"

lemma first_such_mono [partial_function_mono]:
  assumes "\<And>x. mono_option (\<lambda>f. C f x)"
  shows "mono_option (\<lambda>f. first_such P d (\<lambda>x. C f x) xs)"
proof (induction xs)
  case Nil
  show ?case by (simp add: option.const_mono)
next
  case (Cons x xs)
  have "mono_option (\<lambda>f. if P c then ok c else first_such P d (\<lambda>x. C f x) xs)" for c
    using Cons by (cases "P c") (simp_all add: option.const_mono)
  then have "mono_option (\<lambda>f. andthen (C f x) (\<lambda>c. if P c then ok c else first_such P d (\<lambda>x. C f x) xs))"
    by (rule andthen_mono [OF assms])
  then show ?case by simp
qed

section \<open>Byte-addressed memory\<close>

type_synonym memory = "addr \<Rightarrow> u8"

definition load32 :: "memory \<Rightarrow> addr \<Rightarrow> u32" where
  "load32 m a = ucast (m a) OR push_bit 8 (ucast (m (a + 1)))
     OR push_bit 16 (ucast (m (a + 2))) OR push_bit 24 (ucast (m (a + 3)))"

definition store32 :: "memory \<Rightarrow> addr \<Rightarrow> u32 \<Rightarrow> memory" where
  "store32 m a v = m(a := ucast v, a + 1 := ucast (drop_bit 8 v),
     a + 2 := ucast (drop_bit 16 v), a + 3 := ucast (drop_bit 24 v))"

text \<open>\<open>memset\<close>, and \<open>memmove\<close>/\<open>memcpy\<close> (the whole source is read before it is written).\<close>

definition mem_set :: "memory \<Rightarrow> addr \<Rightarrow> u8 \<Rightarrow> nat \<Rightarrow> memory" where
  "mem_set m a c n = (\<lambda>x. if unat (x - a) < n then c else m x)"

definition mem_move :: "memory \<Rightarrow> addr \<Rightarrow> addr \<Rightarrow> nat \<Rightarrow> memory" where
  "mem_move m dst src n = (\<lambda>x. if unat (x - dst) < n then m (src + (x - dst)) else m x)"

lemma load32_store32_same [simp, mem_simps]: "load32 (store32 m a v) a = v"
proof (rule bit_word_eqI)
  fix n assume "n < LENGTH(32)"
  then consider "n < 8" | "8 \<le> n" "n < 16" | "16 \<le> n" "n < 24" | "24 \<le> n" "n < 32"
    by fastforce
  then show "bit (load32 (store32 m a v) a) n = bit v n"
    by cases (auto simp: load32_def store32_def bit_simps)
qed

lemma load32_cong:
  assumes "m a = m' a'" "m (a + 1) = m' (a' + 1)" "m (a + 2) = m' (a' + 2)" "m (a + 3) = m' (a' + 3)"
  shows "load32 m a = load32 m' a'"
  using assms by (simp add: load32_def)

lemma load32_ptr_cong:
  assumes "\<And>d. d < 4 \<Longrightarrow> m (ptr b (i + d)) = m' (ptr c (j + d))"
  shows "load32 m (ptr b i) = load32 m' (ptr c j)"
  using assms [of 0] assms [of 1] assms [of 2] assms [of 3] by (intro load32_cong) simp_all

text \<open>Reads and writes inside one region.\<close>

lemma load32_store32_other [mem_simps]:
  assumes "i + 4 \<le> j \<or> j + 4 \<le> i" "i + 4 \<le> 4294967296" "j + 4 \<le> 4294967296"
  shows "load32 (store32 m (ptr b i) v) (ptr b j) = load32 m (ptr b j)"
  using assms by (intro load32_cong) (auto simp: store32_def ptr_eq_iff)

lemma mem_set_apply [mem_simps]:
  assumes "i < 4294967296" "j < 4294967296" "i + n \<le> 4294967296"
  shows "mem_set m (ptr b i) c n (ptr b j) = (if i \<le> j \<and> j < i + n then c else m (ptr b j))"
  using unat_ptr_diff_less [OF assms, of b] by (simp add: mem_set_def)

lemma mem_move_apply [mem_simps]:
  assumes "i < 4294967296" "j < 4294967296" "i + n \<le> 4294967296"
  shows "mem_move m (ptr b i) (ptr c k) n (ptr b j)
    = (if i \<le> j \<and> j < i + n then m (ptr c (k + (j - i))) else m (ptr b j))"
proof -
  have "i \<le> j \<Longrightarrow> ptr c k + (ptr b j - ptr b i) = ptr c (k + (j - i))"
    by (simp add: ptr_minus_ptr del: of_nat_diff) (simp add: ptr_def)
  with unat_ptr_diff_less [OF assms, of b] show ?thesis by (simp add: mem_move_def)
qed

lemma load32_mem_set_inside [mem_simps]:
  assumes "i \<le> j" "j + 4 \<le> i + n" "i + n \<le> 4294967296"
  shows "load32 (mem_set m (ptr b i) 0 n) (ptr b j) = 0"
  using assms by (simp add: load32_def mem_set_apply)

lemma load32_mem_set_outside [mem_simps]:
  assumes "j + 4 \<le> i \<or> i + n \<le> j" "i + n \<le> 4294967296" "i < 4294967296" "j + 4 \<le> 4294967296"
  shows "load32 (mem_set m (ptr b i) c n) (ptr b j) = load32 m (ptr b j)"
  using assms by (intro load32_cong) (auto simp: mem_set_apply)

lemma load32_mem_move_inside [mem_simps]:
  assumes "i \<le> j" "j + 4 \<le> i + n" "i + n \<le> 4294967296"
  shows "load32 (mem_move m (ptr b i) (ptr c k) n) (ptr b j) = load32 m (ptr c (k + (j - i)))"
proof -
  have "mem_move m (ptr b i) (ptr c k) n (ptr b (j + d)) = m (ptr c (k + (j - i) + d))" if "d < 4" for d
  proof -
    have "k + (j + d - i) = k + (j - i) + d"
      using assms by simp
    with assms that show ?thesis by (simp only: mem_move_apply) simp
  qed
  from this [of 0] this [of 1] this [of 2] this [of 3] show ?thesis
    by (intro load32_cong) simp_all
qed

lemma load32_mem_move_outside [mem_simps]:
  assumes "j + 4 \<le> i \<or> i + n \<le> j" "i + n \<le> 4294967296" "i < 4294967296" "j + 4 \<le> 4294967296"
  shows "load32 (mem_move m (ptr b i) (ptr c k) n) (ptr b j) = load32 m (ptr b j)"
  using assms by (intro load32_cong) (auto simp: mem_move_apply)

end
