(* ===== verification/Repr.thy ===== *)
theory Repr
  imports Prelude
begin

text \<open>
  runtime/runtime_common.h: the representation of Lama values. A value is a 32-bit word, either
  an unboxed integer (lowest bit 1) or a pointer to the contents of a heap object (lowest bit
  0). An object starts with two words, the data header (kind in the low three bits, length
  above) and the forward address used by the collector; its contents follow. The production
  layout is modelled (no \<open>DEBUG_VERSION\<close>, so there is no \<open>id\<close> field).
\<close>

section \<open>Kinds and headers\<close>

definition STRING_TAG :: u32 where "STRING_TAG = 1"
definition ARRAY_TAG :: u32 where "ARRAY_TAG = 3"
definition SEXP_TAG :: u32 where "SEXP_TAG = 5"
definition CLOSURE_TAG :: u32 where "CLOSURE_TAG = 7"
definition UNBOXED_TAG :: u32 where "UNBOXED_TAG = 9"

lemmas tag_defs = STRING_TAG_def ARRAY_TAG_def SEXP_TAG_def CLOSURE_TAG_def UNBOXED_TAG_def

text \<open>\<open>0xFFFFFFF8\<close> is an unsigned constant, so the shift of \<open>LEN\<close> is a logical one.\<close>

definition LEN :: "u32 \<Rightarrow> u32" where
  "LEN x = drop_bit 3 (x AND 0xFFFFFFF8)"

definition TAG :: "u32 \<Rightarrow> u32" where
  "TAG x = x AND 7"

definition DATA_HEADER_SZ :: u32 where "DATA_HEADER_SZ = 8"
definition MEMBER_SIZE :: u32 where "MEMBER_SIZE = 4"

text \<open>\<open>TO_DATA\<close> and \<open>TO_SEXP\<close> step from the contents of an object back to its header.\<close>

definition TO_DATA :: "addr \<Rightarrow> addr" where
  "TO_DATA x = x - DATA_HEADER_SZ"

definition TO_SEXP :: "addr \<Rightarrow> addr" where
  "TO_SEXP x = x - DATA_HEADER_SZ"

text \<open>The fields of \<open>struct data\<close> and \<open>struct sexp\<close>, as addresses from the object's header.\<close>

definition data_header :: "memory \<Rightarrow> addr \<Rightarrow> u32" where
  "data_header m d = load32 m d"

definition forward_address :: "memory \<Rightarrow> addr \<Rightarrow> u32" where
  "forward_address m d = load32 m (d + 4)"

definition contents :: "addr \<Rightarrow> addr" where
  "contents d = d + 8"

definition sexp_tag :: "memory \<Rightarrow> addr \<Rightarrow> u32" where
  "sexp_tag m d = load32 m (d + 8)"

lemma contents_TO_DATA [simp]: "contents (TO_DATA x) = x" "TO_DATA (contents d) = d"
  by (simp_all add: contents_def TO_DATA_def DATA_HEADER_SZ_def)

section \<open>Boxing\<close>

definition UNBOXED :: "u32 \<Rightarrow> bool" where
  "UNBOXED x \<longleftrightarrow> x AND 1 \<noteq> 0"

definition UNBOX :: "u32 \<Rightarrow> u32" where
  "UNBOX x = signed_drop_bit 1 x"

definition BOX :: "u32 \<Rightarrow> u32" where
  "BOX x = push_bit 1 x OR 1"

definition BYTES_TO_WORDS :: "u32 \<Rightarrow> u32" where
  "BYTES_TO_WORDS b = (b - 1) div 4 + 1"

definition WORDS_TO_BYTES :: "u32 \<Rightarrow> u32" where
  "WORDS_TO_BYTES w = w * 4"

lemma UNBOXED_bit: "UNBOXED x = bit x 0"
  by (simp add: UNBOXED_def and_one_eq odd_iff_mod_2_eq_one bit_0)

lemma UNBOXED_odd: "UNBOXED x = odd x"
  by (simp add: UNBOXED_bit bit_0)

lemma UNBOXED_BOX [simp]: "UNBOXED (BOX x)"
  by (simp add: UNBOXED_bit BOX_def bit_simps)

lemma bit_BOX: "bit (BOX x) n = (n < 32 \<and> (n = 0 \<or> bit x (n - 1)))"
  unfolding BOX_def bit_or_iff bit_push_bit_iff bit_1_iff by (cases n) auto

lemma bit_UNBOX: "bit (UNBOX x) n = (n < 32 \<and> bit x (min (Suc n) 31))"
  by (auto simp: UNBOX_def bit_simps min_def not_less le_Suc_eq dest: bit_imp_le_length)

text \<open>
  \<open>UNBOX (BOX x)\<close> loses bit 31: what comes back is \<open>x\<close> with bit 30 copied into the sign.
\<close>

lemma bit_UNBOX_BOX: "n < 32 \<Longrightarrow> bit (UNBOX (BOX x)) n = bit x (min n 30)"
  by (auto simp: bit_UNBOX bit_BOX min_def)

lemma UNBOX_BOX_eq_iff: "UNBOX (BOX x) = x \<longleftrightarrow> bit x 31 = bit x 30"
proof
  assume "UNBOX (BOX x) = x"
  then show "bit x 31 = bit x 30" using bit_UNBOX_BOX [of 31 x] by simp
next
  assume b: "bit x 31 = bit x 30"
  show "UNBOX (BOX x) = x"
  proof (rule bit_word_eqI)
    fix n assume "n < LENGTH(32)"
    then have n: "n < 32" by simp
    show "bit (UNBOX (BOX x)) n = bit x n"
      using n b bit_UNBOX_BOX [OF n, of x] by (cases "n = 31") (auto simp: min_def)
  qed
qed

lemma BOX_UNBOX: "UNBOXED v \<Longrightarrow> BOX (UNBOX v) = v"
proof (rule bit_word_eqI)
  fix n assume v: "UNBOXED v" and "n < LENGTH(32)"
  then have n: "n < 32" by simp
  show "bit (BOX (UNBOX v)) n = bit v n"
    using n v by (cases n) (auto simp: bit_BOX bit_UNBOX UNBOXED_bit)
qed

lemma unat_BYTES_TO_WORDS: "b \<noteq> 0 \<Longrightarrow> unat (BYTES_TO_WORDS b) = (unat b + 3) div 4"
proof -
  assume b: "b \<noteq> 0"
  then have u: "unat (b - 1) = unat b - 1" and pos: "0 < unat b"
    by (simp_all add: unat_minus_one unat_gt_0)
  have "unat ((b - 1) div 4) = (unat b - 1) div 4"
    by (simp add: unat_div u)
  moreover have "(unat b - 1) div 4 + 1 < 4294967296"
    using unat_u32_lt [of b] by linarith
  ultimately have "unat (BYTES_TO_WORDS b) = (unat b - 1) div 4 + 1"
    by (simp add: BYTES_TO_WORDS_def unat_word_ariths)
  with pos show ?thesis by linarith
qed

section \<open>Header arithmetic\<close>

lemma TAG_eq: "TAG x = take_bit 3 x"
  by (simp add: TAG_def take_bit_eq_mask mask_eq_exp_minus_1)

lemma LEN_eq: "LEN x = drop_bit 3 x"
proof -
  have m: "(4294967288 :: u32) = NOT (mask 3)"
    by (simp add: mask_eq_exp_minus_1)
  show ?thesis
    by (rule bit_word_eqI) (auto simp: LEN_def m bit_simps dest: bit_imp_le_length)
qed

lemma unat_TAG: "unat (TAG x) = unat x mod 8"
  by (simp add: TAG_eq take_bit_eq_mod unat_mod)

lemma unat_LEN: "unat (LEN x) = unat x div 8"
  by (simp add: LEN_eq drop_bit_eq_div unat_div)

lemma unat_LEN_less: "unat (LEN x) < 536870912"
  using unat_u32_lt [of x] unfolding unat_LEN by linarith

text \<open>Writing a kind and a length into a header and reading them back.\<close>

lemma TAG_header: "take_bit 3 t = t \<Longrightarrow> TAG (t OR push_bit 3 n) = t"
  by (rule bit_word_eqI) (metis TAG_eq bit_or_iff bit_push_bit_iff bit_take_bit_iff linorder_not_le)

lemma LEN_header:
  assumes "take_bit 3 t = t" "take_bit 29 n = n"
  shows "LEN (t OR push_bit 3 n) = n"
proof (rule bit_word_eqI)
  fix k assume k: "k < LENGTH(32)"
  have t: "\<not> bit t (3 + k)" and n: "bit n k \<Longrightarrow> k < 29"
    using assms by (metis bit_take_bit_iff not_add_less1, metis bit_take_bit_iff)
  show "bit (LEN (t OR push_bit 3 n)) k = bit n k"
    using t n k by (auto simp: LEN_eq bit_simps)
qed

end
