(* ===== verification/Objects.thy ===== *)
theory Objects
  imports Repr
begin

text \<open>
  runtime/gc.c, the utility functions (lines 479-483 and 673-868) and runtime/gc.h, the types:
  the collector's globals, the mark, enqueued and forward-address bits of an object, the sizes
  of objects, and the iterators over the objects of the heap and over the fields of one object.
  Pointers are addresses; \<open>lama_type\<close> is the enum; the structs are records. \<open>heap_iterator\<close> has
  one field, \<open>current\<close>, and is that address.
\<close>

section \<open>Types and globals\<close>

datatype lama_type = ARRAY | CLOSURE | STRING | SEXP

type_synonym heap_iterator = addr

record obj_field_iterator =
  it_type :: lama_type
  it_obj_ptr :: addr
  it_cur_field :: addr

record memory_chunk =
  chunk_begin :: addr
  chunk_end :: addr
  chunk_current :: addr
  chunk_size :: u32            \<comment> \<open>in words\<close>

text \<open>\<open>roots\<close> is the C array \<open>roots[MAX_EXTRA_ROOTS_NUMBER]\<close>.\<close>

record extra_roots_pool =
  current_free :: nat
  roots :: "addr list"

text \<open>The static variables of gc.c, the address space, and the bounds of the custom data area.\<close>

record gc_state =
  mem :: memory
  heap :: memory_chunk
  extra_roots :: extra_roots_pool
  gc_stack_top :: addr
  gc_stack_bottom :: addr
  start_custom_data :: addr
  stop_custom_data :: addr

section \<open>The forward-address word\<close>

definition GET_MARK_BIT :: "u32 \<Rightarrow> u32" where "GET_MARK_BIT x = x AND 1"
definition SET_MARK_BIT :: "u32 \<Rightarrow> u32" where "SET_MARK_BIT x = x OR 1"
definition RESET_MARK_BIT :: "u32 \<Rightarrow> u32" where "RESET_MARK_BIT x = x AND NOT 1"
definition IS_ENQUEUED :: "u32 \<Rightarrow> u32" where "IS_ENQUEUED x = x AND 2"
definition MAKE_ENQUEUED :: "u32 \<Rightarrow> u32" where "MAKE_ENQUEUED x = x OR 2"
definition MAKE_DEQUEUED :: "u32 \<Rightarrow> u32" where "MAKE_DEQUEUED x = x AND NOT 2"
definition GET_FORWARD_ADDRESS :: "u32 \<Rightarrow> u32" where "GET_FORWARD_ADDRESS x = x AND NOT 3"
definition SET_FORWARD_ADDRESS :: "u32 \<Rightarrow> u32 \<Rightarrow> u32" where
  "SET_FORWARD_ADDRESS x a = (x AND 3) OR a"

lemmas fwd_bit_defs = GET_MARK_BIT_def SET_MARK_BIT_def RESET_MARK_BIT_def IS_ENQUEUED_def
  MAKE_ENQUEUED_def MAKE_DEQUEUED_def GET_FORWARD_ADDRESS_def SET_FORWARD_ADDRESS_def

definition set_fwd_word :: "gc_state \<Rightarrow> addr \<Rightarrow> u32 \<Rightarrow> gc_state" where
  "set_fwd_word s d v = s\<lparr>mem := store32 (mem s) (d + 4) v\<rparr>"

definition get_forward_address :: "gc_state \<Rightarrow> addr \<Rightarrow> addr" where
  "get_forward_address s obj = GET_FORWARD_ADDRESS (forward_address (mem s) (TO_DATA obj))"

definition set_forward_address :: "addr \<Rightarrow> addr \<Rightarrow> gc_state \<Rightarrow> gc_state" where
  "set_forward_address obj a s = (let d = TO_DATA obj in
     set_fwd_word s d (SET_FORWARD_ADDRESS (forward_address (mem s) d) a))"

definition is_marked :: "gc_state \<Rightarrow> addr \<Rightarrow> bool" where
  "is_marked s obj \<longleftrightarrow> GET_MARK_BIT (forward_address (mem s) (TO_DATA obj)) \<noteq> 0"

definition mark_object :: "addr \<Rightarrow> gc_state \<Rightarrow> gc_state" where
  "mark_object obj s = (let d = TO_DATA obj in
     set_fwd_word s d (SET_MARK_BIT (forward_address (mem s) d)))"

definition unmark_object :: "addr \<Rightarrow> gc_state \<Rightarrow> gc_state" where
  "unmark_object obj s = (let d = TO_DATA obj in
     set_fwd_word s d (RESET_MARK_BIT (forward_address (mem s) d)))"

definition is_enqueued :: "gc_state \<Rightarrow> addr \<Rightarrow> bool" where
  "is_enqueued s obj \<longleftrightarrow> IS_ENQUEUED (forward_address (mem s) (TO_DATA obj)) \<noteq> 0"

definition make_enqueued :: "addr \<Rightarrow> gc_state \<Rightarrow> gc_state" where
  "make_enqueued obj s = (let d = TO_DATA obj in
     set_fwd_word s d (MAKE_ENQUEUED (forward_address (mem s) d)))"

definition make_dequeued :: "addr \<Rightarrow> gc_state \<Rightarrow> gc_state" where
  "make_dequeued obj s = (let d = TO_DATA obj in
     set_fwd_word s d (MAKE_DEQUEUED (forward_address (mem s) d)))"

section \<open>Kinds and sizes of objects\<close>

definition get_type_header_ptr :: "gc_state \<Rightarrow> addr \<Rightarrow> lama_type outcome" where
  "get_type_header_ptr s p = (let t = TAG (load32 (mem s) p) in
     if t = ARRAY_TAG then ok ARRAY
     else if t = STRING_TAG then ok STRING
     else if t = CLOSURE_TAG then ok CLOSURE
     else if t = SEXP_TAG then ok SEXP
     else err UnknownHeader)"

definition get_type_row_ptr :: "gc_state \<Rightarrow> addr \<Rightarrow> lama_type outcome" where
  "get_type_row_ptr s p = get_type_header_ptr s (TO_DATA p)"

text \<open>The \<open>default\<close> branch of the C switch is for values outside the enum.\<close>

fun get_header_size :: "lama_type \<Rightarrow> u32" where
  "get_header_size STRING = DATA_HEADER_SZ"
| "get_header_size CLOSURE = DATA_HEADER_SZ"
| "get_header_size ARRAY = DATA_HEADER_SZ"
| "get_header_size SEXP = DATA_HEADER_SZ"

definition array_size :: "u32 \<Rightarrow> u32" where
  "array_size sz = get_header_size ARRAY + MEMBER_SIZE * sz"

definition string_size :: "u32 \<Rightarrow> u32" where
  "string_size len = get_header_size STRING + len + 1"

definition closure_size :: "u32 \<Rightarrow> u32" where
  "closure_size sz = get_header_size CLOSURE + MEMBER_SIZE * sz"

definition sexp_size :: "u32 \<Rightarrow> u32" where
  "sexp_size members = get_header_size SEXP + MEMBER_SIZE * (members + 1)"

lemmas size_defs = array_size_def string_size_def closure_size_def sexp_size_def

fun type_size :: "lama_type \<Rightarrow> u32 \<Rightarrow> u32" where
  "type_size ARRAY len = array_size len"
| "type_size STRING len = string_size len"
| "type_size CLOSURE len = closure_size len"
| "type_size SEXP len = sexp_size len"

definition obj_size_header_ptr :: "gc_state \<Rightarrow> addr \<Rightarrow> u32 outcome" where
  "obj_size_header_ptr s p = (let len = LEN (load32 (mem s) p) in
     andthen (get_type_header_ptr s p) (\<lambda>t. ok (type_size t len)))"

definition obj_size_row_ptr :: "gc_state \<Rightarrow> addr \<Rightarrow> u32 outcome" where
  "obj_size_row_ptr s p = obj_size_header_ptr s (TO_DATA p)"

definition get_obj_header_ptr :: "gc_state \<Rightarrow> addr \<Rightarrow> addr outcome" where
  "get_obj_header_ptr s p = andthen (get_type_row_ptr s p) (\<lambda>t. ok (p - get_header_size t))"

definition get_object_content_ptr :: "gc_state \<Rightarrow> addr \<Rightarrow> addr outcome" where
  "get_object_content_ptr s p = andthen (get_type_header_ptr s p) (\<lambda>t. ok (p + get_header_size t))"

definition get_end_of_obj :: "gc_state \<Rightarrow> addr \<Rightarrow> addr outcome" where
  "get_end_of_obj s p = andthen (obj_size_header_ptr s p) (\<lambda>n. ok (p + n))"

section \<open>Pointers\<close>

definition is_valid_pointer :: "addr \<Rightarrow> bool" where
  "is_valid_pointer p \<longleftrightarrow> \<not> UNBOXED p"

definition is_valid_heap_pointer :: "gc_state \<Rightarrow> addr \<Rightarrow> bool" where
  "is_valid_heap_pointer s p \<longleftrightarrow>
     \<not> UNBOXED p \<and> chunk_begin (heap s) \<le> p \<and> p \<le> chunk_current (heap s)"

section \<open>Iterating over the objects of the heap\<close>

definition heap_begin_iterator :: "gc_state \<Rightarrow> heap_iterator" where
  "heap_begin_iterator s = chunk_begin (heap s)"

definition heap_next_obj_iterator :: "gc_state \<Rightarrow> heap_iterator \<Rightarrow> heap_iterator outcome" where
  "heap_next_obj_iterator s it = andthen (obj_size_header_ptr s it)
     (\<lambda>obj_size. ok (it + 4 * BYTES_TO_WORDS obj_size))"

definition heap_is_done_iterator :: "gc_state \<Rightarrow> heap_iterator \<Rightarrow> bool" where
  "heap_is_done_iterator s it \<longleftrightarrow> chunk_current (heap s) \<le> it"

section \<open>Iterating over the fields of an object\<close>

definition field_begin_iterator :: "gc_state \<Rightarrow> addr \<Rightarrow> obj_field_iterator outcome" where
  "field_begin_iterator s obj =
     andthen (get_type_header_ptr s obj) (\<lambda>t.
     andthen (get_object_content_ptr s obj) (\<lambda>c.
       case t of
         STRING \<Rightarrow> andthen (get_end_of_obj s obj)
           (\<lambda>e. ok \<lparr>it_type = t, it_obj_ptr = obj, it_cur_field = e\<rparr>)
       | CLOSURE \<Rightarrow> ok \<lparr>it_type = t, it_obj_ptr = obj, it_cur_field = c + MEMBER_SIZE\<rparr>
       | SEXP \<Rightarrow> ok \<lparr>it_type = t, it_obj_ptr = obj, it_cur_field = c + MEMBER_SIZE\<rparr>
       | ARRAY \<Rightarrow> ok \<lparr>it_type = t, it_obj_ptr = obj, it_cur_field = c\<rparr>))"

definition field_is_done_iterator :: "gc_state \<Rightarrow> obj_field_iterator \<Rightarrow> bool outcome" where
  "field_is_done_iterator s it =
     andthen (get_end_of_obj s (it_obj_ptr it)) (\<lambda>e. ok (e \<le> it_cur_field it))"

definition obj_next_field_iterator :: "obj_field_iterator \<Rightarrow> obj_field_iterator" where
  "obj_next_field_iterator it = it\<lparr>it_cur_field := it_cur_field it + MEMBER_SIZE\<rparr>"

text \<open>The \<open>do ... while\<close> loop: step, then repeat while the field is not a pointer.\<close>

partial_function (option) obj_next_ptr_field_iterator ::
    "gc_state \<Rightarrow> obj_field_iterator \<Rightarrow> obj_field_iterator outcome" where
  "obj_next_ptr_field_iterator s it = (let it' = obj_next_field_iterator it in
     andthen (field_is_done_iterator s it') (\<lambda>done.
       if \<not> done \<and> \<not> is_valid_pointer (load32 (mem s) (it_cur_field it'))
       then obj_next_ptr_field_iterator s it'
       else ok it'))"

definition ptr_field_begin_iterator :: "gc_state \<Rightarrow> addr \<Rightarrow> obj_field_iterator outcome" where
  "ptr_field_begin_iterator s obj =
     andthen (field_begin_iterator s obj) (\<lambda>it.
     andthen (field_is_done_iterator s it) (\<lambda>done.
       if done then ok it
       else if is_valid_pointer (load32 (mem s) (it_cur_field it)) then ok it
       else obj_next_ptr_field_iterator s it))"

end
