(* ===== verification/Stacks.thy ===== *)
theory Stacks
  imports Prelude
begin

text \<open>
  The stack interfaces the components share. The program has three bounded stacks: the virtual
  stack of the runtime's unit tests (runtime/virt_stack.c), the pool of extra roots
  (runtime/gc.c) and the virtual stack of the interpreter (tools/interprete.cpp). All push
  downwards or upwards in an array and end the process when there is no room. \<open>bounded_stack\<close>
  states what pushing promises; \<open>value_stack\<close> adds a pop that returns the top value, and
  \<open>checked_stack\<close> a pop that is told which value to expect and refuses any other.
\<close>

section \<open>Pushing\<close>

locale bounded_stack =
  fixes push :: "'a \<Rightarrow> 's \<Rightarrow> 's outcome"
    and elems :: "'s \<Rightarrow> 'a list"
    and capacity :: "'s \<Rightarrow> nat"
    and inv :: "'s \<Rightarrow> bool"
    and pushable :: "'a \<Rightarrow> 's \<Rightarrow> bool"
  assumes push_room: "inv s \<Longrightarrow> pushable x s \<Longrightarrow> length (elems s) < capacity s \<Longrightarrow>
      \<exists>s'. push x s = ok s' \<and> inv s' \<and> elems s' = x # elems s \<and> capacity s' = capacity s
        \<and> (\<forall>y. pushable y s' = pushable y s)"
    and push_full: "inv s \<Longrightarrow> capacity s \<le> length (elems s) \<Longrightarrow> \<exists>e. push x s = err e"
    and elems_bounded: "inv s \<Longrightarrow> length (elems s) \<le> capacity s"
begin

lemma push_all:
  assumes "inv s" "\<forall>x\<in>set xs. pushable x s" "length (elems s) + length xs \<le> capacity s"
  shows "\<exists>s'. for_each push xs s = ok s' \<and> inv s' \<and> elems s' = rev xs @ elems s
    \<and> capacity s' = capacity s \<and> (\<forall>y. pushable y s' = pushable y s)"
  using assms
proof (induction xs arbitrary: s)
  case Nil
  then show ?case by simp
next
  case (Cons x xs)
  then have "length (elems s) < capacity s" and "pushable x s" by simp_all
  with Cons.prems(1) obtain s1 where s1: "push x s = ok s1" "inv s1" "elems s1 = x # elems s"
    "capacity s1 = capacity s" "\<forall>y. pushable y s1 = pushable y s"
    using push_room by blast
  with Cons.prems have "\<forall>y\<in>set xs. pushable y s1" "length (elems s1) + length xs \<le> capacity s1"
    by simp_all
  from Cons.IH [OF s1(2) this] s1 show ?case by auto
qed

text \<open>Pushing more than there is room for ends the process.\<close>

lemma push_all_overflow:
  assumes "inv s" "\<forall>x\<in>set xs. pushable x s" "capacity s < length (elems s) + length xs"
  shows "\<exists>e. for_each push xs s = err e"
  using assms
proof (induction xs arbitrary: s)
  case Nil
  then show ?case using elems_bounded [of s] by simp
next
  case (Cons x xs)
  show ?case
  proof (cases "length (elems s) < capacity s")
    case True
    with Cons.prems(1,2) obtain s1 where s1: "push x s = ok s1" "inv s1" "elems s1 = x # elems s"
      "capacity s1 = capacity s" "\<forall>y. pushable y s1 = pushable y s"
      using push_room by (meson list.set_intros(1))
    with Cons.prems have "\<forall>y\<in>set xs. pushable y s1" "capacity s1 < length (elems s1) + length xs"
      by simp_all
    from Cons.IH [OF s1(2) this] s1(1) show ?thesis by simp
  next
    case False
    then show ?thesis using push_full [OF Cons.prems(1), of x] by auto
  qed
qed

end

section \<open>Popping a value\<close>

locale value_stack = bounded_stack +
  fixes pop :: "'s \<Rightarrow> ('a \<times> 's) outcome"
  assumes pop_some: "inv s \<Longrightarrow> elems s = x # xs \<Longrightarrow>
      \<exists>s'. pop s = ok (x, s') \<and> inv s' \<and> elems s' = xs \<and> capacity s' = capacity s"
    and pop_none: "inv s \<Longrightarrow> elems s = [] \<Longrightarrow> \<exists>e. pop s = err e"
begin

lemma pop_push:
  assumes "inv s" "pushable x s" "length (elems s) < capacity s"
  shows "\<exists>s' s''. push x s = ok s' \<and> pop s' = ok (x, s'') \<and> inv s'' \<and> elems s'' = elems s"
proof -
  from push_room [OF assms] obtain s' where s': "push x s = ok s'" "inv s'" "elems s' = x # elems s"
    by blast
  from pop_some [OF s'(2,3)] s'(1) show ?thesis by blast
qed

end

section \<open>Popping an expected value\<close>

locale checked_stack = bounded_stack +
  fixes pop :: "'a \<Rightarrow> 's \<Rightarrow> 's outcome"
  assumes pop_match: "inv s \<Longrightarrow> elems s = x # xs \<Longrightarrow>
      \<exists>s'. pop x s = ok s' \<and> inv s' \<and> elems s' = xs \<and> capacity s' = capacity s"
    and pop_mismatch: "inv s \<Longrightarrow> elems s = x # xs \<Longrightarrow> y \<noteq> x \<Longrightarrow> \<exists>e. pop y s = err e"
    and pop_none: "inv s \<Longrightarrow> elems s = [] \<Longrightarrow> \<exists>e. pop y s = err e"
begin

lemma pop_all:
  assumes "inv s" "elems s = xs @ ys"
  shows "\<exists>s'. for_each pop xs s = ok s' \<and> inv s' \<and> elems s' = ys \<and> capacity s' = capacity s"
  using assms
proof (induction xs arbitrary: s)
  case Nil
  then show ?case by simp
next
  case (Cons x xs)
  then obtain s1 where s1: "pop x s = ok s1" "inv s1" "elems s1 = xs @ ys" "capacity s1 = capacity s"
    using pop_match [of s x "xs @ ys"] by auto
  from Cons.IH [OF s1(2,3)] s1 show ?case by auto
qed

text \<open>A bracket: what is pushed in order and popped in the opposite order leaves no trace.\<close>

lemma push_pop_bracket:
  assumes "inv s" "\<forall>x\<in>set xs. pushable x s" "length (elems s) + length xs \<le> capacity s"
  shows "\<exists>s' s''. for_each push xs s = ok s' \<and> for_each pop (rev xs) s' = ok s''
    \<and> inv s'' \<and> elems s'' = elems s"
proof -
  from push_all [OF assms] obtain s' where s': "for_each push xs s = ok s'" "inv s'"
    "elems s' = rev xs @ elems s" by blast
  from pop_all [OF s'(2,3)] s'(1) show ?thesis by blast
qed

text \<open>A pop succeeds on the top value only.\<close>

lemma pop_ok_iff: "inv s \<Longrightarrow> (\<exists>s'. pop y s = ok s') \<longleftrightarrow> (\<exists>xs. elems s = y # xs)"
proof
  assume i: "inv s" and "\<exists>s'. pop y s = ok s'"
  then obtain s' where p: "pop y s = ok s'" by blast
  show "\<exists>xs. elems s = y # xs"
  proof (cases "elems s")
    case Nil
    with pop_none [OF i, of y] p show ?thesis by auto
  next
    case (Cons x xs)
    with pop_mismatch [OF i Cons, of y] p show ?thesis by auto
  qed
next
  assume "inv s" and "\<exists>xs. elems s = y # xs"
  then show "\<exists>s'. pop y s = ok s'" using pop_match by blast
qed

end

end
