(* ===== verification/Roots.thy ===== *)
theory Roots
  imports Objects Stacks
begin

text \<open>
  runtime/gc.c, the pool of extra roots (lines 598-620): a stack of at most
  \<open>MAX_EXTRA_ROOTS_NUMBER\<close> addresses of variables that hold Lama values. A pop names the address
  it expects to find on top and ends the process on any other.
\<close>

definition MAX_EXTRA_ROOTS_NUMBER :: nat where
  "MAX_EXTRA_ROOTS_NUMBER = 32"

definition clear_extra_roots :: "gc_state \<Rightarrow> gc_state" where
  "clear_extra_roots s = s\<lparr>extra_roots := (extra_roots s)\<lparr>current_free := 0\<rparr>\<rparr>"

definition push_extra_root :: "addr \<Rightarrow> gc_state \<Rightarrow> gc_state outcome" where
  "push_extra_root p s = (let er = extra_roots s in
     if MAX_EXTRA_ROOTS_NUMBER \<le> current_free er then err RootsOverflow
     else if \<not> (gc_stack_top s \<le> p \<or> p < gc_stack_bottom s) then err AssertFailed
     else ok (s\<lparr>extra_roots := \<lparr>current_free = current_free er + 1,
                                roots = (roots er)[current_free er := p]\<rparr>\<rparr>))"

definition pop_extra_root :: "addr \<Rightarrow> gc_state \<Rightarrow> gc_state outcome" where
  "pop_extra_root p s = (let er = extra_roots s in
     if current_free er = 0 then err RootsEmpty
     else let cf = current_free er - 1 in
       if roots er ! cf \<noteq> p then err RootsMismatch
       else ok (s\<lparr>extra_roots := er\<lparr>current_free := cf\<rparr>\<rparr>))"

section \<open>The pool as a list, last root first\<close>

definition live_roots :: "gc_state \<Rightarrow> addr list" where
  "live_roots s = rev (take (current_free (extra_roots s)) (roots (extra_roots s)))"

definition roots_inv :: "gc_state \<Rightarrow> bool" where
  "roots_inv s \<longleftrightarrow> length (roots (extra_roots s)) = MAX_EXTRA_ROOTS_NUMBER
     \<and> current_free (extra_roots s) \<le> MAX_EXTRA_ROOTS_NUMBER"

text \<open>The asserted condition on a pushed address.\<close>

definition root_allowed :: "addr \<Rightarrow> gc_state \<Rightarrow> bool" where
  "root_allowed p s \<longleftrightarrow> gc_stack_top s \<le> p \<or> p < gc_stack_bottom s"

lemma length_live_roots: "roots_inv s \<Longrightarrow> length (live_roots s) = current_free (extra_roots s)"
  by (simp add: live_roots_def roots_inv_def)

lemma live_roots_snoc:
  assumes "roots_inv s" "current_free (extra_roots s) = Suc k"
  shows "live_roots s = roots (extra_roots s) ! k # rev (take k (roots (extra_roots s)))"
  using assms by (simp add: live_roots_def roots_inv_def take_Suc_conv_app_nth)

lemma push_extra_root_cases:
  "push_extra_root p s =
    (if MAX_EXTRA_ROOTS_NUMBER \<le> current_free (extra_roots s) then err RootsOverflow
     else if \<not> root_allowed p s then err AssertFailed
     else ok (s\<lparr>extra_roots := \<lparr>current_free = current_free (extra_roots s) + 1,
       roots = (roots (extra_roots s))[current_free (extra_roots s) := p]\<rparr>\<rparr>))"
  by (simp add: push_extra_root_def root_allowed_def Let_def)

lemma push_extra_root_room:
  assumes "roots_inv s" "root_allowed p s" "length (live_roots s) < MAX_EXTRA_ROOTS_NUMBER"
  shows "\<exists>s'. push_extra_root p s = ok s' \<and> roots_inv s' \<and> live_roots s' = p # live_roots s
    \<and> (\<forall>q. root_allowed q s' = root_allowed q s)"
  using assms length_live_roots [OF assms(1)]
  by (simp add: push_extra_root_cases roots_inv_def live_roots_def root_allowed_def
      take_Suc_conv_app_nth)

interpretation er: checked_stack push_extra_root live_roots "\<lambda>_. MAX_EXTRA_ROOTS_NUMBER" roots_inv
    root_allowed pop_extra_root
proof
  fix s p
  assume i: "roots_inv s" "root_allowed p s" "length (live_roots s) < MAX_EXTRA_ROOTS_NUMBER"
  then show "\<exists>s'. push_extra_root p s = ok s' \<and> roots_inv s' \<and> live_roots s' = p # live_roots s
      \<and> MAX_EXTRA_ROOTS_NUMBER = MAX_EXTRA_ROOTS_NUMBER
      \<and> (\<forall>q. root_allowed q s' = root_allowed q s)"
    using push_extra_root_room by simp
next
  fix s p
  assume "roots_inv s" "MAX_EXTRA_ROOTS_NUMBER \<le> length (live_roots s)"
  then show "\<exists>e. push_extra_root p s = err e"
    by (simp add: push_extra_root_cases length_live_roots)
next
  fix s assume "roots_inv s"
  then show "length (live_roots s) \<le> MAX_EXTRA_ROOTS_NUMBER"
    by (simp add: length_live_roots) (simp add: roots_inv_def)
next
  fix s p ps
  assume i: "roots_inv s" and e: "live_roots s = p # ps"
  then obtain k where k: "current_free (extra_roots s) = Suc k"
    using length_live_roots [OF i] by (cases "current_free (extra_roots s)") auto
  with live_roots_snoc [OF i k] e i
  show "\<exists>s'. pop_extra_root p s = ok s' \<and> roots_inv s' \<and> live_roots s' = ps
      \<and> MAX_EXTRA_ROOTS_NUMBER = MAX_EXTRA_ROOTS_NUMBER"
    by (simp add: pop_extra_root_def roots_inv_def) (simp add: live_roots_def)
next
  fix s p ps q
  assume i: "roots_inv s" and e: "live_roots s = p # ps" and n: "q \<noteq> p"
  then obtain k where k: "current_free (extra_roots s) = Suc k"
    using length_live_roots [OF i] by (cases "current_free (extra_roots s)") auto
  with live_roots_snoc [OF i k] e n show "\<exists>e. pop_extra_root q s = err e"
    by (auto simp: pop_extra_root_def)
next
  fix s q assume i: "roots_inv s" and "live_roots s = []"
  then have "current_free (extra_roots s) = 0"
    using length_live_roots [OF i] by simp
  then show "\<exists>e. pop_extra_root q s = err e"
    by (simp add: pop_extra_root_def)
qed

end
