(* ===== verification/Collector.thy ===== *)
theory Collector
  imports Roots
begin

text \<open>
  runtime/gc.c, the collector (lines 51-66, 175-183, 185-379 and 401-620 without the debugging
  code) in the production build: \<open>LAMA_ENV\<close> is defined, \<open>DEBUG_VERSION\<close> and
  \<open>FULL_INVARIANT_CHECKS\<close> are not. Marking, the four passes of compaction, and allocation. The
  kernel's \<open>mmap\<close> and \<open>mremap\<close> are parameters: they return the new address and the new
  contents of the address space, or \<open>None\<close> for \<open>MAP_FAILED\<close>.
\<close>

section \<open>Marking\<close>

text \<open>
  The queue of the marking phase lives in the heap: the forward address of the object at
  position \<open>i\<close> of the heap holds the \<open>i\<close>-th enqueued object.
\<close>

definition queue_enqueue :: "heap_iterator \<Rightarrow> addr \<Rightarrow> gc_state \<Rightarrow> (heap_iterator \<times> gc_state) outcome" where
  "queue_enqueue tail_iter obj s =
     andthen (get_object_content_ptr s tail_iter) (\<lambda>tail_content.
       let s1 = set_forward_address tail_content obj s; s2 = make_enqueued obj s1 in
       andthen (heap_next_obj_iterator s2 tail_iter) (\<lambda>tail_iter'. ok (tail_iter', s2)))"

definition queue_dequeue :: "heap_iterator \<Rightarrow> gc_state \<Rightarrow> (addr \<times> heap_iterator \<times> gc_state) outcome" where
  "queue_dequeue head_iter s =
     andthen (get_object_content_ptr s head_iter) (\<lambda>head_content.
       let v = get_forward_address s head_content; s1 = make_dequeued v s in
       andthen (heap_next_obj_iterator s1 head_iter) (\<lambda>head_iter'. ok (v, head_iter', s1)))"

text \<open>The inner loop of \<open>mark\<close>, over the pointer fields of one object.\<close>

partial_function (option) mark_fields ::
    "obj_field_iterator \<Rightarrow> heap_iterator \<Rightarrow> gc_state \<Rightarrow> (heap_iterator \<times> gc_state) outcome" where
  "mark_fields it tail s =
     andthen (field_is_done_iterator s it) (\<lambda>done.
       if done then ok (tail, s)
       else
         let field_value = load32 (mem s) (it_cur_field it) in
         andthen (if \<not> is_valid_heap_pointer s field_value \<or> is_marked s field_value
                     \<or> is_enqueued s field_value
                  then ok (tail, s) else queue_enqueue tail field_value s)
           (\<lambda>(tail', s'). andthen (obj_next_ptr_field_iterator s' it)
             (\<lambda>it'. mark_fields it' tail' s')))"

text \<open>The outer loop: while the queue is not empty.\<close>

partial_function (option) mark_loop ::
    "heap_iterator \<Rightarrow> heap_iterator \<Rightarrow> gc_state \<Rightarrow> gc_state outcome" where
  "mark_loop head tail s =
     (if head = tail then ok s
      else andthen (queue_dequeue head s) (\<lambda>(cur_obj, head', s1).
        let s2 = mark_object cur_obj s1 in
        andthen (get_obj_header_ptr s2 cur_obj) (\<lambda>header_ptr.
        andthen (ptr_field_begin_iterator s2 header_ptr) (\<lambda>it.
        andthen (mark_fields it tail s2) (\<lambda>(tail', s3).
          mark_loop head' tail' s3)))))"

definition mark :: "addr \<Rightarrow> gc_state \<Rightarrow> gc_state outcome" where
  "mark obj s =
     (if \<not> is_valid_heap_pointer s obj \<or> is_marked s obj then ok s
      else let q_head_iter = heap_begin_iterator s in
        andthen (queue_enqueue q_head_iter obj s) (\<lambda>(q_tail_iter, s1).
          mark_loop q_head_iter q_tail_iter s1))"

definition gc_test_and_mark_root :: "addr \<Rightarrow> gc_state \<Rightarrow> gc_state outcome" where
  "gc_test_and_mark_root root s = mark (load32 (mem s) root) s"

text \<open>The loops over the words of an area: the stack, and the custom data.\<close>

partial_function (option) scan_area :: "addr \<Rightarrow> addr \<Rightarrow> gc_state \<Rightarrow> gc_state outcome" where
  "scan_area p stop s =
     (if \<not> p < stop then ok s
      else andthen (gc_test_and_mark_root p s) (scan_area (p + 4) stop))"

definition gc_root_scan_stack :: "gc_state \<Rightarrow> gc_state outcome" where
  "gc_root_scan_stack s = scan_area (gc_stack_top s + 4) (gc_stack_bottom s) s"

definition scan_extra_roots :: "gc_state \<Rightarrow> gc_state outcome" where
  "scan_extra_roots s = for_each (\<lambda>r s. mark (load32 (mem s) r) s)
     (take (current_free (extra_roots s)) (roots (extra_roots s))) s"

definition scan_global_area :: "gc_state \<Rightarrow> gc_state outcome" where
  "scan_global_area s = scan_area (start_custom_data s) (stop_custom_data s) s"

definition mark_phase :: "gc_state \<Rightarrow> gc_state outcome" where
  "mark_phase s = andthen (gc_root_scan_stack s) (\<lambda>s1.
     andthen (scan_extra_roots s1) scan_global_area)"

section \<open>Compaction\<close>

partial_function (option) compute_locations_loop ::
    "heap_iterator \<Rightarrow> addr \<Rightarrow> gc_state \<Rightarrow> (addr \<times> gc_state) outcome" where
  "compute_locations_loop scan_iter free_ptr s =
     (if heap_is_done_iterator s scan_iter then ok (free_ptr, s)
      else
        andthen (get_object_content_ptr s scan_iter) (\<lambda>obj_content.
        andthen (if is_marked s obj_content
                 then andthen (obj_size_header_ptr s scan_iter) (\<lambda>n.
                   ok (free_ptr + 4 * BYTES_TO_WORDS n, set_forward_address obj_content free_ptr s))
                 else ok (free_ptr, s))
          (\<lambda>(free_ptr', s'). andthen (heap_next_obj_iterator s' scan_iter)
            (\<lambda>scan_iter'. compute_locations_loop scan_iter' free_ptr' s'))))"

text \<open>Returns the number of live words: \<open>free_ptr - heap.begin\<close>, a difference of word pointers.\<close>

definition compute_locations :: "gc_state \<Rightarrow> (u32 \<times> gc_state) outcome" where
  "compute_locations s =
     andthen (compute_locations_loop (heap_begin_iterator s) (chunk_begin (heap s)) s)
       (\<lambda>(free_ptr, s'). ok (signed_drop_bit 2 (free_ptr - chunk_begin (heap s)), s'))"

text \<open>
  Where a reference into the old chunk goes: the object's header is found in the moved chunk,
  its forward address is relative to the old one.
\<close>

definition forwarded :: "memory_chunk \<Rightarrow> addr \<Rightarrow> gc_state \<Rightarrow> addr outcome" where
  "forwarded old_heap p s =
     (let obj_ptr = chunk_begin (heap s) + (p - chunk_begin old_heap);
          new_addr = chunk_begin (heap s) + (get_forward_address s obj_ptr - chunk_begin old_heap) in
      andthen (get_type_row_ptr s obj_ptr) (\<lambda>t. ok (new_addr + get_header_size t)))"

definition in_chunk :: "memory_chunk \<Rightarrow> addr \<Rightarrow> bool" where
  "in_chunk old_heap p \<longleftrightarrow> chunk_begin old_heap \<le> p \<and> p \<le> chunk_current old_heap"

partial_function (option) scan_and_fix_region ::
    "memory_chunk \<Rightarrow> addr \<Rightarrow> addr \<Rightarrow> gc_state \<Rightarrow> gc_state outcome" where
  "scan_and_fix_region old_heap p stop s =
     (if \<not> p < stop then ok s
      else
        let ptr_value = load32 (mem s) p in
        andthen (if is_valid_pointer ptr_value \<and> in_chunk old_heap ptr_value
                 then andthen (forwarded old_heap ptr_value s)
                        (\<lambda>v. ok (s\<lparr>mem := store32 (mem s) p v\<rparr>))
                 else ok s)
          (\<lambda>s'. scan_and_fix_region old_heap (p + 4) stop s'))"

text \<open>One extra root; roots on the scanned stack and in the custom data are skipped.\<close>

definition fix_root :: "memory_chunk \<Rightarrow> addr \<Rightarrow> gc_state \<Rightarrow> gc_state outcome" where
  "fix_root old_heap r s =
     (let ptr_value = load32 (mem s) r in
      if \<not> is_valid_pointer ptr_value then ok s
      else if (gc_stack_top s \<le> r \<and> r < gc_stack_bottom s)
            \<or> (r \<le> stop_custom_data s \<and> start_custom_data s \<le> r) then ok s
      else if in_chunk old_heap ptr_value
      then andthen (forwarded old_heap ptr_value s) (\<lambda>v. ok (s\<lparr>mem := store32 (mem s) r v\<rparr>))
      else ok s)"

definition scan_and_fix_region_roots :: "memory_chunk \<Rightarrow> gc_state \<Rightarrow> gc_state outcome" where
  "scan_and_fix_region_roots old_heap s =
     for_each (fix_root old_heap) (take (current_free (extra_roots s)) (roots (extra_roots s))) s"

partial_function (option) update_fields ::
    "memory_chunk \<Rightarrow> obj_field_iterator \<Rightarrow> gc_state \<Rightarrow> gc_state outcome" where
  "update_fields old_heap field_iter s =
     andthen (field_is_done_iterator s field_iter) (\<lambda>done.
       if done then ok s
       else
         let field_value = load32 (mem s) (it_cur_field field_iter) in
         andthen (if field_value < chunk_begin old_heap \<or> chunk_current old_heap < field_value
                  then ok s
                  else andthen (forwarded old_heap field_value s)
                    (\<lambda>v. ok (s\<lparr>mem := store32 (mem s) (it_cur_field field_iter) v\<rparr>)))
           (\<lambda>s'. andthen (obj_next_ptr_field_iterator s' field_iter)
             (\<lambda>it'. update_fields old_heap it' s')))"

partial_function (option) update_objects ::
    "memory_chunk \<Rightarrow> heap_iterator \<Rightarrow> gc_state \<Rightarrow> gc_state outcome" where
  "update_objects old_heap it s =
     (if heap_is_done_iterator s it then ok s
      else
        andthen (get_object_content_ptr s it) (\<lambda>c.
        andthen (if is_marked s c
                 then andthen (ptr_field_begin_iterator s it) (\<lambda>f. update_fields old_heap f s)
                 else ok s)
          (\<lambda>s'. andthen (heap_next_obj_iterator s' it) (\<lambda>it'. update_objects old_heap it' s'))))"

text \<open>
  References in the heap, then on the stack, then in the extra roots. The stack is fixed up to
  and including the word at \<open>__gc_stack_bottom\<close>.
\<close>

definition update_references :: "memory_chunk \<Rightarrow> gc_state \<Rightarrow> gc_state outcome" where
  "update_references old_heap s =
     andthen (update_objects old_heap (heap_begin_iterator s) s) (\<lambda>s1.
     andthen (scan_and_fix_region old_heap (gc_stack_top s1 + 4) (gc_stack_bottom s1 + 4) s1)
       (scan_and_fix_region_roots old_heap))"

partial_function (option) relocate_objects ::
    "memory_chunk \<Rightarrow> heap_iterator \<Rightarrow> gc_state \<Rightarrow> gc_state outcome" where
  "relocate_objects old_heap from_iter s =
     (if heap_is_done_iterator s from_iter then ok s
      else
        andthen (get_object_content_ptr s from_iter) (\<lambda>obj.
        andthen (heap_next_obj_iterator s from_iter) (\<lambda>next_iter.
        andthen (if is_marked s obj
                 then
                   let to = chunk_begin (heap s)
                              + (get_forward_address s obj - chunk_begin old_heap) in
                   andthen (obj_size_header_ptr s from_iter) (\<lambda>n.
                     let s1 = s\<lparr>mem := mem_move (mem s) to from_iter (unat n)\<rparr> in
                     andthen (get_object_content_ptr s1 to) (\<lambda>c. ok (unmark_object c s1)))
                 else ok s)
          (\<lambda>s'. relocate_objects old_heap next_iter s'))))"

definition physically_relocate :: "memory_chunk \<Rightarrow> gc_state \<Rightarrow> gc_state outcome" where
  "physically_relocate old_heap s = relocate_objects old_heap (heap_begin_iterator s) s"

definition EXTRA_ROOM_HEAP_COEFFICIENT :: u32 where "EXTRA_ROOM_HEAP_COEFFICIENT = 2"
definition MINIMUM_HEAP_CAPACITY :: u32 where "MINIMUM_HEAP_CAPACITY = 4"
definition INIT_HEAP_SIZE :: u32 where "INIT_HEAP_SIZE = MINIMUM_HEAP_CAPACITY"

text \<open>\<open>mremap\<close>: old address, old and new size in bytes; the new address and address space.\<close>

type_synonym mremap = "memory \<Rightarrow> addr \<Rightarrow> u32 \<Rightarrow> u32 \<Rightarrow> (addr \<times> memory) option"
type_synonym mmap = "memory \<Rightarrow> u32 \<Rightarrow> (addr \<times> memory) option"

definition next_heap_pseudo_size :: "u32 \<Rightarrow> u32 \<Rightarrow> u32 \<Rightarrow> u32" where
  "next_heap_pseudo_size live_size additional_size old_size =
     (let next_heap_size = max (live_size * EXTRA_ROOM_HEAP_COEFFICIENT + additional_size)
                             MINIMUM_HEAP_CAPACITY in
      max next_heap_size old_size)"

definition compact_phase :: "mremap \<Rightarrow> u32 \<Rightarrow> gc_state \<Rightarrow> gc_state outcome" where
  "compact_phase mremap additional_size s =
     andthen (compute_locations s) (\<lambda>(live_size, s1).
       let old_heap = heap s1;
           new_size = next_heap_pseudo_size live_size additional_size (chunk_size old_heap) in
       case mremap (mem s1) (chunk_begin old_heap) (WORDS_TO_BYTES (chunk_size old_heap))
              (WORDS_TO_BYTES new_size) of
         None \<Rightarrow> err MremapFailed
       | Some (new_begin, m) \<Rightarrow>
           let s2 = s1\<lparr>mem := m, heap := \<lparr>chunk_begin = new_begin,
                       chunk_end = new_begin + 4 * new_size,
                       chunk_current = new_begin + (chunk_current old_heap - chunk_begin old_heap),
                       chunk_size = new_size\<rparr>\<rparr> in
           andthen (update_references old_heap s2) (\<lambda>s3.
           andthen (physically_relocate old_heap s3) (\<lambda>s4.
             ok (s4\<lparr>heap := (heap s4)\<lparr>chunk_current := chunk_begin (heap s4) + 4 * live_size\<rparr>\<rparr>))))"

section \<open>Allocation\<close>

text \<open>The result 0 is \<open>NULL\<close>.\<close>

definition gc_alloc_on_existing_heap :: "u32 \<Rightarrow> gc_state \<Rightarrow> addr \<times> gc_state" where
  "gc_alloc_on_existing_heap sz s =
     (let h = heap s in
      if chunk_current h + 4 * sz \<le> chunk_end h
      then (chunk_current h, s\<lparr>mem := mem_set (mem s) (chunk_current h) 0 (unat (sz * 4)),
                               heap := h\<lparr>chunk_current := chunk_current h + 4 * sz\<rparr>\<rparr>)
      else (0, s))"

definition gc_alloc :: "mremap \<Rightarrow> u32 \<Rightarrow> gc_state \<Rightarrow> (addr \<times> gc_state) outcome" where
  "gc_alloc mremap sz s = andthen (mark_phase s) (\<lambda>s1.
     andthen (compact_phase mremap sz s1) (\<lambda>s2. ok (gc_alloc_on_existing_heap sz s2)))"

definition alloc :: "mremap \<Rightarrow> u32 \<Rightarrow> gc_state \<Rightarrow> (addr \<times> gc_state) outcome" where
  "alloc mremap sz s =
     (let words = BYTES_TO_WORDS sz; (p, s1) = gc_alloc_on_existing_heap words s in
      if p = 0 then gc_alloc mremap words s1 else ok (p, s1))"

text \<open>A new object: the data header, then a zero forward address (and a zero S-expression tag).\<close>

definition init_object :: "u32 \<Rightarrow> u32 \<Rightarrow> addr \<Rightarrow> gc_state \<Rightarrow> gc_state" where
  "init_object kind len obj s =
     s\<lparr>mem := store32 (store32 (mem s) obj (kind OR push_bit 3 len)) (obj + 4) 0\<rparr>"

definition alloc_string :: "mremap \<Rightarrow> u32 \<Rightarrow> gc_state \<Rightarrow> (addr \<times> gc_state) outcome" where
  "alloc_string mremap len s = andthen (alloc mremap (string_size len) s)
     (\<lambda>(obj, s1). ok (obj, init_object STRING_TAG len obj s1))"

definition alloc_array :: "mremap \<Rightarrow> u32 \<Rightarrow> gc_state \<Rightarrow> (addr \<times> gc_state) outcome" where
  "alloc_array mremap len s = andthen (alloc mremap (array_size len) s)
     (\<lambda>(obj, s1). ok (obj, init_object ARRAY_TAG len obj s1))"

definition alloc_sexp :: "mremap \<Rightarrow> u32 \<Rightarrow> gc_state \<Rightarrow> (addr \<times> gc_state) outcome" where
  "alloc_sexp mremap members s = andthen (alloc mremap (sexp_size members) s)
     (\<lambda>(obj, s1). let s2 = init_object SEXP_TAG members obj s1 in
       ok (obj, s2\<lparr>mem := store32 (mem s2) (obj + 8) 0\<rparr>))"

definition alloc_closure :: "mremap \<Rightarrow> u32 \<Rightarrow> gc_state \<Rightarrow> (addr \<times> gc_state) outcome" where
  "alloc_closure mremap captured s = andthen (alloc mremap (closure_size captured) s)
     (\<lambda>(obj, s1). ok (obj, init_object CLOSURE_TAG captured obj s1))"

section \<open>Start and end of the collector\<close>

definition gc_init :: "mmap \<Rightarrow> gc_state \<Rightarrow> gc_state outcome" where
  "gc_init mmap s =
     (let space_size = INIT_HEAP_SIZE * 4 in
      case mmap (mem s) space_size of
        None \<Rightarrow> err MmapFailed
      | Some (b, m) \<Rightarrow> ok (clear_extra_roots (s\<lparr>mem := m, heap := \<lparr>chunk_begin = b,
            chunk_end = b + 4 * INIT_HEAP_SIZE, chunk_current = b, chunk_size = INIT_HEAP_SIZE\<rparr>\<rparr>)))"

definition gc_shutdown :: "gc_state \<Rightarrow> gc_state" where
  "gc_shutdown s = s\<lparr>heap := \<lparr>chunk_begin = 0, chunk_end = 0, chunk_current = 0, chunk_size = 0\<rparr>,
     gc_stack_top := 0, gc_stack_bottom := 0\<rparr>"

end
