(* ===== verification/Layout.thy ===== *)
theory Layout
  imports Collector
begin

text \<open>
  The abstract view of the heap: the list of its objects in address order. \<open>heap_view s os\<close> says
  that the memory between \<open>heap.begin\<close> and \<open>heap.current\<close> is exactly the objects \<open>os\<close>, one after
  the other. Under it every utility function of gc.c has a value given by \<open>os\<close>, and writing a
  forward-address word changes one object of the list.
\<close>

section \<open>Abstract objects\<close>

record obj =
  o_hdr :: u32
  o_fwd :: u32
  o_body :: "u32 list"

definition osz :: "obj \<Rightarrow> nat" where
  "osz o' = length (o_body o') + 2"

text \<open>
  The kind of an object, and the number of body words its header asks for. A closure has at
  least its entry point (\<open>Bclosure\<close> allocates \<open>n + 1\<close> words).
\<close>

definition otype :: "obj \<Rightarrow> lama_type" where
  "otype o' = (let t = TAG (o_hdr o') in
     if t = ARRAY_TAG then ARRAY else if t = STRING_TAG then STRING
     else if t = CLOSURE_TAG then CLOSURE else SEXP)"

fun body_words :: "lama_type \<Rightarrow> nat \<Rightarrow> nat" where
  "body_words STRING len = len div 4 + 1"
| "body_words ARRAY len = len"
| "body_words CLOSURE len = len"
| "body_words SEXP len = len + 1"

definition wf_obj :: "obj \<Rightarrow> bool" where
  "wf_obj o' \<longleftrightarrow> TAG (o_hdr o') \<in> {ARRAY_TAG, STRING_TAG, CLOSURE_TAG, SEXP_TAG}
     \<and> length (o_body o') = body_words (otype o') (unat (LEN (o_hdr o')))
     \<and> (otype o' = CLOSURE \<longrightarrow> o_body o' \<noteq> [])"

text \<open>The size in bytes that the header of an object stands for.\<close>

definition obytes :: "obj \<Rightarrow> nat" where
  "obytes o' = (let len = unat (LEN (o_hdr o')) in
     case otype o' of STRING \<Rightarrow> 8 + len + 1 | ARRAY \<Rightarrow> 8 + 4 * len
       | CLOSURE \<Rightarrow> 8 + 4 * len | SEXP \<Rightarrow> 8 + 4 * (len + 1))"

lemma obytes_words: "wf_obj o' \<Longrightarrow> (obytes o' + 3) div 4 = osz o'"
  by (cases "otype o'") (auto simp: wf_obj_def obytes_def osz_def Let_def)

lemma obytes_exact: "wf_obj o' \<Longrightarrow> otype o' \<noteq> STRING \<Longrightarrow> obytes o' = 4 * osz o'"
  by (cases "otype o'") (auto simp: wf_obj_def obytes_def osz_def Let_def)

lemma obytes_pos: "0 < obytes o'"
  by (auto simp: obytes_def Let_def split: lama_type.splits)

lemma unat_type_size: "unat (type_size (otype o') (LEN (o_hdr o'))) = obytes o'"
proof -
  have l: "unat (LEN (o_hdr o')) < 536870912" by (rule unat_LEN_less)
  show ?thesis
    using l by (cases "otype o'")
      (auto simp: obytes_def size_defs DATA_HEADER_SZ_def MEMBER_SIZE_def unat_word_ariths Let_def)
qed

section \<open>Positions\<close>

text \<open>\<open>opos os i\<close>: the offset in bytes of the \<open>i\<close>-th object; \<open>opos os (length os)\<close>: their total.\<close>

definition opos :: "obj list \<Rightarrow> nat \<Rightarrow> nat" where
  "opos os i = 4 * (\<Sum>o'\<leftarrow>take i os. osz o')"

lemma opos_0 [simp]: "opos os 0 = 0"
  by (simp add: opos_def)

lemma opos_Suc: "i < length os \<Longrightarrow> opos os (Suc i) = opos os i + 4 * osz (os ! i)"
  by (simp add: opos_def take_Suc_conv_app_nth)

lemma opos_mono: "i \<le> j \<Longrightarrow> opos os i \<le> opos os j"
proof -
  assume "i \<le> j"
  then obtain d where "j = i + d" using le_Suc_ex by blast
  then show ?thesis by (simp add: opos_def take_add)
qed

lemma opos_less: "i < j \<Longrightarrow> i < length os \<Longrightarrow> opos os i + 4 * osz (os ! i) \<le> opos os j"
  using opos_mono [of "Suc i" j os] by (simp add: opos_Suc)

lemma opos_end: "i < length os \<Longrightarrow> opos os i + 4 * osz (os ! i) \<le> opos os (length os)"
  using opos_less by blast

lemma opos_inj:
  assumes "i \<le> length os" "j \<le> length os" "opos os i = opos os j" shows "i = j"
proof (rule linorder_cases [of i j])
  assume "i < j"
  with opos_less [of i j os] assms show ?thesis by (simp add: osz_def)
next
  assume "j < i"
  with opos_less [of j i os] assms show ?thesis by (simp add: osz_def)
qed

lemma opos_cong: "map osz os = map osz os' \<Longrightarrow> opos os i = opos os' i"
  by (simp add: opos_def take_map [symmetric])

lemma opos_update [simp]: "osz x = osz (os ! k) \<Longrightarrow> opos (os[k := x]) i = opos os i"
  by (rule opos_cong) (metis list_update_id map_update)

section \<open>The heap as a list of objects\<close>

definition words_at :: "memory \<Rightarrow> addr \<Rightarrow> nat \<Rightarrow> u32 list \<Rightarrow> bool" where
  "words_at m b k ws \<longleftrightarrow> (\<forall>j < length ws. load32 m (ptr b (k + 4 * j)) = ws ! j)"

definition obj_at :: "memory \<Rightarrow> addr \<Rightarrow> nat \<Rightarrow> obj \<Rightarrow> bool" where
  "obj_at m b k o' \<longleftrightarrow> load32 m (ptr b k) = o_hdr o' \<and> load32 m (ptr b (k + 4)) = o_fwd o'
     \<and> words_at m b (k + 8) (o_body o')"

definition objs_at :: "memory \<Rightarrow> addr \<Rightarrow> obj list \<Rightarrow> bool" where
  "objs_at m b os \<longleftrightarrow> (\<forall>i < length os. obj_at m b (opos os i) (os ! i))"

text \<open>
  The chunk lies inside the address space, starts at a nonzero address that is a multiple of
  four, and its end and size agree; the used part is the objects.
\<close>

definition chunk_ok :: "memory_chunk \<Rightarrow> nat \<Rightarrow> bool" where
  "chunk_ok h used \<longleftrightarrow> chunk_begin h \<noteq> 0 \<and> unat (chunk_begin h) mod 4 = 0
     \<and> unat (chunk_begin h) + 4 * unat (chunk_size h) < 4294967296
     \<and> chunk_end h = ptr (chunk_begin h) (4 * unat (chunk_size h))
     \<and> chunk_current h = ptr (chunk_begin h) used \<and> used \<le> 4 * unat (chunk_size h)"

definition heap_view :: "gc_state \<Rightarrow> obj list \<Rightarrow> bool" where
  "heap_view s os \<longleftrightarrow> chunk_ok (heap s) (opos os (length os))
     \<and> (\<forall>o'\<in>set os. wf_obj o') \<and> objs_at (mem s) (chunk_begin (heap s)) os"

text \<open>The address of the header and of the contents of the \<open>i\<close>-th object.\<close>

definition hadr :: "addr \<Rightarrow> obj list \<Rightarrow> nat \<Rightarrow> addr" where
  "hadr b os i = ptr b (opos os i)"

definition cadr :: "addr \<Rightarrow> obj list \<Rightarrow> nat \<Rightarrow> addr" where
  "cadr b os i = ptr b (opos os i + 8)"

lemma heap_view_bounds:
  assumes "heap_view s os" "i \<le> length os"
  shows "unat (chunk_begin (heap s)) + opos os i < 4294967296"
  using assms opos_mono [of i "length os" os] by (simp add: heap_view_def chunk_ok_def)

lemma heap_view_cadr_bounds:
  assumes "heap_view s os" "i < length os"
  shows "unat (chunk_begin (heap s)) + (opos os i + 8) < 4294967296"
proof -
  have "opos os i + 8 \<le> opos os (Suc i)" using assms by (simp add: opos_Suc osz_def)
  then show ?thesis using heap_view_bounds [OF assms(1), of "Suc i"] assms(2) by simp
qed

lemma cadr_inj:
  assumes "heap_view s os" "i < length os" "j < length os"
  shows "cadr (chunk_begin (heap s)) os i = cadr (chunk_begin (heap s)) os j \<longleftrightarrow> i = j"
  using heap_view_cadr_bounds [OF assms(1,2)] heap_view_cadr_bounds [OF assms(1,3)]
    opos_inj [of i os j] assms(2,3)
  by (simp add: cadr_def ptr_eq_iff) blast

lemma hadr_less_current:
  assumes "heap_view s os" "i \<le> length os"
  shows "chunk_current (heap s) \<le> hadr (chunk_begin (heap s)) os i \<longleftrightarrow> i = length os"
proof -
  have "chunk_current (heap s) = ptr (chunk_begin (heap s)) (opos os (length os))"
    using assms(1) by (simp add: heap_view_def chunk_ok_def)
  then have "chunk_current (heap s) \<le> hadr (chunk_begin (heap s)) os i
      \<longleftrightarrow> opos os (length os) \<le> opos os i"
    using heap_view_bounds [OF assms(1)] assms(2) by (simp add: hadr_def ptr_le_iff)
  also have "\<dots> \<longleftrightarrow> i = length os"
    using assms(2) opos_mono [OF assms(2), of os] opos_inj [of i os "length os"] by fastforce
  finally show ?thesis .
qed

lemma TO_DATA_cadr [simp]: "TO_DATA (cadr b os i) = hadr b os i"
  by (simp add: TO_DATA_def cadr_def hadr_def DATA_HEADER_SZ_def ptr_def)

lemma hadr_plus_header [simp]: "hadr b os i + 8 = cadr b os i"
  by (simp add: cadr_def hadr_def)

lemma heap_view_obj: "heap_view s os \<Longrightarrow> i < length os \<Longrightarrow>
    wf_obj (os ! i) \<and> obj_at (mem s) (chunk_begin (heap s)) (opos os i) (os ! i)"
  by (simp add: heap_view_def objs_at_def)

section \<open>The utility functions on a viewed heap\<close>

lemma get_header_size_eq [simp]: "get_header_size t = 8"
  by (cases t) (simp_all add: DATA_HEADER_SZ_def)

lemma get_type_header_ptr_view [simp]:
  "heap_view s os \<Longrightarrow> i < length os \<Longrightarrow>
   get_type_header_ptr s (hadr (chunk_begin (heap s)) os i) = ok (otype (os ! i))"
  using heap_view_obj [of s os i]
  by (auto simp: get_type_header_ptr_def obj_at_def hadr_def wf_obj_def otype_def Let_def)

lemma get_type_row_ptr_view [simp]:
  "heap_view s os \<Longrightarrow> i < length os \<Longrightarrow>
   get_type_row_ptr s (cadr (chunk_begin (heap s)) os i) = ok (otype (os ! i))"
  by (simp add: get_type_row_ptr_def)

lemma get_object_content_ptr_view [simp]:
  "heap_view s os \<Longrightarrow> i < length os \<Longrightarrow>
   get_object_content_ptr s (hadr (chunk_begin (heap s)) os i) = ok (cadr (chunk_begin (heap s)) os i)"
  by (simp add: get_object_content_ptr_def)

lemma get_obj_header_ptr_view [simp]:
  "heap_view s os \<Longrightarrow> i < length os \<Longrightarrow>
   get_obj_header_ptr s (cadr (chunk_begin (heap s)) os i) = ok (hadr (chunk_begin (heap s)) os i)"
  by (simp add: get_obj_header_ptr_def) (simp add: cadr_def hadr_def ptr_def)

lemma obj_size_header_ptr_view [simp]:
  "heap_view s os \<Longrightarrow> i < length os \<Longrightarrow>
   obj_size_header_ptr s (hadr (chunk_begin (heap s)) os i)
     = ok (type_size (otype (os ! i)) (LEN (o_hdr (os ! i))))"
  using heap_view_obj [of s os i] by (simp add: obj_size_header_ptr_def obj_at_def hadr_def Let_def)
    (simp add: hadr_def [symmetric])

lemma words_of_obj:
  "wf_obj o' \<Longrightarrow> unat (BYTES_TO_WORDS (type_size (otype o') (LEN (o_hdr o')))) = osz o'"
proof -
  assume wf: "wf_obj o'"
  have "type_size (otype o') (LEN (o_hdr o')) \<noteq> 0"
    using unat_type_size [of o'] obytes_pos [of o'] by auto
  then show ?thesis
    by (simp add: unat_BYTES_TO_WORDS unat_type_size obytes_words [OF wf])
qed

lemma four_times_words:
  assumes "wf_obj o'" "4 * osz o' < 4294967296"
  shows "unat (4 * BYTES_TO_WORDS (type_size (otype o') (LEN (o_hdr o')))) = 4 * osz o'"
  using assms by (simp add: unat_word_ariths words_of_obj)

lemma heap_next_obj_iterator_view [simp]:
  assumes "heap_view s os" "i < length os"
  shows "heap_next_obj_iterator s (hadr (chunk_begin (heap s)) os i)
    = ok (hadr (chunk_begin (heap s)) os (Suc i))"
proof -
  have "4 * osz (os ! i) < 4294967296"
    using heap_view_bounds [OF assms(1), of "Suc i"] assms(2) by (simp add: opos_Suc)
  with assms heap_view_obj [OF assms] show ?thesis
    by (simp add: heap_next_obj_iterator_def) (simp add: hadr_def ptr_plus_word opos_Suc four_times_words)
qed

lemma heap_is_done_iterator_view [simp]:
  "heap_view s os \<Longrightarrow> i \<le> length os \<Longrightarrow>
   heap_is_done_iterator s (hadr (chunk_begin (heap s)) os i) = (i = length os)"
  by (simp add: heap_is_done_iterator_def hadr_less_current)

lemma heap_begin_iterator_view: "heap_begin_iterator s = hadr (chunk_begin (heap s)) os 0"
  by (simp add: heap_begin_iterator_def hadr_def)

lemma forward_address_view [simp]:
  "heap_view s os \<Longrightarrow> i < length os \<Longrightarrow>
   forward_address (mem s) (hadr (chunk_begin (heap s)) os i) = o_fwd (os ! i)"
  using heap_view_obj [of s os i] by (simp add: forward_address_def obj_at_def hadr_def)

section \<open>Writing forward-address words\<close>

definition set_fwd :: "obj list \<Rightarrow> nat \<Rightarrow> u32 \<Rightarrow> obj list" where
  "set_fwd os k v = os[k := (os ! k)\<lparr>o_fwd := v\<rparr>]"

lemma length_set_fwd [simp]: "length (set_fwd os k v) = length os"
  by (simp add: set_fwd_def)

lemma osz_fwd [simp]: "osz (o'\<lparr>o_fwd := v\<rparr>) = osz o'"
  by (simp add: osz_def)

lemma opos_set_fwd [simp]: "opos (set_fwd os k v) i = opos os i"
  by (simp add: set_fwd_def)

lemma hadr_set_fwd [simp]: "hadr b (set_fwd os k v) i = hadr b os i"
  by (simp add: hadr_def)

lemma cadr_set_fwd [simp]: "cadr b (set_fwd os k v) i = cadr b os i"
  by (simp add: cadr_def)

lemma nth_set_fwd:
  "k < length os \<Longrightarrow> set_fwd os k v ! i = (if i = k then (os ! k)\<lparr>o_fwd := v\<rparr> else os ! i)"
  by (simp add: set_fwd_def)

lemma wf_obj_fwd [simp]: "wf_obj (o'\<lparr>o_fwd := v\<rparr>) = wf_obj o'"
  by (simp add: wf_obj_def otype_def)

text \<open>
  Two states agree outside the heap: every byte below \<open>heap.begin\<close> and from \<open>used\<close> bytes above
  it on is the same, and so are the other globals.
\<close>

definition same_outside :: "nat \<Rightarrow> gc_state \<Rightarrow> gc_state \<Rightarrow> bool" where
  "same_outside used s s' \<longleftrightarrow> (\<forall>a. used \<le> unat (a - chunk_begin (heap s)) \<longrightarrow> mem s' a = mem s a)
     \<and> s' = s\<lparr>mem := mem s'\<rparr>"

lemma same_outside_refl [simp]: "same_outside used s s"
  by (simp add: same_outside_def)

lemma same_outside_globals:
  assumes "same_outside used s s'"
  shows "heap s' = heap s" "extra_roots s' = extra_roots s" "gc_stack_top s' = gc_stack_top s"
    "gc_stack_bottom s' = gc_stack_bottom s" "start_custom_data s' = start_custom_data s"
    "stop_custom_data s' = stop_custom_data s"
proof -
  have s': "s' = s\<lparr>mem := mem s'\<rparr>" using assms by (simp add: same_outside_def)
  show "heap s' = heap s" by (subst s') simp
  show "extra_roots s' = extra_roots s" by (subst s') simp
  show "gc_stack_top s' = gc_stack_top s" by (subst s') simp
  show "gc_stack_bottom s' = gc_stack_bottom s" by (subst s') simp
  show "start_custom_data s' = start_custom_data s" by (subst s') simp
  show "stop_custom_data s' = stop_custom_data s" by (subst s') simp
qed

lemma same_outside_trans:
  assumes "same_outside used s s'" "same_outside used s' s''"
  shows "same_outside used s s''"
proof -
  have "s'' = s'\<lparr>mem := mem s''\<rparr>" using assms(2) by (simp add: same_outside_def)
  also have "\<dots> = s\<lparr>mem := mem s''\<rparr>"
    using assms(1) by (metis same_outside_def gc_state.update_convs(1) gc_state.surjective)
  finally show ?thesis
    using assms same_outside_globals [OF assms(1)] by (simp add: same_outside_def)
qed

lemma store32_outside:
  assumes "k + 4 \<le> used" "used \<le> 4294967296" "used \<le> unat (a - b)"
  shows "store32 m (ptr b k) v a = m a"
proof -
  have "a = ptr b (unat (a - b))" by (simp add: ptr_def)
  moreover have "unat (a - b) < 4294967296" by simp
  ultimately have "a \<noteq> ptr b (k + d)" if "d < 4" for d
    using assms that ptr_eq_iff [of "unat (a - b)" "k + d" b] by fastforce
  from this [of 0] this [of 1] this [of 2] this [of 3] show ?thesis
    by (simp add: store32_def)
qed

lemma heap_view_set_fwd:
  assumes h: "heap_view s os" and k: "k < length os"
  shows "heap_view (set_fwd_word s (hadr (chunk_begin (heap s)) os k) v) (set_fwd os k v)"
    and "same_outside (opos os (length os)) s (set_fwd_word s (hadr (chunk_begin (heap s)) os k) v)"
    and "heap (set_fwd_word s a v) = heap s"
proof -
  let ?b = "chunk_begin (heap s)" and ?m = "store32 (mem s) (ptr (chunk_begin (heap s)) (opos os k + 4)) v"
  have tot: "unat ?b + opos os (length os) < 4294967296" by (rule heap_view_bounds [OF h]) simp
  have size: "opos os i + 4 * osz (os ! i) \<le> opos os (length os)" if "i < length os" for i
    using opos_end that by blast
  have wr: "load32 ?m (ptr ?b j) = load32 (mem s) (ptr ?b j)"
    if "j + 4 \<le> opos os (length os)" "j + 4 \<le> opos os k + 4 \<or> opos os k + 8 \<le> j" for j
    using that tot size [OF k] by (intro load32_store32_other) (auto simp: osz_def)
  have "obj_at ?m ?b (opos os i) (set_fwd os k v ! i)" if i: "i < length os" for i
  proof (cases "i = k")
    case True
    with heap_view_obj [OF h i] size [OF i] show ?thesis
      by (simp add: obj_at_def nth_set_fwd k words_at_def wr osz_def)
  next
    case False
    then have "opos os i + 4 * osz (os ! i) \<le> opos os k \<or> opos os k + 4 * osz (os ! k) \<le> opos os i"
      using opos_less [of i k os] opos_less [of k i os] i k by linarith
    with False heap_view_obj [OF h i] size [OF i] show ?thesis
      by (auto simp: obj_at_def nth_set_fwd k words_at_def wr osz_def)
  qed
  moreover have "wf_obj x" if "x \<in> set (set_fwd os k v)" for x
    using that k heap_view_obj [OF h] by (auto simp: in_set_conv_nth nth_set_fwd split: if_splits)
  ultimately show "heap_view (set_fwd_word s (hadr ?b os k) v) (set_fwd os k v)"
    using h by (simp add: heap_view_def set_fwd_word_def hadr_def objs_at_def)
  show "same_outside (opos os (length os)) s (set_fwd_word s (hadr ?b os k) v)"
  proof -
    have "?m a = mem s a" if "opos os (length os) \<le> unat (a - ?b)" for a
      using tot size [OF k] that by (intro store32_outside) (auto simp: osz_def)
    then show ?thesis by (simp add: same_outside_def set_fwd_word_def hadr_def)
  qed
  show "heap (set_fwd_word s a v) = heap s" by (simp add: set_fwd_word_def)
qed

section \<open>Fields\<close>

text \<open>The words of an object that the field iterator visits.\<close>

definition first_field :: "obj \<Rightarrow> nat" where
  "first_field o' = (case otype o' of ARRAY \<Rightarrow> 0 | STRING \<Rightarrow> length (o_body o') | _ \<Rightarrow> 1)"

definition fields :: "obj \<Rightarrow> u32 list" where
  "fields o' = drop (first_field o') (o_body o')"

text \<open>The first position from \<open>j\<close> on that holds a pointer, or the number of fields.\<close>

function next_ptr :: "u32 list \<Rightarrow> nat \<Rightarrow> nat" where
  "next_ptr ws j = (if j < length ws \<and> UNBOXED (ws ! j) then next_ptr ws (Suc j) else j)"
  by pat_completeness auto
termination
  by (relation "measure (\<lambda>(ws, j). length ws - j)") auto

declare next_ptr.simps [simp del]

lemma next_ptr_le: "j \<le> length ws \<Longrightarrow> j \<le> next_ptr ws j \<and> next_ptr ws j \<le> length ws"
proof (induction ws j rule: next_ptr.induct)
  case (1 ws j)
  then show ?case by (subst (1 2) next_ptr.simps) auto
qed

lemma next_ptr_stops: "next_ptr ws j < length ws \<Longrightarrow> \<not> UNBOXED (ws ! next_ptr ws j)"
proof (induction ws j rule: next_ptr.induct)
  case (1 ws j)
  show ?case
  proof (cases "j < length ws \<and> UNBOXED (ws ! j)")
    case True
    with 1 show ?thesis by (simp add: next_ptr.simps [of ws j])
  next
    case False
    with 1 show ?thesis by (auto simp: next_ptr.simps [of ws j])
  qed
qed

lemma filter_drop_next_ptr:
  "filter is_valid_pointer (drop j ws) = filter is_valid_pointer (drop (next_ptr ws j) ws)"
proof (induction ws j rule: next_ptr.induct)
  case (1 ws j)
  show ?case
  proof (cases "j < length ws \<and> UNBOXED (ws ! j)")
    case True
    with 1 show ?thesis
      by (simp add: next_ptr.simps [of ws j] Cons_nth_drop_Suc [symmetric] is_valid_pointer_def)
  next
    case False
    then have "next_ptr ws j = j" by (subst next_ptr.simps) auto
    then show ?thesis by simp
  qed
qed

text \<open>The iterator that stands at body word \<open>j\<close> of the \<open>i\<close>-th object.\<close>

definition iter_at :: "addr \<Rightarrow> obj list \<Rightarrow> nat \<Rightarrow> nat \<Rightarrow> obj_field_iterator" where
  "iter_at b os i j = \<lparr>it_type = otype (os ! i), it_obj_ptr = hadr b os i,
     it_cur_field = ptr b (opos os i + 8 + 4 * j)\<rparr>"

lemma get_end_of_obj_view:
  assumes "heap_view s os" "i < length os"
  shows "get_end_of_obj s (hadr (chunk_begin (heap s)) os i)
    = ok (ptr (chunk_begin (heap s)) (opos os i + obytes (os ! i)))"
  using assms by (simp add: get_end_of_obj_def)
    (simp add: hadr_def ptr_plus_word unat_type_size)

lemma field_word_bound:
  assumes "heap_view s os" "i < length os" "j \<le> length (o_body (os ! i))"
  shows "unat (chunk_begin (heap s)) + (opos os i + 8 + 4 * j) < 4294967296"
  using heap_view_bounds [OF assms(1), of "Suc i"] assms(2,3) by (simp add: opos_Suc osz_def)

lemma field_is_done_view:
  assumes "heap_view s os" "i < length os" "otype (os ! i) \<noteq> STRING" "j \<le> length (o_body (os ! i))"
  shows "field_is_done_iterator s (iter_at (chunk_begin (heap s)) os i j)
    = ok (j = length (o_body (os ! i)))"
proof -
  have wf: "wf_obj (os ! i)" using heap_view_obj [OF assms(1,2)] by blast
  have "opos os i + obytes (os ! i) = opos os i + 8 + 4 * length (o_body (os ! i))"
    using obytes_exact [OF wf assms(3)] by (simp add: osz_def)
  moreover have "unat (chunk_begin (heap s)) + (opos os i + 8 + 4 * length (o_body (os ! i))) < 4294967296"
    using field_word_bound [OF assms(1,2)] by blast
  ultimately show ?thesis
    using field_word_bound [OF assms(1,2,4)] assms(4)
    by (auto simp: field_is_done_iterator_def iter_at_def get_end_of_obj_view [OF assms(1,2)] ptr_le_iff)
qed

lemma field_load_view:
  assumes "heap_view s os" "i < length os" "j < length (o_body (os ! i))"
  shows "load32 (mem s) (it_cur_field (iter_at (chunk_begin (heap s)) os i j)) = o_body (os ! i) ! j"
  using heap_view_obj [OF assms(1,2)] assms(3)
  by (simp add: obj_at_def words_at_def iter_at_def add.assoc)

lemma obj_next_field_iterator_at [simp]:
  "obj_next_field_iterator (iter_at b os i j) = iter_at b os i (Suc j)"
  by (simp add: obj_next_field_iterator_def iter_at_def MEMBER_SIZE_def)

lemma obj_next_ptr_field_iterator_view:
  assumes "heap_view s os" "i < length os" "otype (os ! i) \<noteq> STRING" "j < length (o_body (os ! i))"
  shows "obj_next_ptr_field_iterator s (iter_at (chunk_begin (heap s)) os i j)
    = ok (iter_at (chunk_begin (heap s)) os i (next_ptr (o_body (os ! i)) (Suc j)))"
  using assms(4)
proof (induction "length (o_body (os ! i)) - j" arbitrary: j rule: less_induct)
  case less
  let ?it = "\<lambda>k. iter_at (chunk_begin (heap s)) os i k" and ?ws = "o_body (os ! i)"
  have dn: "field_is_done_iterator s (?it (Suc j)) = ok (Suc j = length ?ws)"
    using less.prems assms by (intro field_is_done_view) auto
  show ?case
  proof (cases "Suc j < length ?ws \<and> UNBOXED (?ws ! Suc j)")
    case True
    then have "obj_next_ptr_field_iterator s (?it (Suc j)) = ok (?it (next_ptr ?ws (Suc (Suc j))))"
      using less.hyps [of "Suc j"] less.prems by (simp add: diff_less_mono2)
    with True dn show ?thesis
      by (simp add: obj_next_ptr_field_iterator.simps [of s "?it j"] field_load_view assms(1,2)
          is_valid_pointer_def next_ptr.simps [of ?ws "Suc j"])
  next
    case False
    with dn less.prems show ?thesis
      by (auto simp: obj_next_ptr_field_iterator.simps [of s "?it j"] field_load_view assms(1,2)
          is_valid_pointer_def next_ptr.simps [of ?ws "Suc j"] Let_def)
  qed
qed

lemma ptr_field_begin_string:
  assumes "heap_view s os" "i < length os" "otype (os ! i) = STRING"
  shows "\<exists>it. ptr_field_begin_iterator s (hadr (chunk_begin (heap s)) os i) = ok it
    \<and> it_obj_ptr it = hadr (chunk_begin (heap s)) os i
    \<and> it_cur_field it = ptr (chunk_begin (heap s)) (opos os i + obytes (os ! i))"
  using assms
  by (simp add: ptr_field_begin_iterator_def field_begin_iterator_def get_end_of_obj_view
      field_is_done_iterator_def)

lemma first_field_le: "wf_obj o' \<Longrightarrow> first_field o' \<le> length (o_body o')"
  by (cases "otype o'"; cases "o_body o'") (auto simp: first_field_def wf_obj_def)

lemma ptr_field_begin_view:
  assumes "heap_view s os" "i < length os" "otype (os ! i) \<noteq> STRING"
  shows "ptr_field_begin_iterator s (hadr (chunk_begin (heap s)) os i)
    = ok (iter_at (chunk_begin (heap s)) os i (next_ptr (o_body (os ! i)) (first_field (os ! i))))"
proof -
  let ?b = "chunk_begin (heap s)" and ?ws = "o_body (os ! i)" and ?j = "first_field (os ! i)"
  have wf: "wf_obj (os ! i)" using heap_view_obj [OF assms(1,2)] by blast
  have it: "field_begin_iterator s (hadr ?b os i) = ok (iter_at ?b os i ?j)"
    using assms by (cases "otype (os ! i)")
      (simp_all add: field_begin_iterator_def iter_at_def first_field_def cadr_def MEMBER_SIZE_def)
  have dn: "field_is_done_iterator s (iter_at ?b os i ?j) = ok (?j = length ?ws)"
    by (rule field_is_done_view [OF assms first_field_le [OF wf]])
  show ?thesis
  proof (cases "?j < length ?ws \<and> UNBOXED (?ws ! ?j)")
    case True
    with it dn show ?thesis
      by (simp add: ptr_field_begin_iterator_def field_load_view assms is_valid_pointer_def
          obj_next_ptr_field_iterator_view next_ptr.simps [of ?ws ?j])
  next
    case False
    then have "next_ptr ?ws ?j = ?j" by (subst next_ptr.simps) auto
    with False it dn first_field_le [OF wf] show ?thesis
      by (auto simp: ptr_field_begin_iterator_def field_load_view assms is_valid_pointer_def)
  qed
qed

end
