(* ===== verification/Marking.thy ===== *)
theory Marking
  imports Layout
begin

text \<open>
  The marking phase of gc.c computes reachability. The queue of \<open>mark\<close> lives in the
  forward-address words of the objects themselves, so the proof shows three things at once: the
  queue never runs past the last object, it never overwrites an entry that is still to be read,
  and the marked objects at the end are those that were marked before plus everything reachable
  from the root.
\<close>

section \<open>The bits of a forward-address word\<close>

definition marked :: "obj \<Rightarrow> bool" where "marked o' \<longleftrightarrow> bit (o_fwd o') 0"
definition enqueued :: "obj \<Rightarrow> bool" where "enqueued o' \<longleftrightarrow> bit (o_fwd o') 1"
definition fadr :: "obj \<Rightarrow> addr" where "fadr o' = GET_FORWARD_ADDRESS (o_fwd o')"

definition aligned :: "addr \<Rightarrow> bool" where "aligned a \<longleftrightarrow> \<not> bit a 0 \<and> \<not> bit a 1"

lemma bit_3 [simp]: "bit (3 :: int) n = (n < 2)"
proof -
  have "(3 :: int) = mask 2" by (simp add: mask_eq_exp_minus_1)
  then show ?thesis by (simp only: bit_mask_iff) auto
qed

lemma bit_2 [simp]: "bit (2 :: int) n = (n = 1)"
proof -
  have "(2 :: int) = push_bit 1 1" by simp
  then show ?thesis by (simp only: bit_push_bit_iff bit_1_iff) auto
qed

lemma GET_MARK_BIT_iff [simp]: "GET_MARK_BIT x \<noteq> 0 \<longleftrightarrow> bit x 0"
  by (simp add: GET_MARK_BIT_def and_one_eq odd_iff_mod_2_eq_one bit_0)

lemma IS_ENQUEUED_iff [simp]: "IS_ENQUEUED x \<noteq> 0 \<longleftrightarrow> bit x 1"
proof -
  have "IS_ENQUEUED x = (if bit x 1 then 2 else 0)"
    by (rule bit_word_eqI) (auto simp: IS_ENQUEUED_def bit_simps)
  then show ?thesis by simp
qed

lemma fwd_bits [simp]:
  "bit (SET_MARK_BIT x) n = (bit x n \<or> n = 0)"
  "bit (RESET_MARK_BIT x) n = (bit x n \<and> n \<noteq> 0)"
  "bit (MAKE_ENQUEUED x) n = (bit x n \<or> n = 1)"
  "bit (MAKE_DEQUEUED x) n = (bit x n \<and> n \<noteq> 1)"
  "bit (GET_FORWARD_ADDRESS x) n = (bit x n \<and> 2 \<le> n)"
  "bit (SET_FORWARD_ADDRESS x a) n = (bit x n \<and> n < 2 \<or> bit a n)"
  by (auto simp: fwd_bit_defs bit_simps dest: bit_imp_le_length)

lemma GET_FORWARD_ADDRESS_ops [simp]:
  "GET_FORWARD_ADDRESS (SET_MARK_BIT x) = GET_FORWARD_ADDRESS x"
  "GET_FORWARD_ADDRESS (RESET_MARK_BIT x) = GET_FORWARD_ADDRESS x"
  "GET_FORWARD_ADDRESS (MAKE_ENQUEUED x) = GET_FORWARD_ADDRESS x"
  "GET_FORWARD_ADDRESS (MAKE_DEQUEUED x) = GET_FORWARD_ADDRESS x"
  by (auto intro!: bit_word_eqI)

lemma GET_SET_FORWARD_ADDRESS [simp]: "aligned a \<Longrightarrow> GET_FORWARD_ADDRESS (SET_FORWARD_ADDRESS x a) = a"
proof (rule bit_word_eqI)
  fix n assume a: "aligned a"
  show "bit (GET_FORWARD_ADDRESS (SET_FORWARD_ADDRESS x a)) n = bit a n"
    using a by (cases n) (auto simp: aligned_def, (metis One_nat_def Suc_leI le_SucE le_zero_eq
      not_less numeral_2_eq_2 Suc_le_mono neq0_conv)+)
qed

lemma aligned_unat: "unat a mod 4 = 0 \<Longrightarrow> aligned a"
proof -
  assume a: "unat a mod 4 = 0"
  then have "even (unat a)" "even (unat a div 2)" by presburger+
  then have "\<not> bit (unat a) 0" "\<not> bit (unat a) 1" by (simp_all add: bit_iff_odd)
  then show ?thesis by (simp add: aligned_def bit_unsigned_iff)
qed

lemma aligned_not_UNBOXED: "aligned a \<Longrightarrow> \<not> UNBOXED a"
  by (simp add: aligned_def UNBOXED_bit)

lemma cadr_aligned:
  assumes "heap_view s os" "k < length os"
  shows "aligned (cadr (chunk_begin (heap s)) os k)"
proof -
  have "unat (chunk_begin (heap s)) mod 4 = 0" using assms(1) by (simp add: heap_view_def chunk_ok_def)
  moreover have "(opos os k + 8) mod 4 = 0" by (simp add: opos_def)
  ultimately have "(unat (chunk_begin (heap s)) + (opos os k + 8)) mod 4 = 0"
    by (metis mod_add_eq add_0 mod_0)
  then show ?thesis
    using heap_view_cadr_bounds [OF assms] by (intro aligned_unat) (simp add: cadr_def unat_ptr)
qed

section \<open>States that differ in forward-address words only\<close>

definition same_shape :: "obj list \<Rightarrow> obj list \<Rightarrow> bool" where
  "same_shape os0 os \<longleftrightarrow> length os = length os0
     \<and> (\<forall>i < length os0. o_hdr (os ! i) = o_hdr (os0 ! i) \<and> o_body (os ! i) = o_body (os0 ! i))"

definition gc_rel :: "gc_state \<Rightarrow> obj list \<Rightarrow> gc_state \<Rightarrow> obj list \<Rightarrow> bool" where
  "gc_rel s0 os0 s os \<longleftrightarrow> heap_view s os \<and> same_shape os0 os
     \<and> same_outside (opos os0 (length os0)) s0 s"

lemma same_shape_opos: "same_shape os0 os \<Longrightarrow> opos os i = opos os0 i"
  by (intro opos_cong nth_equalityI) (auto simp: same_shape_def osz_def)

lemma same_shape_obj:
  assumes "same_shape os0 os" "i < length os0"
  shows "o_body (os ! i) = o_body (os0 ! i)" "otype (os ! i) = otype (os0 ! i)"
    "fields (os ! i) = fields (os0 ! i)" "first_field (os ! i) = first_field (os0 ! i)"
proof -
  show b: "o_body (os ! i) = o_body (os0 ! i)" and t: "otype (os ! i) = otype (os0 ! i)"
    using assms by (auto simp: same_shape_def otype_def)
  show f: "first_field (os ! i) = first_field (os0 ! i)"
    by (simp only: first_field_def b t)
  show "fields (os ! i) = fields (os0 ! i)"
    by (simp add: fields_def b f)
qed

lemma gc_rel_refl: "heap_view s os \<Longrightarrow> gc_rel s os s os"
  by (simp add: gc_rel_def same_shape_def)

lemma gc_rel_view:
  assumes "gc_rel s0 os0 s os"
  shows "heap_view s os" "heap s = heap s0" "length os = length os0" "opos os i = opos os0 i"
    "hadr b os i = hadr b os0 i" "cadr b os i = cadr b os0 i"
  using assms same_shape_opos [of os0 os]
  by (auto simp: gc_rel_def same_shape_def same_outside_globals hadr_def cadr_def)

lemma gc_rel_trans:
  assumes "gc_rel s0 os0 s1 os1" "gc_rel s1 os1 s2 os2"
  shows "gc_rel s0 os0 s2 os2"
proof -
  have "same_shape os0 os2" using assms by (auto simp: gc_rel_def same_shape_def)
  moreover have "same_outside (opos os0 (length os0)) s0 s2"
    using assms gc_rel_view(3,4) [OF assms(1)]
    by (metis gc_rel_def same_outside_trans)
  ultimately show ?thesis using assms(2) by (simp add: gc_rel_def)
qed

lemma gc_rel_set_fwd:
  assumes r: "gc_rel s0 os0 s os" and k: "k < length os0"
  shows "gc_rel s0 os0 (set_fwd_word s (hadr (chunk_begin (heap s0)) os0 k) v) (set_fwd os k v)"
proof -
  note v = gc_rel_view [OF r]
  have k': "k < length os" using k v(3) by simp
  have "same_shape os0 (set_fwd os k v)"
    using r k' by (auto simp: gc_rel_def same_shape_def nth_set_fwd)
  then show ?thesis
    using heap_view_set_fwd(1,2) [OF v(1) k', of v] r v same_outside_trans
    by (auto simp: gc_rel_def)
qed

lemma fwd_view:
  assumes "gc_rel s0 os0 s os" "k < length os0"
  shows "forward_address (mem s) (hadr (chunk_begin (heap s0)) os0 k) = o_fwd (os ! k)"
  using forward_address_view [OF gc_rel_view(1) [OF assms(1)], of k] assms(2)
  by (simp add: gc_rel_view [OF assms(1)])

lemma is_marked_view: "gc_rel s0 os0 s os \<Longrightarrow> k < length os0 \<Longrightarrow>
    is_marked s (cadr (chunk_begin (heap s0)) os0 k) = marked (os ! k)"
  by (simp add: is_marked_def fwd_view marked_def)

lemma is_enqueued_view: "gc_rel s0 os0 s os \<Longrightarrow> k < length os0 \<Longrightarrow>
    is_enqueued s (cadr (chunk_begin (heap s0)) os0 k) = enqueued (os ! k)"
  by (simp add: is_enqueued_def fwd_view enqueued_def)

lemma get_forward_address_view: "gc_rel s0 os0 s os \<Longrightarrow> k < length os0 \<Longrightarrow>
    get_forward_address s (cadr (chunk_begin (heap s0)) os0 k) = fadr (os ! k)"
  by (simp add: get_forward_address_def fwd_view fadr_def)

text \<open>The utility functions, with addresses taken in the first state.\<close>

lemma gc_rel_steps:
  assumes r: "gc_rel s0 os0 s os" and k: "k < length os0"
  shows "get_object_content_ptr s (hadr (chunk_begin (heap s0)) os0 k)
      = ok (cadr (chunk_begin (heap s0)) os0 k)"
    and "heap_next_obj_iterator s (hadr (chunk_begin (heap s0)) os0 k)
      = ok (hadr (chunk_begin (heap s0)) os0 (Suc k))"
    and "get_obj_header_ptr s (cadr (chunk_begin (heap s0)) os0 k)
      = ok (hadr (chunk_begin (heap s0)) os0 k)"
    and "get_type_row_ptr s (cadr (chunk_begin (heap s0)) os0 k) = ok (otype (os0 ! k))"
    and "is_valid_heap_pointer s (cadr (chunk_begin (heap s0)) os0 k)"
proof -
  note v = gc_rel_view [OF r]
  have k': "k < length os" using k v(3) by simp
  have t: "otype (os ! k) = otype (os0 ! k)"
    using r k by (simp add: gc_rel_def same_shape_obj)
  show "get_object_content_ptr s (hadr (chunk_begin (heap s0)) os0 k)
      = ok (cadr (chunk_begin (heap s0)) os0 k)"
    using get_object_content_ptr_view [OF v(1) k'] by (simp add: v)
  show "heap_next_obj_iterator s (hadr (chunk_begin (heap s0)) os0 k)
      = ok (hadr (chunk_begin (heap s0)) os0 (Suc k))"
    using heap_next_obj_iterator_view [OF v(1) k'] by (simp add: v)
  show "get_obj_header_ptr s (cadr (chunk_begin (heap s0)) os0 k)
      = ok (hadr (chunk_begin (heap s0)) os0 k)"
    using get_obj_header_ptr_view [OF v(1) k'] by (simp add: v)
  show "get_type_row_ptr s (cadr (chunk_begin (heap s0)) os0 k) = ok (otype (os0 ! k))"
    using get_type_row_ptr_view [OF v(1) k'] t by (simp add: v)
  have "opos os k + 8 \<le> opos os (length os)"
    using opos_end [OF k'] by (simp add: osz_def)
  moreover have "chunk_current (heap s) = ptr (chunk_begin (heap s)) (opos os (length os))"
    using v(1) by (simp add: heap_view_def chunk_ok_def)
  ultimately have "chunk_begin (heap s) \<le> cadr (chunk_begin (heap s)) os k"
      and "cadr (chunk_begin (heap s)) os k \<le> chunk_current (heap s)"
    using heap_view_cadr_bounds [OF v(1) k'] heap_view_bounds [OF v(1), of "length os"]
    by (simp_all add: cadr_def ptr_le_iff word_le_nat_alt [of "chunk_begin (heap s)"] unat_ptr)
  then show "is_valid_heap_pointer s (cadr (chunk_begin (heap s0)) os0 k)"
    using aligned_not_UNBOXED [OF cadr_aligned [OF v(1) k']]
    by (simp add: is_valid_heap_pointer_def v)
qed

section \<open>The queue\<close>

definition marks :: "obj list \<Rightarrow> nat set" where
  "marks os = {i. i < length os \<and> marked (os ! i)}"

definition enqs :: "obj list \<Rightarrow> nat set" where
  "enqs os = {i. i < length os \<and> enqueued (os ! i)}"

text \<open>
  \<open>q_inv b os0 os h q\<close>: the queue holds the objects \<open>q\<close>, in the forward addresses of the objects
  at positions \<open>h, h + 1, \<dots>\<close>; they are unmarked, and exactly they have the enqueued bit.
\<close>

definition q_inv :: "addr \<Rightarrow> obj list \<Rightarrow> obj list \<Rightarrow> nat \<Rightarrow> nat list \<Rightarrow> bool" where
  "q_inv b os0 os h q \<longleftrightarrow> h + length q \<le> length os \<and> distinct q \<and> enqs os = set q
     \<and> set q \<inter> marks os = {} \<and> (\<forall>j < length q. fadr (os ! (h + j)) = cadr b os0 (q ! j))"

lemma marks_subset: "marks os \<subseteq> {..<length os}" and finite_marks [simp]: "finite (marks os)"
  by (auto simp: marks_def)

lemma enqs_subset: "enqs os \<subseteq> {..<length os}"
  by (auto simp: enqs_def)

lemma set_fwd_sets:
  assumes "k < length os"
  shows "marks (set_fwd os k v) = (if bit v 0 then insert k (marks os) else marks os - {k})"
    and "enqs (set_fwd os k v) = (if bit v 1 then insert k (enqs os) else enqs os - {k})"
  using assms by (auto simp: marks_def enqs_def nth_set_fwd marked_def enqueued_def split: if_splits)

lemma fadr_set_fwd:
  "k < length os \<Longrightarrow> fadr (set_fwd os k v ! i) = (if i = k then GET_FORWARD_ADDRESS v else fadr (os ! i))"
  by (simp add: nth_set_fwd fadr_def)

text \<open>What one write of a forward-address word does to the view.\<close>

lemma fwd_write_view:
  assumes r: "gc_rel s0 os0 s os" and k: "k < length os0" and a: "GET_FORWARD_ADDRESS v = a"
  shows "\<exists>os'. gc_rel s0 os0 (set_fwd_word s (hadr (chunk_begin (heap s0)) os0 k) v) os'
    \<and> marks os' = (if bit v 0 then insert k (marks os) else marks os - {k})
    \<and> enqs os' = (if bit v 1 then insert k (enqs os) else enqs os - {k})
    \<and> (\<forall>i. fadr (os' ! i) = (if i = k then a else fadr (os ! i)))"
  using gc_rel_set_fwd [OF r k, of v] k gc_rel_view(3) [OF r] a
  by (intro exI [of _ "set_fwd os k v"]) (simp add: set_fwd_sets fadr_set_fwd)

lemma own_bits:
  shows "k < length os \<Longrightarrow>
      (if bit (o_fwd (os ! k)) 0 then insert k (marks os) else marks os - {k}) = marks os"
    and "k < length os \<Longrightarrow>
      (if bit (o_fwd (os ! k)) (Suc 0) then insert k (enqs os) else enqs os - {k}) = enqs os"
    and "(if i = k then fadr (os ! k) else fadr (os ! i)) = fadr (os ! i)"
  by (auto simp: marks_def enqs_def marked_def enqueued_def)

lemma mark_object_view:
  assumes r: "gc_rel s0 os0 s os" and k: "k < length os0"
  shows "\<exists>os'. gc_rel s0 os0 (mark_object (cadr (chunk_begin (heap s0)) os0 k) s) os'
    \<and> marks os' = insert k (marks os) \<and> enqs os' = enqs os \<and> (\<forall>i. fadr (os' ! i) = fadr (os ! i))"
  using fwd_write_view [OF r k, of "SET_MARK_BIT (o_fwd (os ! k))" "fadr (os ! k)"] k gc_rel_view(3) [OF r]
  by (simp add: mark_object_def fwd_view [OF r k] own_bits fadr_def [symmetric])

lemma make_dequeued_view:
  assumes r: "gc_rel s0 os0 s os" and k: "k < length os0"
  shows "\<exists>os'. gc_rel s0 os0 (make_dequeued (cadr (chunk_begin (heap s0)) os0 k) s) os'
    \<and> marks os' = marks os \<and> enqs os' = enqs os - {k} \<and> (\<forall>i. fadr (os' ! i) = fadr (os ! i))"
  using fwd_write_view [OF r k, of "MAKE_DEQUEUED (o_fwd (os ! k))" "fadr (os ! k)"] k gc_rel_view(3) [OF r]
  by (simp add: make_dequeued_def fwd_view [OF r k] own_bits fadr_def [symmetric])

lemma make_enqueued_view:
  assumes r: "gc_rel s0 os0 s os" and k: "k < length os0"
  shows "\<exists>os'. gc_rel s0 os0 (make_enqueued (cadr (chunk_begin (heap s0)) os0 k) s) os'
    \<and> marks os' = marks os \<and> enqs os' = insert k (enqs os) \<and> (\<forall>i. fadr (os' ! i) = fadr (os ! i))"
  using fwd_write_view [OF r k, of "MAKE_ENQUEUED (o_fwd (os ! k))" "fadr (os ! k)"] k gc_rel_view(3) [OF r]
  by (simp add: make_enqueued_def fwd_view [OF r k] own_bits fadr_def [symmetric])

lemma set_forward_address_view:
  assumes r: "gc_rel s0 os0 s os" and k: "k < length os0" and a: "aligned a"
  shows "\<exists>os'. gc_rel s0 os0 (set_forward_address (cadr (chunk_begin (heap s0)) os0 k) a s) os'
    \<and> marks os' = marks os \<and> enqs os' = enqs os
    \<and> (\<forall>i. fadr (os' ! i) = (if i = k then a else fadr (os ! i)))"
  using fwd_write_view [OF r k GET_SET_FORWARD_ADDRESS [OF a], of "o_fwd (os ! k)"] k
    gc_rel_view(3) [OF r] a
  by (simp add: set_forward_address_def fwd_view [OF r k] aligned_def own_bits)

lemma queue_enqueue_view:
  assumes r: "gc_rel s0 os0 s os" and t: "t < length os0" and k: "k < length os0"
  shows "\<exists>s' os'. queue_enqueue (hadr (chunk_begin (heap s0)) os0 t) (cadr (chunk_begin (heap s0)) os0 k) s
      = ok (hadr (chunk_begin (heap s0)) os0 (Suc t), s')
    \<and> gc_rel s0 os0 s' os' \<and> marks os' = marks os \<and> enqs os' = insert k (enqs os)
    \<and> (\<forall>i. fadr (os' ! i) = (if i = t then cadr (chunk_begin (heap s0)) os0 k else fadr (os ! i)))"
proof -
  let ?b = "chunk_begin (heap s0)"
  note v = gc_rel_view [OF r]
  have a: "aligned (cadr ?b os0 k)"
    using cadr_aligned [OF v(1), of k] k by (simp add: v)
  obtain os1 where 1: "gc_rel s0 os0 (set_forward_address (cadr ?b os0 t) (cadr ?b os0 k) s) os1"
    "marks os1 = marks os" "enqs os1 = enqs os"
    "\<forall>i. fadr (os1 ! i) = (if i = t then cadr ?b os0 k else fadr (os ! i))"
    using set_forward_address_view [OF r t a] by blast
  obtain os2 where 2: "gc_rel s0 os0 (make_enqueued (cadr ?b os0 k)
      (set_forward_address (cadr ?b os0 t) (cadr ?b os0 k) s)) os2"
    "marks os2 = marks os1" "enqs os2 = insert k (enqs os1)" "\<forall>i. fadr (os2 ! i) = fadr (os1 ! i)"
    using make_enqueued_view [OF 1(1) k] by blast
  show ?thesis
    using gc_rel_steps(1) [OF r t] gc_rel_steps(2) [OF 2(1) t] 2 1
    by (intro exI [of _ "make_enqueued (cadr ?b os0 k)
      (set_forward_address (cadr ?b os0 t) (cadr ?b os0 k) s)"] exI [of _ os2])
      (simp add: queue_enqueue_def)
qed

lemma queue_dequeue_view:
  assumes r: "gc_rel s0 os0 s os" and h: "h < length os0" and k: "k < length os0"
    and f: "fadr (os ! h) = cadr (chunk_begin (heap s0)) os0 k"
  shows "\<exists>s' os'. queue_dequeue (hadr (chunk_begin (heap s0)) os0 h) s
      = ok (cadr (chunk_begin (heap s0)) os0 k, hadr (chunk_begin (heap s0)) os0 (Suc h), s')
    \<and> gc_rel s0 os0 s' os' \<and> marks os' = marks os \<and> enqs os' = enqs os - {k}
    \<and> (\<forall>i. fadr (os' ! i) = fadr (os ! i))"
proof -
  let ?b = "chunk_begin (heap s0)"
  obtain os1 where 1: "gc_rel s0 os0 (make_dequeued (cadr ?b os0 k) s) os1"
    "marks os1 = marks os" "enqs os1 = enqs os - {k}" "\<forall>i. fadr (os1 ! i) = fadr (os ! i)"
    using make_dequeued_view [OF r k] by blast
  show ?thesis
    using gc_rel_steps(1) [OF r h] gc_rel_steps(2) [OF 1(1) h] get_forward_address_view [OF r h] f 1
    by (intro exI [of _ "make_dequeued (cadr ?b os0 k) s"] exI [of _ os1])
      (simp add: queue_dequeue_def Let_def)
qed

end
