(* ===== verification/Reachability.thy ===== *)
theory Reachability
  imports Marking
begin

text \<open>
  \<open>mark\<close> and \<open>mark_phase\<close> of gc.c compute reachability: the objects that are marked when they
  return are those that were marked, and those a chain of pointer fields leads to from a root.
\<close>

section \<open>The object graph\<close>

text \<open>\<open>succs b os i\<close>: the objects that a field of the \<open>i\<close>-th object points to.\<close>

definition succs :: "addr \<Rightarrow> obj list \<Rightarrow> nat \<Rightarrow> nat set" where
  "succs b os i = {k. k < length os \<and> cadr b os k \<in> set (fields (os ! i))}"

definition edges :: "addr \<Rightarrow> obj list \<Rightarrow> (nat \<times> nat) set" where
  "edges b os = {(i, k). i < length os \<and> k \<in> succs b os i}"

definition reach :: "addr \<Rightarrow> obj list \<Rightarrow> nat set \<Rightarrow> nat set" where
  "reach b os X = (edges b os)\<^sup>* `` X"

text \<open>Every field that looks like a pointer into the heap points to an object.\<close>

definition heap_closed :: "gc_state \<Rightarrow> obj list \<Rightarrow> bool" where
  "heap_closed s os \<longleftrightarrow> (\<forall>i < length os. \<forall>v\<in>set (fields (os ! i)).
     is_valid_heap_pointer s v \<longrightarrow> (\<exists>k < length os. v = cadr (chunk_begin (heap s)) os k))"

lemma reach_Un: "reach b os (X \<union> Y) = reach b os X \<union> reach b os Y"
  by (auto simp: reach_def)

lemma reach_refl: "X \<subseteq> reach b os X"
  by (auto simp: reach_def)

lemma reach_mono: "X \<subseteq> Y \<Longrightarrow> reach b os X \<subseteq> reach b os Y"
  by (auto simp: reach_def)

lemma reach_empty [simp]: "reach b os {} = {}"
  by (simp add: reach_def)

lemma reach_reach [simp]: "reach b os (reach b os X) = reach b os X"
  by (auto simp: reach_def intro: rtrancl_trans)

lemma reach_step: "i < length os \<Longrightarrow> i \<in> X \<Longrightarrow> reach b os (succs b os i) \<subseteq> reach b os X"
  by (auto simp: reach_def edges_def intro: converse_rtrancl_into_rtrancl)

definition succ_closed :: "addr \<Rightarrow> obj list \<Rightarrow> nat set \<Rightarrow> nat set \<Rightarrow> bool" where
  "succ_closed b os X Y \<longleftrightarrow> (\<forall>i\<in>X. i < length os \<longrightarrow> succs b os i \<subseteq> Y)"

lemma reach_least:
  assumes c: "succ_closed b os X X" and Y: "Y \<subseteq> X"
  shows "reach b os Y \<subseteq> X"
proof
  fix k assume "k \<in> reach b os Y"
  then obtain r where "(r, k) \<in> (edges b os)\<^sup>*" and r: "r \<in> X" using Y by (auto simp: reach_def)
  then show "k \<in> X"
    by (induction rule: rtrancl_induct) (use c in \<open>auto simp: edges_def succ_closed_def\<close>)
qed

lemma reach_closed: "succ_closed b os (reach b os X) (reach b os X)"
  by (auto simp: succ_closed_def reach_def edges_def intro: rtrancl_into_rtrancl)

lemma reach_eqI:
  assumes "succ_closed b os Z Z" "Y \<subseteq> Z" "Z \<subseteq> reach b os Y"
  shows "Z = reach b os Y"
  using reach_least [OF assms(1,2)] assms(3) by blast

section \<open>One object: the inner loop\<close>

lemma cadr_in_drop_next_ptr:
  assumes "aligned (cadr b os k)"
  shows "cadr b os k \<in> set (drop (next_ptr ws j) ws) \<longleftrightarrow> cadr b os k \<in> set (drop j ws)"
proof -
  have v: "is_valid_pointer (cadr b os k)"
    using aligned_not_UNBOXED [OF assms] by (simp add: is_valid_pointer_def)
  have "cadr b os k \<in> set (drop j ws) \<longleftrightarrow> cadr b os k \<in> set (filter is_valid_pointer (drop j ws))" for j
    using v by simp
  then show ?thesis using filter_drop_next_ptr by metis
qed

text \<open>There is room in the queue for an object that is neither queued nor marked.\<close>

lemma queue_room:
  assumes q: "q_inv b os0 os h q" and h: "h \<le> card (marks os)"
    and k: "k < length os" "k \<notin> set q" "k \<notin> marks os"
  shows "h + length q < length os"
proof -
  have f: "finite (marks os)" by simp
  have "card (insert k (set q \<union> marks os)) = Suc (length q + card (marks os))"
    using q k f by (simp add: q_inv_def card_Un_disjoint distinct_card)
  moreover have "insert k (set q \<union> marks os) \<subseteq> {..<length os}"
    using q k marks_subset [of os] enqs_subset [of os] by (auto simp: q_inv_def)
  then have "card (insert k (set q \<union> marks os)) \<le> length os"
    by (metis card_mono card_lessThan finite_lessThan)
  ultimately show ?thesis using h by simp
qed

lemma q_inv_snoc:
  assumes q: "q_inv b os0 os h q" and k: "k \<notin> set q" "k \<notin> marks os" and r: "h + length q < length os"
    and o': "length os' = length os" "marks os' = marks os" "enqs os' = insert k (enqs os)"
      "\<forall>i. fadr (os' ! i) = (if i = h + length q then cadr b os0 k else fadr (os ! i))"
  shows "q_inv b os0 os' h (q @ [k])"
  using q k r o' by (auto simp: q_inv_def nth_append less_Suc_eq)

text \<open>A field that is not a fresh heap object leaves the queue alone; one that is joins it.\<close>

lemma mark_field_step:
  assumes r: "gc_rel s0 os0 s os" and q: "q_inv (chunk_begin (heap s0)) os0 os h q"
    and h: "h \<le> card (marks os)"
    and v: "is_valid_heap_pointer s0 v \<Longrightarrow> \<exists>k < length os0. v = cadr (chunk_begin (heap s0)) os0 k"
  shows "\<exists>s' os' q'. (if \<not> is_valid_heap_pointer s v \<or> is_marked s v \<or> is_enqueued s v
        then ok (hadr (chunk_begin (heap s0)) os0 (h + length q), s)
        else queue_enqueue (hadr (chunk_begin (heap s0)) os0 (h + length q)) v s)
      = ok (hadr (chunk_begin (heap s0)) os0 (h + length q'), s')
    \<and> gc_rel s0 os0 s' os' \<and> q_inv (chunk_begin (heap s0)) os0 os' h q' \<and> marks os' = marks os
    \<and> set q' = set q \<union> ({k. k < length os0 \<and> cadr (chunk_begin (heap s0)) os0 k = v} - marks os)"
proof -
  let ?b = "chunk_begin (heap s0)"
  note vw = gc_rel_view [OF r]
  have vp: "is_valid_heap_pointer s v = is_valid_heap_pointer s0 v"
    by (simp add: is_valid_heap_pointer_def vw)
  show ?thesis
  proof (cases "is_valid_heap_pointer s0 v")
    case False
    have "cadr ?b os0 k \<noteq> v" if "k < length os0" for k
      using gc_rel_steps(5) [OF r that] False vp by auto
    then show ?thesis using r q False vp by (intro exI [of _ s] exI [of _ os] exI [of _ q]) auto
  next
    case True
    with v obtain k where k: "k < length os0" and v: "v = cadr ?b os0 k" by blast
    have inj: "{k'. k' < length os0 \<and> cadr ?b os0 k' = v} = {k}"
      using cadr_inj [OF vw(1)] k v by (auto simp: vw)
    have m: "is_marked s v \<longleftrightarrow> k \<in> marks os" "is_enqueued s v \<longleftrightarrow> k \<in> set q"
      using is_marked_view [OF r k] is_enqueued_view [OF r k] q k v
      by (auto simp: marks_def enqs_def q_inv_def vw(3))
    show ?thesis
    proof (cases "k \<in> marks os \<or> k \<in> set q")
      case True
      with inj m r q show ?thesis by (intro exI [of _ s] exI [of _ os] exI [of _ q]) auto
    next
      case False
      then have room: "h + length q < length os0"
        using queue_room [OF q h, of k] k by (simp add: vw)
      obtain s' os' where e: "queue_enqueue (hadr ?b os0 (h + length q)) v s
          = ok (hadr ?b os0 (Suc (h + length q)), s')" "gc_rel s0 os0 s' os'"
          "marks os' = marks os" "enqs os' = insert k (enqs os)"
          "\<forall>i. fadr (os' ! i) = (if i = h + length q then cadr ?b os0 k else fadr (os ! i))"
        using queue_enqueue_view [OF r room k] v by blast
      have "q_inv ?b os0 os' h (q @ [k])"
        using False room e vw(3) gc_rel_view(3) [OF e(2)] by (intro q_inv_snoc [OF q]) auto
      with e m False True vp inj show ?thesis
        by (intro exI [of _ s'] exI [of _ os'] exI [of _ "q @ [k]"]) auto
    qed
  qed
qed

lemma mark_fields_view:
  assumes r: "gc_rel s0 os0 s os" and i: "i < length os0" "otype (os0 ! i) \<noteq> STRING"
    and j: "j \<le> length (o_body (os0 ! i))"
    and q: "q_inv (chunk_begin (heap s0)) os0 os h q" and h: "h \<le> card (marks os)"
    and v: "\<forall>v\<in>set (drop j (o_body (os0 ! i))). is_valid_heap_pointer s0 v \<longrightarrow>
      (\<exists>k < length os0. v = cadr (chunk_begin (heap s0)) os0 k)"
  shows "\<exists>s' os' q'. mark_fields (iter_at (chunk_begin (heap s0)) os0 i j)
        (hadr (chunk_begin (heap s0)) os0 (h + length q)) s
      = ok (hadr (chunk_begin (heap s0)) os0 (h + length q'), s')
    \<and> gc_rel s0 os0 s' os' \<and> q_inv (chunk_begin (heap s0)) os0 os' h q' \<and> marks os' = marks os
    \<and> set q' = set q \<union> ({k. k < length os0 \<and> cadr (chunk_begin (heap s0)) os0 k
        \<in> set (drop j (o_body (os0 ! i)))} - marks os)"
  using r j q h v
proof (induction "length (o_body (os0 ! i)) - j" arbitrary: j s os q rule: less_induct)
  case less
  let ?b = "chunk_begin (heap s0)" and ?ws = "o_body (os0 ! i)"
  note vw = gc_rel_view [OF less.prems(1)]
  have sh: "o_body (os ! i) = ?ws" "otype (os ! i) = otype (os0 ! i)"
    using less.prems(1) i by (simp_all add: gc_rel_def same_shape_obj)
  have it: "iter_at ?b os0 i k = iter_at (chunk_begin (heap s)) os i k" for k
    by (simp add: iter_at_def vw sh)
  have dn: "field_is_done_iterator s (iter_at ?b os0 i j) = ok (j = length ?ws)"
    using field_is_done_view [of s os i j] vw i sh less.prems(2) by (simp add: it)
  show ?case
  proof (cases "j = length ?ws")
    case True
    with dn less.prems show ?thesis
      by (intro exI [of _ s] exI [of _ os] exI [of _ q]) (simp add: mark_fields.simps)
  next
    case False
    then have j: "j < length ?ws" using less.prems(2) by simp
    have ld: "load32 (mem s) (it_cur_field (iter_at ?b os0 i j)) = ?ws ! j"
      using field_load_view [of s os i j] vw i sh j by (simp add: it)
    have "?ws ! j \<in> set (drop j ?ws)" using j by (simp add: Cons_nth_drop_Suc [symmetric])
    with less.prems(5) have "is_valid_heap_pointer s0 (?ws ! j) \<Longrightarrow> \<exists>k < length os0. ?ws ! j = cadr ?b os0 k"
      by blast
    from mark_field_step [OF less.prems(1,3,4) this] obtain s1 os1 q1 where
      1: "(if \<not> is_valid_heap_pointer s (?ws ! j) \<or> is_marked s (?ws ! j) \<or> is_enqueued s (?ws ! j)
          then ok (hadr ?b os0 (h + length q), s)
          else queue_enqueue (hadr ?b os0 (h + length q)) (?ws ! j) s)
        = ok (hadr ?b os0 (h + length q1), s1)"
      and g1: "gc_rel s0 os0 s1 os1" "q_inv ?b os0 os1 h q1" and m1: "marks os1 = marks os"
      and s1: "set q1 = set q \<union> ({k. k < length os0 \<and> cadr ?b os0 k = ?ws ! j} - marks os)"
      by blast
    let ?j = "next_ptr ?ws (Suc j)"
    have jl: "Suc j \<le> ?j" "?j \<le> length ?ws" using next_ptr_le [of "Suc j" ?ws] j by auto
    have nx: "obj_next_ptr_field_iterator s1 (iter_at ?b os0 i j) = ok (iter_at ?b os0 i ?j)"
      using obj_next_ptr_field_iterator_view [of s1 os1 i j] gc_rel_view [OF g1(1)] i j
        same_shape_obj [of os0 os1 i] g1(1) by (simp add: iter_at_def gc_rel_def)
    have dr: "set (drop ?j ?ws) \<subseteq> set (drop j ?ws)"
      using jl by (intro set_drop_subset_set_drop) simp
    have v1: "\<forall>v\<in>set (drop ?j ?ws). is_valid_heap_pointer s0 v \<longrightarrow> (\<exists>k < length os0. v = cadr ?b os0 k)"
      using less.prems(5) dr by blast
    have "length ?ws - ?j < length ?ws - j" using jl j by simp
    from less.hyps [OF this g1(1) jl(2) g1(2) _ v1] less.prems(4) m1
    obtain s2 os2 q2 where 2: "mark_fields (iter_at ?b os0 i ?j) (hadr ?b os0 (h + length q1)) s1
        = ok (hadr ?b os0 (h + length q2), s2)"
      "gc_rel s0 os0 s2 os2" "q_inv ?b os0 os2 h q2" "marks os2 = marks os"
      "set q2 = set q1 \<union> ({k. k < length os0 \<and> cadr ?b os0 k \<in> set (drop ?j ?ws)} - marks os)"
      by auto
    have al: "aligned (cadr ?b os0 k)" if "k < length os0" for k
      using cadr_aligned [OF vw(1), of k] that by (simp add: vw)
    have "{k. k < length os0 \<and> cadr ?b os0 k \<in> set (drop j ?ws)}
        = {k. k < length os0 \<and> cadr ?b os0 k = ?ws ! j}
          \<union> {k. k < length os0 \<and> cadr ?b os0 k \<in> set (drop ?j ?ws)}"
      using cadr_in_drop_next_ptr [OF al] j by (auto simp: Cons_nth_drop_Suc [symmetric])
    then have "set q2 = set q \<union> ({k. k < length os0 \<and> cadr ?b os0 k \<in> set (drop j ?ws)} - marks os)"
      using 2(5) s1 by blast
    moreover have "mark_fields (iter_at ?b os0 i j) (hadr ?b os0 (h + length q)) s
        = ok (hadr ?b os0 (h + length q2), s2)"
      using False 1 2(1) by (subst mark_fields.simps) (simp add: dn ld nx Let_def)
    ultimately show ?thesis using 2 by blast
  qed
qed

section \<open>The outer loop\<close>

text \<open>One object is taken from the queue and marked, and its successors join the queue.\<close>

lemma ptr_fields_of_object:
  assumes r: "gc_rel s0 os0 s os" and k: "k < length os0" and q: "q_inv (chunk_begin (heap s0)) os0 os h q"
    and h: "h \<le> card (marks os)" and c: "heap_closed s0 os0"
  shows "\<exists>it s' os' q'. ptr_field_begin_iterator s (hadr (chunk_begin (heap s0)) os0 k) = ok it
    \<and> mark_fields it (hadr (chunk_begin (heap s0)) os0 (h + length q)) s
      = ok (hadr (chunk_begin (heap s0)) os0 (h + length q'), s')
    \<and> gc_rel s0 os0 s' os' \<and> q_inv (chunk_begin (heap s0)) os0 os' h q' \<and> marks os' = marks os
    \<and> set q' = set q \<union> (succs (chunk_begin (heap s0)) os0 k - marks os)"
proof -
  let ?b = "chunk_begin (heap s0)"
  note vw = gc_rel_view [OF r]
  have ks: "k < length os" using k vw(3) by simp
  have sh: "o_body (os ! k) = o_body (os0 ! k)" "otype (os ! k) = otype (os0 ! k)"
      "first_field (os ! k) = first_field (os0 ! k)"
    using r k by (simp_all add: gc_rel_def same_shape_obj)
  show ?thesis
  proof (cases "otype (os0 ! k) = STRING")
    case True
    then have e: "succs ?b os0 k = {}"
      by (simp add: succs_def fields_def first_field_def)
    obtain it where it: "ptr_field_begin_iterator s (hadr ?b os0 k) = ok it"
      "it_obj_ptr it = hadr ?b os0 k" "it_cur_field it = ptr ?b (opos os0 k + obytes (os ! k))"
      using ptr_field_begin_string [OF vw(1) ks] True sh by (auto simp: vw)
    have "field_is_done_iterator s it = ok True"
      using get_end_of_obj_view [OF vw(1) ks] it by (simp add: field_is_done_iterator_def vw)
    then have "mark_fields it (hadr ?b os0 (h + length q)) s = ok (hadr ?b os0 (h + length q), s)"
      by (simp add: mark_fields.simps)
    with it(1) r q e show ?thesis by (intro exI) auto
  next
    case False
    let ?ws = "o_body (os0 ! k)" and ?f = "first_field (os0 ! k)"
    let ?j = "next_ptr ?ws ?f"
    have wf: "wf_obj (os ! k)" using heap_view_obj [OF vw(1) ks] by blast
    have jl: "?f \<le> ?j" "?j \<le> length ?ws"
      using next_ptr_le [of ?f ?ws] first_field_le [OF wf] by (simp_all add: sh)
    have it: "ptr_field_begin_iterator s (hadr ?b os0 k) = ok (iter_at ?b os0 k ?j)"
      using ptr_field_begin_view [OF vw(1) ks] False by (simp add: vw sh iter_at_def)
    have "set (drop ?j ?ws) \<subseteq> set (fields (os0 ! k))"
      using jl by (simp add: fields_def set_drop_subset_set_drop)
    then have v: "\<forall>v\<in>set (drop ?j ?ws). is_valid_heap_pointer s0 v \<longrightarrow> (\<exists>k < length os0. v = cadr ?b os0 k)"
      using c k by (auto simp: heap_closed_def)
    have al: "aligned (cadr ?b os0 i)" if "i < length os0" for i
      using cadr_aligned [OF vw(1), of i] that by (simp add: vw)
    have "{i. i < length os0 \<and> cadr ?b os0 i \<in> set (drop ?j ?ws)} = succs ?b os0 k"
      using cadr_in_drop_next_ptr [OF al] by (auto simp: succs_def fields_def)
    with mark_fields_view [OF r k False jl(2) q h v] it show ?thesis by auto
  qed
qed

lemma mark_loop_view:
  assumes r: "gc_rel s0 os0 s os" and q: "q_inv (chunk_begin (heap s0)) os0 os h q"
    and h: "h \<le> card (marks os)" and c: "heap_closed s0 os0"
  shows "\<exists>s' os'. mark_loop (hadr (chunk_begin (heap s0)) os0 h)
        (hadr (chunk_begin (heap s0)) os0 (h + length q)) s = ok s'
    \<and> gc_rel s0 os0 s' os' \<and> enqs os' = {} \<and> marks os \<union> set q \<subseteq> marks os'
    \<and> marks os' \<subseteq> marks os \<union> reach (chunk_begin (heap s0)) os0 (set q)
    \<and> succ_closed (chunk_begin (heap s0)) os0 (marks os' - marks os) (marks os')"
  using r q h
proof (induction "length os0 - card (marks os)" arbitrary: s os h q rule: less_induct)
  case less
  let ?b = "chunk_begin (heap s0)"
  note vw = gc_rel_view [OF less.prems(1)]
  show ?case
  proof (cases q)
    case Nil
    with less.prems(2) have "enqs os = {}" by (simp add: q_inv_def)
    with Nil less.prems(1) show ?thesis
      by (intro exI [of _ s] exI [of _ os]) (simp add: mark_loop.simps succ_closed_def)
  next
    case (Cons k q1)
    have hl: "h < length os0" and kq: "k \<in> enqs os" "k \<notin> marks os" "k \<notin> set q1"
      and f: "fadr (os ! h) = cadr ?b os0 k"
      using less.prems(2) Cons vw(3) by (auto simp: q_inv_def)
    then have k: "k < length os0" using enqs_subset [of os] vw(3) by auto
    have ne: "hadr ?b os0 h \<noteq> hadr ?b os0 (h + length q)"
    proof -
      have le: "h + length q \<le> length os" using less.prems(2) by (simp add: q_inv_def)
      have "opos os h \<noteq> opos os (h + length q)" using opos_inj [of h os "h + length q"] le Cons by auto
      then show ?thesis
        using heap_view_bounds [OF vw(1), of h] heap_view_bounds [OF vw(1), of "h + length q"] le
        by (simp add: hadr_def ptr_eq_iff vw)
    qed
    obtain s1 os1 where 1: "queue_dequeue (hadr ?b os0 h) s = ok (cadr ?b os0 k, hadr ?b os0 (Suc h), s1)"
      "gc_rel s0 os0 s1 os1" "marks os1 = marks os" "enqs os1 = enqs os - {k}"
      "\<forall>i. fadr (os1 ! i) = fadr (os ! i)"
      using queue_dequeue_view [OF less.prems(1) hl k f] by blast
    obtain os2 where 2: "gc_rel s0 os0 (mark_object (cadr ?b os0 k) s1) os2"
      "marks os2 = insert k (marks os1)" "enqs os2 = enqs os1" "\<forall>i. fadr (os2 ! i) = fadr (os1 ! i)"
      using mark_object_view [OF 1(2) k] by blast
    let ?s2 = "mark_object (cadr ?b os0 k) s1"
    have q2: "q_inv ?b os0 os2 (Suc h) q1"
      using less.prems(2) Cons 1 2 kq vw(3) gc_rel_view(3) [OF 2(1)] by (auto simp: q_inv_def nth_Cons')
    have cm: "card (marks os2) = Suc (card (marks os))" using 1(3) 2(2) kq(2) by simp
    have h2: "Suc h \<le> card (marks os2)" using less.prems(3) cm by simp
    obtain it s3 os3 q3 where 3: "ptr_field_begin_iterator ?s2 (hadr ?b os0 k) = ok it"
      "mark_fields it (hadr ?b os0 (Suc h + length q1)) ?s2 = ok (hadr ?b os0 (Suc h + length q3), s3)"
      "gc_rel s0 os0 s3 os3" "q_inv ?b os0 os3 (Suc h) q3" "marks os3 = marks os2"
      "set q3 = set q1 \<union> (succs ?b os0 k - marks os2)"
      using ptr_fields_of_object [OF 2(1) k q2 h2 c] by blast
    have "card (marks os2) \<le> length os0"
      using card_mono [OF _ marks_subset [of os2]] gc_rel_view(3) [OF 2(1)] by simp
    then have "length os0 - card (marks os3) < length os0 - card (marks os)" using 3(5) cm by simp
    from less.hyps [OF this 3(3,4)] h2 3(5) obtain s4 os4 where
      4: "mark_loop (hadr ?b os0 (Suc h)) (hadr ?b os0 (Suc h + length q3)) s3 = ok s4"
      "gc_rel s0 os0 s4 os4" "enqs os4 = {}" "marks os3 \<union> set q3 \<subseteq> marks os4"
      "marks os4 \<subseteq> marks os3 \<union> reach ?b os0 (set q3)"
      "succ_closed ?b os0 (marks os4 - marks os3) (marks os4)"
      by auto
    have m3: "marks os3 = insert k (marks os)" using 3(5) 2(2) 1(3) by simp
    have "mark_loop (hadr ?b os0 h) (hadr ?b os0 (h + length q)) s = ok s4"
      using ne 1(1) 3(1,2) 4(1) gc_rel_steps(3) [OF 2(1) k] Cons
      by (subst mark_loop.simps) (simp add: Let_def)
    moreover have "marks os \<union> set q \<subseteq> marks os4" using 4(4) m3 3(6) Cons by auto
    moreover have "marks os4 \<subseteq> marks os \<union> reach ?b os0 (set q)"
    proof -
      have "reach ?b os0 (set q3) \<subseteq> reach ?b os0 (set q1) \<union> reach ?b os0 (succs ?b os0 k)"
        using 3(6) reach_mono [of "set q3" "set q1 \<union> succs ?b os0 k"] by (auto simp: reach_Un)
      also have "\<dots> \<subseteq> reach ?b os0 (set q)"
        using reach_mono [of "set q1" "set q"] reach_step [OF k, of "set q" ?b] Cons by auto
      finally show ?thesis using 4(5) m3 reach_refl [of "set q" ?b os0] Cons by auto
    qed
    moreover have "succ_closed ?b os0 (marks os4 - marks os) (marks os4)"
      unfolding succ_closed_def
    proof (intro ballI impI)
      fix i assume i: "i \<in> marks os4 - marks os" "i < length os0"
      show "succs ?b os0 i \<subseteq> marks os4"
      proof (cases "i = k")
        case True
        have "succs ?b os0 k \<subseteq> set q3 \<union> marks os2" using 3(6) by blast
        with True 4(4) 3(5) show ?thesis by blast
      next
        case False
        then show ?thesis using 4(6) i m3 by (simp add: succ_closed_def)
      qed
    qed
    ultimately show ?thesis using 4 by blast
  qed
qed

section \<open>Marking from one value\<close>

text \<open>The objects that a list of values refers to.\<close>

definition targets :: "addr \<Rightarrow> obj list \<Rightarrow> u32 list \<Rightarrow> nat set" where
  "targets b os vs = {k. k < length os \<and> cadr b os k \<in> set vs}"

lemma targets_Nil [simp]: "targets b os [] = {}"
  by (simp add: targets_def)

lemma targets_Cons: "targets b os (v # vs) = targets b os [v] \<union> targets b os vs"
  by (auto simp: targets_def)

lemma targets_append: "targets b os (vs @ ws) = targets b os vs \<union> targets b os ws"
  by (auto simp: targets_def)

lemma mark_view:
  assumes r: "gc_rel s0 os0 s os" and e: "enqs os = {}" and c: "heap_closed s0 os0"
    and m: "succ_closed (chunk_begin (heap s0)) os0 (marks os) (marks os)"
    and v: "is_valid_heap_pointer s0 v \<Longrightarrow> \<exists>k < length os0. v = cadr (chunk_begin (heap s0)) os0 k"
  shows "\<exists>s' os'. mark v s = ok s' \<and> gc_rel s0 os0 s' os' \<and> enqs os' = {}
    \<and> succ_closed (chunk_begin (heap s0)) os0 (marks os') (marks os')
    \<and> marks os' = marks os \<union> reach (chunk_begin (heap s0)) os0 (targets (chunk_begin (heap s0)) os0 [v])"
proof -
  let ?b = "chunk_begin (heap s0)"
  note vw = gc_rel_view [OF r]
  have vp: "is_valid_heap_pointer s v = is_valid_heap_pointer s0 v"
    by (simp add: is_valid_heap_pointer_def vw)
  show ?thesis
  proof (cases "is_valid_heap_pointer s0 v")
    case False
    have "cadr ?b os0 k \<noteq> v" if "k < length os0" for k
      using gc_rel_steps(5) [OF r that] False vp by auto
    then have "targets ?b os0 [v] = {}" by (auto simp: targets_def)
    then show ?thesis using r e m False vp by (intro exI [of _ s] exI [of _ os]) (simp add: mark_def)
  next
    case True
    with v obtain k where k: "k < length os0" and v: "v = cadr ?b os0 k" by blast
    have t: "targets ?b os0 [v] = {k}"
      using cadr_inj [OF vw(1)] k v by (auto simp: targets_def vw)
    have mk: "is_marked s v \<longleftrightarrow> k \<in> marks os"
      using is_marked_view [OF r k] k v by (auto simp: marks_def vw(3))
    show ?thesis
    proof (cases "k \<in> marks os")
      case True
      with m have "reach ?b os0 {k} \<subseteq> marks os" by (intro reach_least) auto
      then have "marks os \<union> reach ?b os0 {k} = marks os" by blast
      with True mk t r e m show ?thesis by (intro exI [of _ s] exI [of _ os]) (simp add: mark_def)
    next
      case False
      have n: "0 < length os0" using k by (cases os0) auto
      obtain s1 os1 where 1: "queue_enqueue (hadr ?b os0 0) v s = ok (hadr ?b os0 1, s1)"
        "gc_rel s0 os0 s1 os1" "marks os1 = marks os" "enqs os1 = insert k (enqs os)"
        "\<forall>i. fadr (os1 ! i) = (if i = 0 then cadr ?b os0 k else fadr (os ! i))"
        using queue_enqueue_view [OF r n k] v by auto
      have "Suc 0 \<le> length os0" using k by linarith
      then have q: "q_inv ?b os0 os1 0 [k]"
        using 1 e False gc_rel_view(3) [OF 1(2)] by (auto simp: q_inv_def)
      from mark_loop_view [OF 1(2) q _ c] obtain s2 os2 where
        2: "mark_loop (hadr ?b os0 0) (hadr ?b os0 1) s1 = ok s2" "gc_rel s0 os0 s2 os2" "enqs os2 = {}"
        "marks os1 \<union> {k} \<subseteq> marks os2" "marks os2 \<subseteq> marks os1 \<union> reach ?b os0 {k}"
        "succ_closed ?b os0 (marks os2 - marks os1) (marks os2)"
        by auto
      have c2: "succ_closed ?b os0 (marks os2) (marks os2)"
        using 2(4,6) m 1(3) by (auto simp: succ_closed_def) blast
      then have "reach ?b os0 {k} \<subseteq> marks os2" using 2(4) by (intro reach_least) auto
      then have "marks os2 = marks os \<union> reach ?b os0 {k}" using 2(4,5) 1(3) by blast
      moreover have "mark v s = ok s2"
        using False True mk 1(1) 2(1) vp by (simp add: mark_def heap_begin_iterator_def hadr_def vw)
      ultimately show ?thesis using 2 c2 t by auto
    qed
  qed
qed

section \<open>Marking from all roots\<close>

text \<open>\<open>slot_outside s os a\<close>: the word at \<open>a\<close> lies outside the used part of the heap.\<close>

definition slot_outside :: "gc_state \<Rightarrow> obj list \<Rightarrow> addr \<Rightarrow> bool" where
  "slot_outside s os a \<longleftrightarrow>
     (\<forall>d\<in>{0, 1, 2, 3}. opos os (length os) \<le> unat (a + d - chunk_begin (heap s)))"

definition slot_ok :: "gc_state \<Rightarrow> obj list \<Rightarrow> addr \<Rightarrow> bool" where
  "slot_ok s os a \<longleftrightarrow> slot_outside s os a \<and> (is_valid_heap_pointer s (load32 (mem s) a) \<longrightarrow>
     (\<exists>k < length os. load32 (mem s) a = cadr (chunk_begin (heap s)) os k))"

lemma slot_unchanged:
  "gc_rel s0 os0 s os \<Longrightarrow> slot_outside s0 os0 a \<Longrightarrow> load32 (mem s) a = load32 (mem s0) a"
  by (intro load32_cong) (auto simp: gc_rel_def same_outside_def slot_outside_def)

lemma mark_slots_view:
  assumes "gc_rel s0 os0 s os" "enqs os = {}" "heap_closed s0 os0"
    and "succ_closed (chunk_begin (heap s0)) os0 (marks os) (marks os)" "\<forall>a\<in>set as. slot_ok s0 os0 a"
  shows "\<exists>s' os'. for_each gc_test_and_mark_root as s = ok s' \<and> gc_rel s0 os0 s' os' \<and> enqs os' = {}
    \<and> succ_closed (chunk_begin (heap s0)) os0 (marks os') (marks os')
    \<and> marks os' = marks os \<union> reach (chunk_begin (heap s0)) os0
        (targets (chunk_begin (heap s0)) os0 (map (load32 (mem s0)) as))"
  using assms
proof (induction as arbitrary: s os)
  case Nil
  then show ?case by auto
next
  case (Cons a as)
  let ?b = "chunk_begin (heap s0)"
  have a: "load32 (mem s) a = load32 (mem s0) a" "slot_ok s0 os0 a"
    using Cons.prems(1,5) slot_unchanged by (auto simp: slot_ok_def)
  obtain s1 os1 where 1: "gc_test_and_mark_root a s = ok s1" "gc_rel s0 os0 s1 os1" "enqs os1 = {}"
    "succ_closed ?b os0 (marks os1) (marks os1)"
    "marks os1 = marks os \<union> reach ?b os0 (targets ?b os0 [load32 (mem s0) a])"
    using mark_view [OF Cons.prems(1-4), of "load32 (mem s0) a"] a
    by (auto simp: slot_ok_def gc_test_and_mark_root_def)
  from Cons.IH [OF 1(2,3) Cons.prems(3) 1(4)] Cons.prems(5) obtain s2 os2 where
    2: "for_each gc_test_and_mark_root as s1 = ok s2" "gc_rel s0 os0 s2 os2" "enqs os2 = {}"
    "succ_closed ?b os0 (marks os2) (marks os2)"
    "marks os2 = marks os1 \<union> reach ?b os0 (targets ?b os0 (map (load32 (mem s0)) as))" by auto
  moreover have "reach ?b os0 (targets ?b os0 (map (load32 (mem s0)) (a # as)))
      = reach ?b os0 (targets ?b os0 [load32 (mem s0) a])
        \<union> reach ?b os0 (targets ?b os0 (map (load32 (mem s0)) as))"
    by (subst list.map(2), subst targets_Cons) (simp add: reach_Un)
  ultimately show ?case using 1 by auto
qed

text \<open>The words of an area, from \<open>p\<close> up to but excluding \<open>stop\<close>.\<close>

definition area_words :: "addr \<Rightarrow> addr \<Rightarrow> addr list" where
  "area_words p stop = map (\<lambda>i. ptr p (4 * i)) [0..<(unat stop - unat p + 3) div 4]"

lemma words_step: "(a :: nat) < b \<Longrightarrow> (b - a + 3) div 4 = Suc ((b - (a + 4) + 3) div 4)"
proof (cases "a + 4 \<le> b")
  case True
  then have "b - a + 3 = (b - (a + 4) + 3) + 4" by simp
  then show ?thesis by (simp only: div_add_self2)
next
  case False
  assume "a < b"
  with False have "4 \<le> b - a + 3" "b - a + 3 < 8" "b - (a + 4) = 0" by simp_all
  then show ?thesis by simp
qed

lemma area_words_step:
  assumes "p < stop" "unat stop \<le> 4294967292"
  shows "area_words p stop = p # area_words (p + 4) stop"
proof -
  have l: "unat p < unat stop" using assms(1) by (simp add: word_less_nat_alt)
  then have "unat p + 4 < 4294967296" using assms(2) by simp
  then have u: "unat (p + 4) = unat p + 4" by (simp add: unat_word_ariths)
  let ?N = "(unat stop - unat (p + 4) + 3) div 4"
  have w: "(unat stop - unat p + 3) div 4 = Suc ?N"
    unfolding u by (rule words_step [OF l])
  then have "area_words p stop = map (\<lambda>i. ptr p (4 * i)) (0 # map Suc [0..<?N])"
    unfolding area_words_def w by (simp add: map_Suc_upt upt_conv_Cons del: upt_Suc)
  then show ?thesis by (simp add: area_words_def ptr_def o_def algebra_simps)
qed

lemma scan_area_eq:
  assumes "unat stop \<le> 4294967292"
  shows "scan_area p stop s = for_each gc_test_and_mark_root (area_words p stop) s"
proof (induction "unat stop - unat p" arbitrary: p s rule: less_induct)
  case less
  show ?case
  proof (cases "p < stop")
    case False
    then show ?thesis by (simp add: scan_area.simps area_words_def word_less_nat_alt not_less)
  next
    case True
    then have "unat stop - unat (p + 4) < unat stop - unat p"
      using assms by (simp add: word_less_nat_alt unat_word_ariths)
    then have "scan_area (p + 4) stop = for_each gc_test_and_mark_root (area_words (p + 4) stop)"
      using less by blast
    with True show ?thesis
      by (subst scan_area.simps) (simp add: area_words_step [OF True assms])
  qed
qed

text \<open>All the slots the phase reads, in its order.\<close>

definition root_slots :: "gc_state \<Rightarrow> addr list" where
  "root_slots s = area_words (gc_stack_top s + 4) (gc_stack_bottom s)
     @ take (current_free (extra_roots s)) (roots (extra_roots s))
     @ area_words (start_custom_data s) (stop_custom_data s)"

definition roots_ok :: "gc_state \<Rightarrow> obj list \<Rightarrow> bool" where
  "roots_ok s os \<longleftrightarrow> (\<forall>a\<in>set (root_slots s). slot_ok s os a)
     \<and> unat (gc_stack_bottom s) \<le> 4294967292 \<and> unat (stop_custom_data s) \<le> 4294967292"

definition root_values :: "gc_state \<Rightarrow> u32 list" where
  "root_values s = map (load32 (mem s)) (root_slots s)"

theorem mark_phase_view:
  assumes v: "heap_view s os" and c: "heap_closed s os" and r: "roots_ok s os"
    and z: "marks os = {}" "enqs os = {}"
  shows "\<exists>s' os'. mark_phase s = ok s' \<and> gc_rel s os s' os' \<and> enqs os' = {}
    \<and> marks os' = reach (chunk_begin (heap s)) os (targets (chunk_begin (heap s)) os (root_values s))"
proof -
  let ?b = "chunk_begin (heap s)"
  let ?A = "area_words (gc_stack_top s + 4) (gc_stack_bottom s)"
    and ?B = "take (current_free (extra_roots s)) (roots (extra_roots s))"
    and ?C = "area_words (start_custom_data s) (stop_custom_data s)"
  have sl: "\<forall>a\<in>set ?A. slot_ok s os a" "\<forall>a\<in>set ?B. slot_ok s os a" "\<forall>a\<in>set ?C. slot_ok s os a"
    and u: "unat (gc_stack_bottom s) \<le> 4294967292" "unat (stop_custom_data s) \<le> 4294967292"
    using r by (auto simp: roots_ok_def root_slots_def)
  have "succ_closed ?b os (marks os) (marks os)" by (simp add: z succ_closed_def)
  from mark_slots_view [OF gc_rel_refl [OF v] z(2) c this sl(1)] obtain s1 os1 where
    1: "for_each gc_test_and_mark_root ?A s = ok s1" "gc_rel s os s1 os1" "enqs os1 = {}"
    "succ_closed ?b os (marks os1) (marks os1)"
    "marks os1 = reach ?b os (targets ?b os (map (load32 (mem s)) ?A))" by (auto simp: z)
  from mark_slots_view [OF 1(2,3) c 1(4) sl(2)] obtain s2 os2 where
    2: "for_each gc_test_and_mark_root ?B s1 = ok s2" "gc_rel s os s2 os2" "enqs os2 = {}"
    "succ_closed ?b os (marks os2) (marks os2)"
    "marks os2 = marks os1 \<union> reach ?b os (targets ?b os (map (load32 (mem s)) ?B))" by blast
  from mark_slots_view [OF 2(2,3) c 2(4) sl(3)] obtain s3 os3 where
    3: "for_each gc_test_and_mark_root ?C s2 = ok s3" "gc_rel s os s3 os3" "enqs os3 = {}"
    "marks os3 = marks os2 \<union> reach ?b os (targets ?b os (map (load32 (mem s)) ?C))" by blast
  have g: "extra_roots s1 = extra_roots s" "start_custom_data s2 = start_custom_data s"
      "stop_custom_data s2 = stop_custom_data s"
    using 1(2) 2(2) same_outside_globals by (auto simp: gc_rel_def)
  have sc: "scan_extra_roots s1 = for_each gc_test_and_mark_root ?B s1"
    by (simp add: scan_extra_roots_def g gc_test_and_mark_root_def [abs_def])
  have "mark_phase s = ok s3"
    using 1(1) 2(1) 3(1) sc by (simp add: mark_phase_def gc_root_scan_stack_def scan_area_eq u scan_global_area_def g)
  moreover have "marks os3 = reach ?b os (targets ?b os (root_values s))"
    using 1(5) 2(5) 3(4) by (simp add: root_values_def root_slots_def targets_append reach_Un Un_assoc)
  ultimately show ?thesis using 3 by blast
qed

end
