(* ===== verification/Forwarding.thy ===== *)
theory Forwarding
  imports Reachability
begin

text \<open>
  \<open>compute_locations\<close> of gc.c: the first pass of compaction gives every marked object the address
  it slides down to, the sum of the sizes of the marked objects before it, and returns the
  number of live words.
\<close>

text \<open>\<open>lpos os M i\<close>: the bytes taken by those of the first \<open>i\<close> objects that are in \<open>M\<close>.\<close>

definition lpos :: "obj list \<Rightarrow> nat set \<Rightarrow> nat \<Rightarrow> nat" where
  "lpos os M i = 4 * (\<Sum>k<i. if k \<in> M then osz (os ! k) else 0)"

lemma lpos_0 [simp]: "lpos os M 0 = 0"
  by (simp add: lpos_def)

lemma lpos_Suc: "lpos os M (Suc i) = lpos os M i + (if i \<in> M then 4 * osz (os ! i) else 0)"
  by (simp add: lpos_def)

lemma lpos_mono: "i \<le> j \<Longrightarrow> lpos os M i \<le> lpos os M j"
  by (induction rule: dec_induct) (auto simp: lpos_Suc)

lemma lpos_less: "i < j \<Longrightarrow> i \<in> M \<Longrightarrow> lpos os M i + 4 * osz (os ! i) \<le> lpos os M j"
  using lpos_mono [of "Suc i" j os M] by (simp add: lpos_Suc)

lemma lpos_le_opos: "i \<le> length os \<Longrightarrow> lpos os M i \<le> opos os i"
  by (induction i) (auto simp: lpos_Suc opos_Suc)

lemma lpos_mod4 [simp]: "lpos os M i mod 4 = 0"
  by (simp add: lpos_def)

text \<open>The objects that slide down do not overtake each other.\<close>

lemma lpos_inj:
  assumes "i \<in> M" "j \<in> M" "lpos os M i = lpos os M j" shows "i = j"
proof (rule linorder_cases [of i j])
  assume "i < j" with lpos_less [of i j M os] assms show ?thesis by (simp add: osz_def)
next
  assume "j < i" with lpos_less [of j i M os] assms show ?thesis by (simp add: osz_def)
qed

lemma heap_view_aligned:
  assumes "heap_view s os" "k mod 4 = 0" "k \<le> opos os (length os)"
  shows "aligned (ptr (chunk_begin (heap s)) k)"
proof -
  have "unat (chunk_begin (heap s)) mod 4 = 0" using assms(1) by (simp add: heap_view_def chunk_ok_def)
  with assms(2) have "(unat (chunk_begin (heap s)) + k) mod 4 = 0" by (metis mod_add_eq add_0 mod_0)
  then show ?thesis
    using heap_view_bounds [OF assms(1), of "length os"] assms(3)
    by (intro aligned_unat) (simp add: unat_ptr)
qed

lemma compute_locations_loop_view:
  assumes r: "gc_rel s0 os0 s os" and i: "i \<le> length os0"
  shows "\<exists>s' os'. compute_locations_loop (hadr (chunk_begin (heap s0)) os0 i)
        (ptr (chunk_begin (heap s0)) (lpos os0 (marks os) i)) s
      = ok (ptr (chunk_begin (heap s0)) (lpos os0 (marks os) (length os0)), s')
    \<and> gc_rel s0 os0 s' os' \<and> marks os' = marks os \<and> enqs os' = enqs os
    \<and> (\<forall>k. fadr (os' ! k) = (if i \<le> k \<and> k \<in> marks os
        then ptr (chunk_begin (heap s0)) (lpos os0 (marks os) k) else fadr (os ! k)))"
  using assms
proof (induction "length os0 - i" arbitrary: i s os)
  case 0
  note vw = gc_rel_view [OF 0(2)]
  have "heap_is_done_iterator s (hadr (chunk_begin (heap s0)) os0 i)"
    using heap_is_done_iterator_view [OF vw(1), of i] 0 vw by simp
  moreover have "\<not> (i \<le> k \<and> k \<in> marks os)" for k
    using 0 marks_subset [of os] vw(3) by auto
  ultimately show ?case using 0
    by (intro exI [of _ s] exI [of _ os]) (auto simp: compute_locations_loop.simps)
next
  case (Suc d)
  let ?b = "chunk_begin (heap s0)" and ?M = "marks os"
  note vw = gc_rel_view [OF Suc.prems(1)]
  have il: "i < length os0" using Suc by simp
  then have ils: "i < length os" using vw(3) by simp
  have nd: "\<not> heap_is_done_iterator s (hadr ?b os0 i)"
    using heap_is_done_iterator_view [OF vw(1), of i] il vw by simp
  have wf: "wf_obj (os ! i)" using heap_view_obj [OF vw(1) ils] by blast
  have sz: "osz (os ! i) = osz (os0 ! i)"
    using Suc.prems(1) il by (simp add: osz_def gc_rel_def same_shape_def)
  have os: "obj_size_header_ptr s (hadr ?b os0 i) = ok (type_size (otype (os ! i)) (LEN (o_hdr (os ! i))))"
    using obj_size_header_ptr_view [OF vw(1) ils] by (simp add: vw)
  have "4 * osz (os ! i) < 4294967296"
    using heap_view_bounds [OF vw(1), of "Suc i"] ils by (simp add: opos_Suc)
  then have fp: "ptr ?b k + 4 * BYTES_TO_WORDS (type_size (otype (os ! i)) (LEN (o_hdr (os ! i))))
      = ptr ?b (k + 4 * osz (os0 ! i))" for k
    by (simp add: ptr_plus_word four_times_words [OF wf] sz)
  have al: "aligned (ptr ?b (lpos os0 ?M i))"
    using heap_view_aligned [OF vw(1), of "lpos os0 ?M i"] lpos_le_opos [of i os0 ?M] il
      opos_mono [of i "length os0" os0] by (simp add: vw)
  have mk: "is_marked s (cadr ?b os0 i) \<longleftrightarrow> i \<in> ?M"
    using is_marked_view [OF Suc.prems(1) il] ils by (auto simp: marks_def)
  obtain s1 os1 where 1: "(if is_marked s (cadr ?b os0 i)
      then andthen (obj_size_header_ptr s (hadr ?b os0 i)) (\<lambda>n.
        ok (ptr ?b (lpos os0 ?M i) + 4 * BYTES_TO_WORDS n,
          set_forward_address (cadr ?b os0 i) (ptr ?b (lpos os0 ?M i)) s))
      else ok (ptr ?b (lpos os0 ?M i), s)) = ok (ptr ?b (lpos os0 ?M (Suc i)), s1)"
    "gc_rel s0 os0 s1 os1" "marks os1 = ?M" "enqs os1 = enqs os"
    "\<forall>k. fadr (os1 ! k) = (if k = i \<and> k \<in> ?M then ptr ?b (lpos os0 ?M k) else fadr (os ! k))"
  proof (cases "i \<in> ?M")
    case True
    from set_forward_address_view [OF Suc.prems(1) il al] obtain os1 where
      "gc_rel s0 os0 (set_forward_address (cadr ?b os0 i) (ptr ?b (lpos os0 ?M i)) s) os1"
      "marks os1 = ?M" "enqs os1 = enqs os"
      "\<forall>k. fadr (os1 ! k) = (if k = i then ptr ?b (lpos os0 ?M i) else fadr (os ! k))" by blast
    with True mk os fp show ?thesis
      by (intro that [of "set_forward_address (cadr ?b os0 i) (ptr ?b (lpos os0 ?M i)) s" os1])
        (auto simp: lpos_Suc)
  next
    case False
    with mk Suc.prems(1) show ?thesis by (intro that [of s os]) (auto simp: lpos_Suc)
  qed
  have "d = length os0 - Suc i" "Suc i \<le> length os0" using Suc by simp_all
  from Suc.hyps(1) [OF this(1) 1(2) this(2)] obtain s2 os2 where
    2: "compute_locations_loop (hadr ?b os0 (Suc i)) (ptr ?b (lpos os0 ?M (Suc i))) s1
      = ok (ptr ?b (lpos os0 ?M (length os0)), s2)" "gc_rel s0 os0 s2 os2" "marks os2 = ?M"
    "enqs os2 = enqs os1" "\<forall>k. fadr (os2 ! k) = (if Suc i \<le> k \<and> k \<in> ?M
      then ptr ?b (lpos os0 ?M k) else fadr (os1 ! k))" by (auto simp: 1(3))
  have "compute_locations_loop (hadr ?b os0 i) (ptr ?b (lpos os0 ?M i)) s
      = ok (ptr ?b (lpos os0 ?M (length os0)), s2)"
    using nd gc_rel_steps(1) [OF Suc.prems(1) il] gc_rel_steps(2) [OF 1(2) il] 1(1) 2(1)
    by (subst compute_locations_loop.simps) simp
  moreover have "fadr (os2 ! k) = (if i \<le> k \<and> k \<in> ?M then ptr ?b (lpos os0 ?M k) else fadr (os ! k))" for k
    using 2(5) 1(5) by (auto simp: Suc_le_eq)
  ultimately show ?case using 2 1(4) by blast
qed

text \<open>The live words, as the difference of two word pointers (a signed division by four).\<close>

lemma live_words:
  assumes "L mod 4 = 0" "L < 2147483648"
  shows "signed_drop_bit 2 (ptr b L - b) = (word_of_nat (L div 4) :: u32)"
proof -
  have "\<not> bit (unat (word_of_nat L :: u32)) 31"
    using assms(2) by (simp add: bit_iff_odd unat_of_nat_u32)
  then have "\<not> bit (word_of_nat L :: u32) 31" by (simp add: bit_unsigned_iff)
  then have "signed_drop_bit 2 (word_of_nat L :: u32) = drop_bit 2 (word_of_nat L)"
    by (intro bit_word_eqI) (auto simp: bit_simps)
  also have "\<dots> = word_of_nat (L div 4)"
    using assms(2) by (simp add: word_unat_eq_iff drop_bit_eq_div unat_div unat_of_nat_u32)
  finally show ?thesis by simp
qed

theorem compute_locations_view:
  assumes r: "gc_rel s0 os0 s os" and l: "lpos os0 (marks os) (length os0) < 2147483648"
  shows "\<exists>s' os'. compute_locations s = ok (word_of_nat (lpos os0 (marks os) (length os0) div 4), s')
    \<and> gc_rel s0 os0 s' os' \<and> marks os' = marks os \<and> enqs os' = enqs os
    \<and> (\<forall>k\<in>marks os. fadr (os' ! k) = ptr (chunk_begin (heap s0)) (lpos os0 (marks os) k))"
proof -
  note vw = gc_rel_view [OF r]
  from compute_locations_loop_view [OF r, of 0] obtain s' os' where
    1: "compute_locations_loop (chunk_begin (heap s0)) (chunk_begin (heap s0)) s
      = ok (ptr (chunk_begin (heap s0)) (lpos os0 (marks os) (length os0)), s')"
    "gc_rel s0 os0 s' os'" "marks os' = marks os" "enqs os' = enqs os"
    "\<forall>k. fadr (os' ! k) = (if 0 \<le> k \<and> k \<in> marks os
        then ptr (chunk_begin (heap s0)) (lpos os0 (marks os) k) else fadr (os ! k))"
    by (auto simp: hadr_def)
  then have "compute_locations s = ok (word_of_nat (lpos os0 (marks os) (length os0) div 4), s')"
    using live_words [OF lpos_mod4 l, of "chunk_begin (heap s0)"]
    by (simp add: compute_locations_def heap_begin_iterator_def vw del: ptr_minus_base)
  with 1 show ?thesis by auto
qed

end
