(* ===== verification/Allocation.thy ===== *)
theory Allocation
  imports Forwarding
begin

text \<open>
  Allocation in gc.c, against the abstract heap. When there is room, each of the four
  \<open>alloc_*\<close> functions appends one object to the list of objects and leaves every other word of
  memory alone; this contract is the locale \<open>allocator\<close>, interpreted below on the four
  functions. When there is no room the collector runs, and the new heap is large enough.
\<close>

section \<open>The contract\<close>

definition free_bytes :: "gc_state \<Rightarrow> obj list \<Rightarrow> nat" where
  "free_bytes s os = 4 * unat (chunk_size (heap s)) - opos os (length os)"

text \<open>\<open>appended s os x s'\<close>: \<open>s'\<close> is \<open>s\<close> with the object \<open>x\<close> after the last one.\<close>

definition appended :: "gc_state \<Rightarrow> obj list \<Rightarrow> obj \<Rightarrow> gc_state \<Rightarrow> bool" where
  "appended s os x s' \<longleftrightarrow> heap_view s' (os @ [x])
     \<and> heap s' = (heap s)\<lparr>chunk_current := hadr (chunk_begin (heap s)) (os @ [x]) (Suc (length os))\<rparr>
     \<and> s' = s\<lparr>mem := mem s', heap := heap s'\<rparr>
     \<and> (\<forall>a. 4 * osz x \<le> unat (a - hadr (chunk_begin (heap s)) os (length os)) \<longrightarrow> mem s' a = mem s a)"

locale allocator =
  fixes alloc_obj :: "u32 \<Rightarrow> gc_state \<Rightarrow> (addr \<times> gc_state) outcome"
    and new_obj :: "u32 \<Rightarrow> obj"
    and allowed :: "u32 \<Rightarrow> bool"
  assumes alloc_room: "heap_view s os \<Longrightarrow> allowed len \<Longrightarrow> 4 * osz (new_obj len) \<le> free_bytes s os \<Longrightarrow>
      \<exists>s'. alloc_obj len s = ok (hadr (chunk_begin (heap s)) os (length os), s')
        \<and> appended s os (new_obj len) s'"
begin

lemma alloc_keeps_objects:
  assumes "heap_view s os" "allowed len" "4 * osz (new_obj len) \<le> free_bytes s os"
  shows "\<exists>p s'. alloc_obj len s = ok (p, s') \<and> heap_view s' (os @ [new_obj len])
    \<and> chunk_begin (heap s') = chunk_begin (heap s)"
  using alloc_room [OF assms] by (auto simp: appended_def)

lemma free_after:
  assumes "appended s os (new_obj len) s'" "heap_view s os"
  shows "free_bytes s' (os @ [new_obj len]) = free_bytes s os - 4 * osz (new_obj len)"
  using assms by (simp add: appended_def free_bytes_def opos_def)

text \<open>A run of allocations, of the lengths \<open>lens\<close>: the objects are laid out in order.\<close>

lemma alloc_run:
  assumes "heap_view s os" "\<forall>len\<in>set lens. allowed len"
    "(\<Sum>len\<leftarrow>lens. 4 * osz (new_obj len)) \<le> free_bytes s os"
  shows "\<exists>s'. for_each (\<lambda>len s. andthen (alloc_obj len s) (\<lambda>(p, s). ok s)) lens s = ok s'
    \<and> heap_view s' (os @ map new_obj lens) \<and> chunk_begin (heap s') = chunk_begin (heap s)"
  using assms
proof (induction lens arbitrary: s os)
  case Nil
  then show ?case by simp
next
  case (Cons len lens)
  have "4 * osz (new_obj len) \<le> free_bytes s os" using Cons.prems(3) by simp
  with Cons.prems obtain s1 where
    1: "alloc_obj len s = ok (hadr (chunk_begin (heap s)) os (length os), s1)"
      "appended s os (new_obj len) s1"
    using alloc_room by (meson list.set_intros(1))
  then have v: "heap_view s1 (os @ [new_obj len])" "chunk_begin (heap s1) = chunk_begin (heap s)"
    by (auto simp: appended_def)
  have "(\<Sum>len\<leftarrow>lens. 4 * osz (new_obj len)) \<le> free_bytes s1 (os @ [new_obj len])"
    using Cons.prems(3) free_after [OF 1(2) Cons.prems(1)] by simp
  with Cons.IH [OF v(1)] Cons.prems(2) 1(1) v(2) show ?case by auto
qed

end

section \<open>Appending an object\<close>

lemma opos_append [simp]: "i \<le> length os \<Longrightarrow> opos (os @ xs) i = opos os i"
  by (simp add: opos_def)

lemma opos_snoc [simp]: "opos (os @ [x]) (Suc (length os)) = opos os (length os) + 4 * osz x"
  by (simp add: opos_def)

lemma heap_view_append:
  assumes v: "heap_view s os" and w: "wf_obj x" and r: "4 * osz x \<le> free_bytes s os"
    and x: "obj_at m (chunk_begin (heap s)) (opos os (length os)) x"
    and k: "\<And>j. j + 4 \<le> opos os (length os) \<Longrightarrow>
      load32 m (ptr (chunk_begin (heap s)) j) = load32 (mem s) (ptr (chunk_begin (heap s)) j)"
  shows "heap_view (s\<lparr>mem := m, heap := (heap s)\<lparr>chunk_current :=
      ptr (chunk_begin (heap s)) (opos os (length os) + 4 * osz x)\<rparr>\<rparr>) (os @ [x])"
proof -
  let ?b = "chunk_begin (heap s)"
  have old: "obj_at m ?b (opos os i) (os ! i)" if i: "i < length os" for i
  proof -
    have "opos os i + 4 * osz (os ! i) \<le> opos os (length os)" using i by (rule opos_end)
    then show ?thesis
      using heap_view_obj [OF v i] by (simp add: obj_at_def words_at_def k osz_def)
  qed
  have "obj_at m ?b (opos (os @ [x]) i) ((os @ [x]) ! i)" if "i < length (os @ [x])" for i
    using that old x by (cases "i < length os") (simp_all add: nth_append less_Suc_eq)
  then have "objs_at m ?b (os @ [x])" by (simp add: objs_at_def)
  moreover have "opos os (length os) + 4 * osz x \<le> 4 * unat (chunk_size (heap s))"
    using r v by (simp add: free_bytes_def heap_view_def chunk_ok_def osz_def)
  ultimately show ?thesis
    using v w by (simp add: heap_view_def chunk_ok_def)
qed

section \<open>\<open>alloc\<close> when there is room\<close>

lemma alloc_fits:
  assumes v: "heap_view s os" and r: "4 * unat (BYTES_TO_WORDS n) \<le> free_bytes s os"
  shows "alloc mremap n s = ok (hadr (chunk_begin (heap s)) os (length os),
    s\<lparr>mem := mem_set (mem s) (hadr (chunk_begin (heap s)) os (length os)) 0 (4 * unat (BYTES_TO_WORDS n)),
      heap := (heap s)\<lparr>chunk_current :=
        ptr (chunk_begin (heap s)) (opos os (length os) + 4 * unat (BYTES_TO_WORDS n))\<rparr>\<rparr>)"
proof -
  let ?b = "chunk_begin (heap s)" and ?w = "unat (BYTES_TO_WORDS n)" and ?u = "opos os (length os)"
  have c: "chunk_current (heap s) = ptr ?b ?u" "?u \<le> 4 * unat (chunk_size (heap s))"
    "chunk_end (heap s) = ptr ?b (4 * unat (chunk_size (heap s)))"
    "unat ?b + 4 * unat (chunk_size (heap s)) < 4294967296" "0 < unat ?b"
    using v by (auto simp: heap_view_def chunk_ok_def unat_gt_0)
  have f: "?u + 4 * ?w \<le> 4 * unat (chunk_size (heap s))" using r c by (simp add: free_bytes_def)
  then have w4: "unat (4 * BYTES_TO_WORDS n) = 4 * ?w"
    using c(4) by (simp add: unat_word_ariths)
  have "unat (ptr ?b ?u) = unat ?b + ?u" using c(2,4) by (simp add: unat_ptr)
  then have nz: "ptr ?b ?u \<noteq> 0" using c(5) by auto
  have le: "ptr ?b (?u + 4 * ?w) \<le> ptr ?b (4 * unat (chunk_size (heap s)))"
    using c(4) f by (simp add: ptr_le_iff)
  show ?thesis
    using nz le by (simp add: alloc_def gc_alloc_on_existing_heap_def c(1,3) ptr_plus_word w4 hadr_def
      mult.commute [of _ "4 :: u32"] Let_def)
qed

lemma alloc_no_room:
  assumes v: "heap_view s os" and n: "free_bytes s os < 4 * unat (BYTES_TO_WORDS n)"
    and u: "unat (chunk_begin (heap s)) + opos os (length os) + 4 * unat (BYTES_TO_WORDS n) < 4294967296"
  shows "alloc mremap n s = gc_alloc mremap (BYTES_TO_WORDS n) s"
proof -
  let ?b = "chunk_begin (heap s)" and ?w = "unat (BYTES_TO_WORDS n)" and ?u = "opos os (length os)"
  have c: "chunk_current (heap s) = ptr ?b ?u" "?u \<le> 4 * unat (chunk_size (heap s))"
    "chunk_end (heap s) = ptr ?b (4 * unat (chunk_size (heap s)))"
    "unat ?b + 4 * unat (chunk_size (heap s)) < 4294967296"
    using v by (auto simp: heap_view_def chunk_ok_def)
  have w4: "unat (4 * BYTES_TO_WORDS n) = 4 * ?w" using u by (simp add: unat_word_ariths)
  have "4 * unat (chunk_size (heap s)) < ?u + 4 * ?w" using n c(2) by (simp add: free_bytes_def)
  then have "\<not> ptr ?b (?u + 4 * ?w) \<le> ptr ?b (4 * unat (chunk_size (heap s)))"
    using c(4) u by (simp add: ptr_le_iff)
  then show ?thesis
    by (simp add: alloc_def gc_alloc_on_existing_heap_def c(1,3) ptr_plus_word w4 Let_def)
qed

section \<open>The four kinds of objects\<close>

definition fresh :: "lama_type \<Rightarrow> u32 \<Rightarrow> u32 \<Rightarrow> obj" where
  "fresh t kind len = \<lparr>o_hdr = kind OR push_bit 3 len, o_fwd = 0, o_body = replicate (body_words t (unat len)) 0\<rparr>"

lemma fresh_simps [simp]:
  "o_hdr (fresh t kind len) = kind OR push_bit 3 len" "o_fwd (fresh t kind len) = 0"
  "o_body (fresh t kind len) = replicate (body_words t (unat len)) 0"
  by (simp_all add: fresh_def)

lemma take_bit_29: "unat len < 536870912 \<Longrightarrow> take_bit 29 (len :: u32) = len"
  by (simp add: word_unat_eq_iff unsigned_take_bit_eq take_bit_eq_mod unat_mod)

definition kind_of :: "lama_type \<Rightarrow> u32" where
  "kind_of t = (case t of ARRAY \<Rightarrow> ARRAY_TAG | STRING \<Rightarrow> STRING_TAG | CLOSURE \<Rightarrow> CLOSURE_TAG | SEXP \<Rightarrow> SEXP_TAG)"

lemma take_bit_kind: "take_bit 3 (kind_of t) = kind_of t"
  by (cases t) (simp_all add: kind_of_def tag_defs)

lemma fresh_header:
  assumes "unat len < 536870912"
  shows "TAG (kind_of t OR push_bit 3 len) = kind_of t" "LEN (kind_of t OR push_bit 3 len) = len"
  using TAG_header [OF take_bit_kind] LEN_header [OF take_bit_kind take_bit_29 [OF assms]] by simp_all

lemma otype_fresh: "unat len < 536870912 \<Longrightarrow> otype (fresh t (kind_of t) len) = t"
  by (cases t) (simp_all add: otype_def fresh_header, simp_all add: kind_of_def tag_defs)

lemma wf_fresh:
  assumes "unat len < 536870912" "t = CLOSURE \<longrightarrow> len \<noteq> 0"
  shows "wf_obj (fresh t (kind_of t) len)"
  using assms by (cases t) (simp_all add: wf_obj_def otype_fresh fresh_header, simp_all add: kind_of_def unat_gt_0)

lemma words_fresh:
  assumes "unat len < 536870912" "t = CLOSURE \<longrightarrow> len \<noteq> 0"
  shows "unat (BYTES_TO_WORDS (type_size t len)) = osz (fresh t (kind_of t) len)"
  using words_of_obj [OF wf_fresh [OF assms]] assms by (simp add: otype_fresh fresh_header)

lemma heap_mem_commute: "s\<lparr>heap := h, mem := m\<rparr> = s\<lparr>mem := m, heap := h\<rparr>"
  by simp

text \<open>
  The memory after \<open>alloc\<close> and \<open>init_object\<close> (\<open>z\<close> holds when the S-expression tag is cleared
  as well) holds the new object.
\<close>

lemma init_appended:
  fixes s :: gc_state and os :: "obj list" and t :: lama_type and len :: u32
  defines "x \<equiv> fresh t (kind_of t) len"
  assumes v: "heap_view s os" and len: "unat len < 536870912" "t = CLOSURE \<longrightarrow> len \<noteq> 0"
    and r: "4 * osz x \<le> free_bytes s os" and z: "z \<longrightarrow> t = SEXP"
  shows "appended s os x (let
      s1 = s\<lparr>mem := mem_set (mem s) (hadr (chunk_begin (heap s)) os (length os)) 0 (4 * osz x),
        heap := (heap s)\<lparr>chunk_current := ptr (chunk_begin (heap s)) (opos os (length os) + 4 * osz x)\<rparr>\<rparr>;
      s2 = init_object (kind_of t) len (hadr (chunk_begin (heap s)) os (length os)) s1
    in if z then s2\<lparr>mem := store32 (mem s2) (hadr (chunk_begin (heap s)) os (length os) + 8) 0\<rparr> else s2)"
proof -
  let ?b = "chunk_begin (heap s)" and ?u = "opos os (length os)" and ?n = "4 * osz x"
  let ?m1 = "mem_set (mem s) (ptr ?b ?u) 0 ?n"
  let ?m2 = "store32 (store32 ?m1 (ptr ?b ?u) (kind_of t OR push_bit 3 len)) (ptr ?b (?u + 4)) 0"
  let ?m3 = "if z then store32 ?m2 (ptr ?b (?u + 8)) 0 else ?m2"
  have tot: "?u + ?n < 4294967296"
    using v r unfolding heap_view_def chunk_ok_def free_bytes_def by linarith
  have sx: "z \<Longrightarrow> 12 \<le> ?n" using z by (simp add: x_def osz_def)
  have n8: "8 \<le> ?n" by (simp add: osz_def)
  have low: "load32 ?m3 (ptr ?b j) = load32 (mem s) (ptr ?b j)" if "j + 4 \<le> ?u" for j
    using that tot n8 sx by (cases z) (simp_all add: load32_store32_other load32_mem_set_outside)
  have body: "load32 ?m3 (ptr ?b j) = 0" if "?u + 8 \<le> j" "j + 4 \<le> ?u + ?n" "4 dvd j - ?u" for j
  proof (cases "z \<and> j = ?u + 8")
    case True
    then show ?thesis by simp
  next
    case False
    have "j = ?u + 8 \<or> ?u + 12 \<le> j" using that(1,3) by presburger
    then show ?thesis
      using that tot False by (cases z) (auto simp: load32_store32_other load32_mem_set_inside)
  qed
  have "load32 ?m3 (ptr ?b ?u) = kind_of t OR push_bit 3 len" "load32 ?m3 (ptr ?b (?u + 4)) = 0"
    using tot n8 sx by (cases z; simp add: load32_store32_other)+
  moreover have "load32 ?m3 (ptr ?b (?u + 8 + 4 * j)) = 0" if "j < length (o_body x)" for j
    using that by (intro body) (simp_all add: osz_def)
  ultimately have ob: "obj_at ?m3 ?b ?u x" by (simp add: obj_at_def words_at_def x_def)
  have out: "?m3 a = mem s a" if "?n \<le> unat (a - ptr ?b ?u)" for a
  proof -
    have st: "store32 m (ptr ?b (?u + k)) w a = m a" if "k + 4 \<le> ?n" for m k w
      using store32_outside [of k ?n a "ptr ?b ?u" m w] that tot \<open>?n \<le> unat (a - ptr ?b ?u)\<close> by simp
    show ?thesis
      using st [of 0] st [of 4] st [of 8] n8 sx that by (cases z) (simp_all add: mem_set_def)
  qed
  show ?thesis
    using heap_view_append [OF v, of x ?m3] wf_fresh [OF len] r ob low out
    by (cases z) (simp_all add: appended_def x_def hadr_def init_object_def Let_def heap_mem_commute)
qed

lemma alloc_kind_room:
  assumes v: "heap_view s os" and len: "unat len < 536870912" "t = CLOSURE \<longrightarrow> len \<noteq> 0"
    and r: "4 * osz (fresh t (kind_of t) len) \<le> free_bytes s os"
  shows "\<exists>s'. andthen (alloc mremap (type_size t len) s)
      (\<lambda>(obj, s1). let s2 = init_object (kind_of t) len obj s1 in
        ok (obj, if t = SEXP then s2\<lparr>mem := store32 (mem s2) (obj + 8) 0\<rparr> else s2))
    = ok (hadr (chunk_begin (heap s)) os (length os), s')
    \<and> appended s os (fresh t (kind_of t) len) s'"
  using init_appended [OF v len r, of "t = SEXP"] alloc_fits [OF v, of "type_size t len" mremap] r
  by (simp add: words_fresh [OF len] Let_def)

interpretation arrays: allocator "alloc_array mremap" "fresh ARRAY ARRAY_TAG" "\<lambda>len. unat len < 536870912"
  for mremap
  by unfold_locales (use alloc_kind_room [where t = ARRAY] in
    \<open>simp add: alloc_array_def kind_of_def Let_def case_prod_unfold\<close>)

interpretation strings: allocator "alloc_string mremap" "fresh STRING STRING_TAG" "\<lambda>len. unat len < 536870912"
  for mremap
  by unfold_locales (use alloc_kind_room [where t = STRING] in
    \<open>simp add: alloc_string_def kind_of_def Let_def case_prod_unfold\<close>)

interpretation sexps: allocator "alloc_sexp mremap" "fresh SEXP SEXP_TAG" "\<lambda>len. unat len < 536870912"
  for mremap
  by unfold_locales (use alloc_kind_room [where t = SEXP] in
    \<open>simp add: alloc_sexp_def kind_of_def Let_def case_prod_unfold\<close>)

interpretation closures: allocator "alloc_closure mremap" "fresh CLOSURE CLOSURE_TAG"
    "\<lambda>len. unat len < 536870912 \<and> len \<noteq> 0"
  for mremap
  by unfold_locales (use alloc_kind_room [where t = CLOSURE] in
    \<open>simp add: alloc_closure_def kind_of_def Let_def case_prod_unfold\<close>)

section \<open>The size of the next heap\<close>

lemma next_heap_pseudo_size_enough:
  assumes "2 * unat live + unat additional < 4294967296"
  shows "unat live + unat additional \<le> unat (next_heap_pseudo_size live additional old)"
    "unat old \<le> unat (next_heap_pseudo_size live additional old)"
    "4 \<le> unat (next_heap_pseudo_size live additional old)"
proof -
  have "unat (live * 2 + additional) = 2 * unat live + unat additional"
    using assms by (simp add: unat_word_ariths)
  then show "unat live + unat additional \<le> unat (next_heap_pseudo_size live additional old)"
      and "unat old \<le> unat (next_heap_pseudo_size live additional old)"
      and "4 \<le> unat (next_heap_pseudo_size live additional old)"
    by (auto simp: next_heap_pseudo_size_def EXTRA_ROOM_HEAP_COEFFICIENT_def MINIMUM_HEAP_CAPACITY_def
        Let_def max_def word_le_nat_alt)
qed

end
