(* ===== verification/Values.thy ===== *)
theory Values
  imports Collector "HOL-Library.Signed_Division"
begin

text \<open>
  runtime/runtime.c, the operations on values that allocate nothing: the kind of a value, the
  functional synonyms of the built-in operators (the C names encode the operator's characters:
  43 is \<open>+\<close>, 60 is \<open><\<close>, and so on), element access and assignment, and the pattern tests of
  \<open>case\<close> expressions. A value is a 32-bit word; a failed check ends the process through
  \<open>failure\<close>, whose argument here is the text with the \<open>%s\<close> of the assertion macros filled in.
\<close>

section \<open>Assertions\<close>

definition ASSERT_BOXED :: "string \<Rightarrow> u32 \<Rightarrow> unit outcome" where
  "ASSERT_BOXED memo x =
     (if UNBOXED x then err (Failure (''boxed value expected in '' @ memo)) else ok ())"

definition ASSERT_UNBOXED :: "string \<Rightarrow> u32 \<Rightarrow> unit outcome" where
  "ASSERT_UNBOXED memo x =
     (if \<not> UNBOXED x then err (Failure (''unboxed value expected in '' @ memo)) else ok ())"

text \<open>The kind of the object a boxed value points to, and its length.\<close>

definition tag_at :: "gc_state \<Rightarrow> u32 \<Rightarrow> u32" where
  "tag_at s p = TAG (data_header (mem s) (TO_DATA p))"

definition len_at :: "gc_state \<Rightarrow> u32 \<Rightarrow> u32" where
  "len_at s p = LEN (data_header (mem s) (TO_DATA p))"

definition ASSERT_STRING :: "string \<Rightarrow> gc_state \<Rightarrow> u32 \<Rightarrow> unit outcome" where
  "ASSERT_STRING memo s x = (if \<not> UNBOXED x \<and> tag_at s x \<noteq> STRING_TAG
     then err (Failure (''string value expected in '' @ memo)) else ok ())"

lemmas assert_defs = ASSERT_BOXED_def ASSERT_UNBOXED_def ASSERT_STRING_def

section \<open>Kinds\<close>

definition LkindOf :: "gc_state \<Rightarrow> u32 \<Rightarrow> u32" where
  "LkindOf s p = (if UNBOXED p then UNBOXED_TAG else tag_at s p)"

definition LcompareTags :: "gc_state \<Rightarrow> u32 \<Rightarrow> u32 \<Rightarrow> u32 outcome" where
  "LcompareTags s p q =
     andthen (ASSERT_BOXED ''compareTags, 0'' p) (\<lambda>_.
     andthen (ASSERT_BOXED ''compareTags, 1'' q) (\<lambda>_.
       if tag_at s p = SEXP_TAG \<and> tag_at s q = SEXP_TAG
       then ok (BOX (sexp_tag (mem s) (TO_SEXP p) - sexp_tag (mem s) (TO_SEXP q)))
       else err (Failure ''not a sexpr in compareTags: %d, %d'')))"

definition Llength :: "gc_state \<Rightarrow> u32 \<Rightarrow> u32 outcome" where
  "Llength s p = andthen (ASSERT_BOXED ''.length'' p) (\<lambda>_. ok (BOX (len_at s p)))"

section \<open>Operators\<close>

text \<open>
  The operators first check both operands, then compute on the unboxed values. C's \<open>/\<close> and \<open>%\<close>
  truncate towards zero, and trap on a zero divisor or a quotient that does not fit.
\<close>

definition arith2 :: "string \<Rightarrow> (u32 \<Rightarrow> u32 \<Rightarrow> u32 outcome) \<Rightarrow> u32 \<Rightarrow> u32 \<Rightarrow> u32 outcome" where
  "arith2 nm f p q =
     andthen (ASSERT_UNBOXED (''captured '' @ nm @ '':1'') p) (\<lambda>_.
     andthen (ASSERT_UNBOXED (''captured '' @ nm @ '':2'') q) (\<lambda>_.
     andthen (f (UNBOX p) (UNBOX q)) (\<lambda>r. ok (BOX r))))"

definition div_traps :: "u32 \<Rightarrow> u32 \<Rightarrow> bool" where
  "div_traps a b \<longleftrightarrow> b = 0 \<or> (a = 0x80000000 \<and> b = - 1)"

definition c_div :: "u32 \<Rightarrow> u32 \<Rightarrow> u32 outcome" where
  "c_div a b = (if div_traps a b then err DivideTrap else ok (word_of_int (sint a sdiv sint b)))"

definition c_mod :: "u32 \<Rightarrow> u32 \<Rightarrow> u32 outcome" where
  "c_mod a b = (if div_traps a b then err DivideTrap else ok (word_of_int (sint a smod sint b)))"

definition Ls__Infix_3333 :: "u32 \<Rightarrow> u32 \<Rightarrow> u32 outcome" where
  "Ls__Infix_3333 = arith2 ''!!'' (\<lambda>a b. ok (of_bool (a \<noteq> 0 \<or> b \<noteq> 0)))"

definition Ls__Infix_3838 :: "u32 \<Rightarrow> u32 \<Rightarrow> u32 outcome" where
  "Ls__Infix_3838 = arith2 ''&&'' (\<lambda>a b. ok (of_bool (a \<noteq> 0 \<and> b \<noteq> 0)))"

definition Ls__Infix_6161 :: "u32 \<Rightarrow> u32 \<Rightarrow> u32 outcome" where
  "Ls__Infix_6161 p q = ok (BOX (of_bool (p = q)))"

definition Ls__Infix_3361 :: "u32 \<Rightarrow> u32 \<Rightarrow> u32 outcome" where
  "Ls__Infix_3361 = arith2 ''!='' (\<lambda>a b. ok (of_bool (a \<noteq> b)))"

definition Ls__Infix_6061 :: "u32 \<Rightarrow> u32 \<Rightarrow> u32 outcome" where
  "Ls__Infix_6061 = arith2 ''<='' (\<lambda>a b. ok (of_bool (sint a \<le> sint b)))"

definition Ls__Infix_60 :: "u32 \<Rightarrow> u32 \<Rightarrow> u32 outcome" where
  "Ls__Infix_60 = arith2 ''<'' (\<lambda>a b. ok (of_bool (sint a < sint b)))"

definition Ls__Infix_6261 :: "u32 \<Rightarrow> u32 \<Rightarrow> u32 outcome" where
  "Ls__Infix_6261 = arith2 ''>='' (\<lambda>a b. ok (of_bool (sint b \<le> sint a)))"

definition Ls__Infix_62 :: "u32 \<Rightarrow> u32 \<Rightarrow> u32 outcome" where
  "Ls__Infix_62 = arith2 ''>'' (\<lambda>a b. ok (of_bool (sint b < sint a)))"

definition Ls__Infix_43 :: "u32 \<Rightarrow> u32 \<Rightarrow> u32 outcome" where
  "Ls__Infix_43 = arith2 ''+'' (\<lambda>a b. ok (a + b))"

text \<open>Subtraction works on two pointers as well (the boxed difference of addresses).\<close>

definition Ls__Infix_45 :: "u32 \<Rightarrow> u32 \<Rightarrow> u32 outcome" where
  "Ls__Infix_45 p q = (if UNBOXED p
     then andthen (ASSERT_UNBOXED ''captured -:2'' q) (\<lambda>_. ok (BOX (UNBOX p - UNBOX q)))
     else andthen (ASSERT_BOXED ''captured -:1'' q) (\<lambda>_. ok (BOX (p - q))))"

definition Ls__Infix_42 :: "u32 \<Rightarrow> u32 \<Rightarrow> u32 outcome" where
  "Ls__Infix_42 = arith2 ''*'' (\<lambda>a b. ok (a * b))"

definition Ls__Infix_47 :: "u32 \<Rightarrow> u32 \<Rightarrow> u32 outcome" where
  "Ls__Infix_47 = arith2 ''/'' c_div"

definition Ls__Infix_37 :: "u32 \<Rightarrow> u32 \<Rightarrow> u32 outcome" where
  "Ls__Infix_37 = arith2 ''%'' c_mod"

lemmas infix_defs = Ls__Infix_3333_def Ls__Infix_3838_def Ls__Infix_6161_def Ls__Infix_3361_def
  Ls__Infix_6061_def Ls__Infix_60_def Ls__Infix_6261_def Ls__Infix_62_def Ls__Infix_43_def
  Ls__Infix_45_def Ls__Infix_42_def Ls__Infix_47_def Ls__Infix_37_def

section \<open>Elements\<close>

text \<open>A \<open>char\<close> is signed on this target, so a byte of a string is sign-extended.\<close>

definition Belem :: "gc_state \<Rightarrow> u32 \<Rightarrow> u32 \<Rightarrow> u32 outcome" where
  "Belem s p i =
     andthen (ASSERT_BOXED ''.elem:1'' p) (\<lambda>_.
     andthen (ASSERT_UNBOXED ''.elem:2'' i) (\<lambda>_.
       let j = UNBOX i; c = contents (TO_DATA p) in
       if tag_at s p = STRING_TAG then ok (BOX (scast (mem s (c + j))))
       else if tag_at s p = SEXP_TAG then ok (load32 (mem s) (c + 4 * (j + 1)))
       else ok (load32 (mem s) (c + 4 * j))))"

definition Lfst :: "gc_state \<Rightarrow> u32 \<Rightarrow> u32 outcome" where "Lfst s v = Belem s v (BOX 0)"
definition Lsnd :: "gc_state \<Rightarrow> u32 \<Rightarrow> u32 outcome" where "Lsnd s v = Belem s v (BOX 1)"
definition Lhd :: "gc_state \<Rightarrow> u32 \<Rightarrow> u32 outcome" where "Lhd s v = Belem s v (BOX 0)"
definition Ltl :: "gc_state \<Rightarrow> u32 \<Rightarrow> u32 outcome" where "Ltl s v = Belem s v (BOX 1)"

text \<open>Assignment: to an element when \<open>i\<close> is an integer, else through the pointer \<open>x\<close>.\<close>

definition Bsta :: "u32 \<Rightarrow> u32 \<Rightarrow> u32 \<Rightarrow> gc_state \<Rightarrow> (u32 \<times> gc_state) outcome" where
  "Bsta v i x s = (if UNBOXED i then
       andthen (ASSERT_BOXED ''.sta:3'' x) (\<lambda>_.
         if tag_at s x = STRING_TAG
         then ok (v, s\<lparr>mem := (mem s)(x + UNBOX i := ucast (UNBOX v))\<rparr>)
         else if tag_at s x = SEXP_TAG
         then ok (v, s\<lparr>mem := store32 (mem s) (x + 4 * (UNBOX i + 1)) v\<rparr>)
         else ok (v, s\<lparr>mem := store32 (mem s) (x + 4 * UNBOX i) v\<rparr>))
     else ok (v, s\<lparr>mem := store32 (mem s) x v\<rparr>))"

section \<open>Patterns\<close>

definition Btag :: "gc_state \<Rightarrow> u32 \<Rightarrow> u32 \<Rightarrow> u32 \<Rightarrow> u32" where
  "Btag s d t n = (if UNBOXED d then BOX 0
     else BOX (of_bool (tag_at s d = SEXP_TAG \<and> sexp_tag (mem s) (TO_SEXP d) = UNBOX t
                        \<and> len_at s d = UNBOX n)))"

definition get_tag :: "gc_state \<Rightarrow> addr \<Rightarrow> u32" where "get_tag s d = TAG (data_header (mem s) d)"
definition get_len :: "gc_state \<Rightarrow> addr \<Rightarrow> u32" where "get_len s d = LEN (data_header (mem s) d)"

definition Barray_patt :: "gc_state \<Rightarrow> u32 \<Rightarrow> u32 \<Rightarrow> u32" where
  "Barray_patt s d n = (if UNBOXED d then BOX 0
     else BOX (of_bool (get_tag s (TO_DATA d) = ARRAY_TAG \<and> get_len s (TO_DATA d) = UNBOX n)))"

definition Bclosure_tag_patt :: "gc_state \<Rightarrow> u32 \<Rightarrow> u32" where
  "Bclosure_tag_patt s x = (if UNBOXED x then BOX 0 else BOX (of_bool (tag_at s x = CLOSURE_TAG)))"

definition Bboxed_patt :: "u32 \<Rightarrow> u32" where
  "Bboxed_patt x = BOX (if UNBOXED x then 0 else 1)"

definition Bunboxed_patt :: "u32 \<Rightarrow> u32" where
  "Bunboxed_patt x = BOX (if UNBOXED x then 1 else 0)"

definition Barray_tag_patt :: "gc_state \<Rightarrow> u32 \<Rightarrow> u32" where
  "Barray_tag_patt s x = (if UNBOXED x then BOX 0 else BOX (of_bool (tag_at s x = ARRAY_TAG)))"

definition Bstring_tag_patt :: "gc_state \<Rightarrow> u32 \<Rightarrow> u32" where
  "Bstring_tag_patt s x = (if UNBOXED x then BOX 0 else BOX (of_bool (tag_at s x = STRING_TAG)))"

definition Bsexp_tag_patt :: "gc_state \<Rightarrow> u32 \<Rightarrow> u32" where
  "Bsexp_tag_patt s x = (if UNBOXED x then BOX 0 else BOX (of_bool (tag_at s x = SEXP_TAG)))"

lemmas patt_defs = Bclosure_tag_patt_def Bboxed_patt_def Bunboxed_patt_def Barray_tag_patt_def
  Bstring_tag_patt_def Bsexp_tag_patt_def

section \<open>Integers of 31 bits\<close>

text \<open>\<open>ival v\<close>: the integer an unboxed value stands for; \<open>wrap31\<close>: reduction to its range.\<close>

definition ival :: "u32 \<Rightarrow> int" where
  "ival v = sint (UNBOX v)"

definition wrap31 :: "int \<Rightarrow> int" where
  "wrap31 z = signed_take_bit 30 z"

definition fits31 :: "int \<Rightarrow> bool" where
  "fits31 z \<longleftrightarrow> - 1073741824 \<le> z \<and> z < 1073741824"

lemma wrap31_fits: "fits31 z \<Longrightarrow> wrap31 z = z"
  by (simp add: wrap31_def fits31_def signed_take_bit_int_eq_self)

lemma fits31_wrap31 [simp]: "fits31 (wrap31 z)"
  using signed_take_bit_int_greater_eq_minus_exp [of 30 z] signed_take_bit_int_less_exp [of 30 z]
  by (simp add: wrap31_def fits31_def)

lemma fits31_sdiv: "fits31 a \<Longrightarrow> \<bar>a sdiv b\<bar> \<le> 1073741824"
  using sdiv_int_range [of a b] by (auto simp: fits31_def)

lemma ival_drop: "ival v = sint v div 2"
  by (simp add: ival_def UNBOX_def sint_signed_drop_bit_eq drop_bit_eq_div)

lemma fits31_ival [simp]: "fits31 (ival v)"
  using sint_range_size [of v] by (auto simp: ival_drop fits31_def word_size)

lemma ival_BOX: "ival (BOX x) = wrap31 (sint x)"
proof (rule bit_eqI)
  fix n :: nat
  consider "n < 30" | "n = 30" | "n = 31" | "31 < n" by linarith
  then show "bit (ival (BOX x)) n = bit (wrap31 (sint x)) n"
    by cases (auto simp: ival_def wrap31_def bit_sint_iff bit_UNBOX_BOX bit_signed_take_bit_iff
      dest: bit_imp_le_length)
qed

lemma ival_inj: "UNBOXED v \<Longrightarrow> UNBOXED w \<Longrightarrow> ival v = ival w \<longleftrightarrow> v = w"
  by (metis BOX_UNBOX ival_def signed_word_eqI)

lemma UNBOX_ival: "UNBOX v = word_of_int (ival v)"
  by (simp add: ival_def)

lemma ival_BOX_int: "ival (BOX (word_of_int z)) = wrap31 z"
  by (simp add: ival_BOX wrap31_def signed_of_int)

lemma UNBOX_zero_iff: "UNBOX v = 0 \<longleftrightarrow> ival v = 0"
  by (simp add: ival_def signed_eq_0_iff)

lemma div_traps_iff: "div_traps (UNBOX p) (UNBOX q) \<longleftrightarrow> ival q = 0"
proof -
  have "UNBOX p \<noteq> 0x80000000"
  proof
    assume "UNBOX p = 0x80000000"
    then have "ival p = - 2147483648" by (simp add: ival_def)
    then show False using fits31_ival [of p] by (simp add: fits31_def)
  qed
  then show ?thesis by (simp add: div_traps_def UNBOX_zero_iff)
qed

section \<open>What the operators compute\<close>

text \<open>
  \<open>returns_int r z\<close>: \<open>r\<close> returns the boxed integer \<open>z\<close>, reduced to 31 bits; the operators are
  the integer operations followed by that reduction.
\<close>

definition returns_int :: "u32 outcome \<Rightarrow> int \<Rightarrow> bool" where
  "returns_int r z \<longleftrightarrow> (\<exists>v. r = ok v \<and> UNBOXED v \<and> ival v = wrap31 z)"

lemma returns_int_BOX: "returns_int (ok (BOX (word_of_int z))) z"
  by (simp add: returns_int_def ival_BOX_int)

lemma arith2_returns_int:
  assumes "UNBOXED p" "UNBOXED q" "f (UNBOX p) (UNBOX q) = ok (word_of_int z)"
  shows "returns_int (arith2 nm f p q) z"
  using assms by (simp add: arith2_def assert_defs returns_int_BOX)

lemma arith2_of_bool:
  assumes "UNBOXED p" "UNBOXED q" "f (UNBOX p) (UNBOX q) = ok (of_bool b)"
  shows "returns_int (arith2 nm f p q) (of_bool b)"
  using assms by (intro arith2_returns_int) auto

lemma arith2_checks: "\<not> (UNBOXED p \<and> UNBOXED q) \<Longrightarrow> \<exists>e. arith2 nm f p q = err e"
  by (auto simp: arith2_def assert_defs)

lemma word_of_ival:
  "UNBOX p + UNBOX q = word_of_int (ival p + ival q)" "UNBOX p - UNBOX q = word_of_int (ival p - ival q)"
  "UNBOX p * UNBOX q = word_of_int (ival p * ival q)"
  by (simp_all add: ival_def)

end
