(* ===== verification/Bodies.thy ===== *)
theory Bodies
  imports Allocation Values
begin

text \<open>
  Writes into the body of an object, seen through the abstract heap: the body of one object
  changes and nothing else. From this follow what \<open>Bsta\<close> and \<open>Belem\<close> do to arrays and
  S-expressions, and the loops that fill fresh objects.
\<close>

section \<open>Changing a body\<close>

lemma load32_outside:
  assumes out: "\<And>a. n \<le> unat (a - ptr b k) \<Longrightarrow> m' a = m a"
    and "j + 4 \<le> k \<or> k + n \<le> j" "k < 4294967296" "j + 4 \<le> 4294967296" "k + n \<le> 4294967296"
  shows "load32 m' (ptr b j) = load32 m (ptr b j)"
proof -
  have "m' (ptr b (j + d)) = m (ptr b (j + d))" if "d < 4" for d
    using unat_ptr_diff_less [of k "j + d" n b] assms that by (intro out) auto
  from this [of 0] this [of 1] this [of 2] this [of 3] show ?thesis by (intro load32_cong) simp_all
qed

definition body_at :: "memory \<Rightarrow> addr \<Rightarrow> nat \<Rightarrow> nat \<Rightarrow> u32 list" where
  "body_at m b k n = map (\<lambda>j. load32 m (ptr b (k + 4 * j))) [0..<n]"

definition with_body :: "obj list \<Rightarrow> nat \<Rightarrow> u32 list \<Rightarrow> obj list" where
  "with_body os i ws = os[i := (os ! i)\<lparr>o_body := ws\<rparr>]"

lemma with_body_simps [simp]: "length (with_body os i ws) = length os"
  "i < length os \<Longrightarrow> with_body os i ws ! k = (if k = i then (os ! i)\<lparr>o_body := ws\<rparr> else os ! k)"
  by (auto simp: with_body_def)

lemma opos_with_body [simp]:
  "i < length os \<Longrightarrow> length ws = length (o_body (os ! i)) \<Longrightarrow> opos (with_body os i ws) k = opos os k"
  by (simp add: with_body_def osz_def)

lemma wf_with_body: "wf_obj o' \<Longrightarrow> length ws = length (o_body o') \<Longrightarrow> wf_obj (o'\<lparr>o_body := ws\<rparr>)"
  by (cases "ws = []") (auto simp: wf_obj_def otype_def)

lemma heap_view_rebody:
  assumes v: "heap_view s os" and i: "i < length os"
    and out: "\<And>a. 4 * length (o_body (os ! i)) \<le> unat (a - ptr (chunk_begin (heap s)) (opos os i + 8)) \<Longrightarrow>
      m a = mem s a"
  shows "heap_view (s\<lparr>mem := m\<rparr>)
    (with_body os i (body_at m (chunk_begin (heap s)) (opos os i + 8) (length (o_body (os ! i)))))"
proof -
  let ?b = "chunk_begin (heap s)" and ?k = "opos os i + 8" and ?n = "length (o_body (os ! i))"
  let ?os = "with_body os i (body_at m ?b ?k ?n)"
  have tot: "opos os (length os) < 4294967296" using heap_view_bounds [OF v, of "length os"] by simp
  have end': "opos os j + 8 + 4 * length (o_body (os ! j)) \<le> opos os (length os)" if "j < length os" for j
    using opos_end [OF that] by (simp add: osz_def)
  have ld: "load32 m (ptr ?b j) = load32 (mem s) (ptr ?b j)"
    if "j + 4 \<le> ?k \<or> ?k + 4 * ?n \<le> j" "j + 4 \<le> opos os (length os)" for j
    using that tot end' [OF i] load32_outside [of "4 * ?n" ?b ?k m "mem s" j, OF out] by auto
  have len: "length (body_at m ?b ?k ?n) = ?n" by (simp add: body_at_def)
  have "obj_at m ?b (opos os j) (?os ! j)" if j: "j < length os" for j
  proof (cases "j = i")
    case True
    with heap_view_obj [OF v i] end' [OF i] show ?thesis
      by (simp add: obj_at_def words_at_def body_at_def ld i)
  next
    case False
    then have "opos os j + 4 * osz (os ! j) \<le> opos os i \<or> opos os i + 4 * osz (os ! i) \<le> opos os j"
      using opos_less [of j i os] opos_less [of i j os] i j by linarith
    with False heap_view_obj [OF v j] end' [OF j] show ?thesis
      by (auto simp: obj_at_def words_at_def ld i osz_def)
  qed
  moreover have "wf_obj x" if "x \<in> set ?os" for x
    using that heap_view_obj [OF v] wf_with_body [OF _ len] i
    by (auto simp: in_set_conv_nth split: if_splits)
  ultimately show ?thesis
    using v i len by (simp add: heap_view_def objs_at_def)
qed

lemma body_at_view: "heap_view s os \<Longrightarrow> i < length os \<Longrightarrow>
    body_at (mem s) (chunk_begin (heap s)) (opos os i + 8) (length (o_body (os ! i))) = o_body (os ! i)"
  using heap_view_obj [of s os i] by (intro nth_equalityI) (auto simp: body_at_def obj_at_def words_at_def)

text \<open>One word of a body.\<close>

lemma body_at_store:
  assumes "j < n" "k + 4 * n \<le> 4294967296"
  shows "body_at (store32 m (ptr b (k + 4 * j)) w) b k n = (body_at m b k n)[j := w]"
proof (rule nth_equalityI)
  fix i assume "i < length (body_at (store32 m (ptr b (k + 4 * j)) w) b k n)"
  then have i: "i < n" by (simp add: body_at_def)
  have "load32 (store32 m (ptr b (k + 4 * j)) w) (ptr b (k + 4 * i)) = load32 m (ptr b (k + 4 * i))" if "i \<noteq> j"
    using that assms i by (intro load32_store32_other) auto
  with i assms show "body_at (store32 m (ptr b (k + 4 * j)) w) b k n ! i = (body_at m b k n)[j := w] ! i"
    by (cases "i = j") (simp_all add: body_at_def)
qed (simp add: body_at_def)

definition field_addr :: "addr \<Rightarrow> obj list \<Rightarrow> nat \<Rightarrow> nat \<Rightarrow> addr" where
  "field_addr b os i j = ptr b (opos os i + 8 + 4 * j)"

lemma body_bound: "heap_view s os \<Longrightarrow> i < length os \<Longrightarrow>
    opos os i + 8 + 4 * length (o_body (os ! i)) \<le> opos os (length os)
    \<and> opos os (length os) < 4294967296"
  using opos_end [of i os] heap_view_bounds [of s os "length os"] by (simp add: osz_def)

theorem heap_view_store:
  assumes v: "heap_view s os" and i: "i < length os" and j: "j < length (o_body (os ! i))"
  shows "heap_view (s\<lparr>mem := store32 (mem s) (field_addr (chunk_begin (heap s)) os i j) w\<rparr>)
    (with_body os i ((o_body (os ! i))[j := w]))"
proof -
  let ?b = "chunk_begin (heap s)" and ?k = "opos os i + 8" and ?n = "length (o_body (os ! i))"
  have bd: "?k + 4 * ?n \<le> 4294967296" using body_bound [OF v i] by simp
  have "store32 (mem s) (field_addr ?b os i j) w a = mem s a" if "4 * ?n \<le> unat (a - ptr ?b ?k)" for a
    using store32_outside [of "4 * j" "4 * ?n" a "ptr ?b ?k"] that j bd by (simp add: field_addr_def)
  from heap_view_rebody [OF v i this] body_at_store [OF j bd, of "mem s" ?b w] body_at_view [OF v i]
  show ?thesis by (simp add: field_addr_def)
qed

section \<open>\<open>Bsta\<close> and \<open>Belem\<close>\<close>

text \<open>The words of an object that a program can index: a S-expression's tag is not one of them.\<close>

definition elem_base :: "obj \<Rightarrow> nat" where
  "elem_base o' = (if otype o' = SEXP then 1 else 0)"

lemma cadr_boxed: "heap_view s os \<Longrightarrow> i < length os \<Longrightarrow> \<not> UNBOXED (cadr (chunk_begin (heap s)) os i)"
  by (rule aligned_not_UNBOXED [OF cadr_aligned])

lemma kind_of_otype: "wf_obj o' \<Longrightarrow> TAG (o_hdr o') = kind_of (otype o')"
  by (auto simp: wf_obj_def otype_def kind_of_def tag_defs Let_def)

lemma tag_at_view: "heap_view s os \<Longrightarrow> i < length os \<Longrightarrow>
    tag_at s (cadr (chunk_begin (heap s)) os i) = kind_of (otype (os ! i))"
  using heap_view_obj [of s os i] kind_of_otype
  by (simp add: tag_at_def data_header_def hadr_def obj_at_def)

lemma len_at_view: "heap_view s os \<Longrightarrow> i < length os \<Longrightarrow>
    len_at s (cadr (chunk_begin (heap s)) os i) = LEN (o_hdr (os ! i))"
  using heap_view_obj [of s os i] by (simp add: len_at_def data_header_def hadr_def obj_at_def)

lemma kind_of_eq_iff [simp]:
  "kind_of t = STRING_TAG \<longleftrightarrow> t = STRING" "kind_of t = ARRAY_TAG \<longleftrightarrow> t = ARRAY"
  "kind_of t = SEXP_TAG \<longleftrightarrow> t = SEXP" "kind_of t = CLOSURE_TAG \<longleftrightarrow> t = CLOSURE"
  by (cases t; simp add: kind_of_def tag_defs)+

lemma UNBOX_BOX_small: "j < 1073741824 \<Longrightarrow> UNBOX (BOX (word_of_nat j)) = word_of_nat j"
proof -
  assume j: "j < 1073741824"
  then have "\<not> bit (unat (word_of_nat j :: u32)) 31" "\<not> bit (unat (word_of_nat j :: u32)) 30"
    by (simp_all add: bit_iff_odd unat_of_nat_u32)
  then show ?thesis by (simp add: UNBOX_BOX_eq_iff bit_unsigned_iff)
qed

lemma cadr_index: "contents (hadr b os i) = cadr b os i"
  "cadr b os i + 4 * word_of_nat j = field_addr b os i j"
  "cadr b os i + (4 * word_of_nat j + 4) = field_addr b os i (Suc j)"
  by (simp_all add: cadr_def hadr_def contents_def field_addr_def ptr_def algebra_simps)

lemma Belem_view:
  assumes v: "heap_view s os" and i: "i < length os" and t: "otype (os ! i) \<noteq> STRING"
    and j: "elem_base (os ! i) + j < length (o_body (os ! i))" "j < 1073741824"
  shows "Belem s (cadr (chunk_begin (heap s)) os i) (BOX (word_of_nat j))
    = ok (o_body (os ! i) ! (elem_base (os ! i) + j))"
proof -
  let ?b = "chunk_begin (heap s)"
  have ld: "load32 (mem s) (field_addr ?b os i k) = o_body (os ! i) ! k" if "k < length (o_body (os ! i))" for k
    using heap_view_obj [OF v i] that by (simp add: obj_at_def words_at_def field_addr_def)
  show ?thesis
    using cadr_boxed [OF v i] t j ld [of j] ld [of "Suc j"]
    by (simp add: Belem_def assert_defs tag_at_view [OF v i] UNBOX_BOX_small elem_base_def Let_def
        cadr_index split: if_splits)
qed

lemma Bsta_view:
  assumes v: "heap_view s os" and i: "i < length os" and t: "otype (os ! i) \<noteq> STRING"
    and j: "elem_base (os ! i) + j < length (o_body (os ! i))" "j < 1073741824"
  shows "\<exists>s'. Bsta w (BOX (word_of_nat j)) (cadr (chunk_begin (heap s)) os i) s = ok (w, s')
    \<and> heap_view s' (with_body os i ((o_body (os ! i))[elem_base (os ! i) + j := w])) \<and> heap s' = heap s"
  using cadr_boxed [OF v i] t j heap_view_store [OF v i, of "elem_base (os ! i) + j" w]
  by (auto simp: Bsta_def assert_defs tag_at_view [OF v i] UNBOX_BOX_small elem_base_def cadr_index)

end
