(* ===== verification/Updating.thy ===== *)
theory Updating
  imports Bodies
begin

text \<open>
  \<open>update_references\<close> of gc.c: after the chunk has been moved, every reference to a marked object,
  in a field of a marked object, on the stack or in an extra root, is replaced by the address the
  object will have when it has slid down in the new chunk. \<open>fwd_value\<close> is that replacement.
\<close>

section \<open>Where a reference goes\<close>

definition fwd_value :: "addr \<Rightarrow> addr \<Rightarrow> obj list \<Rightarrow> nat set \<Rightarrow> u32 \<Rightarrow> u32" where
  "fwd_value b nb os M v = (case find (\<lambda>k. k \<in> M \<and> v = cadr b os k) [0..<length os] of
     None \<Rightarrow> v | Some k \<Rightarrow> ptr nb (lpos os M k + 8))"

text \<open>
  \<open>moved old M s os\<close>: the heap of \<open>s\<close> holds the objects \<open>os\<close>, moved from the chunk \<open>old\<close>; those in \<open>M\<close>
  are marked, and their forward addresses, computed in the old chunk, slide them down.
\<close>

definition moved :: "memory_chunk \<Rightarrow> nat set \<Rightarrow> gc_state \<Rightarrow> obj list \<Rightarrow> bool" where
  "moved old M s os \<longleftrightarrow> heap_view s os \<and> unat (chunk_begin old) mod 4 = 0
     \<and> chunk_current old = ptr (chunk_begin old) (opos os (length os))
     \<and> unat (chunk_begin old) + opos os (length os) < 4294967296
     \<and> marks os = M \<and> (\<forall>k\<in>M. fadr (os ! k) = ptr (chunk_begin old) (lpos os M k))"

text \<open>A word that looks like a reference into the old chunk refers to a marked object.\<close>

definition ref_ok :: "memory_chunk \<Rightarrow> nat set \<Rightarrow> obj list \<Rightarrow> u32 \<Rightarrow> bool" where
  "ref_ok old M os v \<longleftrightarrow> (is_valid_pointer v \<and> in_chunk old v \<longrightarrow> (\<exists>k\<in>M. v = cadr (chunk_begin old) os k))"

abbreviation fwd_in :: "memory_chunk \<Rightarrow> nat set \<Rightarrow> gc_state \<Rightarrow> obj list \<Rightarrow> u32 \<Rightarrow> u32" where
  "fwd_in old M s os \<equiv> fwd_value (chunk_begin old) (chunk_begin (heap s)) os M"

lemma moved_view: "moved old M s os \<Longrightarrow> heap_view s os"
  by (simp add: moved_def)

lemma moved_less: "moved old M s os \<Longrightarrow> k \<in> M \<Longrightarrow> k < length os"
  using marks_subset [of os] by (auto simp: moved_def)

lemma moved_cadr_bound:
  assumes "moved old M s os" "k < length os"
  shows "unat (chunk_begin old) + (opos os k + 8) < 4294967296" "opos os k + 8 \<le> opos os (length os)"
proof -
  show "opos os k + 8 \<le> opos os (length os)" using opos_end [OF assms(2)] by (simp add: osz_def)
  with assms(1) show "unat (chunk_begin old) + (opos os k + 8) < 4294967296" by (simp add: moved_def)
qed

lemma moved_cadr:
  assumes "moved old M s os" "k < length os"
  shows "is_valid_pointer (cadr (chunk_begin old) os k)" "in_chunk old (cadr (chunk_begin old) os k)"
proof -
  note bd = moved_cadr_bound [OF assms]
  have "unat (cadr (chunk_begin old) os k) mod 4 = 0"
  proof -
    have "(opos os k + 8) mod 4 = 0" by (simp add: opos_def)
    moreover have "unat (chunk_begin old) mod 4 = 0" using assms(1) by (simp add: moved_def)
    ultimately have "(unat (chunk_begin old) + (opos os k + 8)) mod 4 = 0" by (metis mod_add_eq add_0 mod_0)
    then show ?thesis using bd(1) by (simp add: cadr_def unat_ptr)
  qed
  then show "is_valid_pointer (cadr (chunk_begin old) os k)"
    using aligned_not_UNBOXED aligned_unat by (simp add: is_valid_pointer_def)
  show "in_chunk old (cadr (chunk_begin old) os k)"
    using assms(1) bd by (simp add: in_chunk_def moved_def cadr_def ptr_le_iff word_le_nat_alt [of "chunk_begin old"] unat_ptr)
qed

lemma moved_cadr_inj:
  assumes "moved old M s os" "i < length os" "j < length os" "cadr (chunk_begin old) os i = cadr (chunk_begin old) os j"
  shows "i = j"
proof -
  have "opos os i + 8 = opos os j + 8"
    using assms(4) moved_cadr_bound(1) [OF assms(1,2)] moved_cadr_bound(1) [OF assms(1,3)]
    by (simp add: cadr_def ptr_eq_iff)
  then have "opos os i = opos os j" by simp
  then show ?thesis using assms(2,3) by (intro opos_inj [of i os j]) simp_all
qed

lemma fwd_value_marked:
  assumes "moved old M s os" "k \<in> M"
  shows "fwd_value (chunk_begin old) nb os M (cadr (chunk_begin old) os k) = ptr nb (lpos os M k + 8)"
proof -
  have k: "k < length os" by (rule moved_less [OF assms])
  let ?P = "\<lambda>i. i \<in> M \<and> cadr (chunk_begin old) os k = cadr (chunk_begin old) os i"
  have "find ?P [0..<length os] \<noteq> None" using k assms(2) by (auto simp: find_None_iff)
  then obtain i where i: "find ?P [0..<length os] = Some i" by blast
  then have "i < length os" "?P i" by (auto simp: find_Some_iff)
  then have "i = k" using moved_cadr_inj [OF assms(1), of i k] k by simp
  with i show ?thesis by (simp add: fwd_value_def)
qed

lemma fwd_value_other: "\<not> (\<exists>k\<in>M. k < length os \<and> v = cadr b os k) \<Longrightarrow> fwd_value b nb os M v = v"
  by (auto simp: fwd_value_def find_Some_iff split: option.splits)

lemma fwd_value_outside:
  assumes "moved old M s os" "\<not> (is_valid_pointer v \<and> in_chunk old v)"
  shows "fwd_value (chunk_begin old) nb os M v = v"
  using moved_cadr [OF assms(1)] assms(2) by (intro fwd_value_other) auto

lemma fwd_value_unboxed: "moved old M s os \<Longrightarrow> UNBOXED v \<Longrightarrow> fwd_value (chunk_begin old) nb os M v = v"
  by (rule fwd_value_outside) (simp_all add: is_valid_pointer_def)

lemma forwarded_view:
  assumes m: "moved old M s os" and k: "k \<in> M"
  shows "forwarded old (cadr (chunk_begin old) os k) s = ok (ptr (chunk_begin (heap s)) (lpos os M k + 8))"
proof -
  let ?nb = "chunk_begin (heap s)"
  note v = moved_view [OF m] and l = moved_less [OF m k]
  have o: "?nb + (cadr (chunk_begin old) os k - chunk_begin old) = cadr ?nb os k"
    by (simp add: cadr_def ptr_def)
  have "get_forward_address s (cadr ?nb os k) = ptr (chunk_begin old) (lpos os M k)"
    using get_forward_address_view [OF gc_rel_refl [OF v] l] m k by (simp add: moved_def)
  then show ?thesis
    using get_type_row_ptr_view [OF v l] unfolding forwarded_def o by simp (simp add: ptr_def)
qed

lemma forwarded_ref:
  assumes m: "moved old M s os" and r: "ref_ok old M os v"
    and v: "is_valid_pointer v" "in_chunk old v"
  shows "forwarded old v s = ok (fwd_in old M s os v)"
proof -
  from r v obtain k where k: "k \<in> M" "v = cadr (chunk_begin old) os k" by (auto simp: ref_ok_def)
  show ?thesis using forwarded_view [OF m k(1)] fwd_value_marked [OF m k(1)] k(2) by simp
qed

section \<open>Rewriting the body of one object\<close>

lemma lpos_cong: "map osz os = map osz os' \<Longrightarrow> i \<le> length os \<Longrightarrow> lpos os M i = lpos os' M i"
proof -
  assume e: "map osz os = map osz os'" and i: "i \<le> length os"
  then have "osz (os ! k) = osz (os' ! k)" if "k < i" for k
    using that by (metis length_map nth_map order_less_le_trans)
  then show ?thesis unfolding lpos_def by (intro arg_cong2 [of _ _ _ _ "(*)"] refl sum.cong) auto
qed

text \<open>The objects keep their sizes, so nothing that depends on their positions changes.\<close>

lemma fwd_value_cong:
  assumes "map osz os = map osz os'"
  shows "fwd_value b nb os M = fwd_value b nb os' M"
proof
  fix v
  have l: "length os = length os'" using assms by (metis length_map)
  have c: "cadr b os = cadr b os'" using opos_cong [OF assms] by (simp add: cadr_def fun_eq_iff)
  show "fwd_value b nb os M v = fwd_value b nb os' M v"
  proof (cases "find (\<lambda>k. k \<in> M \<and> v = cadr b os k) [0..<length os]")
    case None
    then show ?thesis by (simp add: fwd_value_def flip: l c)
  next
    case (Some k)
    then have "k \<le> length os" by (auto simp: find_Some_iff)
    with Some show ?thesis using lpos_cong [OF assms] by (simp add: fwd_value_def flip: l c)
  qed
qed

lemma ref_ok_cong: "map osz os = map osz os' \<Longrightarrow> ref_ok old M os = ref_ok old M os'"
  using opos_cong [of os os'] by (simp add: ref_ok_def cadr_def fun_eq_iff)

lemma moved_rebody:
  assumes m: "moved old M s os" and v: "heap_view s' os'" and z: "map osz os' = map osz os"
    and f: "\<And>k. k < length os \<Longrightarrow> o_fwd (os' ! k) = o_fwd (os ! k)"
  shows "moved old M s' os'"
proof -
  have l: "length os' = length os" using z by (metis length_map)
  have "opos os' (length os') = opos os (length os)" using opos_cong [OF z] l by simp
  moreover have "marks os' = marks os" using f l by (auto simp: marks_def marked_def)
  moreover have "\<forall>k\<in>M. fadr (os' ! k) = ptr (chunk_begin old) (lpos os' M k)"
  proof
    fix k assume k: "k \<in> M"
    then have "k < length os" by (rule moved_less [OF m])
    then show "fadr (os' ! k) = ptr (chunk_begin old) (lpos os' M k)"
      using m k f lpos_cong [OF z, of k M] l by (simp add: moved_def fadr_def)
  qed
  ultimately show ?thesis using m v by (simp add: moved_def)
qed

lemma osz_with_body: "i < length os \<Longrightarrow> length ws = length (o_body (os ! i)) \<Longrightarrow>
    map osz (with_body os i ws) = map osz os"
  by (intro nth_equalityI) (auto simp: osz_def)

lemma same_outside_store:
  assumes "heap_view s os" "i < length os" "j < length (o_body (os ! i))"
  shows "same_outside (opos os (length os)) s
    (s\<lparr>mem := store32 (mem s) (ptr (chunk_begin (heap s)) (opos os i + 8 + 4 * j)) w\<rparr>)"
proof -
  have "opos os i + 8 + 4 * j + 4 \<le> opos os (length os)" "opos os (length os) \<le> 4294967296"
    using body_bound [OF assms(1,2)] assms(3) by linarith+
  then show ?thesis using store32_outside by (simp add: same_outside_def)
qed

section \<open>The fields of one object\<close>

lemma update_field_step:
  assumes m: "moved old M s os" and i: "i < length os" and j: "j < length (o_body (os ! i))"
    and u: "\<not> UNBOXED (o_body (os ! i) ! j)" and r: "ref_ok old M os (o_body (os ! i) ! j)"
  shows "\<exists>s'. (if o_body (os ! i) ! j < chunk_begin old \<or> chunk_current old < o_body (os ! i) ! j then ok s
      else andthen (forwarded old (o_body (os ! i) ! j) s)
        (\<lambda>v. ok (s\<lparr>mem := store32 (mem s) (it_cur_field (iter_at (chunk_begin (heap s)) os i j)) v\<rparr>))) = ok s'
    \<and> moved old M s' (with_body os i ((o_body (os ! i))[j := fwd_in old M s os (o_body (os ! i) ! j)]))
    \<and> same_outside (opos os (length os)) s s'"
proof (cases "in_chunk old (o_body (os ! i) ! j)")
  case False
  then have "fwd_in old M s os (o_body (os ! i) ! j) = o_body (os ! i) ! j"
    by (intro fwd_value_outside [OF m]) simp
  moreover have "with_body os i (o_body (os ! i)) = os" by (simp add: with_body_def)
  ultimately show ?thesis using m False by (auto simp: in_chunk_def not_le)
next
  case True
  let ?ws = "(o_body (os ! i))[j := fwd_in old M s os (o_body (os ! i) ! j)]"
  let ?s = "s\<lparr>mem := store32 (mem s) (it_cur_field (iter_at (chunk_begin (heap s)) os i j))
      (fwd_in old M s os (o_body (os ! i) ! j))\<rparr>"
  have "heap_view ?s (with_body os i ?ws)"
    using heap_view_store [OF moved_view [OF m] i j] by (simp add: field_addr_def iter_at_def)
  then have "moved old M ?s (with_body os i ?ws)"
    using i osz_with_body [OF i, of ?ws] by (intro moved_rebody [OF m]) auto
  moreover have "same_outside (opos os (length os)) s ?s"
    using same_outside_store [OF moved_view [OF m] i j] by (simp add: iter_at_def)
  moreover have "forwarded old (o_body (os ! i) ! j) s = ok (fwd_in old M s os (o_body (os ! i) ! j))"
    using forwarded_ref [OF m r _ True] u by (simp add: is_valid_pointer_def)
  ultimately show ?thesis using True by (auto simp: in_chunk_def)
qed

text \<open>The words from position \<open>j\<close> on are rewritten; integers are not changed by it.\<close>

definition rewrite_from :: "(u32 \<Rightarrow> u32) \<Rightarrow> nat \<Rightarrow> u32 list \<Rightarrow> u32 list" where
  "rewrite_from f j ws = take j ws @ map f (drop j ws)"

lemma length_rewrite_from [simp]: "length (rewrite_from f j ws) = length ws"
  by (simp add: rewrite_from_def)

lemma rewrite_from_end [simp]: "length ws \<le> j \<Longrightarrow> rewrite_from f j ws = ws"
  by (simp add: rewrite_from_def)

lemma nth_rewrite_from: "k < length ws \<Longrightarrow> rewrite_from f j ws ! k = (if k < j then ws ! k else f (ws ! k))"
  by (auto simp: rewrite_from_def nth_append)

lemma rewrite_from_step: "j < length ws \<Longrightarrow> rewrite_from f (Suc j) (ws[j := f (ws ! j)]) = rewrite_from f j ws"
  by (intro nth_equalityI) (auto simp: nth_rewrite_from nth_list_update less_Suc_eq)

lemma rewrite_from_skip:
  assumes "\<And>v. UNBOXED v \<Longrightarrow> f v = v"
  shows "rewrite_from f (next_ptr ws j) ws = rewrite_from f j ws"
proof (induction ws j rule: next_ptr.induct)
  case (1 ws j)
  show ?case
  proof (cases "j < length ws \<and> UNBOXED (ws ! j)")
    case True
    then have "rewrite_from f (Suc j) ws = rewrite_from f j ws"
      using rewrite_from_step [of j ws f] assms by simp
    with 1 True show ?thesis by (simp add: next_ptr.simps [of ws j])
  next
    case False
    then have "next_ptr ws j = j" by (subst next_ptr.simps) auto
    then show ?thesis by simp
  qed
qed

lemma iter_at_with_body [simp]: "i < length os \<Longrightarrow> length ws = length (o_body (os ! i)) \<Longrightarrow>
    iter_at b (with_body os i ws) i j = iter_at b os i j"
  by (simp add: iter_at_def hadr_def otype_def)

lemma with_body_twice [simp]: "with_body (with_body os i ws) i ws' = with_body os i ws'"
  by (cases "i < length os") (simp_all add: with_body_def list_update_beyond)

lemma update_fields_view:
  assumes "moved old M s os" "i < length os" "otype (os ! i) \<noteq> STRING" "j \<le> length (o_body (os ! i))"
    "j < length (o_body (os ! i)) \<Longrightarrow> \<not> UNBOXED (o_body (os ! i) ! j)"
    "\<And>v. v \<in> set (drop j (o_body (os ! i))) \<Longrightarrow> ref_ok old M os v"
  shows "\<exists>s'. update_fields old (iter_at (chunk_begin (heap s)) os i j) s = ok s'
    \<and> moved old M s' (with_body os i (rewrite_from (fwd_in old M s os) j (o_body (os ! i))))
    \<and> same_outside (opos os (length os)) s s'"
  using assms
proof (induction "length (o_body (os ! i)) - j" arbitrary: j s os rule: less_induct)
  case less
  let ?ws = "o_body (os ! i)" and ?b = "chunk_begin (heap s)" and ?f = "fwd_in old M s os"
  note v = moved_view [OF less.prems(1)] and i = less.prems(2)
  have dn: "field_is_done_iterator s (iter_at ?b os i j) = ok (j = length ?ws)"
    by (rule field_is_done_view [OF v i less.prems(3,4)])
  show ?case
  proof (cases "j = length ?ws")
    case True
    moreover have "with_body os i ?ws = os" by (simp add: with_body_def)
    ultimately show ?thesis using dn less.prems(1) by (simp add: update_fields.simps)
  next
    case False
    then have j: "j < length ?ws" using less.prems(4) by simp
    let ?ws1 = "?ws[j := ?f (?ws ! j)]"
    let ?os1 = "with_body os i ?ws1" and ?j1 = "next_ptr ?ws1 (Suc j)"
    have "ref_ok old M os (?ws ! j)" using less.prems(6) j by (simp add: Cons_nth_drop_Suc [symmetric])
    from update_field_step [OF less.prems(1) i j less.prems(5) [OF j] this] obtain s1 where
      1: "(if ?ws ! j < chunk_begin old \<or> chunk_current old < ?ws ! j then ok s
        else andthen (forwarded old (?ws ! j) s)
          (\<lambda>v. ok (s\<lparr>mem := store32 (mem s) (it_cur_field (iter_at ?b os i j)) v\<rparr>))) = ok s1"
      "moved old M s1 ?os1" "same_outside (opos os (length os)) s s1" by blast
    have b1: "chunk_begin (heap s1) = ?b" using 1(3) by (simp add: same_outside_globals)
    have i1: "i < length ?os1" and t1: "otype (?os1 ! i) \<noteq> STRING" and w1: "o_body (?os1 ! i) = ?ws1"
      using i less.prems(3) by (simp_all add: otype_def)
    have z: "map osz ?os1 = map osz os" using i by (simp add: osz_with_body)
    have f1: "fwd_in old M s1 ?os1 = ?f" unfolding b1 by (rule fwd_value_cong [OF z])
    have nx: "obj_next_ptr_field_iterator s1 (iter_at ?b os i j) = ok (iter_at ?b os i ?j1)"
      using obj_next_ptr_field_iterator_view [OF moved_view [OF 1(2)] i1 t1, of j] j i by (simp add: b1 w1)
    have j1: "Suc j \<le> ?j1" "?j1 \<le> length ?ws1" using next_ptr_le [of "Suc j" ?ws1] j by simp_all
    have "\<exists>s'. update_fields old (iter_at (chunk_begin (heap s1)) ?os1 i ?j1) s1 = ok s'
        \<and> moved old M s' (with_body ?os1 i (rewrite_from (fwd_in old M s1 ?os1) ?j1 (o_body (?os1 ! i))))
        \<and> same_outside (opos ?os1 (length ?os1)) s1 s'"
    proof (rule less.hyps)
      show "length (o_body (?os1 ! i)) - ?j1 < length ?ws - j" using j1 j w1 by simp
      show "moved old M s1 ?os1" by (rule 1(2))
      show "ref_ok old M ?os1 v" if "v \<in> set (drop ?j1 (o_body (?os1 ! i)))" for v
      proof -
        have "v \<in> set (drop (Suc j) ?ws)" using that set_drop_subset_set_drop [OF j1(1), of ?ws1] w1 by auto
        then have "v \<in> set (drop j ?ws)" using set_drop_subset_set_drop [of j "Suc j" ?ws] by auto
        then show ?thesis using less.prems(6) ref_ok_cong [OF z] by metis
      qed
    qed (use i1 t1 w1 j1 next_ptr_stops [of ?ws1 "Suc j"] in auto)
    then obtain s2 where
      2: "update_fields old (iter_at ?b os i ?j1) s1 = ok s2"
      "moved old M s2 (with_body os i (rewrite_from ?f ?j1 ?ws1))" "same_outside (opos ?os1 (length ?os1)) s1 s2"
      using i by (auto simp: b1 f1 [unfolded b1])
    have "rewrite_from ?f ?j1 ?ws1 = rewrite_from ?f j ?ws"
      using rewrite_from_skip [of ?f ?ws1 "Suc j"] fwd_value_unboxed [OF less.prems(1)]
        rewrite_from_step [OF j, of ?f] by simp
    moreover have "same_outside (opos os (length os)) s s2"
      using same_outside_trans [OF 1(3)] 2(3) i by simp
    moreover have "update_fields old (iter_at ?b os i j) s = ok s2"
      using dn False 1(1) nx 2(1) by (subst update_fields.simps) (simp add: field_load_view [OF v i j] del: not_less)
    ultimately show ?thesis using 2(2) by auto
  qed
qed

section \<open>All objects\<close>

definition refreshed :: "(u32 \<Rightarrow> u32) \<Rightarrow> obj \<Rightarrow> obj" where
  "refreshed f o' = o'\<lparr>o_body := rewrite_from f (first_field o') (o_body o')\<rparr>"

definition refresh :: "(u32 \<Rightarrow> u32) \<Rightarrow> nat set \<Rightarrow> nat \<Rightarrow> obj list \<Rightarrow> obj list" where
  "refresh f M i os = map (\<lambda>k. if i \<le> k \<and> k \<in> M then refreshed f (os ! k) else os ! k) [0..<length os]"

lemma refresh_simps [simp]: "length (refresh f M i os) = length os"
  "k < length os \<Longrightarrow> refresh f M i os ! k = (if i \<le> k \<and> k \<in> M then refreshed f (os ! k) else os ! k)"
  by (simp_all add: refresh_def)

lemma refreshed_simps [simp]: "o_hdr (refreshed f o') = o_hdr o'" "o_fwd (refreshed f o') = o_fwd o'"
  "osz (refreshed f o') = osz o'" "otype (refreshed f o') = otype o'"
  by (simp_all add: refreshed_def osz_def otype_def)

lemma refreshed_string: "otype o' = STRING \<Longrightarrow> refreshed f o' = o'"
  by (simp add: refreshed_def first_field_def)

lemma osz_refresh: "map osz (refresh f M i os) = map osz os"
  by (intro nth_equalityI) auto

lemma drop_next_ptr_subset: "set (drop (next_ptr ws j) ws) \<subseteq> set (drop j ws)"
  by (induction ws j rule: next_ptr.induct)
    (metis (no_types, lifting) next_ptr.simps set_drop_subset_set_drop lessI less_imp_le order_trans order_refl)

text \<open>What the pass does to one object.\<close>

lemma update_object_view:
  assumes m: "moved old M s os" and i: "i < length os"
    and r: "\<And>v. i \<in> M \<Longrightarrow> v \<in> set (fields (os ! i)) \<Longrightarrow> ref_ok old M os v"
  shows "\<exists>s'. (if is_marked s (cadr (chunk_begin (heap s)) os i)
      then andthen (ptr_field_begin_iterator s (hadr (chunk_begin (heap s)) os i)) (\<lambda>f. update_fields old f s)
      else ok s) = ok s'
    \<and> moved old M s' (if i \<in> M then os[i := refreshed (fwd_in old M s os) (os ! i)] else os)
    \<and> same_outside (opos os (length os)) s s'"
proof -
  let ?b = "chunk_begin (heap s)" and ?f = "fwd_in old M s os" and ?ws = "o_body (os ! i)"
    and ?j = "next_ptr (o_body (os ! i)) (first_field (os ! i))"
  note v = moved_view [OF m]
  have wf: "wf_obj (os ! i)" using heap_view_obj [OF v i] by blast
  have mk: "is_marked s (cadr ?b os i) \<longleftrightarrow> i \<in> M"
    using is_marked_view [OF gc_rel_refl [OF v] i] m i by (auto simp: moved_def marks_def)
  have f: "?f w = w" if "UNBOXED w" for w by (rule fwd_value_unboxed [OF m that])
  consider (unmarked) "i \<notin> M" | (str) "i \<in> M" "otype (os ! i) = STRING" | (ptrs) "i \<in> M" "otype (os ! i) \<noteq> STRING"
    by blast
  then show ?thesis
  proof cases
    case unmarked
    with m mk show ?thesis by simp
  next
    case str
    obtain it where it: "ptr_field_begin_iterator s (hadr ?b os i) = ok it" "it_obj_ptr it = hadr ?b os i"
      "it_cur_field it = ptr ?b (opos os i + obytes (os ! i))"
      using ptr_field_begin_string [OF v i str(2)] by blast
    then have "field_is_done_iterator s it = ok True"
      by (simp add: field_is_done_iterator_def get_end_of_obj_view [OF v i])
    then have "update_fields old it s = ok s" by (simp add: update_fields.simps)
    moreover have "os[i := refreshed ?f (os ! i)] = os" by (simp add: refreshed_string [OF str(2)])
    ultimately show ?thesis using m mk it str by simp
  next
    case ptrs
    have j: "?j \<le> length ?ws" using next_ptr_le [OF first_field_le [OF wf]] by simp
    have "ref_ok old M os w" if "w \<in> set (drop ?j ?ws)" for w
      using that drop_next_ptr_subset r ptrs(1) by (fastforce simp: fields_def)
    from update_fields_view [OF m i ptrs(2) j next_ptr_stops this] obtain s' where
      "update_fields old (iter_at ?b os i ?j) s = ok s'" "moved old M s' (with_body os i (rewrite_from ?f ?j ?ws))"
      "same_outside (opos os (length os)) s s'" by blast
    then show ?thesis
      using ptr_field_begin_view [OF v i ptrs(2)] mk ptrs(1) rewrite_from_skip [of ?f, OF f]
      by (simp add: with_body_def refreshed_def)
  qed
qed

lemma refresh_step: "i < length os \<Longrightarrow>
    refresh f M (Suc i) (if i \<in> M then os[i := refreshed f (os ! i)] else os) = refresh f M i os"
  by (cases "i \<in> M") (auto intro!: nth_equalityI simp: Suc_le_eq nth_list_update le_less)

lemma update_objects_view:
  assumes "moved old M s os" "i \<le> length os"
    "\<And>k v. k \<in> M \<Longrightarrow> i \<le> k \<Longrightarrow> v \<in> set (fields (os ! k)) \<Longrightarrow> ref_ok old M os v"
  shows "\<exists>s'. update_objects old (hadr (chunk_begin (heap s)) os i) s = ok s'
    \<and> moved old M s' (refresh (fwd_in old M s os) M i os) \<and> same_outside (opos os (length os)) s s'"
  using assms
proof (induction "length os - i" arbitrary: i s os)
  case 0
  then have "heap_is_done_iterator s (hadr (chunk_begin (heap s)) os i)"
    using heap_is_done_iterator_view [OF moved_view [OF 0(2)], of i] by simp
  moreover have "refresh (fwd_in old M s os) M i os = os"
    using 0 moved_less [OF 0(2)] by (intro nth_equalityI) auto
  ultimately show ?case using 0 by (auto simp: update_objects.simps)
next
  case (Suc d)
  let ?b = "chunk_begin (heap s)" and ?f = "fwd_in old M s os"
  let ?os1 = "if i \<in> M then os[i := refreshed ?f (os ! i)] else os"
  note v = moved_view [OF Suc.prems(1)]
  have i: "i < length os" using Suc by simp
  have "ref_ok old M os w" if "i \<in> M" "w \<in> set (fields (os ! i))" for w using Suc.prems(3) that by blast
  from update_object_view [OF Suc.prems(1) i this] obtain s1 where
    1: "(if is_marked s (cadr ?b os i)
      then andthen (ptr_field_begin_iterator s (hadr ?b os i)) (\<lambda>f. update_fields old f s) else ok s) = ok s1"
    "moved old M s1 ?os1" "same_outside (opos os (length os)) s s1" by blast
  have b1: "chunk_begin (heap s1) = ?b" using 1(3) by (simp add: same_outside_globals)
  have z: "map osz ?os1 = map osz os" by (simp add: map_update) (metis list_update_id map_update)
  have l1: "length ?os1 = length os" by simp
  have a1: "hadr ?b ?os1 k = hadr ?b os k" for k using opos_cong [OF z] by (simp add: hadr_def)
  have f1: "fwd_in old M s1 ?os1 = ?f" unfolding b1 by (rule fwd_value_cong [OF z])
  have nx: "heap_next_obj_iterator s1 (hadr ?b os i) = ok (hadr ?b ?os1 (Suc i))"
    using heap_next_obj_iterator_view [OF moved_view [OF 1(2)], of i] i by (simp only: b1 a1 l1)
  have "\<exists>s'. update_objects old (hadr (chunk_begin (heap s1)) ?os1 (Suc i)) s1 = ok s'
      \<and> moved old M s' (refresh (fwd_in old M s1 ?os1) M (Suc i) ?os1)
      \<and> same_outside (opos ?os1 (length ?os1)) s1 s'"
  proof (rule Suc.hyps(1))
    show "ref_ok old M ?os1 w" if "k \<in> M" "Suc i \<le> k" "w \<in> set (fields (?os1 ! k))" for k w
      using Suc.prems(3) [of k w] that ref_ok_cong [OF z] by (auto split: if_splits)
  qed (use Suc 1(2) l1 in auto)
  then obtain s2 where 2: "update_objects old (hadr ?b ?os1 (Suc i)) s1 = ok s2"
    "moved old M s2 (refresh ?f M i os)" "same_outside (opos os (length os)) s1 s2"
    unfolding f1 l1 opos_cong [OF z] by (auto simp only: b1 refresh_step [OF i])
  moreover have "update_objects old (hadr ?b os i) s = ok s2"
    using i 1(1) nx 2(1) heap_is_done_iterator_view [OF v, of i] get_object_content_ptr_view [OF v i]
    by (subst update_objects.simps) (simp del: ptr_minus_base)
  ultimately show ?case using same_outside_trans [OF 1(3)] by auto
qed

section \<open>The stack and the extra roots\<close>

text \<open>Both loops do the same to one slot.\<close>

definition fix_slot :: "memory_chunk \<Rightarrow> addr \<Rightarrow> gc_state \<Rightarrow> gc_state outcome" where
  "fix_slot old a s = (let v = load32 (mem s) a in
     if is_valid_pointer v \<and> in_chunk old v
     then andthen (forwarded old v s) (\<lambda>w. ok (s\<lparr>mem := store32 (mem s) a w\<rparr>)) else ok s)"

lemma scan_and_fix_region_eq:
  assumes "unat stop \<le> 4294967292"
  shows "scan_and_fix_region old p stop s = for_each (fix_slot old) (area_words p stop) s"
proof (induction "unat stop - unat p" arbitrary: p s rule: less_induct)
  case less
  show ?case
  proof (cases "p < stop")
    case False
    then show ?thesis by (simp add: scan_and_fix_region.simps area_words_def word_less_nat_alt not_less)
  next
    case True
    then have "unat stop - unat (p + 4) < unat stop - unat p"
      using assms by (simp add: word_less_nat_alt unat_word_ariths)
    then have "scan_and_fix_region old (p + 4) stop = for_each (fix_slot old) (area_words (p + 4) stop)"
      using less by blast
    with True show ?thesis
      by (subst scan_and_fix_region.simps) (simp add: area_words_step [OF True assms] fix_slot_def Let_def)
  qed
qed

definition skipped_root :: "gc_state \<Rightarrow> addr \<Rightarrow> bool" where
  "skipped_root s r \<longleftrightarrow> (gc_stack_top s \<le> r \<and> r < gc_stack_bottom s)
     \<or> (r \<le> stop_custom_data s \<and> start_custom_data s \<le> r)"

lemma fix_root_eq: "fix_root old r s = (if skipped_root s r then ok s else fix_slot old r s)"
  by (simp add: fix_root_def fix_slot_def skipped_root_def Let_def)

lemma fix_slot_globals: "fix_slot old a s = ok s' \<Longrightarrow> \<exists>m. s' = s\<lparr>mem := m\<rparr>"
  by (auto simp: fix_slot_def Let_def andthen_eq_ok split: if_splits intro: exI [of _ "mem s"])

lemma fix_slots_globals: "for_each (fix_slot old) as s = ok s' \<Longrightarrow> \<exists>m. s' = s\<lparr>mem := m\<rparr>"
proof (induction as arbitrary: s)
  case Nil
  then show ?case by (auto intro: exI [of _ "mem s"])
next
  case (Cons a as)
  then obtain s1 where 1: "fix_slot old a s = ok s1" "for_each (fix_slot old) as s1 = ok s'"
    by (auto simp: andthen_eq_ok)
  then show ?case using Cons.IH [OF 1(2)] fix_slot_globals [OF 1(1)] by auto
qed

lemma skipped_root_mem [simp]: "skipped_root (s\<lparr>mem := m\<rparr>) = skipped_root s"
  by (simp add: skipped_root_def fun_eq_iff)

lemma scan_roots_eq: "for_each (fix_root old) rs s = for_each (fix_slot old) (filter (\<lambda>r. \<not> skipped_root s r) rs) s"
proof (induction rs arbitrary: s)
  case Nil
  show ?case by simp
next
  case (Cons r rs)
  show ?case
  proof (cases "skipped_root s r")
    case True
    with Cons show ?thesis by (simp add: fix_root_eq)
  next
    case False
    have "for_each (fix_root old) rs s' = for_each (fix_slot old) (filter (\<lambda>r. \<not> skipped_root s r) rs) s'"
      if "fix_slot old r s = ok s'" for s'
      using fix_slot_globals [OF that] Cons [of s'] by auto
    then have "andthen (fix_slot old r s) (for_each (fix_root old) rs)
        = andthen (fix_slot old r s) (for_each (fix_slot old) (filter (\<lambda>r. \<not> skipped_root s r) rs))"
      by (rule andthen_cong)
    with False show ?thesis by (simp add: fix_root_eq [of old r s])
  qed
qed

text \<open>Slots that do not overlap, and bytes that no slot holds.\<close>

definition clear_of :: "addr \<Rightarrow> addr \<Rightarrow> bool" where
  "clear_of a x \<longleftrightarrow> 4 \<le> unat (x - a)"

definition slot_clear :: "addr \<Rightarrow> addr \<Rightarrow> bool" where
  "slot_clear a b \<longleftrightarrow> clear_of a b \<and> clear_of a (b + 1) \<and> clear_of a (b + 2) \<and> clear_of a (b + 3)"

definition slots_apart :: "addr list \<Rightarrow> bool" where
  "slots_apart as \<longleftrightarrow> sorted_wrt (\<lambda>a b. slot_clear a b \<and> slot_clear b a) as"

lemma store32_clear: "clear_of a x \<Longrightarrow> store32 m a v x = m x"
proof -
  assume c: "clear_of a x"
  have "x \<noteq> a + word_of_nat d" if "d < 4" for d
  proof
    assume "x = a + word_of_nat d"
    then have "unat (x - a) = d" using that by (simp add: unat_of_nat_u32)
    with c that show False by (simp add: clear_of_def)
  qed
  from this [of 0] this [of 1] this [of 2] this [of 3] show ?thesis by (simp add: store32_def)
qed

lemma load32_slot_clear: "slot_clear a b \<Longrightarrow> load32 (store32 m a v) b = load32 m b"
  by (intro load32_cong) (simp_all add: store32_clear slot_clear_def)

lemma heap_view_mem_cong:
  assumes "heap_view s os" "\<And>x. unat (x - chunk_begin (heap s)) < opos os (length os) \<Longrightarrow> m x = mem s x"
  shows "heap_view (s\<lparr>mem := m\<rparr>) os"
proof -
  let ?b = "chunk_begin (heap s)"
  have tot: "opos os (length os) < 4294967296" using heap_view_bounds [OF assms(1), of "length os"] by simp
  have "m (ptr ?b k) = mem s (ptr ?b k)" if "k < opos os (length os)" for k
    using assms(2) [of "ptr ?b k"] that tot by (simp add: unat_of_nat_u32)
  then have ld: "load32 m (ptr ?b k) = load32 (mem s) (ptr ?b k)" if "k + 4 \<le> opos os (length os)" for k
    using that by (intro load32_cong) simp_all
  have "obj_at m ?b (opos os i) (os ! i)" if i: "i < length os" for i
    using heap_view_obj [OF assms(1) i] opos_end [OF i] by (simp add: obj_at_def words_at_def ld osz_def)
  with assms(1) show ?thesis by (simp add: heap_view_def objs_at_def)
qed

lemma fix_slot_view:
  assumes m: "moved old M s os" and o': "slot_outside s os a" and r: "ref_ok old M os (load32 (mem s) a)"
  shows "\<exists>s'. fix_slot old a s = ok s' \<and> moved old M s' os \<and> s' = s\<lparr>mem := mem s'\<rparr>
    \<and> load32 (mem s') a = fwd_in old M s os (load32 (mem s) a)
    \<and> (\<forall>x. clear_of a x \<longrightarrow> mem s' x = mem s x)
    \<and> (\<forall>b. slot_clear a b \<longrightarrow> load32 (mem s') b = load32 (mem s) b)"
proof (cases "is_valid_pointer (load32 (mem s) a) \<and> in_chunk old (load32 (mem s) a)")
  case False
  then show ?thesis
    using m fwd_value_outside [OF m False] by (intro exI [of _ s]) (auto simp: fix_slot_def Let_def)
next
  case True
  let ?v = "fwd_in old M s os (load32 (mem s) a)"
  let ?s = "s\<lparr>mem := store32 (mem s) a ?v\<rparr>"
  have "store32 (mem s) a ?v x = mem s x" if "unat (x - chunk_begin (heap s)) < opos os (length os)" for x
  proof -
    have "x \<noteq> a + d" if "d \<in> {0, 1, 2, 3}" for d
      using o' that \<open>unat (x - chunk_begin (heap s)) < opos os (length os)\<close> by (auto simp: slot_outside_def)
    from this [of 0] this [of 1] this [of 2] this [of 3] show ?thesis by (simp add: store32_def)
  qed
  then have "heap_view ?s os" by (intro heap_view_mem_cong [OF moved_view [OF m]])
  then have "moved old M ?s os" by (intro moved_rebody [OF m]) simp_all
  moreover have "fix_slot old a s = ok ?s"
    using True forwarded_ref [OF m r] by (simp add: fix_slot_def)
  ultimately show ?thesis by (simp add: store32_clear load32_slot_clear)
qed

lemma slots_apart_Cons: "slots_apart (a # as) \<longleftrightarrow> slots_apart as
    \<and> (\<forall>b\<in>set as. slot_clear a b \<and> slot_clear b a)"
  by (auto simp: slots_apart_def)

lemma fix_slots_view:
  assumes "moved old M s os" "slots_apart as"
    "\<forall>a\<in>set as. slot_outside s os a \<and> ref_ok old M os (load32 (mem s) a)"
  shows "\<exists>s'. for_each (fix_slot old) as s = ok s' \<and> moved old M s' os \<and> s' = s\<lparr>mem := mem s'\<rparr>
    \<and> (\<forall>a\<in>set as. load32 (mem s') a = fwd_in old M s os (load32 (mem s) a))
    \<and> (\<forall>x. (\<forall>a\<in>set as. clear_of a x) \<longrightarrow> mem s' x = mem s x)"
  using assms
proof (induction as arbitrary: s)
  case Nil
  then show ?case by simp
next
  case (Cons a as)
  have ap: "\<forall>b\<in>set as. slot_clear a b \<and> slot_clear b a" "slots_apart as"
    using Cons.prems(2) by (auto simp: slots_apart_Cons)
  obtain s1 where 1: "fix_slot old a s = ok s1" "moved old M s1 os" "s1 = s\<lparr>mem := mem s1\<rparr>"
    "load32 (mem s1) a = fwd_in old M s os (load32 (mem s) a)" "\<forall>x. clear_of a x \<longrightarrow> mem s1 x = mem s x"
    "\<forall>b. slot_clear a b \<longrightarrow> load32 (mem s1) b = load32 (mem s) b"
    using fix_slot_view [OF Cons.prems(1), of a] Cons.prems(3) by (meson list.set_intros(1))
  have h1: "heap s1 = heap s" by (subst 1(3)) simp
  have ld: "load32 (mem s1) b = load32 (mem s) b" if "b \<in> set as" for b
    using 1(6) ap(1) that by blast
  have "\<forall>b\<in>set as. slot_outside s1 os b \<and> ref_ok old M os (load32 (mem s1) b)"
    using Cons.prems(3) ld by (simp add: slot_outside_def h1)
  from Cons.IH [OF 1(2) ap(2) this] obtain s2 where 2: "for_each (fix_slot old) as s1 = ok s2"
    "moved old M s2 os" "s2 = s1\<lparr>mem := mem s2\<rparr>"
    "\<forall>b\<in>set as. load32 (mem s2) b = fwd_in old M s os (load32 (mem s1) b)"
    "\<forall>x. (\<forall>b\<in>set as. clear_of b x) \<longrightarrow> mem s2 x = mem s1 x" by (auto simp: h1)
  have "load32 (mem s2) a = load32 (mem s1) a"
    using 2(5) ap(1) by (intro load32_cong) (simp_all add: slot_clear_def)
  moreover have "s2 = s\<lparr>mem := mem s2\<rparr>" using 1(3) 2(3) by (metis gc_state.update_convs(1) gc_state.surjective)
  ultimately show ?case using 1 2 ld by auto
qed

text \<open>The slots the pass writes, and the whole pass.\<close>

definition fixed_slots :: "gc_state \<Rightarrow> addr list" where
  "fixed_slots s = area_words (gc_stack_top s + 4) (gc_stack_bottom s + 4)
     @ filter (\<lambda>r. \<not> skipped_root s r) (take (current_free (extra_roots s)) (roots (extra_roots s)))"

theorem update_references_view:
  assumes m: "moved old M s os" and b: "unat (gc_stack_bottom s) < 4294967288"
    and f: "\<forall>k\<in>M. \<forall>v\<in>set (fields (os ! k)). ref_ok old M os v"
    and ap: "slots_apart (fixed_slots s)"
    and sl: "\<forall>a\<in>set (fixed_slots s). slot_outside s os a \<and> ref_ok old M os (load32 (mem s) a)"
  shows "\<exists>s'. update_references old s = ok s' \<and> moved old M s' (refresh (fwd_in old M s os) M 0 os)
    \<and> s' = s\<lparr>mem := mem s'\<rparr>
    \<and> (\<forall>a\<in>set (fixed_slots s). load32 (mem s') a = fwd_in old M s os (load32 (mem s) a))
    \<and> (\<forall>x. opos os (length os) \<le> unat (x - chunk_begin (heap s)) \<longrightarrow>
        (\<forall>a\<in>set (fixed_slots s). clear_of a x) \<longrightarrow> mem s' x = mem s x)"
proof -
  let ?f = "fwd_in old M s os" and ?os = "refresh (fwd_in old M s os) M 0 os"
  obtain s1 where 1: "update_objects old (hadr (chunk_begin (heap s)) os 0) s = ok s1"
    "moved old M s1 ?os" "same_outside (opos os (length os)) s s1"
    using update_objects_view [OF m, of 0] f by auto
  note g = same_outside_globals [OF 1(3)]
  have z: "map osz ?os = map osz os" by (rule osz_refresh)
  have f1: "fwd_in old M s1 ?os = ?f" unfolding g(1) by (rule fwd_value_cong [OF z])
  have sk: "skipped_root s1 = skipped_root s" by (simp add: skipped_root_def fun_eq_iff g)
  have fs: "fixed_slots s1 = fixed_slots s" by (simp add: fixed_slots_def g sk)
  have ld: "load32 (mem s1) a = load32 (mem s) a" if "slot_outside s os a" for a
    using that 1(3) by (intro load32_cong) (auto simp: slot_outside_def same_outside_def)
  have "\<forall>a\<in>set (fixed_slots s). slot_outside s1 ?os a \<and> ref_ok old M ?os (load32 (mem s1) a)"
    using sl ld ref_ok_cong [OF z] opos_cong [OF z] by (simp add: slot_outside_def g)
  from fix_slots_view [OF 1(2) ap this] obtain s2 where 2: "for_each (fix_slot old) (fixed_slots s) s1 = ok s2"
    "moved old M s2 ?os" "s2 = s1\<lparr>mem := mem s2\<rparr>"
    "\<forall>a\<in>set (fixed_slots s). load32 (mem s2) a = ?f (load32 (mem s1) a)"
    "\<forall>x. (\<forall>a\<in>set (fixed_slots s). clear_of a x) \<longrightarrow> mem s2 x = mem s1 x" unfolding f1 by blast
  obtain s' where s': "for_each (fix_slot old) (area_words (gc_stack_top s + 4) (gc_stack_bottom s + 4)) s1 = ok s'"
    "for_each (fix_slot old) (filter (\<lambda>r. \<not> skipped_root s r)
      (take (current_free (extra_roots s)) (roots (extra_roots s)))) s' = ok s2"
    using 2(1) by (auto simp: fixed_slots_def for_each_append andthen_eq_ok)
  obtain mm where mm: "s' = s1\<lparr>mem := mm\<rparr>" using fix_slots_globals [OF s'(1)] by blast
  have "scan_and_fix_region old (gc_stack_top s1 + 4) (gc_stack_bottom s1 + 4) s1 = ok s'"
    using s'(1) b by (simp add: scan_and_fix_region_eq unat_word_ariths g)
  moreover have "scan_and_fix_region_roots old s' = ok s2"
    using s'(2) by (simp add: scan_and_fix_region_roots_def scan_roots_eq mm g sk)
  ultimately have "update_references old s = ok s2"
    using 1(1) by (simp add: update_references_def heap_begin_iterator_view [of s os])
  moreover have "s2 = s\<lparr>mem := mem s2\<rparr>"
    using 1(3) 2(3) unfolding same_outside_def by (metis gc_state.update_convs(1) gc_state.surjective)
  moreover have "\<forall>x. opos os (length os) \<le> unat (x - chunk_begin (heap s)) \<longrightarrow>
      (\<forall>a\<in>set (fixed_slots s). clear_of a x) \<longrightarrow> mem s2 x = mem s x"
    using 1(3) 2(5) by (simp add: same_outside_def)
  ultimately show ?thesis using 2(2,4) ld sl by auto
qed

end
