(* ===== verification/Relocation.thy ===== *)
theory Relocation
  imports Updating
begin

text \<open>
  \<open>physically_relocate\<close> of gc.c: the marked objects are copied, in address order, to their new
  places and lose their marks. An object may be copied over the place it was read from, and over
  unmarked objects, but never over an object that is still to be copied.
\<close>

section \<open>An object whose header is in place\<close>

lemma header_view:
  assumes "load32 (mem s) a = o_hdr o'" "wf_obj o'"
  shows "get_type_header_ptr s a = ok (otype o')" "get_object_content_ptr s a = ok (a + 8)"
    "obj_size_header_ptr s a = ok (type_size (otype o') (LEN (o_hdr o')))"
proof -
  show t: "get_type_header_ptr s a = ok (otype o')"
    using assms by (auto simp: get_type_header_ptr_def wf_obj_def otype_def Let_def)
  show "get_object_content_ptr s a = ok (a + 8)" by (simp add: get_object_content_ptr_def t)
  show "obj_size_header_ptr s a = ok (type_size (otype o') (LEN (o_hdr o')))"
    by (simp add: obj_size_header_ptr_def t assms(1))
qed

lemma obytes_le: "wf_obj o' \<Longrightarrow> obytes o' \<le> 4 * osz o'"
  using obytes_words [of o'] by linarith

lemma obytes_ge: "8 \<le> obytes o'"
  by (auto simp: obytes_def Let_def split: lama_type.splits)

lemma store32_byte_other:
  assumes "j < i \<or> i + 4 \<le> j" "i + 4 \<le> 4294967296" "j < 4294967296"
  shows "store32 m (ptr b i) v (ptr b j) = m (ptr b j)"
  using assms by (simp add: store32_def ptr_eq_iff) (auto simp: ptr_eq_iff)

section \<open>The invariant\<close>

text \<open>
  \<open>copied os M b m0 m k\<close>: the \<open>k\<close>-th object of the memory \<open>m0\<close> is in \<open>m\<close> at its new place, without
  its mark. A string is copied up to its last byte, not up to the end of its last word.
\<close>

definition copied :: "obj list \<Rightarrow> nat set \<Rightarrow> addr \<Rightarrow> memory \<Rightarrow> memory \<Rightarrow> nat \<Rightarrow> bool" where
  "copied os M b m0 m k \<longleftrightarrow>
     (\<forall>d < obytes (os ! k). d < 4 \<or> 8 \<le> d \<longrightarrow> m (ptr b (lpos os M k + d)) = m0 (ptr b (opos os k + d)))
     \<and> load32 m (ptr b (lpos os M k + 4)) = RESET_MARK_BIT (o_fwd (os ! k))"

definition relocated :: "obj list \<Rightarrow> nat set \<Rightarrow> gc_state \<Rightarrow> nat \<Rightarrow> gc_state \<Rightarrow> bool" where
  "relocated os M s0 i s \<longleftrightarrow> (\<exists>m. s = s0\<lparr>mem := m\<rparr>)
     \<and> (\<forall>x. opos os i \<le> x \<longrightarrow> x < opos os (length os) \<longrightarrow>
          mem s (ptr (chunk_begin (heap s0)) x) = mem s0 (ptr (chunk_begin (heap s0)) x))
     \<and> (\<forall>k\<in>M. k < i \<longrightarrow> copied os M (chunk_begin (heap s0)) (mem s0) (mem s) k)
     \<and> (\<forall>x. opos os (length os) \<le> unat (x - chunk_begin (heap s0)) \<longrightarrow> mem s x = mem s0 x)"

lemma relocated_heap: "relocated os M s0 i s \<Longrightarrow> heap s = heap s0"
  by (auto simp: relocated_def)

lemma relocated_load:
  assumes "relocated os M s0 i s" "opos os i \<le> x" "x + 4 \<le> opos os (length os)"
  shows "load32 (mem s) (ptr (chunk_begin (heap s0)) x) = load32 (mem s0) (ptr (chunk_begin (heap s0)) x)"
  using assms by (intro load32_cong) (simp_all add: relocated_def)

text \<open>Copying one object.\<close>

lemma move_bytes:
  assumes "to + n \<le> 4294967296" "to < 4294967296" "8 \<le> n"
  shows "y < to \<or> to + n \<le> y \<Longrightarrow> y < 4294967296 \<Longrightarrow>
      store32 (mem_move m (ptr b to) (ptr b from) n) (ptr b (to + 4)) v (ptr b y) = m (ptr b y)"
    and "d < n \<Longrightarrow> d < 4 \<or> 8 \<le> d \<Longrightarrow>
      store32 (mem_move m (ptr b to) (ptr b from) n) (ptr b (to + 4)) v (ptr b (to + d)) = m (ptr b (from + d))"
proof -
  show "store32 (mem_move m (ptr b to) (ptr b from) n) (ptr b (to + 4)) v (ptr b y) = m (ptr b y)"
    if "y < to \<or> to + n \<le> y" "y < 4294967296"
  proof -
    have "y < to + 4 \<or> to + 4 + 4 \<le> y" "to + 4 + 4 \<le> 4294967296" using that assms by auto
    with that assms show ?thesis by (subst store32_byte_other) (auto simp: mem_move_apply)
  qed
qed (use assms in \<open>simp_all add: store32_byte_other mem_move_apply\<close>)

lemma relocate_one:
  assumes v: "heap_view s0 os" and r: "relocated os M s0 i s" and i: "i < length os" "i \<in> M"
    and w: "w = RESET_MARK_BIT (o_fwd (os ! i))" and b: "b = chunk_begin (heap s0)"
  shows "relocated os M s0 (Suc i) (s\<lparr>mem := store32 (mem_move (mem s) (ptr b (lpos os M i)) (ptr b (opos os i))
      (obytes (os ! i))) (ptr b (lpos os M i + 4)) w\<rparr>)"
proof -
  let ?n = "obytes (os ! i)" and ?U = "opos os (length os)" and ?to = "lpos os M i" and ?from = "opos os i"
  let ?m = "store32 (mem_move (mem s) (ptr b ?to) (ptr b ?from) ?n) (ptr b (?to + 4)) w"
  have wf: "wf_obj (os ! i)" using heap_view_obj [OF v i(1)] by blast
  have n: "8 \<le> ?n" "?n \<le> 4 * osz (os ! i)" by (rule obytes_ge, rule obytes_le [OF wf])
  have U: "?U < 4294967296" using heap_view_bounds [OF v, of "length os"] by simp
  have e: "?from + 4 * osz (os ! i) \<le> ?U" by (rule opos_end [OF i(1)])
  have le: "?to \<le> ?from" using i(1) by (intro lpos_le_opos) simp
  have bd: "?to + ?n \<le> 4294967296" "?to < 4294967296" using n e le U by linarith+
  note mv = move_bytes [OF bd n(1), of _ "mem s" b ?from w]
  have A: "?m (ptr b x) = mem s0 (ptr b x)" if "opos os (Suc i) \<le> x" "x < ?U" for x
  proof -
    have "?to + ?n \<le> x" "x < 4294967296" "?from \<le> x" using that le n U by (simp_all add: opos_Suc [OF i(1)])
    then show ?thesis using mv(1) [of x] r that(2) b by (simp add: relocated_def)
  qed
  have B: "copied os M b (mem s0) ?m k" if k: "k \<in> M" "k < i" for k
  proof -
    have wk: "wf_obj (os ! k)" using heap_view_obj [OF v, of k] k(2) i(1) by simp
    have kt: "lpos os M k + 4 * osz (os ! k) \<le> ?to" by (rule lpos_less [OF k(2,1)])
    have c: "copied os M b (mem s0) (mem s) k" using r k b by (simp add: relocated_def)
    have s: "?m (ptr b (lpos os M k + d)) = mem s (ptr b (lpos os M k + d))" if "d < 4 * osz (os ! k)" for d
      using that kt bd by (intro mv(1)) auto
    have "load32 ?m (ptr b (lpos os M k + 4)) = load32 (mem s) (ptr b (lpos os M k + 4))"
    proof (rule load32_ptr_cong)
      fix d :: nat assume "d < 4"
      then show "?m (ptr b (lpos os M k + 4 + d)) = mem s (ptr b (lpos os M k + 4 + d))"
        using s [of "4 + d"] by (simp add: osz_def add.assoc)
    qed
    moreover have "?m (ptr b (lpos os M k + d)) = mem s (ptr b (lpos os M k + d))" if "d < obytes (os ! k)" for d
      using that obytes_le [OF wk] by (intro s) simp
    ultimately show ?thesis using c by (simp add: copied_def)
  qed
  have C: "copied os M b (mem s0) ?m i"
  proof -
    have "mem s (ptr b (?from + d)) = mem s0 (ptr b (?from + d))" if "d < ?n" for d
      using r b that n e by (simp add: relocated_def)
    then show ?thesis using mv(2) w by (simp add: copied_def)
  qed
  have D: "?m x = mem s0 x" if x: "?U \<le> unat (x - b)" for x
  proof -
    have "x = ptr b (unat (x - b))" by (simp add: ptr_def)
    moreover have "?m (ptr b (unat (x - b))) = mem s (ptr b (unat (x - b)))"
      using x n e le by (intro mv(1)) auto
    ultimately have "?m x = mem s x" by simp
    then show ?thesis using r x b by (simp add: relocated_def)
  qed
  show ?thesis using A B C D r b by (auto simp: relocated_def less_Suc_eq)
qed

section \<open>The loop\<close>

lemma relocate_step:
  assumes m: "moved old M s0 os" and r: "relocated os M s0 i s" and i: "i < length os"
  shows "\<exists>s'. relocated os M s0 (Suc i) s'
    \<and> relocate_objects old (hadr (chunk_begin (heap s0)) os i) s
      = relocate_objects old (hadr (chunk_begin (heap s0)) os (Suc i)) s'"
proof -
  let ?b = "chunk_begin (heap s0)"
  note v = moved_view [OF m]
  have h: "heap s = heap s0" by (rule relocated_heap [OF r])
  have wf: "wf_obj (os ! i)" and hd: "load32 (mem s0) (hadr ?b os i) = o_hdr (os ! i)"
    and fw: "load32 (mem s0) (ptr ?b (opos os i + 4)) = o_fwd (os ! i)"
    using heap_view_obj [OF v i] by (auto simp: obj_at_def hadr_def)
  have e: "opos os i + 8 \<le> opos os (length os)" using opos_end [OF i] by (simp add: osz_def)
  have "load32 (mem s) (hadr ?b os i) = o_hdr (os ! i)"
    using relocated_load [OF r, of "opos os i"] e hd by (simp add: hadr_def)
  note hv = header_view [OF this wf]
  have fs: "forward_address (mem s) (hadr ?b os i) = o_fwd (os ! i)"
    using relocated_load [OF r, of "opos os i + 4"] e fw by (simp add: hadr_def forward_address_def)
  then have mk: "is_marked s (cadr ?b os i) \<longleftrightarrow> i \<in> M"
    using m i by (auto simp: is_marked_def moved_def marks_def marked_def)
  have nd: "\<not> heap_is_done_iterator s (hadr ?b os i)"
    using heap_is_done_iterator_view [OF v, of i] i by (simp add: heap_is_done_iterator_def h)
  have nx: "heap_next_obj_iterator s (hadr ?b os i) = ok (hadr ?b os (Suc i))"
    using heap_next_obj_iterator_view [OF v i] hv(3) obj_size_header_ptr_view [OF v i]
    by (simp add: heap_next_obj_iterator_def)
  show ?thesis
  proof (cases "i \<in> M")
    case False
    have "relocated os M s0 (Suc i) s"
      using r False opos_mono [of i "Suc i" os] by (auto simp: relocated_def less_Suc_eq)
    moreover have "relocate_objects old (hadr ?b os i) s = relocate_objects old (hadr ?b os (Suc i)) s"
      using nd hv(2) nx mk False by (subst relocate_objects.simps) simp
    ultimately show ?thesis by blast
  next
    case True
    let ?n = "obytes (os ! i)" and ?to = "ptr ?b (lpos os M i)"
    let ?m = "mem_move (mem s) ?to (ptr ?b (opos os i)) ?n"
    let ?s = "s\<lparr>mem := store32 ?m (ptr ?b (lpos os M i + 4)) (RESET_MARK_BIT (o_fwd (os ! i)))\<rparr>"
    have f: "?b + (get_forward_address s (cadr ?b os i) - chunk_begin old) = ?to"
      using m True fs by (simp add: get_forward_address_def moved_def fadr_def) (simp add: ptr_def)
    have n: "unat (type_size (otype (os ! i)) (LEN (o_hdr (os ! i)))) = ?n" by (rule unat_type_size)
    have bd: "lpos os M i + ?n \<le> 4294967296" "8 \<le> ?n" "opos os i + 8 \<le> 4294967296"
    proof -
      have "?n \<le> 4 * osz (os ! i)" by (rule obytes_le [OF wf])
      moreover have "lpos os M i \<le> opos os i" using i by (intro lpos_le_opos) simp
      moreover have "opos os i + 4 * osz (os ! i) \<le> opos os (length os)" by (rule opos_end [OF i])
      moreover have "opos os (length os) < 4294967296" using heap_view_bounds [OF v, of "length os"] by simp
      ultimately show "lpos os M i + ?n \<le> 4294967296" "opos os i + 8 \<le> 4294967296" using e by linarith+
    qed (rule obytes_ge)
    have ld: "load32 ?m (ptr ?b (lpos os M i + j)) = load32 (mem s) (ptr ?b (opos os i + j))" if "j + 4 \<le> ?n" for j
      using that bd by (simp add: load32_mem_move_inside)
    have "load32 ?m ?to = o_hdr (os ! i)"
      using ld [of 0] bd relocated_load [OF r, of "opos os i"] e hd by (simp add: hadr_def)
    then have "load32 (mem (s\<lparr>mem := ?m\<rparr>)) ?to = o_hdr (os ! i)" by simp
    note hm = header_view [OF this wf]
    have "forward_address ?m ?to = o_fwd (os ! i)"
      using ld [of 4] bd relocated_load [OF r, of "opos os i + 4"] e fw by (simp add: forward_address_def)
    moreover have td: "TO_DATA (ptr ?b (lpos os M i + 8)) = ?to"
      by (simp add: TO_DATA_def DATA_HEADER_SZ_def ptr_def)
    ultimately have "unmark_object (?to + 8) (s\<lparr>mem := ?m\<rparr>) = ?s"
      by (simp add: unmark_object_def set_fwd_word_def td)
    then have "relocate_objects old (hadr ?b os i) s = relocate_objects old (hadr ?b os (Suc i)) ?s"
      using nd hv nx mk True f n hm(2)
      by (subst relocate_objects.simps) (simp add: h Let_def hadr_def cadr_def)
    moreover have "relocated os M s0 (Suc i) ?s"
      by (rule relocate_one [OF v r i True refl refl])
    ultimately show ?thesis by blast
  qed
qed

lemma relocate_objects_view:
  assumes "moved old M s0 os" "relocated os M s0 i s" "i \<le> length os"
  shows "\<exists>s'. relocate_objects old (hadr (chunk_begin (heap s0)) os i) s = ok s'
    \<and> relocated os M s0 (length os) s'"
  using assms(2,3)
proof (induction "length os - i" arbitrary: i s)
  case 0
  then have "heap_is_done_iterator s (hadr (chunk_begin (heap s0)) os i)"
    using heap_is_done_iterator_view [OF moved_view [OF assms(1)], of i]
    by (simp add: heap_is_done_iterator_def relocated_heap [OF 0(2)])
  with 0 show ?case by (simp add: relocate_objects.simps)
next
  case (Suc d)
  then have "i < length os" by simp
  from relocate_step [OF assms(1) Suc.prems(1) this] Suc show ?case by (metis Suc_leI diff_Suc_Suc
    Suc_diff_Suc \<open>i < length os\<close> nat.inject)
qed

section \<open>The live objects\<close>

definition live_list :: "nat set \<Rightarrow> nat \<Rightarrow> nat list" where
  "live_list M n = filter (\<lambda>k. k \<in> M) [0..<n]"

definition rank :: "nat set \<Rightarrow> nat \<Rightarrow> nat" where
  "rank M k = length (live_list M k)"

lemma live_0 [simp]: "live_list M 0 = []"
  by (simp add: live_list_def)

lemma live_Suc: "live_list M (Suc n) = live_list M n @ (if n \<in> M then [n] else [])"
  by (simp add: live_list_def)

lemma rank_0 [simp]: "rank M 0 = 0"
  by (simp add: rank_def)

lemma rank_Suc: "rank M (Suc k) = rank M k + (if k \<in> M then 1 else 0)"
  by (simp add: rank_def live_Suc)

lemma length_live: "length (live_list M n) = rank M n"
  by (simp add: rank_def)

lemma rank_mono: "k \<le> n \<Longrightarrow> rank M k \<le> rank M n"
  by (induction rule: dec_induct) (auto simp: rank_Suc)

lemma take_live: "k \<le> n \<Longrightarrow> take (rank M k) (live_list M n) = live_list M k"
proof (induction n)
  case (Suc n)
  then show ?case using rank_mono [of k n M]
    by (cases "k = Suc n") (auto simp: live_Suc length_live rank_Suc take_all)
qed simp

lemma nth_live:
  assumes "k \<in> M" "k < n" shows "live_list M n ! rank M k = k" "rank M k < rank M n"
proof -
  have t: "take (Suc (rank M k)) (live_list M n) = live_list M k @ [k]"
    using take_live [of "Suc k" n M] assms by (simp add: rank_Suc live_Suc)
  then have l: "length (take (Suc (rank M k)) (live_list M n)) = Suc (rank M k)" by (simp add: rank_def)
  then show "rank M k < rank M n" by (simp add: length_live)
  have "live_list M n ! rank M k = take (Suc (rank M k)) (live_list M n) ! rank M k" by simp
  also have "\<dots> = k" unfolding t by (simp add: nth_append rank_def)
  finally show "live_list M n ! rank M k = k" .
qed

lemma rank_onto: "j < rank M n \<Longrightarrow> \<exists>k\<in>M. k < n \<and> j = rank M k"
proof (induction n)
  case (Suc n)
  then show ?case by (cases "j < rank M n") (auto simp: rank_Suc less_Suc_eq split: if_splits)
qed simp

lemma opos_live:
  assumes "n \<le> length os" "\<And>k. k < n \<Longrightarrow> osz (g k) = osz (os ! k)" "k \<le> n"
  shows "opos (map g (live_list M n)) (rank M k) = lpos os M k"
proof -
  have "4 * (\<Sum>j\<leftarrow>live_list M k. osz (g j)) = lpos os M k" using assms(3)
  proof (induction k)
    case (Suc k)
    then show ?case using assms(2) [of k] by (simp add: live_Suc lpos_Suc add_mult_distrib2)
  qed simp
  then show ?thesis using take_live [OF assms(3), of M] by (simp add: opos_def take_map o_def)
qed

end
