(* ===== verification/CStrings.thy ===== *)
theory CStrings
  imports Prelude
begin

text \<open>
  The functions of \<open>string.h\<close> that the runtime uses, on byte-addressed memory, and what they do
  on terminated strings. \<open>strlen\<close> and \<open>strcmp\<close> look for a terminator and do not return when
  there is none. \<open>strcmp\<close> returns the difference of the first two bytes that differ; the C
  standard fixes its sign only, and only the sign is used.
\<close>

partial_function (option) strlen :: "memory \<Rightarrow> addr \<Rightarrow> u32 outcome" where
  "strlen m p = (if m p = 0 then ok 0 else andthen (strlen m (p + 1)) (\<lambda>n. ok (n + 1)))"

partial_function (option) strcmp :: "memory \<Rightarrow> addr \<Rightarrow> addr \<Rightarrow> u32 outcome" where
  "strcmp m p q =
     (if m p \<noteq> m q then ok (ucast (m p) - ucast (m q))
      else if m p = 0 then ok 0
      else strcmp m (p + 1) (q + 1))"

fun strncmp :: "memory \<Rightarrow> addr \<Rightarrow> addr \<Rightarrow> nat \<Rightarrow> u32" where
  "strncmp m p q 0 = 0"
| "strncmp m p q (Suc n) =
     (if m p \<noteq> m q then ucast (m p) - ucast (m q)
      else if m p = 0 then 0
      else strncmp m (p + 1) (q + 1) n)"

fun strncpy :: "memory \<Rightarrow> addr \<Rightarrow> addr \<Rightarrow> nat \<Rightarrow> memory" where
  "strncpy m dst src 0 = m"
| "strncpy m dst src (Suc n) =
     (if m src = 0 then mem_set m dst 0 (Suc n)
      else strncpy (m(dst := m src)) (dst + 1) (src + 1) n)"

section \<open>Terminated strings\<close>

text \<open>\<open>bytes_at m p bs\<close>: the bytes \<open>bs\<close> stand at \<open>p\<close>; \<open>cstring\<close>: followed by the terminator.\<close>

fun bytes_at :: "memory \<Rightarrow> addr \<Rightarrow> u8 list \<Rightarrow> bool" where
  "bytes_at m p [] = True"
| "bytes_at m p (b # bs) = (m p = b \<and> bytes_at m (p + 1) bs)"

fun cstring :: "memory \<Rightarrow> addr \<Rightarrow> u8 list \<Rightarrow> bool" where
  "cstring m p [] = (m p = 0)"
| "cstring m p (b # bs) = (m p = b \<and> b \<noteq> 0 \<and> cstring m (p + 1) bs)"

lemma cstring_unique: "cstring m p bs \<Longrightarrow> cstring m p cs \<Longrightarrow> bs = cs"
proof (induction bs arbitrary: p cs)
  case Nil
  then show ?case by (cases cs) auto
next
  case (Cons b bs)
  then show ?case by (cases cs) auto
qed

lemma cstring_bytes: "cstring m p bs \<longleftrightarrow>
    bytes_at m p bs \<and> 0 \<notin> set bs \<and> m (p + word_of_nat (length bs)) = 0"
  by (induction bs arbitrary: p) (auto simp: algebra_simps)

lemma bytes_at_nth: "bytes_at m p bs \<longleftrightarrow> (\<forall>i < length bs. m (p + word_of_nat i) = bs ! i)"
proof (induction bs arbitrary: p)
  case Nil
  then show ?case by simp
next
  case (Cons b bs)
  show ?case by (auto simp: Cons less_Suc_eq_0_disj algebra_simps)
qed

lemma strlen_cstring: "cstring m p bs \<Longrightarrow> strlen m p = ok (word_of_nat (length bs))"
  by (induction bs arbitrary: p) (simp_all add: strlen.simps add.commute)

section \<open>Comparison\<close>

text \<open>The reference comparison, on lists of bytes without terminators.\<close>

fun cmp_bytes :: "u8 list \<Rightarrow> u8 list \<Rightarrow> u32" where
  "cmp_bytes [] [] = 0"
| "cmp_bytes [] (c # cs) = - ucast c"
| "cmp_bytes (b # bs) [] = ucast b"
| "cmp_bytes (b # bs) (c # cs) = (if b = c then cmp_bytes bs cs else ucast b - ucast c)"

lemma strcmp_cstring: "cstring m p bs \<Longrightarrow> cstring m q cs \<Longrightarrow> strcmp m p q = ok (cmp_bytes bs cs)"
proof (induction bs cs arbitrary: p q rule: cmp_bytes.induct)
  case (1 p q)
  then show ?case by (simp add: strcmp.simps)
next
  case (2 c cs p q)
  then show ?case by (auto simp: strcmp.simps [of m p])
next
  case (3 b bs p q)
  then show ?case by (auto simp: strcmp.simps [of m p])
next
  case (4 b bs c cs p q)
  then show ?case by (auto simp: strcmp.simps [of m p])
qed

text \<open>The difference of two bytes is small, so that its sign survives boxing.\<close>

lemma uint_byte: "0 \<le> uint (b :: u8)" "uint (b :: u8) < 256"
  using uint_lt2p [of b] by simp_all

lemma sint_byte_diff: "sint (ucast (b :: u8) - ucast (c :: u8) :: u32) = uint b - uint c"
proof -
  have "(ucast b - ucast c :: u32) = word_of_int (uint b - uint c)"
    by (simp only: ucast_eq wi_hom_sub)
  then have "sint (ucast b - ucast c :: u32) = signed_take_bit 31 (uint b - uint c)"
    by (simp only: signed_of_int) simp
  also have "\<dots> = uint b - uint c"
  proof -
    have "- 2147483648 \<le> uint b - uint c" "uint b - uint c < 2147483648"
      using uint_byte [of b] uint_byte [of c] by linarith+
    then show ?thesis by (simp add: signed_take_bit_int_eq_self)
  qed
  finally show ?thesis .
qed

lemma byte_diff_eq_0: "ucast (b :: u8) - ucast c = (0 :: u32) \<longleftrightarrow> b = c"
  using sint_byte_diff [of b c] by (metis eq_iff_diff_eq_0 signed_eq_0_iff word_uint_eq_iff)

lemma cmp_bytes_range: "\<bar>sint (cmp_bytes bs cs)\<bar> < 256"
proof (induction bs cs rule: cmp_bytes.induct)
  case (2 c cs)
  then show ?case using sint_byte_diff [of 0 c] uint_byte [of c] by simp
next
  case (3 b bs)
  then show ?case using sint_byte_diff [of b 0] uint_byte [of b] by simp
next
  case (4 b bs c cs)
  show ?case
  proof (cases "b = c")
    case True
    then show ?thesis using 4 by simp
  next
    case False
    have "\<bar>uint b - uint c\<bar> < 256" using uint_byte [of b] uint_byte [of c] by linarith
    then show ?thesis using False by (simp add: sint_byte_diff)
  qed
qed simp

lemma cmp_bytes_eq: "0 \<notin> set bs \<Longrightarrow> 0 \<notin> set cs \<Longrightarrow> cmp_bytes bs cs = 0 \<longleftrightarrow> bs = cs"
proof (induction bs cs rule: cmp_bytes.induct)
  case (2 c cs)
  then show ?case using byte_diff_eq_0 [of 0 c] by auto
next
  case (3 b bs)
  then show ?case using byte_diff_eq_0 [of b 0] by auto
next
  case (4 b bs c cs)
  then show ?case using byte_diff_eq_0 [of b c] by auto
qed simp

lemma cmp_bytes_antisym: "cmp_bytes cs bs = - cmp_bytes bs cs"
  by (induction bs cs rule: cmp_bytes.induct) auto

lemma strncmp_cstring:
  "bytes_at m p bs \<Longrightarrow> bytes_at m q cs \<Longrightarrow> 0 \<notin> set cs \<Longrightarrow> length bs = length cs \<Longrightarrow>
   strncmp m p q (length cs) = 0 \<longleftrightarrow> bs = cs"
proof (induction cs arbitrary: bs p q)
  case Nil
  then show ?case by simp
next
  case (Cons c cs)
  then obtain b bs' where bs: "bs = b # bs'" by (cases bs) auto
  show ?case
    using Cons byte_diff_eq_0 [of b c] by (auto simp: bs)
qed

section \<open>Copying\<close>

text \<open>
  \<open>strncpy\<close> with a count that covers the string and its terminator copies both; with a count
  that stops before the terminator it copies that many bytes. The two areas do not overlap.
\<close>

definition apart :: "addr \<Rightarrow> nat \<Rightarrow> addr \<Rightarrow> nat \<Rightarrow> bool" where
  "apart d n q k \<longleftrightarrow> (\<forall>j < k. n \<le> unat (q + word_of_nat j - d))"

lemma step_back:
  assumes "Suc n \<le> unat (a - (d :: addr))"
  shows "a \<noteq> d" "n \<le> unat (a - (d + 1))"
proof -
  show "a \<noteq> d" using assms by auto
  then have "a - d \<noteq> 0" by simp
  then have "unat (a - d - 1) = unat (a - d) - 1" by (rule unat_minus_one)
  moreover have "a - (d + 1) = a - d - 1" by simp
  ultimately show "n \<le> unat (a - (d + 1))" using assms by (metis Suc_le_mono Suc_pred diff_Suc_1
    le_zero_eq nat.simps(3) not_gr_zero One_nat_def)
qed

lemma apart_Suc: "apart d (Suc n) q (Suc k) \<Longrightarrow> apart (d + 1) n (q + 1) k"
proof (unfold apart_def, intro allI impI)
  fix j assume a: "\<forall>j < Suc k. Suc n \<le> unat (q + word_of_nat j - d)" and j: "j < k"
  then have "Suc n \<le> unat (q + word_of_nat (Suc j) - d)" by blast
  from step_back(2) [OF this] show "n \<le> unat (q + 1 + word_of_nat j - (d + 1))"
    by (simp add: algebra_simps)
qed

lemma bytes_at_cong: "(\<And>i. i < length bs \<Longrightarrow> m' (p + word_of_nat i) = m (p + word_of_nat i)) \<Longrightarrow>
    bytes_at m' p bs = bytes_at m p bs"
  by (simp add: bytes_at_nth)

lemma cstring_cong: "(\<And>i. i \<le> length bs \<Longrightarrow> m' (p + word_of_nat i) = m (p + word_of_nat i)) \<Longrightarrow>
    cstring m' p bs = cstring m p bs"
  by (simp add: cstring_bytes bytes_at_nth)

lemma write_apart:
  assumes "apart d (Suc n) q k" "j < k"
  shows "(m(d := b)) (q + word_of_nat j) = m (q + word_of_nat j)"
  using assms step_back(1) by (auto simp: apart_def)

lemma wrap_back: "n < 4294967295 \<Longrightarrow> n \<le> unat ((d :: addr) - (d + 1))"
proof -
  assume "n < 4294967295"
  moreover have "d - (d + 1) = - 1" by simp
  moreover have "unat (- 1 :: addr) = 4294967295" by (simp add: unsigned_minus_1_eq_mask mask_eq_exp_minus_1)
  ultimately show ?thesis by simp
qed

lemma strncpy_cstring:
  assumes "cstring m src bs" "apart dst (Suc (length bs)) src (Suc (length bs))" "length bs < 4294967294"
  shows "cstring (strncpy m dst src (Suc (length bs))) dst bs
    \<and> (\<forall>a. Suc (length bs) \<le> unat (a - dst) \<longrightarrow> strncpy m dst src (Suc (length bs)) a = m a)"
  using assms
proof (induction bs arbitrary: m dst src)
  case Nil
  then show ?case by (simp add: mem_set_def)
next
  case (Cons b bs)
  define m' where "m' = m(dst := b)"
  have m': "m' dst = b" "\<And>a. a \<noteq> dst \<Longrightarrow> m' a = m a" by (simp_all add: m'_def)
  have "cstring m' (src + 1) bs"
  proof -
    have "m' (src + 1 + word_of_nat i) = m (src + 1 + word_of_nat i)" if "i \<le> length bs" for i
      using write_apart [OF Cons.prems(2), of "Suc i" m b] that by (simp add: m'_def algebra_simps)
    then show ?thesis using Cons.prems(1) cstring_cong [of bs m' "src + 1" m] by simp
  qed
  then have IH: "cstring (strncpy m' (dst + 1) (src + 1) (Suc (length bs))) (dst + 1) bs"
    "\<forall>a. Suc (length bs) \<le> unat (a - (dst + 1)) \<longrightarrow> strncpy m' (dst + 1) (src + 1) (Suc (length bs)) a = m' a"
    using Cons.IH [of m' "src + 1" "dst + 1"] apart_Suc [OF Cons.prems(2) [simplified]] Cons.prems(3)
    by (simp_all del: strncpy.simps)
  have "strncpy m' (dst + 1) (src + 1) (Suc (length bs)) dst = b"
    using IH(2) wrap_back [of "Suc (length bs)" dst] Cons.prems(3) m' by simp
  moreover have "strncpy m' (dst + 1) (src + 1) (Suc (length bs)) a = m a"
    if "Suc (Suc (length bs)) \<le> unat (a - dst)" for a
    using IH(2) step_back [OF that] m' by simp
  moreover have "strncpy m dst src (Suc (length (b # bs))) = strncpy m' (dst + 1) (src + 1) (Suc (length bs))"
    using Cons.prems(1) by (simp del: strncpy.simps add: m'_def strncpy.simps(2) [of _ _ _ "Suc (length bs)"])
  ultimately show ?case using IH(1) Cons.prems(1) by simp
qed

lemma strncpy_bytes:
  assumes "bytes_at m src bs" "0 \<notin> set bs" "apart dst (length bs) src (length bs)" "length bs < 4294967294"
  shows "bytes_at (strncpy m dst src (length bs)) dst bs
    \<and> (\<forall>a. length bs \<le> unat (a - dst) \<longrightarrow> strncpy m dst src (length bs) a = m a)"
  using assms
proof (induction bs arbitrary: m dst src)
  case Nil
  then show ?case by simp
next
  case (Cons b bs)
  define m' where "m' = m(dst := b)"
  have m': "m' dst = b" "\<And>a. a \<noteq> dst \<Longrightarrow> m' a = m a" by (simp_all add: m'_def)
  have ap: "apart dst (Suc (length bs)) src (Suc (length bs))" using Cons.prems(3) by simp
  have "bytes_at m' (src + 1) bs"
  proof -
    have "m' (src + 1 + word_of_nat i) = m (src + 1 + word_of_nat i)" if "i < length bs" for i
      using write_apart [OF ap, of "Suc i" m b] that by (simp add: m'_def algebra_simps)
    then show ?thesis using Cons.prems(1) bytes_at_cong [of bs m' "src + 1" m] by simp
  qed
  then have IH: "bytes_at (strncpy m' (dst + 1) (src + 1) (length bs)) (dst + 1) bs"
    "\<forall>a. length bs \<le> unat (a - (dst + 1)) \<longrightarrow> strncpy m' (dst + 1) (src + 1) (length bs) a = m' a"
    using Cons.IH [of m' "src + 1" "dst + 1"] apart_Suc [OF ap] Cons.prems(2,4) by fastforce+
  have "strncpy m' (dst + 1) (src + 1) (length bs) dst = b"
    using IH(2) wrap_back [of "length bs" dst] Cons.prems(4) m' by simp
  moreover have "strncpy m' (dst + 1) (src + 1) (length bs) a = m a"
    if "Suc (length bs) \<le> unat (a - dst)" for a
    using IH(2) step_back [OF that] m' by simp
  moreover have "strncpy m dst src (length (b # bs)) = strncpy m' (dst + 1) (src + 1) (length bs)"
    using Cons.prems(1,2) by (auto simp: m'_def)
  ultimately show ?case using IH(1) by simp
qed

end
