(* ===== verification/Compare.thy ===== *)
theory Compare
  imports Values CStrings
begin

text \<open>
  runtime/runtime.c, structural comparison and hashing (lines 538-690). Both walk the object
  graph below their arguments. \<open>rep s p v\<close> relates a word to the finite value it represents;
  on represented values both functions return, and what they return depends on the values only,
  not on where the objects lie.
\<close>

section \<open>The code\<close>

definition word_at :: "gc_state \<Rightarrow> u32 \<Rightarrow> nat \<Rightarrow> u32" where
  "word_at s p i = load32 (mem s) (contents (TO_DATA p) + 4 * word_of_nat i)"

text \<open>
  \<open>~UNBOXED (q)\<close> is a bitwise complement, which is never zero, so the last branch of
  \<open>LflatCompare\<close> is never taken.
\<close>

definition LflatCompare :: "u32 \<Rightarrow> u32 \<Rightarrow> u32" where
  "LflatCompare p q =
     (if UNBOXED p then (if UNBOXED q then BOX (UNBOX p - UNBOX q) else - 1) else BOX (p - q))"

partial_function (option) Lcompare :: "gc_state \<Rightarrow> u32 \<Rightarrow> u32 \<Rightarrow> u32 outcome" where
  "Lcompare s p q =
     (if p = q then ok (BOX 0)
      else if UNBOXED p then (if UNBOXED q then ok (BOX (UNBOX p - UNBOX q)) else ok (BOX (- 1)))
      else if UNBOXED q then ok (BOX 1)
      else if is_valid_heap_pointer s p then
        (if is_valid_heap_pointer s q then
           let ta = tag_at s p; tb = tag_at s q; la = len_at s p; lb = len_at s q in
           if ta \<noteq> tb then ok (BOX (ta - tb))
           else if ta = STRING_TAG then andthen (strcmp (mem s) p q) (\<lambda>c. ok (BOX c))
           else if ta = CLOSURE_TAG then
             (if word_at s p 0 \<noteq> word_at s q 0 then ok (BOX (word_at s p 0 - word_at s q 0))
              else if la \<noteq> lb then ok (BOX (la - lb))
              else first_such (\<lambda>c. c \<noteq> BOX 0) (BOX 0)
                     (\<lambda>i. Lcompare s (word_at s p i) (word_at s q i)) [1..<unat la])
           else if ta = ARRAY_TAG then
             (if la \<noteq> lb then ok (BOX (la - lb))
              else first_such (\<lambda>c. c \<noteq> BOX 0) (BOX 0)
                     (\<lambda>i. Lcompare s (word_at s p i) (word_at s q i)) [0..<unat la])
           else if ta = SEXP_TAG then
             (let tag_a = sexp_tag (mem s) (TO_SEXP p); tag_b = sexp_tag (mem s) (TO_SEXP q) in
              if tag_a \<noteq> tag_b then ok (BOX (tag_a - tag_b))
              else if la \<noteq> lb then ok (BOX (la - lb))
              else first_such (\<lambda>c. c \<noteq> BOX 0) (BOX 0)
                     (\<lambda>i. Lcompare s (word_at s p (i + 1)) (word_at s q (i + 1))) [0..<unat la])
           else err (Failure ''invalid data_header %d in compare *****'')
         else ok (BOX (- 1)))
      else if is_valid_heap_pointer s q then ok (BOX 1)
      else ok (BOX (p - q)))"

definition HASH_DEPTH :: nat where "HASH_DEPTH = 3"

text \<open>\<open>WORD_SIZE / 2\<close> is 16.\<close>

definition HASH_APPEND :: "u32 \<Rightarrow> u32 \<Rightarrow> u32" where
  "HASH_APPEND acc x = push_bit 16 (acc + x) OR drop_bit 16 (acc + x)"

text \<open>The loop over the characters of a string; a \<open>char\<close> is sign-extended.\<close>

partial_function (option) hash_chars :: "memory \<Rightarrow> addr \<Rightarrow> u32 \<Rightarrow> u32 outcome" where
  "hash_chars m p acc =
     (if m p = 0 then ok acc else hash_chars m (p + 1) (HASH_APPEND acc (scast (m p))))"

partial_function (option) inner_hash :: "gc_state \<Rightarrow> nat \<Rightarrow> u32 \<Rightarrow> u32 \<Rightarrow> u32 outcome" where
  "inner_hash s depth acc p =
     (if HASH_DEPTH < depth then ok acc
      else if UNBOXED p then ok (HASH_APPEND acc (UNBOX p))
      else if is_valid_heap_pointer s p then
        (let t = tag_at s p; l = len_at s p; acc' = HASH_APPEND (HASH_APPEND acc t) l in
         if t = STRING_TAG then hash_chars (mem s) p acc'
         else if t = CLOSURE_TAG then
           for_each (\<lambda>i acc. inner_hash s (depth + 1) acc (word_at s p i)) [1..<unat l]
             (HASH_APPEND acc' (word_at s p 0))
         else if t = ARRAY_TAG then
           for_each (\<lambda>i acc. inner_hash s (depth + 1) acc (word_at s p i)) [0..<unat l] acc'
         else if t = SEXP_TAG then
           for_each (\<lambda>i acc. inner_hash s (depth + 1) acc (word_at s p i)) [1..<unat l + 1]
             (HASH_APPEND acc' (sexp_tag (mem s) (TO_SEXP p)))
         else err (Failure ''invalid data_header %d in hash *****''))
      else ok (HASH_APPEND acc p))"

definition Lhash :: "gc_state \<Rightarrow> u32 \<Rightarrow> u32 outcome" where
  "Lhash s p = andthen (inner_hash s 0 0 p) (\<lambda>h. ok (BOX (0x3fffff AND h)))"

section \<open>Values\<close>

text \<open>
  The finite values a word can represent: an integer, a pointer to something outside the heap,
  a string, an array, a closure (entry point and captured values) and an S-expression (tag and
  subvalues).
\<close>

datatype val = Int_val u32 | Raw_val u32 | Str_val "u8 list" | Arr_val "val list"
  | Clo_val u32 "val list" | Sexp_val u32 "val list"

definition words_of :: "gc_state \<Rightarrow> u32 \<Rightarrow> nat \<Rightarrow> nat \<Rightarrow> u32 list" where
  "words_of s p i n = map (word_at s p) [i..<i + n]"

inductive rep :: "gc_state \<Rightarrow> u32 \<Rightarrow> val \<Rightarrow> bool" for s :: gc_state where
  rep_int: "UNBOXED p \<Longrightarrow> rep s p (Int_val p)"
| rep_raw: "\<not> UNBOXED p \<Longrightarrow> \<not> is_valid_heap_pointer s p \<Longrightarrow> rep s p (Raw_val p)"
| rep_str: "is_valid_heap_pointer s p \<Longrightarrow> tag_at s p = STRING_TAG \<Longrightarrow> cstring (mem s) p bs \<Longrightarrow>
    length bs < 536870912 \<Longrightarrow> len_at s p = word_of_nat (length bs) \<Longrightarrow> rep s p (Str_val bs)"
| rep_arr: "is_valid_heap_pointer s p \<Longrightarrow> tag_at s p = ARRAY_TAG \<Longrightarrow> unat (len_at s p) = length vs \<Longrightarrow>
    list_all2 (rep s) (words_of s p 0 (length vs)) vs \<Longrightarrow> rep s p (Arr_val vs)"
| rep_clo: "is_valid_heap_pointer s p \<Longrightarrow> tag_at s p = CLOSURE_TAG \<Longrightarrow>
    unat (len_at s p) = Suc (length vs) \<Longrightarrow> word_at s p 0 = e \<Longrightarrow>
    list_all2 (rep s) (words_of s p 1 (length vs)) vs \<Longrightarrow> rep s p (Clo_val e vs)"
| rep_sexp: "is_valid_heap_pointer s p \<Longrightarrow> tag_at s p = SEXP_TAG \<Longrightarrow> unat (len_at s p) = length vs \<Longrightarrow>
    sexp_tag (mem s) (TO_SEXP p) = t \<Longrightarrow>
    list_all2 (rep s) (words_of s p 1 (length vs)) vs \<Longrightarrow> rep s p (Sexp_val t vs)"
monos list_all2_mono

inductive_cases rep_IntE: "rep s p (Int_val w)"
inductive_cases rep_RawE: "rep s p (Raw_val w)"
inductive_cases rep_StrE: "rep s p (Str_val bs)"
inductive_cases rep_ArrE: "rep s p (Arr_val vs)"
inductive_cases rep_CloE: "rep s p (Clo_val e vs)"
inductive_cases rep_SexpE: "rep s p (Sexp_val t vs)"
lemmas rep_cases = rep_IntE rep_RawE rep_StrE rep_ArrE rep_CloE rep_SexpE

inductive_simps rep_Int: "rep s p (Int_val w)"
inductive_simps rep_Raw: "rep s p (Raw_val w)"
inductive_simps rep_Str: "rep s p (Str_val bs)"
inductive_simps rep_Arr: "rep s p (Arr_val vs)"
inductive_simps rep_Clo: "rep s p (Clo_val e vs)"
inductive_simps rep_Sexp: "rep s p (Sexp_val t vs)"
lemmas rep_iffs = rep_Int rep_Raw rep_Str rep_Arr rep_Clo rep_Sexp

lemma heap_pointer_boxed: "is_valid_heap_pointer s p \<Longrightarrow> \<not> UNBOXED p"
  by (simp add: is_valid_heap_pointer_def)

lemma tags_distinct [simp]:
  "STRING_TAG \<noteq> ARRAY_TAG" "STRING_TAG \<noteq> SEXP_TAG" "STRING_TAG \<noteq> CLOSURE_TAG"
  "ARRAY_TAG \<noteq> STRING_TAG" "ARRAY_TAG \<noteq> SEXP_TAG" "ARRAY_TAG \<noteq> CLOSURE_TAG"
  "SEXP_TAG \<noteq> STRING_TAG" "SEXP_TAG \<noteq> ARRAY_TAG" "SEXP_TAG \<noteq> CLOSURE_TAG"
  "CLOSURE_TAG \<noteq> STRING_TAG" "CLOSURE_TAG \<noteq> ARRAY_TAG" "CLOSURE_TAG \<noteq> SEXP_TAG"
  by (simp_all add: tag_defs)

lemma list_all2_unique:
  assumes "list_all2 (\<lambda>p v. R p v \<and> (\<forall>w. R p w \<longrightarrow> v = w)) ps vs" "list_all2 R ps ws"
  shows "vs = ws"
  using assms by (induction ps vs arbitrary: ws rule: list_all2_induct) (auto simp: list_all2_Cons1)

text \<open>A word represents at most one value.\<close>

lemma rep_unique: "rep s p v \<Longrightarrow> rep s p w \<Longrightarrow> v = w"
proof (induction arbitrary: w rule: rep.induct)
  case (rep_int p)
  then show ?case by (cases w) (auto simp: rep_iffs heap_pointer_boxed)
next
  case (rep_raw p)
  then show ?case by (cases w) (auto simp: rep_iffs)
next
  case (rep_str p bs)
  then show ?case by (cases w) (auto simp: rep_iffs heap_pointer_boxed dest: cstring_unique)
next
  case (rep_arr p vs)
  then show ?case by (cases w) (auto simp: rep_iffs heap_pointer_boxed dest: list_all2_unique)
next
  case (rep_clo p vs e)
  then show ?case by (cases w) (auto simp: rep_iffs heap_pointer_boxed dest: list_all2_unique)
next
  case (rep_sexp p vs t)
  then show ?case by (cases w) (auto simp: rep_iffs heap_pointer_boxed dest: list_all2_unique)
qed

section \<open>Comparison of values\<close>

fun kind_tag :: "val \<Rightarrow> u32" where
  "kind_tag (Int_val _) = UNBOXED_TAG"
| "kind_tag (Raw_val _) = UNBOXED_TAG"
| "kind_tag (Str_val _) = STRING_TAG"
| "kind_tag (Arr_val _) = ARRAY_TAG"
| "kind_tag (Clo_val _ _) = CLOSURE_TAG"
| "kind_tag (Sexp_val _ _) = SEXP_TAG"

fun is_int :: "val \<Rightarrow> bool" where "is_int (Int_val _) = True" | "is_int _ = False"
fun is_raw :: "val \<Rightarrow> bool" where "is_raw (Raw_val _) = True" | "is_raw _ = False"

text \<open>Values of different kinds: integers come first, then heap objects by kind, then the rest.\<close>

definition kind_order :: "val \<Rightarrow> val \<Rightarrow> u32" where
  "kind_order v w = (if is_int v then BOX (- 1) else if is_int w then BOX 1
     else if is_raw v then BOX 1 else if is_raw w then BOX (- 1) else BOX (kind_tag v - kind_tag w))"

definition len_word :: "val list \<Rightarrow> u32" where
  "len_word vs = word_of_nat (length vs)"

fun vcompare :: "val \<Rightarrow> val \<Rightarrow> u32" and vcompares :: "val list \<Rightarrow> val list \<Rightarrow> u32" where
  "vcompare (Int_val a) (Int_val b) = BOX (UNBOX a - UNBOX b)"
| "vcompare (Raw_val p) (Raw_val q) = BOX (p - q)"
| "vcompare (Str_val bs) (Str_val cs) = BOX (cmp_bytes bs cs)"
| "vcompare (Arr_val vs) (Arr_val ws) =
     (if len_word vs \<noteq> len_word ws then BOX (len_word vs - len_word ws) else vcompares vs ws)"
| "vcompare (Clo_val e vs) (Clo_val f ws) =
     (if e \<noteq> f then BOX (e - f)
      else if len_word vs \<noteq> len_word ws then BOX (len_word vs - len_word ws) else vcompares vs ws)"
| "vcompare (Sexp_val t vs) (Sexp_val u ws) =
     (if t \<noteq> u then BOX (t - u)
      else if len_word vs \<noteq> len_word ws then BOX (len_word vs - len_word ws) else vcompares vs ws)"
| "vcompare v w = kind_order v w"
| "vcompares (v # vs) (w # ws) = (let c = vcompare v w in if c \<noteq> BOX 0 then c else vcompares vs ws)"
| "vcompares vs ws = BOX 0"

lemma vcompares_refl: "\<forall>v\<in>set vs. vcompare v v = BOX 0 \<Longrightarrow> vcompares vs vs = BOX 0"
  by (induction vs) simp_all

lemma cmp_bytes_refl [simp]: "cmp_bytes bs bs = 0"
  by (induction bs) simp_all

lemma vcompare_refl [simp]: "vcompare v v = BOX 0"
  by (induction v) (simp_all add: vcompares_refl)

section \<open>\<open>Lcompare\<close> compares values\<close>

lemma first_such_map: "first_such P d f (map g xs) = first_such P d (\<lambda>x. f (g x)) xs"
  by (induction xs) (simp_all cong: if_cong)

lemma words_of_Suc: "words_of s p j (Suc n) = word_at s p j # words_of s p (Suc j) n"
  by (simp add: words_of_def upt_conv_Cons del: upt_Suc)

lemma words_of_0 [simp]: "words_of s p j 0 = []"
  by (simp add: words_of_def)

text \<open>The loop over the words of two objects of the same length.\<close>

lemma compare_words:
  assumes "list_all2 (\<lambda>p v. \<forall>q w. R q w \<longrightarrow> Lcompare s p q = ok (vcompare v w)) (words_of s p j (length vs)) vs"
    and "list_all2 R (words_of s q j (length ws)) ws" "length vs = length ws"
  shows "first_such (\<lambda>c. c \<noteq> BOX 0) (BOX 0) (\<lambda>i. Lcompare s (word_at s p i) (word_at s q i)) [j..<j + length vs]
    = ok (vcompares vs ws)"
  using assms(3,1,2)
proof (induction vs ws arbitrary: j rule: list_induct2)
  case Nil
  then show ?case by simp
next
  case (Cons v vs w ws)
  have IH: "first_such (\<lambda>c. c \<noteq> BOX 0) (BOX 0) (\<lambda>i. Lcompare s (word_at s p i) (word_at s q i))
      [Suc j..<Suc j + length vs] = ok (vcompares vs ws)"
    using Cons.IH [of "Suc j"] Cons.prems by (simp add: words_of_Suc del: upt_Suc)
  have l: "[j..<j + length (v # vs)] = j # [Suc j..<Suc j + length vs]"
    by (simp add: upt_conv_Cons del: upt_Suc)
  have "Lcompare s (word_at s p j) (word_at s q j) = ok (vcompare v w)"
    using Cons.prems by (simp add: words_of_Suc)
  then show ?case
    unfolding l using IH by (simp add: Let_def del: upt_Suc)
qed

lemma len_word_eq: "unat l = length vs \<Longrightarrow> l = len_word vs"
  unfolding len_word_def by (drule sym) simp

lemma len_word_Suc: "unat l = Suc (length vs) \<Longrightarrow> l = len_word vs + 1"
proof -
  assume "unat l = Suc (length vs)"
  then have "l = word_of_nat (Suc (length vs))" by (metis of_nat_unat ucast_id)
  then show ?thesis by (simp add: len_word_def)
qed

lemma len_word_inj:
  "unat (l :: u32) = length vs \<Longrightarrow> unat (l' :: u32) = length ws \<Longrightarrow>
   l = l' \<longleftrightarrow> length vs = length ws"
  by (simp add: word_unat_eq_iff)

lemma Lcompare_same: "rep s p v \<Longrightarrow> rep s p w \<Longrightarrow> Lcompare s p p = ok (vcompare v w)"
  using rep_unique [of s p v w] by (simp add: Lcompare.simps)

lemma rep_loop:
  assumes "list_all2 (\<lambda>p v. rep s p v \<and> (\<forall>q w. rep s q w \<longrightarrow> Lcompare s p q = ok (vcompare v w)))
      (words_of s p j (length vs)) vs"
    and "list_all2 (rep s) (words_of s q j (length ws)) ws" "length vs = length ws"
  shows "first_such (\<lambda>c. c \<noteq> BOX 0) (BOX 0) (\<lambda>i. Lcompare s (word_at s p i) (word_at s q i)) [j..<j + length vs]
    = ok (vcompares vs ws)"
proof (rule compare_words [OF _ assms(2,3)])
  show "list_all2 (\<lambda>p v. \<forall>q w. rep s q w \<longrightarrow> Lcompare s p q = ok (vcompare v w)) (words_of s p j (length vs)) vs"
    by (rule list_all2_mono [OF assms(1)]) blast
qed

lemma rep_loop_shift:
  assumes "list_all2 (\<lambda>p v. rep s p v \<and> (\<forall>q w. rep s q w \<longrightarrow> Lcompare s p q = ok (vcompare v w)))
      (words_of s p 1 (length vs)) vs"
    and "list_all2 (rep s) (words_of s q 1 (length ws)) ws" "length vs = length ws"
  shows "first_such (\<lambda>c. c \<noteq> BOX 0) (BOX 0)
      (\<lambda>i. Lcompare s (word_at s p (i + 1)) (word_at s q (i + 1))) [0..<length vs]
    = ok (vcompares vs ws)"
  using rep_loop [OF assms] first_such_map [of "\<lambda>c. c \<noteq> BOX 0" "BOX 0"
      "\<lambda>i. Lcompare s (word_at s p i) (word_at s q i)" Suc "[0..<length vs]"]
  by (simp add: map_Suc_upt del: upt_Suc)

theorem Lcompare_rep: "rep s p v \<Longrightarrow> rep s q w \<Longrightarrow> Lcompare s p q = ok (vcompare v w)"
proof (induction arbitrary: q w rule: rep.induct)
  case (rep_int p)
  then show ?case
    by (cases w) (auto simp: rep_iffs Lcompare.simps [of s p] heap_pointer_boxed kind_order_def)
next
  case (rep_raw p)
  then show ?case
    by (cases w) (auto simp: rep_iffs Lcompare.simps [of s p] heap_pointer_boxed kind_order_def)
next
  case (rep_str p bs)
  note p = this(1-5)
  show ?case
  proof (cases "p = q")
    case True
    then show ?thesis using Lcompare_same [OF rep.rep_str [OF p]] rep_str.prems by simp
  next
    case False
    then show ?thesis using p rep_str.prems
      by (cases w) (auto simp: rep_iffs Lcompare.simps [of s p] heap_pointer_boxed kind_order_def
        Let_def strcmp_cstring)
  qed
next
  case (rep_arr p vs)
  note p = this(1-3)
  have "list_all2 (rep s) (words_of s p 0 (length vs)) vs"
    using rep_arr(4) by (rule list_all2_mono) simp
  with p have r: "rep s p (Arr_val vs)" by (intro rep.rep_arr)
  show ?case
  proof (cases "p = q")
    case True
    then show ?thesis using Lcompare_same [OF r] rep_arr.prems by simp
  next
    case ne: False
    show ?thesis
    proof (cases w)
      case (Arr_val ws)
      then have q: "is_valid_heap_pointer s q" "tag_at s q = ARRAY_TAG" "unat (len_at s q) = length ws"
        "list_all2 (rep s) (words_of s q 0 (length ws)) ws" using rep_arr.prems by (simp_all add: rep_iffs)
      show ?thesis
        using ne p q Arr_val rep_loop [OF rep_arr(4) q(4)] len_word_inj [OF p(3) q(3)]
          len_word_eq [OF p(3)] len_word_eq [OF q(3)]
        by (simp add: Lcompare.simps [of s p] heap_pointer_boxed Let_def)
    qed (use ne p rep_arr.prems in \<open>auto simp: rep_iffs Lcompare.simps [of s p] heap_pointer_boxed
        kind_order_def Let_def\<close>)
  qed
next
  case (rep_clo p vs e)
  note p = this(1-4)
  have "list_all2 (rep s) (words_of s p 1 (length vs)) vs"
    using rep_clo(5) by (rule list_all2_mono) simp
  with p have r: "rep s p (Clo_val e vs)" by (intro rep.rep_clo)
  show ?case
  proof (cases "p = q")
    case True
    then show ?thesis using Lcompare_same [OF r] rep_clo.prems by simp
  next
    case ne: False
    show ?thesis
    proof (cases w)
      case (Clo_val f ws)
      then have q: "is_valid_heap_pointer s q" "tag_at s q = CLOSURE_TAG"
        "unat (len_at s q) = Suc (length ws)" "word_at s q 0 = f"
        "list_all2 (rep s) (words_of s q 1 (length ws)) ws" using rep_clo.prems by (simp_all add: rep_iffs)
      have l: "len_at s p = len_at s q \<longleftrightarrow> length vs = length ws"
        using p(3) q(3) by (simp add: word_unat_eq_iff)
      show ?thesis
        using ne p q Clo_val rep_loop [OF rep_clo(5) q(5)] l
          len_word_Suc [OF p(3)] len_word_Suc [OF q(3)]
        by (simp add: Lcompare.simps [of s p] heap_pointer_boxed Let_def del: upt_Suc)
    qed (use ne p rep_clo.prems in \<open>auto simp: rep_iffs Lcompare.simps [of s p] heap_pointer_boxed
        kind_order_def Let_def\<close>)
  qed
next
  case (rep_sexp p vs t)
  note p = this(1-4)
  have "list_all2 (rep s) (words_of s p 1 (length vs)) vs"
    using rep_sexp(5) by (rule list_all2_mono) simp
  with p have r: "rep s p (Sexp_val t vs)" by (intro rep.rep_sexp)
  show ?case
  proof (cases "p = q")
    case True
    then show ?thesis using Lcompare_same [OF r] rep_sexp.prems by simp
  next
    case ne: False
    show ?thesis
    proof (cases w)
      case (Sexp_val u ws)
      then have q: "is_valid_heap_pointer s q" "tag_at s q = SEXP_TAG"
        "unat (len_at s q) = length ws" "sexp_tag (mem s) (TO_SEXP q) = u"
        "list_all2 (rep s) (words_of s q 1 (length ws)) ws" using rep_sexp.prems by (simp_all add: rep_iffs)
      show ?thesis
        using ne p q Sexp_val rep_loop_shift [OF rep_sexp(5) q(5)] len_word_inj [OF p(3) q(3)]
          len_word_eq [OF p(3)] len_word_eq [OF q(3)]
        by (simp add: Lcompare.simps [of s p] heap_pointer_boxed Let_def del: upt_Suc)
    qed (use ne p rep_sexp.prems in \<open>auto simp: rep_iffs Lcompare.simps [of s p] heap_pointer_boxed
        kind_order_def Let_def\<close>)
  qed
qed

section \<open>The value of a comparison\<close>

text \<open>
  Values without pointers and closures whose integers and tags are boxed integers and whose
  strings hold no zero byte: on these, comparing equal is being equal.
\<close>

fun plain :: "val \<Rightarrow> bool" where
  "plain (Int_val w) = UNBOXED w"
| "plain (Str_val bs) = (0 \<notin> set bs \<and> length bs < 536870912)"
| "plain (Arr_val vs) = (length vs < 536870912 \<and> (\<forall>v\<in>set vs. plain v))"
| "plain (Sexp_val t vs) = (fits31 (sint t) \<and> length vs < 536870912 \<and> (\<forall>v\<in>set vs. plain v))"
| "plain _ = False"

lemma BOX_eq_0: "BOX x = BOX 0 \<longleftrightarrow> wrap31 (sint x) = 0"
  by (metis UNBOXED_BOX ival_BOX ival_inj signed_0 wrap31_fits fits31_wrap31 wrap31_def
      signed_take_bit_of_0)

lemma wrap31_eq_0:
  assumes "\<bar>z\<bar> < 2147483648" shows "wrap31 z = 0 \<longleftrightarrow> z = 0"
proof
  assume w: "wrap31 z = 0"
  have "take_bit 31 z = take_bit 31 (wrap31 z)" by (simp add: wrap31_def take_bit_signed_take_bit)
  then have "z mod 2147483648 = 0" using w by (simp add: take_bit_eq_mod)
  then have "2147483648 dvd z" by (simp add: dvd_eq_mod_eq_0)
  then show "z = 0" using assms dvd_imp_le_int [of z 2147483648] by linarith
qed (simp add: wrap31_def)

lemma sint_eq_iff: "sint x = sint y \<longleftrightarrow> x = y"
  by (auto intro: signed_word_eqI)

lemma BOX_diff_eq_0:
  fixes x y :: u32
  assumes "\<bar>sint x - sint y\<bar> < 2147483648"
  shows "BOX (x - y) = BOX 0 \<longleftrightarrow> x = y"
proof -
  have "sint (x - y) = sint x - sint y"
    using assms by (subst sint_word_ariths(2)) (simp add: signed_take_bit_int_eq_self abs_less_iff)
  then show ?thesis
    using assms by (simp add: BOX_eq_0 wrap31_eq_0 sint_eq_iff)
qed

lemma BOX_len_eq_0:
  assumes "length vs < 536870912" "length ws < 536870912"
  shows "BOX (len_word vs - len_word ws) = BOX 0 \<longleftrightarrow> length vs = length ws"
    "len_word vs = len_word ws \<longleftrightarrow> length vs = length ws"
proof -
  have s: "sint (len_word xs) = int (length xs)" if "length xs < 536870912" for xs
    using that by (simp add: len_word_def signed_of_nat signed_take_bit_int_eq_self)
  show i: "len_word vs = len_word ws \<longleftrightarrow> length vs = length ws"
    using s [OF assms(1)] s [OF assms(2)] by (metis of_nat_eq_iff signed_word_eqI)
  have "\<bar>sint (len_word vs) - sint (len_word ws)\<bar> < 2147483648"
    using s [OF assms(1)] s [OF assms(2)] assms by simp
  then show "BOX (len_word vs - len_word ws) = BOX 0 \<longleftrightarrow> length vs = length ws"
    by (simp add: BOX_diff_eq_0 i)
qed

lemma kind_order_neq_0: "kind_tag v \<noteq> kind_tag w \<Longrightarrow> kind_order v w \<noteq> BOX 0"
  by (cases v; cases w) (auto simp: kind_order_def BOX_def tag_defs)

lemma vcompares_eq:
  assumes "\<forall>v\<in>set vs. \<forall>w. plain v \<longrightarrow> plain w \<longrightarrow> vcompare v w = BOX 0 \<longrightarrow> v = w"
    "length vs = length ws" "\<forall>v\<in>set vs. plain v" "\<forall>w\<in>set ws. plain w" "vcompares vs ws = BOX 0"
  shows "vs = ws"
  using assms(2,1,3-)
proof (induction vs ws rule: list_induct2)
  case Nil
  then show ?case by simp
next
  case (Cons v vs w ws)
  have c: "vcompare v w = BOX 0" "vcompares vs ws = BOX 0"
    using Cons.prems(4) by (simp_all add: Let_def split: if_splits)
  have "v = w" using Cons.prems(1-3) c(1) by simp
  moreover have "vs = ws" using Cons.prems(1-3) c(2) by (intro Cons.IH) simp_all
  ultimately show ?case by simp
qed

lemma plain_int_diff:
  assumes "UNBOXED a" "UNBOXED b" "BOX (UNBOX a - UNBOX b) = BOX 0" shows "a = b"
proof -
  have "fits31 (sint (UNBOX a))" "fits31 (sint (UNBOX b))"
    using fits31_ival [of a] fits31_ival [of b] by (simp_all add: ival_def)
  then have "\<bar>sint (UNBOX a) - sint (UNBOX b)\<bar> < 2147483648" unfolding fits31_def by linarith
  then have "UNBOX a = UNBOX b" using assms(3) BOX_diff_eq_0 by blast
  then show ?thesis using assms(1,2) BOX_UNBOX by metis
qed

lemma vcompare_eqD: "plain v \<Longrightarrow> plain w \<Longrightarrow> vcompare v w = BOX 0 \<Longrightarrow> v = w"
proof (induction v arbitrary: w)
  case (Int_val a)
  then show ?case
    by (cases w) (auto dest: plain_int_diff simp: kind_order_neq_0 tag_defs)
next
  case (Str_val bs)
  show ?case
  proof (cases w)
    case w: (Str_val cs)
    have "\<bar>sint (cmp_bytes bs cs)\<bar> < 2147483648" using cmp_bytes_range [of bs cs] by simp
    with Str_val w show ?thesis by (simp add: BOX_eq_0 wrap31_eq_0 cmp_bytes_eq signed_eq_0_iff)
  qed (use Str_val kind_order_neq_0 [of "Str_val bs" w] in \<open>auto simp: tag_defs\<close>)
next
  case (Arr_val vs)
  show ?case
  proof (cases w)
    case w: (Arr_val ws)
    with Arr_val.prems have "length vs = length ws"
      by (auto simp: BOX_len_eq_0 split: if_splits)
    moreover from this have "len_word vs = len_word ws" by (simp add: len_word_def)
    ultimately show ?thesis using Arr_val w vcompares_eq [of vs ws] by auto
  qed (use Arr_val kind_order_neq_0 [of "Arr_val vs" w] in \<open>auto simp: tag_defs\<close>)
next
  case (Sexp_val t vs)
  show ?case
  proof (cases w)
    case w: (Sexp_val u ws)
    have "fits31 (sint t)" "fits31 (sint u)" using Sexp_val.prems w by simp_all
    then have "\<bar>sint t - sint u\<bar> < 2147483648" unfolding fits31_def by linarith
    then have "t = u" using Sexp_val.prems w by (auto simp: BOX_diff_eq_0 split: if_splits)
    moreover have "length vs = length ws"
      using Sexp_val.prems w \<open>t = u\<close> by (auto simp: BOX_len_eq_0 split: if_splits)
    moreover from this have "len_word vs = len_word ws" by (simp add: len_word_def)
    ultimately show ?thesis using Sexp_val w vcompares_eq [of vs ws] by auto
  qed (use Sexp_val kind_order_neq_0 [of "Sexp_val t vs" w] in \<open>auto simp: tag_defs\<close>)
qed simp_all

section \<open>Hashing of values\<close>

fun vhash :: "nat \<Rightarrow> u32 \<Rightarrow> val \<Rightarrow> u32" and vhashes :: "nat \<Rightarrow> u32 \<Rightarrow> val list \<Rightarrow> u32" where
  "vhash d acc v = (if HASH_DEPTH < d then acc else case v of
      Int_val w \<Rightarrow> HASH_APPEND acc (UNBOX w)
    | Raw_val p \<Rightarrow> HASH_APPEND acc p
    | Str_val bs \<Rightarrow> foldl (\<lambda>a b. HASH_APPEND a (scast b))
        (HASH_APPEND (HASH_APPEND acc STRING_TAG) (word_of_nat (length bs))) bs
    | Arr_val vs \<Rightarrow> vhashes (d + 1) (HASH_APPEND (HASH_APPEND acc ARRAY_TAG) (len_word vs)) vs
    | Clo_val e vs \<Rightarrow>
        vhashes (d + 1) (HASH_APPEND (HASH_APPEND (HASH_APPEND acc CLOSURE_TAG) (len_word vs + 1)) e) vs
    | Sexp_val t vs \<Rightarrow>
        vhashes (d + 1) (HASH_APPEND (HASH_APPEND (HASH_APPEND acc SEXP_TAG) (len_word vs)) t) vs)"
| "vhashes d acc [] = acc"
| "vhashes d acc (v # vs) = vhashes d (vhash d acc v) vs"

declare vhash.simps [simp del]

lemma hash_chars_cstring:
  "cstring m p bs \<Longrightarrow> hash_chars m p acc = ok (foldl (\<lambda>a b. HASH_APPEND a (scast b)) acc bs)"
  by (induction bs arbitrary: p acc) (auto simp: hash_chars.simps)

lemma hash_words:
  assumes "list_all2 (\<lambda>p v. \<forall>acc. inner_hash s d acc p = ok (vhash d acc v)) (words_of s p j (length vs)) vs"
  shows "for_each (\<lambda>i acc. inner_hash s d acc (word_at s p i)) [j..<j + length vs] acc = ok (vhashes d acc vs)"
  using assms
proof (induction vs arbitrary: j acc rule: list.induct)
  case Nil
  then show ?case by simp
next
  case (Cons v vs)
  have IH: "for_each (\<lambda>i acc. inner_hash s d acc (word_at s p i)) [Suc j..<Suc j + length vs] acc'
      = ok (vhashes d acc' vs)" for acc'
    using Cons.IH [of "Suc j" acc'] Cons.prems by (simp add: words_of_Suc del: upt_Suc)
  have l: "[j..<j + length (v # vs)] = j # [Suc j..<Suc j + length vs]"
    by (simp add: upt_conv_Cons del: upt_Suc)
  have "inner_hash s d acc (word_at s p j) = ok (vhash d acc v)"
    using Cons.prems by (simp add: words_of_Suc)
  then show ?case unfolding l using IH by (simp del: upt_Suc)
qed

lemma rep_hash_loop:
  assumes "list_all2 (\<lambda>p v. rep s p v \<and> (\<forall>d acc. inner_hash s d acc p = ok (vhash d acc v)))
      (words_of s p j (length vs)) vs"
  shows "for_each (\<lambda>i acc. inner_hash s d acc (word_at s p i)) [j..<j + length vs] acc = ok (vhashes d acc vs)"
proof (rule hash_words)
  show "list_all2 (\<lambda>p v. \<forall>acc. inner_hash s d acc p = ok (vhash d acc v)) (words_of s p j (length vs)) vs"
    by (rule list_all2_mono [OF assms]) blast
qed

theorem inner_hash_rep: "rep s p v \<Longrightarrow> inner_hash s d acc p = ok (vhash d acc v)"
proof (induction arbitrary: d acc rule: rep.induct)
  case (rep_int p)
  then show ?case by (simp add: inner_hash.simps vhash.simps)
next
  case (rep_raw p)
  then show ?case by (simp add: inner_hash.simps vhash.simps)
next
  case (rep_str p bs)
  then show ?case
    by (simp add: inner_hash.simps vhash.simps heap_pointer_boxed Let_def hash_chars_cstring)
next
  case (rep_arr p vs)
  show ?case
    using rep_arr(1-3) rep_hash_loop [OF rep_arr(4), of "d + 1"] len_word_eq [OF rep_arr(3)]
    by (simp add: inner_hash.simps [of s d] vhash.simps heap_pointer_boxed Let_def del: upt_Suc)
next
  case (rep_clo p vs e)
  show ?case
    using rep_clo(1-4) rep_hash_loop [OF rep_clo(5), of "d + 1"] len_word_Suc [OF rep_clo(3)]
    by (simp add: inner_hash.simps [of s d] vhash.simps heap_pointer_boxed Let_def del: upt_Suc)
next
  case (rep_sexp p vs t)
  show ?case
    using rep_sexp(1-4) rep_hash_loop [OF rep_sexp(5), of "d + 1"] len_word_eq [OF rep_sexp(3)]
    by (simp add: inner_hash.simps [of s d] vhash.simps heap_pointer_boxed Let_def del: upt_Suc)
qed

lemma Lhash_rep: "rep s p v \<Longrightarrow> Lhash s p = ok (BOX (0x3fffff AND vhash 0 0 v))"
  by (simp add: Lhash_def inner_hash_rep)

end
