(* ===== verification/Collection.thy ===== *)
theory Collection
  imports Relocation Compare
begin

text \<open>
  A whole collection: what \<open>compact_phase\<close> leaves of the heap that \<open>mark_phase\<close> has marked, and what
  that means for the values the program can still reach.
\<close>

section \<open>The objects after the relocation\<close>

definition compact_obj :: "obj list \<Rightarrow> nat set \<Rightarrow> addr \<Rightarrow> memory \<Rightarrow> nat \<Rightarrow> obj" where
  "compact_obj os M b m k = \<lparr>o_hdr = o_hdr (os ! k), o_fwd = RESET_MARK_BIT (o_fwd (os ! k)),
     o_body = body_at m b (lpos os M k + 8) (length (o_body (os ! k)))\<rparr>"

definition compacted :: "obj list \<Rightarrow> nat set \<Rightarrow> addr \<Rightarrow> memory \<Rightarrow> obj list" where
  "compacted os M b m = map (compact_obj os M b m) (live_list M (length os))"

lemma compact_obj_simps [simp]: "o_hdr (compact_obj os M b m k) = o_hdr (os ! k)"
  "o_fwd (compact_obj os M b m k) = RESET_MARK_BIT (o_fwd (os ! k))"
  "otype (compact_obj os M b m k) = otype (os ! k)" "osz (compact_obj os M b m k) = osz (os ! k)"
  by (simp_all add: compact_obj_def otype_def osz_def body_at_def)

lemma wf_compact_obj: "wf_obj (os ! k) \<Longrightarrow> wf_obj (compact_obj os M b m k)"
  by (cases "o_body (os ! k)") (auto simp: wf_obj_def otype_def compact_obj_def body_at_def)

lemma compacted_simps:
  shows "length (compacted os M b m) = rank M (length os)"
    and "k \<in> M \<Longrightarrow> k < length os \<Longrightarrow> compacted os M b m ! rank M k = compact_obj os M b m k"
    and "k \<le> length os \<Longrightarrow> opos (compacted os M b m) (rank M k) = lpos os M k"
proof -
  show "length (compacted os M b m) = rank M (length os)" by (simp add: compacted_def rank_def)
  show "k \<in> M \<Longrightarrow> k < length os \<Longrightarrow> compacted os M b m ! rank M k = compact_obj os M b m k"
    using nth_live [of k M "length os"] by (simp add: compacted_def length_live)
  show "k \<le> length os \<Longrightarrow> opos (compacted os M b m) (rank M k) = lpos os M k"
    unfolding compacted_def by (rule opos_live) simp_all
qed

text \<open>A word of the object that is not cut off by the end of a string.\<close>

lemma copied_load:
  assumes "copied os M b m0 m k" "8 \<le> j" "j + 4 \<le> obytes (os ! k)"
  shows "load32 m (ptr b (lpos os M k + j)) = load32 m0 (ptr b (opos os k + j))"
proof (rule load32_ptr_cong)
  fix d :: nat assume "d < 4"
  with assms have "j + d < obytes (os ! k)" "8 \<le> j + d" by simp_all
  with assms(1) show "m (ptr b (lpos os M k + j + d)) = m0 (ptr b (opos os k + j + d))"
    by (simp add: copied_def add.assoc)
qed

lemma copied_header:
  assumes "copied os M b m0 m k"
  shows "load32 m (ptr b (lpos os M k)) = load32 m0 (ptr b (opos os k))"
proof (rule load32_ptr_cong)
  fix d :: nat assume "d < 4"
  with obytes_ge [of "os ! k"] have "d < obytes (os ! k)" "d < 4" by linarith+
  with assms show "m (ptr b (lpos os M k + d)) = m0 (ptr b (opos os k + d))" by (simp add: copied_def)
qed

lemma compact_body:
  assumes v: "heap_view s0 os" and k: "k < length os" and t: "otype (os ! k) \<noteq> STRING"
    and c: "copied os M (chunk_begin (heap s0)) (mem s0) m k"
  shows "o_body (compact_obj os M (chunk_begin (heap s0)) m k) = o_body (os ! k)"
proof -
  have wf: "wf_obj (os ! k)" and w: "words_at (mem s0) (chunk_begin (heap s0)) (opos os k + 8) (o_body (os ! k))"
    using heap_view_obj [OF v k] by (auto simp: obj_at_def)
  have n: "obytes (os ! k) = 8 + 4 * length (o_body (os ! k))" using obytes_exact [OF wf t] by (simp add: osz_def)
  have "load32 m (ptr (chunk_begin (heap s0)) (lpos os M k + 8 + 4 * j)) = o_body (os ! k) ! j"
    if "j < length (o_body (os ! k))" for j
    using copied_load [OF c, of "8 + 4 * j"] that n w by (simp add: words_at_def add.assoc)
  then show ?thesis by (intro nth_equalityI) (simp_all add: compact_obj_def body_at_def)
qed

lemma compacted_view:
  assumes m: "moved old M s0 os" and r: "relocated os M s0 (length os) s"
    and c: "chunk_current h = ptr (chunk_begin (heap s0)) (lpos os M (length os))"
      "h = (heap s0)\<lparr>chunk_current := chunk_current h\<rparr>"
  shows "heap_view (s\<lparr>heap := h\<rparr>) (compacted os M (chunk_begin (heap s0)) (mem s))"
proof -
  let ?b = "chunk_begin (heap s0)" and ?os = "compacted os M (chunk_begin (heap s0)) (mem s)"
  note v = moved_view [OF m]
  have b: "chunk_begin h = ?b" "chunk_size h = chunk_size (heap s0)" "chunk_end h = chunk_end (heap s0)"
    by (subst c(2), simp)+
  have k: "wf_obj (?os ! j) \<and> obj_at (mem s) ?b (opos ?os j) (?os ! j)" if j: "j < length ?os" for j
  proof -
    obtain k where k: "k \<in> M" "k < length os" "j = rank M k"
      using j rank_onto [of j M "length os"] unfolding compacted_simps(1) by blast
    have cp: "copied os M ?b (mem s0) (mem s) k" using r k by (simp add: relocated_def)
    have wf: "wf_obj (os ! k)" and hd: "load32 (mem s0) (ptr ?b (opos os k)) = o_hdr (os ! k)"
      using heap_view_obj [OF v k(2)] by (auto simp: obj_at_def)
    have "words_at (mem s) ?b (lpos os M k + 8) (o_body (compact_obj os M ?b (mem s) k))"
      by (simp add: words_at_def compact_obj_def body_at_def)
    moreover have "load32 (mem s) (ptr ?b (lpos os M k + 4)) = RESET_MARK_BIT (o_fwd (os ! k))"
      using cp by (simp add: copied_def)
    ultimately show ?thesis
      using copied_header [OF cp] hd wf_compact_obj [OF wf] k
      by (simp add: compacted_simps obj_at_def)
  qed
  have wf: "\<forall>x\<in>set ?os. wf_obj x" using k by (auto simp: in_set_conv_nth)
  have l: "opos ?os (length ?os) = lpos os M (length os)" by (simp add: compacted_simps)
  moreover have "lpos os M (length os) \<le> 4 * unat (chunk_size (heap s0))"
    using lpos_le_opos [of "length os" os M] v by (simp add: heap_view_def chunk_ok_def)
  ultimately have "chunk_ok h (opos ?os (length ?os))"
    using v c(1) by (simp add: heap_view_def chunk_ok_def b)
  then show ?thesis using wf k by (simp add: heap_view_def objs_at_def b)
qed

section \<open>The kernel's \<open>mremap\<close>\<close>

text \<open>
  What the code relies on when \<open>mremap\<close> does not fail: the new block is not at address 0, starts at
  a multiple of four and ends inside the address space; its first bytes are those of the old block;
  the bytes in \<open>keep\<close>, which belong to other mappings, are not in the new block and do not change.
\<close>

definition mremap_ok :: "mremap \<Rightarrow> addr set \<Rightarrow> bool" where
  "mremap_ok f keep \<longleftrightarrow> (\<forall>m a old new b m'. f m a old new = Some (b, m') \<longrightarrow>
     b \<noteq> 0 \<and> unat b mod 4 = 0 \<and> unat b + unat new < 4294967296
     \<and> (\<forall>i. i < unat old \<longrightarrow> i < unat new \<longrightarrow> m' (ptr b i) = m (ptr a i))
     \<and> (\<forall>x\<in>keep. unat old \<le> unat (x - a) \<longrightarrow> m' x = m x \<and> unat new \<le> unat (x - b)))"

lemma mremap_okD:
  assumes "mremap_ok f keep" "f m a old new = Some (b, m')"
  shows "b \<noteq> 0" "unat b mod 4 = 0" "unat b + unat new < 4294967296"
    "i < unat old \<Longrightarrow> i < unat new \<Longrightarrow> m' (ptr b i) = m (ptr a i)"
    "x \<in> keep \<Longrightarrow> unat old \<le> unat (x - a) \<Longrightarrow> m' x = m x"
    "x \<in> keep \<Longrightarrow> unat old \<le> unat (x - a) \<Longrightarrow> unat new \<le> unat (x - b)"
  using assms unfolding mremap_ok_def by blast+

text \<open>The objects are seen in the new block as they were in the old one.\<close>

lemma objs_at_moved:
  assumes "objs_at m a os" "\<And>i. i < opos os (length os) \<Longrightarrow> m' (ptr b i) = m (ptr a i)"
  shows "objs_at m' b os"
proof -
  have ld: "load32 m' (ptr b i) = load32 m (ptr a i)" if "i + 4 \<le> opos os (length os)" for i
    using assms(2) that by (intro load32_ptr_cong) simp
  have "obj_at m' b (opos os i) (os ! i)" if i: "i < length os" for i
    using assms(1) i opos_end [OF i] by (auto simp: objs_at_def obj_at_def words_at_def ld osz_def)
  then show ?thesis by (simp add: objs_at_def)
qed

text \<open>Words and bytes.\<close>

lemma load32_byte: "d < 4 \<Longrightarrow> m (a + word_of_nat d) = ucast (drop_bit (8 * d) (load32 m a))"
proof -
  assume "d < 4"
  then consider "d = 0" | "d = 1" | "d = 2" | "d = 3" by linarith
  moreover have "\<not> bit (w :: u8) (8 + n)" "\<not> bit (w :: u8) (16 + n)" "\<not> bit (w :: u8) (24 + n)" for w n
    by (auto dest: bit_imp_le_length)
  ultimately show ?thesis
    by cases (auto intro!: bit_word_eqI simp: load32_def bit_simps)
qed

lemma words_at_bytes:
  assumes "words_at m b k ws" "words_at m' b' k' ws" "d < 4 * length ws"
  shows "m (ptr b (k + d)) = m' (ptr b' (k' + d))"
proof -
  have j: "d div 4 < length ws" "d mod 4 < 4" "d = 4 * (d div 4) + d mod 4" using assms(3) by auto
  have "n (ptr c (i + d)) = ucast (drop_bit (8 * (d mod 4)) (ws ! (d div 4)))" if "words_at n c i ws" for n c i
  proof -
    have "load32 n (ptr c (i + 4 * (d div 4))) = ws ! (d div 4)" using that j(1) by (simp add: words_at_def)
    with load32_byte [OF j(2), of n "ptr c (i + 4 * (d div 4))"] show ?thesis
      by (simp add: ptr_def add.assoc) (metis (mono_tags, lifting) j(3) of_nat_add of_nat_mult of_nat_numeral)
  qed
  from this [OF assms(1)] this [OF assms(2)] show ?thesis by simp
qed

section \<open>The compaction\<close>

text \<open>
  \<open>collected s os M s' os'\<close>: the objects of \<open>s\<close> that are in \<open>M\<close> are the objects of \<open>s'\<close>, in the same
  order, with every reference replaced by the new address of the object it refers to; so are the
  words in the slots. Nothing is marked.
\<close>

definition new_ref :: "gc_state \<Rightarrow> obj list \<Rightarrow> nat set \<Rightarrow> gc_state \<Rightarrow> u32 \<Rightarrow> u32" where
  "new_ref s os M s' = fwd_value (chunk_begin (heap s)) (chunk_begin (heap s')) os M"

definition same_object :: "gc_state \<Rightarrow> obj list \<Rightarrow> nat set \<Rightarrow> gc_state \<Rightarrow> obj list \<Rightarrow> nat \<Rightarrow> bool" where
  "same_object s os M s' os' k \<longleftrightarrow> o_hdr (os' ! rank M k) = o_hdr (os ! k)
     \<and> (otype (os ! k) \<noteq> STRING \<longrightarrow>
          o_body (os' ! rank M k) = rewrite_from (new_ref s os M s') (first_field (os ! k)) (o_body (os ! k)))
     \<and> (otype (os ! k) = STRING \<longrightarrow> (\<forall>d < obytes (os ! k) - 8.
          mem s' (ptr (cadr (chunk_begin (heap s')) os' (rank M k)) d) = mem s (ptr (cadr (chunk_begin (heap s)) os k) d)))
     \<and> new_ref s os M s' (cadr (chunk_begin (heap s)) os k) = cadr (chunk_begin (heap s')) os' (rank M k)"

definition collected :: "gc_state \<Rightarrow> obj list \<Rightarrow> nat set \<Rightarrow> gc_state \<Rightarrow> obj list \<Rightarrow> bool" where
  "collected s os M s' os' \<longleftrightarrow> heap_view s' os' \<and> length os' = rank M (length os)
     \<and> marks os' = {} \<and> enqs os' = {} \<and> (\<forall>k\<in>M. k < length os \<longrightarrow> same_object s os M s' os' k)
     \<and> (\<forall>a\<in>set (fixed_slots s). load32 (mem s') a = new_ref s os M s' (load32 (mem s) a))
     \<and> (\<exists>m h. s' = s\<lparr>mem := m, heap := h\<rparr>)"

lemma four_words: "L mod 4 = 0 \<Longrightarrow> b + 4 * word_of_nat (L div 4) = ptr b L"
proof -
  assume "L mod 4 = 0"
  then have "4 * word_of_nat (L div 4) = (word_of_nat L :: u32)"
    by (metis mult_div_mod_eq add.right_neutral of_nat_mult of_nat_numeral)
  then show ?thesis by (simp add: ptr_def)
qed

text \<open>The last two passes.\<close>

lemma relocate_collected:
  assumes m: "moved old M s2 os1" and u: "update_references old s2 = ok s3"
    "moved old M s3 (refresh (fwd_in old M s2 os1) M 0 os1)" "s3 = s2\<lparr>mem := mem s3\<rparr>"
    and L: "live_size = word_of_nat (lpos os1 M (length os1) div 4)"
  shows "\<exists>s4 s5. physically_relocate old s3 = ok s4
    \<and> s5 = s4\<lparr>heap := (heap s4)\<lparr>chunk_current := chunk_begin (heap s4) + 4 * live_size\<rparr>\<rparr>
    \<and> relocated (refresh (fwd_in old M s2 os1) M 0 os1) M s3 (length os1) s4
    \<and> heap_view s5 (compacted (refresh (fwd_in old M s2 os1) M 0 os1) M (chunk_begin (heap s2)) (mem s4))
    \<and> (\<exists>m h. s5 = s2\<lparr>mem := m, heap := h\<rparr>) \<and> heap s4 = heap s2"
proof -
  let ?os = "refresh (fwd_in old M s2 os1) M 0 os1"
  have h3: "heap s3 = heap s2" by (subst u(3)) simp
  have "relocated ?os M s3 0 s3" by (auto simp: relocated_def intro: exI [of _ "mem s3"])
  from relocate_objects_view [OF u(2) this] obtain s4 where
    4: "relocate_objects old (hadr (chunk_begin (heap s3)) ?os 0) s3 = ok s4"
    "relocated ?os M s3 (length os1) s4" by auto
  have h4: "heap s4 = heap s2" using relocated_heap [OF 4(2)] h3 by simp
  let ?h = "(heap s4)\<lparr>chunk_current := chunk_begin (heap s4) + 4 * live_size\<rparr>"
  have "lpos ?os M (length ?os) = lpos os1 M (length os1)"
    using lpos_cong [OF osz_refresh, of "length os1"] by simp
  then have c: "chunk_current ?h = ptr (chunk_begin (heap s3)) (lpos ?os M (length ?os))"
    using four_words [OF lpos_mod4, of "chunk_begin (heap s2)" os1 M "length os1"] by (simp add: L h3 h4)
  have "heap_view (s4\<lparr>heap := ?h\<rparr>) (compacted ?os M (chunk_begin (heap s3)) (mem s4))"
    using 4(2) by (intro compacted_view [OF u(2) _ c]) (simp_all add: h3 h4)
  moreover have "physically_relocate old s3 = ok s4"
    using 4(1) by (simp add: physically_relocate_def heap_begin_iterator_view [of s3 ?os])
  moreover have "\<exists>m h. s4\<lparr>heap := ?h\<rparr> = s2\<lparr>mem := m, heap := h\<rparr>"
  proof -
    obtain mm where mm: "s4 = s3\<lparr>mem := mm\<rparr>" using 4(2) by (auto simp: relocated_def)
    obtain m3 where m3: "s3 = s2\<lparr>mem := m3\<rparr>" using u(3) by blast
    have "s4 = s2\<lparr>mem := mm\<rparr>" by (simp add: mm m3)
    then show ?thesis by auto
  qed
  ultimately show ?thesis using 4(2) h3 h4 by auto
qed

text \<open>One live object after the last pass.\<close>

lemma same_object_relocated:
  assumes v: "heap_view s os" and sh: "same_shape os os1" and m: "moved (heap s) M s2 os1"
    and u: "moved (heap s) M s3 os3" "heap s3 = heap s2"
    and o3: "os3 = refresh (fwd_in (heap s) M s2 os1) M 0 os1"
    and r: "relocated os3 M s3 (length os1) s4"
    and s5: "mem s5 = mem s4" "chunk_begin (heap s5) = chunk_begin (heap s2)"
    and k: "k \<in> M" "k < length os"
  shows "same_object s os M s5 (compacted os3 M (chunk_begin (heap s2)) (mem s4)) k"
proof -
  let ?b = "chunk_begin (heap s2)" and ?os' = "compacted os3 M (chunk_begin (heap s2)) (mem s4)"
  have l: "length os1 = length os" using sh by (simp add: same_shape_def)
  have z1: "map osz os1 = map osz os" using sh by (intro nth_equalityI) (auto simp: same_shape_def osz_def)
  have z3: "map osz os3 = map osz os" using osz_refresh z1 by (simp add: o3)
  have k3: "k < length os3" using k l by (simp add: o3)
  have f: "fwd_in (heap s) M s2 os1 = new_ref s os M s5"
    unfolding new_ref_def s5(2) by (rule fwd_value_cong [OF z1])
  have cp: "copied os3 M ?b (mem s3) (mem s4) k"
    using r k l u(2) by (simp add: relocated_def)
  have o3k: "os3 ! k = refreshed (new_ref s os M s5) (os1 ! k)" using k l f by (simp add: o3)
  have e: "o_hdr (os1 ! k) = o_hdr (os ! k)" "o_body (os1 ! k) = o_body (os ! k)"
    using sh k by (auto simp: same_shape_def)
  note sh' = same_shape_obj [OF sh k(2)]
  have t3: "otype (os3 ! k) = otype (os ! k)" using sh' by (simp add: o3k)
  have c: "?os' ! rank M k = compact_obj os3 M ?b (mem s4) k"
    "cadr ?b ?os' (rank M k) = ptr ?b (lpos os3 M k + 8)"
    using compacted_simps(2) [OF k(1) k3] compacted_simps(3) [of k os3 M] k3 by (simp_all add: cadr_def)
  have "o_body (?os' ! rank M k) = rewrite_from (new_ref s os M s5) (first_field (os ! k)) (o_body (os ! k))"
    if "otype (os ! k) \<noteq> STRING"
    using compact_body [OF moved_view [OF u(1)] k3, of M "mem s4"] that cp t3 c(1) e sh' u(2)
    by (simp add: o3k refreshed_def)
  moreover have "mem s5 (ptr (cadr ?b ?os' (rank M k)) d) = mem s (ptr (cadr (chunk_begin (heap s)) os k) d)"
    if t: "otype (os ! k) = STRING" and d: "d < obytes (os ! k) - 8" for d
  proof -
    have ob: "obytes (os3 ! k) = obytes (os ! k)" using t t3 e by (simp add: obytes_def o3k)
    have wf: "wf_obj (os ! k)" and w: "words_at (mem s) (chunk_begin (heap s)) (opos os k + 8) (o_body (os ! k))"
      using heap_view_obj [OF v k(2)] by (auto simp: obj_at_def)
    have "o_body (os3 ! k) = o_body (os ! k)" using t sh' e by (simp add: o3k refreshed_string)
    then have w3: "words_at (mem s3) ?b (opos os3 k + 8) (o_body (os ! k))"
      using heap_view_obj [OF moved_view [OF u(1)] k3] u(2) by (simp add: obj_at_def)
    have "d < 4 * length (o_body (os ! k))" using d obytes_le [OF wf] by (simp add: osz_def)
    from words_at_bytes [OF w3 w this]
    have "mem s3 (ptr ?b (opos os3 k + 8 + d)) = mem s (ptr (chunk_begin (heap s)) (opos os k + 8 + d))" .
    moreover have "mem s4 (ptr ?b (lpos os3 M k + (8 + d))) = mem s3 (ptr ?b (opos os3 k + (8 + d)))"
      using cp d unfolding copied_def ob by auto
    ultimately show ?thesis using c(2) s5(1) by (simp add: cadr_def add.assoc)
  qed
  moreover have "new_ref s os M s5 (cadr (chunk_begin (heap s)) os k) = cadr ?b ?os' (rank M k)"
  proof -
    have "cadr (chunk_begin (heap s)) os1 k = cadr (chunk_begin (heap s)) os k"
      using opos_cong [OF z1] by (simp add: cadr_def)
    moreover have "lpos os1 M k = lpos os3 M k" using lpos_cong [of os1 os3 k M] z1 z3 k l by simp
    ultimately show ?thesis
      using fwd_value_marked [OF m k(1), of ?b] c(2) f by simp
  qed
  ultimately show ?thesis using c(1) e by (auto simp: same_object_def o3k s5(2))
qed

section \<open>The first pass and the move\<close>

lemma next_size_bounds:
  assumes "8 * unat live + 4 * unat extra < 4294967296" "4 * unat old < 4294967296"
  shows "4 * unat (next_heap_pseudo_size live extra old) < 4294967296"
    "unat old \<le> unat (next_heap_pseudo_size live extra old)"
    "2 * unat live + unat extra \<le> unat (next_heap_pseudo_size live extra old)"
proof -
  have u: "unat (live * EXTRA_ROOM_HEAP_COEFFICIENT + extra) = 2 * unat live + unat extra"
    using assms(1) by (simp add: EXTRA_ROOM_HEAP_COEFFICIENT_def unat_word_ariths)
  have mx: "unat (max x y) = max (unat x) (unat y)" for x y :: u32
    by (simp add: max_def word_le_nat_alt)
  have n: "unat (next_heap_pseudo_size live extra old) = max (max (2 * unat live + unat extra) 4) (unat old)"
    by (simp add: next_heap_pseudo_size_def mx u MINIMUM_HEAP_CAPACITY_def)
  show "4 * unat (next_heap_pseudo_size live extra old) < 4294967296"
    using assms unfolding n by (simp add: max_def)
  show "unat old \<le> unat (next_heap_pseudo_size live extra old)"
    "2 * unat live + unat extra \<le> unat (next_heap_pseudo_size live extra old)" unfolding n by simp_all
qed

definition moved_chunk :: "addr \<Rightarrow> u32 \<Rightarrow> memory_chunk \<Rightarrow> memory_chunk" where
  "moved_chunk b new_size old = \<lparr>chunk_begin = b, chunk_end = b + 4 * new_size,
     chunk_current = b + (chunk_current old - chunk_begin old), chunk_size = new_size\<rparr>"

lemma moved_start:
  assumes v: "heap_view s os" and r: "gc_rel s os s1 os1"
    and f: "\<forall>k\<in>marks os1. fadr (os1 ! k) = ptr (chunk_begin (heap s)) (lpos os (marks os1) k)"
    and n: "4 * unat n < 4294967296" "unat (chunk_size (heap s)) \<le> unat n"
    and b: "b \<noteq> 0" "unat b mod 4 = 0" "unat b + 4 * unat n < 4294967296"
    and m: "\<And>i. i < 4 * unat (chunk_size (heap s)) \<Longrightarrow> m (ptr b i) = mem s1 (ptr (chunk_begin (heap s)) i)"
  shows "moved (heap s) (marks os1) (s1\<lparr>mem := m, heap := moved_chunk b n (heap s1)\<rparr>) os1"
proof -
  note vw = gc_rel_view [OF r]
  have c: "opos os (length os) \<le> 4 * unat (chunk_size (heap s))"
    "chunk_current (heap s) = ptr (chunk_begin (heap s)) (opos os (length os))"
    "unat (chunk_begin (heap s)) + 4 * unat (chunk_size (heap s)) < 4294967296" "unat (chunk_begin (heap s)) mod 4 = 0"
    using v by (auto simp: heap_view_def chunk_ok_def)
  have e: "opos os1 (length os1) = opos os (length os)" using vw(3,4) by simp
  have "objs_at (mem s1) (chunk_begin (heap s)) os1" using vw(1) by (simp add: heap_view_def vw(2))
  then have "objs_at m b os1"
  proof (rule objs_at_moved)
    fix i assume "i < opos os1 (length os1)"
    then show "m (ptr b i) = mem s1 (ptr (chunk_begin (heap s)) i)" using c(1) e by (intro m) linarith
  qed
  moreover have "chunk_ok (moved_chunk b n (heap s1)) (opos os1 (length os1))"
  proof -
    have "unat (4 * n) = 4 * unat n" using n(1) by (simp add: unat_word_ariths)
    then have "b + 4 * n = ptr b (4 * unat n)" by (simp only: plus_word_ptr)
    moreover have "b + (chunk_current (heap s1) - chunk_begin (heap s1)) = ptr b (opos os (length os))"
      by (simp add: c(2) vw(2)) (simp add: ptr_def)
    moreover have "opos os (length os) \<le> 4 * unat n" using c(1) n(2) by linarith
    ultimately show ?thesis using b by (simp add: chunk_ok_def moved_chunk_def e)
  qed
  moreover have "\<forall>x\<in>set os1. wf_obj x" using vw(1) by (simp add: heap_view_def)
  ultimately have "heap_view (s1\<lparr>mem := m, heap := moved_chunk b n (heap s1)\<rparr>) os1"
    by (simp add: heap_view_def moved_chunk_def)
  moreover have "map osz os1 = map osz os"
    using r by (intro nth_equalityI) (auto simp: gc_rel_def same_shape_def osz_def)
  then have "fadr (os1 ! k) = ptr (chunk_begin (heap s)) (lpos os1 (marks os1) k)" if "k \<in> marks os1" for k
    using f lpos_cong [of os1 os k "marks os1"] that marks_subset [of os1] by auto
  ultimately show ?thesis using c e by (simp add: moved_def)
qed

text \<open>
  \<open>compactable keep s os\<close>: what the collector needs when it starts to move. The references in marked
  objects and in the slots that it fixes are to marked objects, the slots do not overlap, and they
  are in memory outside the chunk.
\<close>

definition compactable :: "addr set \<Rightarrow> gc_state \<Rightarrow> obj list \<Rightarrow> bool" where
  "compactable keep s os \<longleftrightarrow> heap_view s os \<and> enqs os = {}
     \<and> (\<forall>k\<in>marks os. \<forall>v\<in>set (fields (os ! k)). ref_ok (heap s) (marks os) os v)
     \<and> slots_apart (fixed_slots s) \<and> unat (gc_stack_bottom s) < 4294967288
     \<and> (\<forall>a\<in>set (fixed_slots s). ref_ok (heap s) (marks os) os (load32 (mem s) a)
          \<and> (\<forall>d\<in>{0, 1, 2, 3}. a + d \<in> keep))
     \<and> (\<forall>x\<in>keep. 4 * unat (chunk_size (heap s)) \<le> unat (x - chunk_begin (heap s)))"

lemma compacted_marks:
  assumes "enqs os = {}"
  shows "marks (compacted os M b m) = {}" "enqs (compacted os M b m) = {}"
proof -
  have "\<not> marked (compacted os M b m ! j) \<and> \<not> enqueued (compacted os M b m ! j)"
    if j: "j < length (compacted os M b m)" for j
  proof -
    obtain k where k: "k \<in> M" "k < length os" "j = rank M k"
      using j rank_onto [of j M "length os"] unfolding compacted_simps(1) by blast
    then have "\<not> enqueued (os ! k)" using assms by (auto simp: enqs_def)
    then show ?thesis using k by (simp add: compacted_simps marked_def enqueued_def)
  qed
  then show "marks (compacted os M b m) = {}" "enqs (compacted os M b m) = {}"
    by (auto simp: marks_def enqs_def)
qed

lemma enqs_refresh: "enqs os = {} \<Longrightarrow> enqs (refresh f M i os) = {}"
  by (auto simp: enqs_def enqueued_def)

text \<open>The slots and their contents are the same after marking and the move.\<close>

lemma slots_after_move:
  assumes c: "compactable keep s os" and r: "gc_rel s os s1 os1" and M: "marks os1 = marks os"
    and s2: "s2 = s1\<lparr>mem := m, heap := moved_chunk b n (heap s1)\<rparr>"
    and k: "\<forall>x\<in>keep. m x = mem s1 x \<and> 4 * unat n \<le> unat (x - b)"
    and n: "unat (chunk_size (heap s)) \<le> unat n"
  shows "fixed_slots s2 = fixed_slots s"
    and "x \<in> keep \<Longrightarrow> mem s2 x = mem s x \<and> opos os1 (length os1) \<le> unat (x - b)"
    and "a \<in> set (fixed_slots s) \<Longrightarrow> load32 (mem s2) a = load32 (mem s) a \<and> slot_outside s2 os1 a
      \<and> ref_ok (heap s) (marks os) os1 (load32 (mem s2) a)"
proof -
  have o': "same_outside (opos os (length os)) s s1" using r by (simp add: gc_rel_def)
  note g = same_outside_globals [OF o'] and vw = gc_rel_view [OF r]
  show "fixed_slots s2 = fixed_slots s" by (simp add: fixed_slots_def skipped_root_def [abs_def] s2 g)
  have used: "opos os (length os) \<le> 4 * unat (chunk_size (heap s))"
    using c by (simp add: compactable_def heap_view_def chunk_ok_def)
  have kp: "mem s2 x = mem s x \<and> opos os1 (length os1) \<le> unat (x - b)" if "x \<in> keep" for x
  proof -
    have "opos os (length os) \<le> unat (x - chunk_begin (heap s))"
      using c that used by (auto simp: compactable_def)
    then show ?thesis using bspec [OF k that] o' used n by (simp add: s2 same_outside_def vw)
  qed
  then show "x \<in> keep \<Longrightarrow> mem s2 x = mem s x \<and> opos os1 (length os1) \<le> unat (x - b)" .
  show "load32 (mem s2) a = load32 (mem s) a \<and> slot_outside s2 os1 a
      \<and> ref_ok (heap s) (marks os) os1 (load32 (mem s2) a)" if a: "a \<in> set (fixed_slots s)"
  proof -
    have kd: "a \<in> keep" "a + 1 \<in> keep" "a + 2 \<in> keep" "a + 3 \<in> keep"
      and rf: "ref_ok (heap s) (marks os) os (load32 (mem s) a)"
      using c a by (auto simp: compactable_def)
    have ld: "load32 (mem s2) a = load32 (mem s) a" using kp kd by (intro load32_cong) simp_all
    have "map osz os1 = map osz os"
      using r by (intro nth_equalityI) (auto simp: gc_rel_def same_shape_def osz_def)
    then have "ref_ok (heap s) (marks os) os1 = ref_ok (heap s) (marks os) os" by (rule ref_ok_cong)
    moreover have "slot_outside s2 os1 a" using kp kd by (simp add: slot_outside_def s2 moved_chunk_def)
    ultimately show ?thesis using rf ld by simp
  qed
qed

lemma compact_after_move:
  assumes c: "compactable keep s os" and r: "gc_rel s os s1 os1" and M: "marks os1 = marks os" "enqs os1 = {}"
    and s2: "s2 = s1\<lparr>mem := m, heap := moved_chunk b n (heap s1)\<rparr>" and mv: "moved (heap s) (marks os) s2 os1"
    and k: "\<forall>x\<in>keep. m x = mem s1 x \<and> 4 * unat n \<le> unat (x - b)"
    and n: "unat (chunk_size (heap s)) \<le> unat n"
    and L: "live_size = word_of_nat (lpos os (marks os) (length os) div 4)"
  shows "\<exists>s3 s4 s5 os'. update_references (heap s) s2 = ok s3 \<and> physically_relocate (heap s) s3 = ok s4
    \<and> s5 = s4\<lparr>heap := (heap s4)\<lparr>chunk_current := chunk_begin (heap s4) + 4 * live_size\<rparr>\<rparr>
    \<and> collected s os (marks os) s5 os'
    \<and> chunk_size (heap s5) = n \<and> opos os' (length os') = lpos os (marks os) (length os)
    \<and> (\<forall>x\<in>keep. (\<forall>a\<in>set (fixed_slots s). clear_of a x) \<longrightarrow> mem s5 x = mem s x)"
proof -
  let ?M = "marks os" and ?b = "chunk_begin (heap s2)"
  let ?os3 = "refresh (fwd_in (heap s) (marks os) s2 os1) (marks os) 0 os1"
  note sl = slots_after_move [OF c r M(1) s2 k n]
  have v: "heap_view s os" and sh: "same_shape os os1" and o': "same_outside (opos os (length os)) s s1"
    using c r by (auto simp: compactable_def gc_rel_def)
  have g: "gc_stack_bottom s2 = gc_stack_bottom s" "?b = b" "chunk_size (heap s2) = n"
    using same_outside_globals [OF o'] by (simp_all add: s2 moved_chunk_def)
  have z1: "map osz os1 = map osz os" using sh by (intro nth_equalityI) (auto simp: same_shape_def osz_def)
  have fl: "\<forall>k\<in>?M. \<forall>v\<in>set (fields (os1 ! k)). ref_ok (heap s) ?M os1 v"
  proof (intro ballI)
    fix j w assume "j \<in> ?M" "w \<in> set (fields (os1 ! j))"
    moreover from this marks_subset [of os] have "fields (os1 ! j) = fields (os ! j)"
      by (intro same_shape_obj(3) [OF sh]) auto
    ultimately show "ref_ok (heap s) ?M os1 w" using c ref_ok_cong [OF z1] by (simp add: compactable_def)
  qed
  have st: "unat (gc_stack_bottom s2) < 4294967288" "slots_apart (fixed_slots s2)"
    using c by (simp_all add: compactable_def g sl(1))
  have "\<forall>a\<in>set (fixed_slots s2). slot_outside s2 os1 a \<and> ref_ok (heap s) ?M os1 (load32 (mem s2) a)"
    using sl(3) unfolding sl(1) by blast
  from update_references_view [OF mv st(1) fl st(2) this] obtain s3 where
    3: "update_references (heap s) s2 = ok s3" "moved (heap s) ?M s3 ?os3" "s3 = s2\<lparr>mem := mem s3\<rparr>"
    "\<forall>a\<in>set (fixed_slots s). load32 (mem s3) a = fwd_in (heap s) ?M s2 os1 (load32 (mem s2) a)"
    "\<forall>x. opos os1 (length os1) \<le> unat (x - ?b) \<longrightarrow> (\<forall>a\<in>set (fixed_slots s). clear_of a x) \<longrightarrow> mem s3 x = mem s2 x"
    unfolding sl(1) by blast
  have h3: "heap s3 = heap s2" by (subst 3(3)) simp
  have L1: "live_size = word_of_nat (lpos os1 ?M (length os1) div 4)"
    using L lpos_cong [OF z1, of "length os" ?M] sh by (simp add: same_shape_def)
  from relocate_collected [OF mv 3(1-3) L1] obtain s4 s5 where
    4: "physically_relocate (heap s) s3 = ok s4"
    "s5 = s4\<lparr>heap := (heap s4)\<lparr>chunk_current := chunk_begin (heap s4) + 4 * live_size\<rparr>\<rparr>"
    "relocated ?os3 ?M s3 (length os1) s4" "heap_view s5 (compacted ?os3 ?M ?b (mem s4))"
    "\<exists>m h. s5 = s2\<lparr>mem := m, heap := h\<rparr>" "heap s4 = heap s2" by blast
  let ?os' = "compacted ?os3 ?M ?b (mem s4)"
  have s5: "mem s5 = mem s4" "chunk_begin (heap s5) = ?b" by (simp_all add: 4(2,6))
  have l1: "length os1 = length os" using sh by (simp add: same_shape_def)
  have far: "mem s5 x = mem s3 x" if "opos os1 (length os1) \<le> unat (x - b)" for x
    using 4(3) that opos_cong [OF osz_refresh] l1 by (simp add: relocated_def h3 g(2) s5(1))
  have frame: "\<forall>x\<in>keep. (\<forall>a\<in>set (fixed_slots s). clear_of a x) \<longrightarrow> mem s5 x = mem s x"
    using far sl(2) 3(5) unfolding g(2) by metis
  have slots: "load32 (mem s5) a = new_ref s os ?M s5 (load32 (mem s) a)" if a: "a \<in> set (fixed_slots s)" for a
  proof -
    have "a \<in> keep" "a + 1 \<in> keep" "a + 2 \<in> keep" "a + 3 \<in> keep"
      using c a by (auto simp: compactable_def)
    then have "load32 (mem s5) a = load32 (mem s3) a"
      using far sl(2) by (intro load32_cong) blast+
    then show ?thesis
      using 3(4) sl(3) [OF a] a fwd_value_cong [OF z1] by (simp add: new_ref_def s5(2))
  qed
  have "same_object s os ?M s5 ?os' k" if "k \<in> ?M" "k < length os" for k
    by (rule same_object_relocated [OF v sh mv 3(2) h3 refl 4(3) s5 that])
  moreover have "\<exists>m h. s5 = s\<lparr>mem := m, heap := h\<rparr>"
  proof -
    obtain m1 where "s1 = s\<lparr>mem := m1\<rparr>" using o' by (auto simp: same_outside_def)
    then show ?thesis using 4(5) by (auto simp: s2)
  qed
  ultimately have "collected s os ?M s5 ?os'"
    using 4(4) slots compacted_marks [OF enqs_refresh [OF M(2)]] by (simp add: collected_def compacted_simps l1)
  moreover have "opos ?os' (length ?os') = lpos os ?M (length os)"
    using compacted_simps(3) [of "length ?os3" ?os3 ?M] lpos_cong [OF trans [OF osz_refresh z1]] l1
    by (simp add: compacted_simps(1))
  moreover have "chunk_size (heap s5) = n" using 4(2,6) g(3) by simp
  ultimately show ?thesis using 3(1) 4(1,2) frame by blast
qed

text \<open>\<open>mremap\<close> fails on a request for a heap with room for some number of live words.\<close>

definition mremap_refuses :: "mremap \<Rightarrow> u32 \<Rightarrow> gc_state \<Rightarrow> obj list \<Rightarrow> bool" where
  "mremap_refuses f sz s os \<longleftrightarrow> (\<exists>m live_size. 4 * unat live_size \<le> opos os (length os)
     \<and> f m (chunk_begin (heap s)) (WORDS_TO_BYTES (chunk_size (heap s)))
         (WORDS_TO_BYTES (next_heap_pseudo_size live_size sz (chunk_size (heap s)))) = None)"

text \<open>
  The compaction returns, unless \<open>mremap\<close> fails; then the live objects are the whole heap, with room
  for the allocation that asked for the collection.
\<close>

theorem compact_phase_view:
  assumes k: "mremap_ok f keep" and c: "compactable keep s os"
    and z: "2 * opos os (length os) + 4 * unat sz < 4294967296"
  shows "(mremap_refuses f sz s os \<and> compact_phase f sz s = err MremapFailed) \<or> (\<exists>s' os'. compact_phase f sz s = ok s'
    \<and> collected s os (marks os) s' os' \<and> 4 * unat sz \<le> free_bytes s' os'
    \<and> (\<forall>x\<in>keep. (\<forall>a\<in>set (fixed_slots s). clear_of a x) \<longrightarrow> mem s' x = mem s x))"
proof -
  let ?M = "marks os" and ?L = "lpos os (marks os) (length os)" and ?old = "heap s"
  have v: "heap_view s os" using c by (simp add: compactable_def)
  have L: "?L \<le> opos os (length os)" by (rule lpos_le_opos) simp
  with z have "?L < 2147483648" by linarith
  from compute_locations_view [OF gc_rel_refl [OF v] this] obtain s1 os1 where
    1: "compute_locations s = ok (word_of_nat (?L div 4), s1)" "gc_rel s os s1 os1" "marks os1 = ?M"
    "enqs os1 = enqs os" "\<forall>k\<in>?M. fadr (os1 ! k) = ptr (chunk_begin ?old) (lpos os ?M k)" by blast
  have h1: "heap s1 = ?old" by (rule gc_rel_view(2) [OF 1(2)])
  define live_size where "live_size = (word_of_nat (?L div 4) :: u32)"
  define n where "n = next_heap_pseudo_size live_size sz (chunk_size ?old)"
  have ul: "unat live_size = ?L div 4"
    unfolding live_size_def by (rule unat_of_nat_u32) (use \<open>?L < 2147483648\<close> in linarith)
  have o4: "4 * unat (chunk_size ?old) < 4294967296" using v by (auto simp: heap_view_def chunk_ok_def)
  have "4 * (?L div 4) \<le> ?L" by simp
  then have "8 * unat live_size + 4 * unat sz < 4294967296" using z L unfolding ul by linarith
  note nb = next_size_bounds [OF this o4, folded n_def]
  have wb: "unat (WORDS_TO_BYTES (chunk_size ?old)) = 4 * unat (chunk_size ?old)" "unat (WORDS_TO_BYTES n) = 4 * unat n"
    using o4 nb(1) by (simp_all add: WORDS_TO_BYTES_def unat_word_ariths)
  show ?thesis
  proof (cases "f (mem s1) (chunk_begin ?old) (WORDS_TO_BYTES (chunk_size ?old)) (WORDS_TO_BYTES n)")
    case None
    moreover have "4 * unat live_size \<le> opos os (length os)" using L ul by linarith
    ultimately have "mremap_refuses f sz s os" unfolding mremap_refuses_def n_def by blast
    with None show ?thesis using 1(1) by (simp add: compact_phase_def h1 Let_def n_def live_size_def)
  next
    case (Some r)
    obtain b m where bm: "f (mem s1) (chunk_begin ?old) (WORDS_TO_BYTES (chunk_size ?old)) (WORDS_TO_BYTES n) = Some (b, m)"
      using Some by (cases r) auto
    note rm = mremap_okD [OF k bm, unfolded wb]
    have kp: "\<forall>x\<in>keep. m x = mem s1 x \<and> 4 * unat n \<le> unat (x - b)"
      using rm(5,6) c by (simp add: compactable_def)
    let ?s2 = "s1\<lparr>mem := m, heap := moved_chunk b n (heap s1)\<rparr>"
    have mv: "moved ?old ?M ?s2 os1"
      using moved_start [OF v 1(2) _ nb(1,2) rm(1,2) rm(3), of m] 1(3,5) rm(4) nb(2) by simp
    have "enqs os1 = {}" using c 1(4) by (simp add: compactable_def)
    from compact_after_move [OF c 1(2,3) this refl mv kp nb(2) live_size_def] obtain s3 s4 s5 os' where
      5: "update_references ?old ?s2 = ok s3" "physically_relocate ?old s3 = ok s4"
      "s5 = s4\<lparr>heap := (heap s4)\<lparr>chunk_current := chunk_begin (heap s4) + 4 * live_size\<rparr>\<rparr>"
      "collected s os ?M s5 os'" "chunk_size (heap s5) = n" "opos os' (length os') = ?L"
      "\<forall>x\<in>keep. (\<forall>a\<in>set (fixed_slots s). clear_of a x) \<longrightarrow> mem s5 x = mem s x" by blast
    have "compact_phase f sz s = ok s5"
      using 1(1) bm 5(1-3) by (simp add: compact_phase_def h1 n_def live_size_def Let_def moved_chunk_def)
    moreover have "4 * unat sz \<le> free_bytes s5 os'"
    proof -
      have "?L = 4 * (?L div 4)" using lpos_mod4 [of os ?M "length os"] by presburger
      then show ?thesis using nb(3) 5(5,6) ul by (simp add: free_bytes_def)
    qed
    ultimately show ?thesis using 5(4,7) by blast
  qed
qed

end
