(* ===== verification/Survival.thy ===== *)
theory Survival
  imports Collection
begin

text \<open>
  What a collection means for the program: a word that represented a value represents the same value
  afterwards, in the slot it was in. The exception are values with pointers to something outside the
  heap: such a pointer stays as it is, and nothing is known of what the new chunk covers.
\<close>

fun raw_free :: "val \<Rightarrow> bool" where
  "raw_free (Int_val w) = True"
| "raw_free (Raw_val w) = False"
| "raw_free (Str_val bs) = True"
| "raw_free (Arr_val vs) = (\<forall>v\<in>set vs. raw_free v)"
| "raw_free (Clo_val e vs) = (\<forall>v\<in>set vs. raw_free v)"
| "raw_free (Sexp_val t vs) = (\<forall>v\<in>set vs. raw_free v)"

lemma cstring_move: "(\<And>i. i \<le> length bs \<Longrightarrow> m' (q + word_of_nat i) = m (p + word_of_nat i)) \<Longrightarrow>
    cstring m p bs \<Longrightarrow> cstring m' q bs"
  by (simp add: cstring_bytes bytes_at_nth)

lemma word_at_view:
  assumes "heap_view s os" "k < length os" "j < length (o_body (os ! k))"
  shows "word_at s (cadr (chunk_begin (heap s)) os k) j = o_body (os ! k) ! j"
  using heap_view_obj [OF assms(1,2)] assms(3)
  by (simp add: word_at_def cadr_index(1,2) obj_at_def words_at_def field_addr_def)

lemma words_of_view:
  assumes "heap_view s os" "k < length os" "i + n \<le> length (o_body (os ! k))"
  shows "words_of s (cadr (chunk_begin (heap s)) os k) i n = take n (drop i (o_body (os ! k)))"
  using assms by (intro nth_equalityI) (auto simp: words_of_def word_at_view [OF assms(1,2)])

lemma valid_cadr: "heap_view s os \<Longrightarrow> k < length os \<Longrightarrow> is_valid_heap_pointer s (cadr (chunk_begin (heap s)) os k)"
  using gc_rel_steps(5) [OF gc_rel_refl] by blast

text \<open>The words of a live object, from its first field on, in the old heap and in the new one.\<close>

lemma live_words_of:
  assumes v: "heap_view s os" and c: "collected s os M s' os'" and k: "k \<in> M" "k < length os"
    and t: "otype (os ! k) \<noteq> STRING" and n: "first_field (os ! k) + n \<le> length (o_body (os ! k))"
  shows "words_of s' (cadr (chunk_begin (heap s')) os' (rank M k)) (first_field (os ! k)) n
      = map (new_ref s os M s') (words_of s (cadr (chunk_begin (heap s)) os k) (first_field (os ! k)) n)"
    and "set (words_of s (cadr (chunk_begin (heap s)) os k) (first_field (os ! k)) n) \<subseteq> set (fields (os ! k))"
proof -
  have v': "heap_view s' os'" and l: "rank M k < length os'"
    and b: "o_body (os' ! rank M k) = rewrite_from (new_ref s os M s') (first_field (os ! k)) (o_body (os ! k))"
    using c k t nth_live(2) by (auto simp: collected_def same_object_def)
  show "words_of s' (cadr (chunk_begin (heap s')) os' (rank M k)) (first_field (os ! k)) n
      = map (new_ref s os M s') (words_of s (cadr (chunk_begin (heap s)) os k) (first_field (os ! k)) n)"
    using n by (simp add: words_of_view [OF v' l] words_of_view [OF v k(2)] b)
      (simp add: rewrite_from_def take_map drop_append)
  show "set (words_of s (cadr (chunk_begin (heap s)) os k) (first_field (os ! k)) n) \<subseteq> set (fields (os ! k))"
    using n set_take_subset by (simp add: words_of_view [OF v k(2)] fields_def)
qed

lemma list_all2_refs:
  assumes "list_all2 (\<lambda>p v. rep s p v \<and> (R p \<longrightarrow> raw_free v \<longrightarrow> rep s' (f p) v)) ps vs"
    "\<forall>p\<in>set ps. R p" "\<forall>v\<in>set vs. raw_free v"
  shows "list_all2 (rep s') (map f ps) vs"
  using assms by (induction ps vs rule: list_all2_induct) auto

text \<open>\<open>live_heap s os M\<close>: every reference in an object of \<open>M\<close> is to an object of \<open>M\<close>.\<close>

definition live_heap :: "gc_state \<Rightarrow> obj list \<Rightarrow> nat set \<Rightarrow> bool" where
  "live_heap s os M \<longleftrightarrow> heap_view s os \<and> M \<subseteq> {..<length os}
     \<and> (\<forall>k\<in>M. \<forall>v\<in>set (fields (os ! k)). ref_ok (heap s) M os v)"

lemma heap_pointer_live:
  assumes "live_heap s os M" "ref_ok (heap s) M os p" "is_valid_heap_pointer s p"
  shows "\<exists>k\<in>M. k < length os \<and> p = cadr (chunk_begin (heap s)) os k"
  using assms by (auto simp: ref_ok_def live_heap_def is_valid_heap_pointer_def is_valid_pointer_def in_chunk_def)

text \<open>The object a live reference leads to, before and after.\<close>

lemma live_object:
  assumes h: "live_heap s os M" and c: "collected s os M s' os'" and r: "ref_ok (heap s) M os p"
    and v: "is_valid_heap_pointer s p"
  obtains k where "k \<in> M" "k < length os" "p = cadr (chunk_begin (heap s)) os k" "wf_obj (os ! k)"
    "tag_at s p = kind_of (otype (os ! k))" "len_at s p = LEN (o_hdr (os ! k))"
    "new_ref s os M s' p = cadr (chunk_begin (heap s')) os' (rank M k)"
    "is_valid_heap_pointer s' (new_ref s os M s' p)" "tag_at s' (new_ref s os M s' p) = tag_at s p"
    "len_at s' (new_ref s os M s' p) = len_at s p"
proof -
  have hv: "heap_view s os" and hv': "heap_view s' os'" using h c by (auto simp: live_heap_def collected_def)
  obtain k where k: "k \<in> M" "k < length os" "p = cadr (chunk_begin (heap s)) os k"
    using heap_pointer_live [OF h r v] by blast
  have so: "same_object s os M s' os' k" and l: "rank M k < length os'"
    using c k nth_live(2) by (auto simp: collected_def)
  then have n: "new_ref s os M s' p = cadr (chunk_begin (heap s')) os' (rank M k)"
    and hd: "o_hdr (os' ! rank M k) = o_hdr (os ! k)" using k(3) by (auto simp: same_object_def)
  then have ot: "otype (os' ! rank M k) = otype (os ! k)" by (simp add: otype_def)
  show thesis
    using that [OF k] heap_view_obj [OF hv k(2)] tag_at_view [OF hv k(2)] len_at_view [OF hv k(2)]
      tag_at_view [OF hv' l] len_at_view [OF hv' l] valid_cadr [OF hv' l] k(3) n ot hd by simp
qed

lemma collected_string:
  assumes h: "live_heap s os M" and c: "collected s os M s' os'" and r: "ref_ok (heap s) M os p"
    and p: "is_valid_heap_pointer s p" "tag_at s p = STRING_TAG" "cstring (mem s) p bs"
      "length bs < 536870912" "len_at s p = word_of_nat (length bs)"
  shows "rep s' (new_ref s os M s' p) (Str_val bs)"
proof -
  obtain k where k: "k \<in> M" "k < length os" "p = cadr (chunk_begin (heap s)) os k"
    "tag_at s p = kind_of (otype (os ! k))" "len_at s p = LEN (o_hdr (os ! k))"
    "new_ref s os M s' p = cadr (chunk_begin (heap s')) os' (rank M k)"
    "is_valid_heap_pointer s' (new_ref s os M s' p)" "tag_at s' (new_ref s os M s' p) = tag_at s p"
    "len_at s' (new_ref s os M s' p) = len_at s p"
    using live_object [OF h c r p(1)] by blast
  have t: "otype (os ! k) = STRING" using k(4) p(2) kind_of_eq_iff(1) by metis
  have "unat (len_at s p) = length bs" unfolding p(5) using p(4) by (intro unat_of_nat_u32) simp
  then have "unat (LEN (o_hdr (os ! k))) = length bs" by (simp only: k(5))
  then have ob: "obytes (os ! k) - 8 = length bs + 1" using t by (simp add: obytes_def)
  have "same_object s os M s' os' k" using c k by (simp add: collected_def)
  then have bt: "mem s' (ptr (new_ref s os M s' p) d) = mem s (ptr p d)" if "d < length bs + 1" for d
    using that t k(3,6) unfolding same_object_def ob by simp
  have "cstring (mem s') (new_ref s os M s' p) bs"
    using bt by (intro cstring_move [OF _ p(3)]) (simp add: ptr_def)
  then show ?thesis using k p by (intro rep.rep_str) simp_all
qed

lemma live_members:
  assumes h: "live_heap s os M" and c: "collected s os M s' os'" and k: "k \<in> M" "k < length os"
    and t: "otype (os ! k) \<noteq> STRING" and i: "i = first_field (os ! k)" "i + length vs \<le> length (o_body (os ! k))"
    and p: "p = cadr (chunk_begin (heap s)) os k" "new_ref s os M s' p = cadr (chunk_begin (heap s')) os' (rank M k)"
    and a: "list_all2 (\<lambda>p v. rep s p v \<and> (ref_ok (heap s) M os p \<longrightarrow> raw_free v \<longrightarrow> rep s' (new_ref s os M s' p) v))
      (words_of s p i (length vs)) vs" "\<forall>v\<in>set vs. raw_free v"
  shows "list_all2 (rep s') (words_of s' (new_ref s os M s' p) i (length vs)) vs"
proof -
  have hv: "heap_view s os" using h by (simp add: live_heap_def)
  note lw = live_words_of [OF hv c k t i(2) [unfolded i(1)]]
  have "\<forall>w\<in>set (words_of s p i (length vs)). ref_ok (heap s) M os w"
    using lw(2) h k(1) unfolding p(1) i(1) by (auto simp: live_heap_def)
  from list_all2_refs [OF a(1) this a(2)] show ?thesis
    using lw(1) p i(1) by simp
qed

text \<open>The word before the first field: a closure's entry point, an S-expression's tag.\<close>

lemma live_first_word:
  assumes h: "live_heap s os M" and c: "collected s os M s' os'" and k: "k \<in> M" "k < length os"
    and t: "otype (os ! k) = CLOSURE \<or> otype (os ! k) = SEXP"
    and p: "p = cadr (chunk_begin (heap s)) os k" "new_ref s os M s' p = cadr (chunk_begin (heap s')) os' (rank M k)"
  shows "word_at s' (new_ref s os M s' p) 0 = word_at s p 0" "o_body (os ! k) \<noteq> []"
proof -
  have hv: "heap_view s os" and hv': "heap_view s' os'" using h c by (auto simp: live_heap_def collected_def)
  have l: "rank M k < length os'" and so: "same_object s os M s' os' k"
    using c k nth_live(2) by (auto simp: collected_def)
  have b: "o_body (os' ! rank M k) = rewrite_from (new_ref s os M s') 1 (o_body (os ! k))"
    using so t by (auto simp: same_object_def first_field_def)
  show n: "o_body (os ! k) \<noteq> []" using heap_view_obj [OF hv k(2)] t by (auto simp: wf_obj_def)
  then show "word_at s' (new_ref s os M s' p) 0 = word_at s p 0"
    using word_at_view [OF hv k(2), of 0] word_at_view [OF hv' l, of 0] b p by (simp add: nth_rewrite_from)
qed

lemma sexp_tag_word: "sexp_tag (mem s) (TO_SEXP p) = word_at s p 0"
  by (simp add: sexp_tag_def word_at_def TO_SEXP_def TO_DATA_def contents_def)

theorem collected_rep:
  assumes "rep s p v" and h: "live_heap s os M" and c: "collected s os M s' os'"
    and "ref_ok (heap s) M os p" "raw_free v"
  shows "rep s' (new_ref s os M s' p) v"
  using assms(1,4,5)
proof (induction rule: rep.induct)
  case (rep_int p)
  have hv: "heap_view s os" using h by (simp add: live_heap_def)
  have "new_ref s os M s' p = p"
    unfolding new_ref_def using cadr_boxed [OF hv] rep_int by (intro fwd_value_other) auto
  with rep_int show ?case by (simp add: rep.rep_int)
next
  case (rep_raw p)
  then show ?case by simp
next
  case (rep_str p bs)
  then show ?case by (intro collected_string [OF h c])
next
  case (rep_arr p vs)
  obtain k where k: "k \<in> M" "k < length os" "p = cadr (chunk_begin (heap s)) os k" "wf_obj (os ! k)"
    "tag_at s p = kind_of (otype (os ! k))" "len_at s p = LEN (o_hdr (os ! k))"
    "new_ref s os M s' p = cadr (chunk_begin (heap s')) os' (rank M k)"
    "is_valid_heap_pointer s' (new_ref s os M s' p)" "tag_at s' (new_ref s os M s' p) = tag_at s p"
    "len_at s' (new_ref s os M s' p) = len_at s p"
    using live_object [OF h c rep_arr.prems(1) rep_arr(1)] by blast
  have t: "otype (os ! k) = ARRAY" using k(5) rep_arr(2) kind_of_eq_iff(2) by metis
  then have "length (o_body (os ! k)) = length vs" "first_field (os ! k) = 0"
    using k(4,6) rep_arr(3) by (simp_all add: wf_obj_def first_field_def)
  then show ?case using k rep_arr t
    by (intro rep.rep_arr live_members [OF h c k(1,2)]) simp_all
next
  case (rep_clo p vs e)
  obtain k where k: "k \<in> M" "k < length os" "p = cadr (chunk_begin (heap s)) os k" "wf_obj (os ! k)"
    "tag_at s p = kind_of (otype (os ! k))" "len_at s p = LEN (o_hdr (os ! k))"
    "new_ref s os M s' p = cadr (chunk_begin (heap s')) os' (rank M k)"
    "is_valid_heap_pointer s' (new_ref s os M s' p)" "tag_at s' (new_ref s os M s' p) = tag_at s p"
    "len_at s' (new_ref s os M s' p) = len_at s p"
    using live_object [OF h c rep_clo.prems(1) rep_clo(1)] by blast
  have t: "otype (os ! k) = CLOSURE" using k(5) rep_clo(2) kind_of_eq_iff(4) by metis
  then have "length (o_body (os ! k)) = Suc (length vs)" "first_field (os ! k) = 1"
    using k(4,6) rep_clo(3) by (simp_all add: wf_obj_def first_field_def)
  then show ?case using k rep_clo t live_first_word(1) [OF h c k(1,2) _ k(3,7)]
    by (intro rep.rep_clo live_members [OF h c k(1,2)]) simp_all
next
  case (rep_sexp p vs t)
  obtain k where k: "k \<in> M" "k < length os" "p = cadr (chunk_begin (heap s)) os k" "wf_obj (os ! k)"
    "tag_at s p = kind_of (otype (os ! k))" "len_at s p = LEN (o_hdr (os ! k))"
    "new_ref s os M s' p = cadr (chunk_begin (heap s')) os' (rank M k)"
    "is_valid_heap_pointer s' (new_ref s os M s' p)" "tag_at s' (new_ref s os M s' p) = tag_at s p"
    "len_at s' (new_ref s os M s' p) = len_at s p"
    using live_object [OF h c rep_sexp.prems(1) rep_sexp(1)] by blast
  have ot: "otype (os ! k) = SEXP" using k(5) rep_sexp(2) kind_of_eq_iff(3) by metis
  then have "length (o_body (os ! k)) = Suc (length vs)" "first_field (os ! k) = 1"
    using k(4,6) rep_sexp(3) by (simp_all add: wf_obj_def first_field_def)
  then show ?case using k rep_sexp ot live_first_word(1) [OF h c k(1,2) _ k(3,7)]
    by (intro rep.rep_sexp live_members [OF h c k(1,2)]) (simp_all add: sexp_tag_word)
qed

section \<open>From the start of a collection to its end\<close>

text \<open>
  \<open>gc_ready keep s os\<close>: the heap holds the objects \<open>os\<close>, unmarked; every word that looks like a reference
  into it, in an object or in a root, is one. The slots that the collector fixes hold no other
  references than the roots it marks from; they do not overlap, and lie in memory outside the chunk.
\<close>

definition gc_ready :: "addr set \<Rightarrow> gc_state \<Rightarrow> obj list \<Rightarrow> bool" where
  "gc_ready keep s os \<longleftrightarrow> heap_view s os \<and> heap_closed s os \<and> roots_ok s os \<and> marks os = {} \<and> enqs os = {}
     \<and> slots_apart (fixed_slots s) \<and> unat (gc_stack_bottom s) < 4294967288
     \<and> (\<forall>a\<in>set (fixed_slots s). (\<forall>d\<in>{0, 1, 2, 3}. a + d \<in> keep)
          \<and> (is_valid_heap_pointer s (load32 (mem s) a) \<longrightarrow> load32 (mem s) a \<in> set (root_values s)))
     \<and> (\<forall>x\<in>keep. 4 * unat (chunk_size (heap s)) \<le> unat (x - chunk_begin (heap s)))"

definition live_set :: "gc_state \<Rightarrow> obj list \<Rightarrow> nat set" where
  "live_set s os = reach (chunk_begin (heap s)) os (targets (chunk_begin (heap s)) os (root_values s))"

lemma ref_ok_heap_pointer:
  "ref_ok (heap s) M os v \<longleftrightarrow> (is_valid_heap_pointer s v \<longrightarrow> (\<exists>k\<in>M. v = cadr (chunk_begin (heap s)) os k))"
  by (simp add: ref_ok_def is_valid_heap_pointer_def is_valid_pointer_def in_chunk_def)

lemma targets_less: "targets b os vs \<subseteq> {..<length os}"
  by (auto simp: targets_def)

lemma reach_less:
  assumes "X \<subseteq> {..<length os}" shows "reach b os X \<subseteq> {..<length os}"
proof (rule reach_least)
  show "succ_closed b os {..<length os} {..<length os}" by (auto simp: succ_closed_def succs_def)
qed (rule assms)

lemma live_set_live:
  assumes g: "gc_ready keep s os"
  shows "live_heap s os (live_set s os)"
    and "a \<in> set (fixed_slots s) \<Longrightarrow> ref_ok (heap s) (live_set s os) os (load32 (mem s) a)"
proof -
  let ?b = "chunk_begin (heap s)" and ?M = "live_set s os"
  have v: "heap_view s os" and hc: "heap_closed s os" and ro: "roots_ok s os" using g by (auto simp: gc_ready_def)
  have sub: "?M \<subseteq> {..<length os}" unfolding live_set_def by (intro reach_less targets_less)
  have cl: "succ_closed ?b os ?M ?M" unfolding live_set_def by (rule reach_closed)
  have "ref_ok (heap s) ?M os w" if k: "k \<in> ?M" and w: "w \<in> set (fields (os ! k))" for k w
  proof (unfold ref_ok_heap_pointer, intro impI)
    assume "is_valid_heap_pointer s w"
    moreover have kl: "k < length os" using sub k by blast
    ultimately obtain j where j: "j < length os" "w = cadr ?b os j" using hc w unfolding heap_closed_def by blast
    then have "j \<in> succs ?b os k" using w by (simp add: succs_def)
    then have "j \<in> ?M" using cl k kl unfolding succ_closed_def by blast
    with j show "\<exists>j\<in>?M. w = cadr ?b os j" by blast
  qed
  then show "live_heap s os ?M" using v sub by (simp add: live_heap_def)
  show "ref_ok (heap s) ?M os (load32 (mem s) a)" if a: "a \<in> set (fixed_slots s)"
  proof (unfold ref_ok_heap_pointer, intro impI)
    assume p: "is_valid_heap_pointer s (load32 (mem s) a)"
    with g a have rv: "load32 (mem s) a \<in> set (root_values s)" by (simp add: gc_ready_def)
    then obtain c where c: "c \<in> set (root_slots s)" "load32 (mem s) a = load32 (mem s) c"
      unfolding root_values_def by auto
    have "slot_ok s os c" using ro c(1) by (simp add: roots_ok_def)
    then obtain k where k: "k < length os" "load32 (mem s) a = cadr ?b os k"
      using p c(2) unfolding slot_ok_def by metis
    then have "k \<in> targets ?b os (root_values s)" using rv by (simp add: targets_def)
    then have "k \<in> ?M" unfolding live_set_def using reach_refl by blast
    with k show "\<exists>k\<in>?M. load32 (mem s) a = cadr ?b os k" by blast
  qed
qed

text \<open>Marking changes neither the slots nor what the objects hold.\<close>

lemma marked_slots:
  assumes g: "gc_ready keep s os" and r: "gc_rel s os s1 os1"
  shows "fixed_slots s1 = fixed_slots s" "a \<in> set (fixed_slots s) \<Longrightarrow> load32 (mem s1) a = load32 (mem s) a"
    "x \<in> keep \<Longrightarrow> mem s1 x = mem s x"
proof -
  have o': "same_outside (opos os (length os)) s s1" using r by (simp add: gc_rel_def)
  note gl = same_outside_globals [OF o']
  show "fixed_slots s1 = fixed_slots s" by (simp add: fixed_slots_def skipped_root_def [abs_def] gl)
  have used: "opos os (length os) \<le> 4 * unat (chunk_size (heap s))"
    using g by (simp add: gc_ready_def heap_view_def chunk_ok_def)
  have kp: "mem s1 x = mem s x" if "x \<in> keep" for x
    using that g o' used by (fastforce simp: gc_ready_def same_outside_def)
  then show "x \<in> keep \<Longrightarrow> mem s1 x = mem s x" .
  show "load32 (mem s1) a = load32 (mem s) a" if "a \<in> set (fixed_slots s)"
    using g that kp by (intro load32_cong) (auto simp: gc_ready_def)
qed

lemma compactable_marked:
  assumes g: "gc_ready keep s os" and r: "gc_rel s os s1 os1" and M: "marks os1 = live_set s os" "enqs os1 = {}"
  shows "compactable keep s1 os1"
proof -
  note vw = gc_rel_view [OF r] and ms = marked_slots [OF g r] and lv = live_set_live [OF g]
  have sh: "same_shape os os1" and o': "same_outside (opos os (length os)) s s1" using r by (auto simp: gc_rel_def)
  have z: "map osz os1 = map osz os" using sh by (intro nth_equalityI) (auto simp: same_shape_def osz_def)
  have rf: "ref_ok (heap s1) (marks os1) os1 = ref_ok (heap s) (live_set s os) os"
    using ref_ok_cong [OF z] by (simp add: vw(2) M(1))
  have "ref_ok (heap s1) (marks os1) os1 w" if "k \<in> marks os1" "w \<in> set (fields (os1 ! k))" for k w
  proof -
    have "k < length os" using that(1) lv(1) M(1) by (auto simp: live_heap_def)
    then show ?thesis
      using that lv(1) same_shape_obj(3) [OF sh] M(1) unfolding rf by (auto simp: live_heap_def)
  qed
  moreover have "\<forall>a\<in>set (fixed_slots s1). ref_ok (heap s1) (marks os1) os1 (load32 (mem s1) a)"
    unfolding rf ms(1) using lv(2) ms(2) by simp
  ultimately show ?thesis
    using g vw(1) M(2) ms(1) same_outside_globals [OF o'] by (simp add: compactable_def gc_ready_def)
qed

lemma collected_before_marking:
  assumes g: "gc_ready keep s os" and r: "gc_rel s os s1 os1" and c: "collected s1 os1 M s' os'"
  shows "collected s os M s' os'"
proof -
  note vw = gc_rel_view [OF r] and ms = marked_slots [OF g r]
  have sh: "same_shape os os1" and o': "same_outside (opos os (length os)) s s1" and v: "heap_view s os"
    using r g by (auto simp: gc_rel_def gc_ready_def)
  have z: "map osz os1 = map osz os" using sh by (intro nth_equalityI) (auto simp: same_shape_def osz_def)
  have nr: "new_ref s1 os1 M s' = new_ref s os M s'"
    unfolding new_ref_def vw(2) by (rule fwd_value_cong [OF z])
  have "same_object s os M s' os' k" if k: "k \<in> M" "k < length os" for k
  proof -
    have so: "same_object s1 os1 M s' os' k" using c k vw(3) by (simp add: collected_def)
    have hd: "o_hdr (os1 ! k) = o_hdr (os ! k)" and bd: "o_body (os1 ! k) = o_body (os ! k)"
      using sh k by (auto simp: same_shape_def)
    have ob: "obytes (os1 ! k) = obytes (os ! k)" using hd by (simp add: obytes_def otype_def)
    have wf: "wf_obj (os ! k)" using heap_view_obj [OF v k(2)] by blast
    have "mem s1 (ptr (chunk_begin (heap s)) (opos os k + 8 + d)) = mem s (ptr (chunk_begin (heap s)) (opos os k + 8 + d))"
      if "d < obytes (os ! k) - 8" for d
    proof (rule words_at_bytes)
      show "words_at (mem s1) (chunk_begin (heap s)) (opos os k + 8) (o_body (os ! k))"
        using heap_view_obj [OF vw(1), of k] k bd by (simp add: vw obj_at_def)
      show "words_at (mem s) (chunk_begin (heap s)) (opos os k + 8) (o_body (os ! k))"
        using heap_view_obj [OF v k(2)] by (simp add: obj_at_def)
      show "d < 4 * length (o_body (os ! k))" using that obytes_le [OF wf] by (simp add: osz_def)
    qed
    then have "mem s1 (ptr (cadr (chunk_begin (heap s)) os k) d) = mem s (ptr (cadr (chunk_begin (heap s)) os k) d)"
      if "d < obytes (os ! k) - 8" for d using that by (simp add: cadr_def)
    then show ?thesis
      using so same_shape_obj [OF sh k(2)] hd bd ob by (auto simp: same_object_def nr vw)
  qed
  moreover have "\<exists>m h. s' = s\<lparr>mem := m, heap := h\<rparr>"
  proof -
    obtain m1 where "s1 = s\<lparr>mem := m1\<rparr>" using o' by (auto simp: same_outside_def)
    then show ?thesis using c by (auto simp: collected_def)
  qed
  ultimately show ?thesis using c ms(1,2) by (simp add: collected_def vw(3) nr)
qed

section \<open>A whole collection\<close>

text \<open>Every value that a fixed slot held is still there, wherever its objects have gone.\<close>

definition values_survive :: "gc_state \<Rightarrow> gc_state \<Rightarrow> bool" where
  "values_survive s s' \<longleftrightarrow> (\<forall>a\<in>set (fixed_slots s). \<forall>v. raw_free v \<longrightarrow>
     rep s (load32 (mem s) a) v \<longrightarrow> rep s' (load32 (mem s') a) v)"

lemma collected_survive:
  assumes "gc_ready keep s os" "collected s os (live_set s os) s' os'"
  shows "values_survive s s'"
  using collected_rep [OF _ live_set_live(1) [OF assms(1)] assms(2)] live_set_live(2) [OF assms(1)] assms(2)
  by (simp add: values_survive_def collected_def)

lemma rank_card: "M \<subseteq> {..<n} \<Longrightarrow> rank M n = card M"
proof -
  assume "M \<subseteq> {..<n}"
  then have "set (live_list M n) = M" by (auto simp: live_list_def)
  moreover have "distinct (live_list M n)" by (simp add: live_list_def)
  ultimately show ?thesis by (metis distinct_card rank_def)
qed

lemma collected_count:
  assumes "gc_ready keep s os" "collected s os (live_set s os) s' os'"
  shows "length os' = card (live_set s os)"
  using assms live_set_live(1) [OF assms(1)] rank_card by (simp add: collected_def live_heap_def)

lemma mremap_refuses_cong:
  assumes "heap s1 = heap s" "opos os1 (length os1) = opos os (length os)"
  shows "mremap_refuses f sz s1 os1 = mremap_refuses f sz s os"
  using assms by (simp add: mremap_refuses_def)

theorem gc_alloc_view:
  assumes g: "gc_ready keep s os" and k: "mremap_ok f keep"
    and z: "2 * opos os (length os) + 4 * unat sz < 4294967296"
  shows "(mremap_refuses f sz s os \<and> gc_alloc f sz s = err MremapFailed)
    \<or> (\<exists>s' os'. gc_alloc f sz s = ok (gc_alloc_on_existing_heap sz s')
      \<and> collected s os (live_set s os) s' os' \<and> 4 * unat sz \<le> free_bytes s' os'
      \<and> (\<forall>x\<in>keep. (\<forall>a\<in>set (fixed_slots s). clear_of a x) \<longrightarrow> mem s' x = mem s x))"
proof -
  have a: "heap_view s os" "heap_closed s os" "roots_ok s os" "marks os = {}" "enqs os = {}"
    using g by (simp_all add: gc_ready_def)
  from mark_phase_view [OF a] obtain s1 os1 where
    1: "mark_phase s = ok s1" "gc_rel s os s1 os1" "enqs os1 = {}" "marks os1 = live_set s os"
    by (auto simp: live_set_def)
  note vw = gc_rel_view [OF 1(2)] and ms = marked_slots [OF g 1(2)]
  have e: "opos os1 (length os1) = opos os (length os)" using vw(3,4) by simp
  have gc: "gc_alloc f sz s = andthen (compact_phase f sz s1) (\<lambda>s2. ok (gc_alloc_on_existing_heap sz s2))"
    by (simp add: gc_alloc_def 1(1))
  have "2 * opos os1 (length os1) + 4 * unat sz < 4294967296" using z e by simp
  from compact_phase_view [OF k compactable_marked [OF g 1(2,4,3)] this]
  show ?thesis
  proof (elim disjE exE conjE)
    assume "mremap_refuses f sz s1 os1" "compact_phase f sz s1 = err MremapFailed"
    then show ?thesis using mremap_refuses_cong [OF vw(2) e] by (simp add: gc)
  next
    fix s' os'
    assume c: "compact_phase f sz s1 = ok s'" "collected s1 os1 (marks os1) s' os'" "4 * unat sz \<le> free_bytes s' os'"
      "\<forall>x\<in>keep. (\<forall>a\<in>set (fixed_slots s1). clear_of a x) \<longrightarrow> mem s' x = mem s1 x"
    have "collected s os (live_set s os) s' os'"
      using collected_before_marking [OF g 1(2) c(2)] by (simp add: 1(4))
    moreover have "\<forall>x\<in>keep. (\<forall>a\<in>set (fixed_slots s). clear_of a x) \<longrightarrow> mem s' x = mem s x"
      using c(4) ms by simp
    ultimately show ?thesis using c(1,3) by (auto simp: gc)
  qed
qed

lemma existing_heap_room:
  assumes v: "heap_view s os" and r: "4 * unat w \<le> free_bytes s os"
  shows "fst (gc_alloc_on_existing_heap w s) \<noteq> 0"
proof -
  let ?b = "chunk_begin (heap s)" and ?u = "opos os (length os)"
  have c: "chunk_current (heap s) = ptr ?b ?u" "?u \<le> 4 * unat (chunk_size (heap s))"
    "chunk_end (heap s) = ptr ?b (4 * unat (chunk_size (heap s)))"
    "unat ?b + 4 * unat (chunk_size (heap s)) < 4294967296" "0 < unat ?b"
    using v by (auto simp: heap_view_def chunk_ok_def unat_gt_0)
  have f: "?u + 4 * unat w \<le> 4 * unat (chunk_size (heap s))" using r c by (simp add: free_bytes_def)
  then have "unat (4 * w) = 4 * unat w" using c(4) by (simp add: unat_word_ariths)
  then have "chunk_current (heap s) + 4 * w = ptr ?b (?u + 4 * unat w)" by (simp add: c(1) ptr_plus_word)
  moreover have "ptr ?b (?u + 4 * unat w) \<le> ptr ?b (4 * unat (chunk_size (heap s)))"
    using c(4) f by (simp add: ptr_le_iff)
  moreover have "unat (ptr ?b ?u) = unat ?b + ?u" using c(2,4) by (simp add: unat_ptr)
  then have "ptr ?b ?u \<noteq> 0" using c(5) by auto
  ultimately show ?thesis using c(3) by (simp add: gc_alloc_on_existing_heap_def c(1) Let_def)
qed

text \<open>An allocation that finds no room is the same allocation after a collection.\<close>

theorem alloc_collects:
  assumes g: "gc_ready keep s os" and k: "mremap_ok f keep"
    and z: "2 * opos os (length os) + 4 * unat (BYTES_TO_WORDS n) < 4294967296"
      "unat (chunk_begin (heap s)) + opos os (length os) + 4 * unat (BYTES_TO_WORDS n) < 4294967296"
    and full: "free_bytes s os < 4 * unat (BYTES_TO_WORDS n)"
  shows "(mremap_refuses f (BYTES_TO_WORDS n) s os \<and> alloc f n s = err MremapFailed)
    \<or> (\<exists>s' os'. alloc f n s = alloc f n s'
      \<and> collected s os (live_set s os) s' os' \<and> 4 * unat (BYTES_TO_WORDS n) \<le> free_bytes s' os')"
proof -
  have v: "heap_view s os" using g by (simp add: gc_ready_def)
  have a: "alloc f n s = gc_alloc f (BYTES_TO_WORDS n) s" by (rule alloc_no_room [OF v full z(2)])
  have "alloc f n s' = ok (gc_alloc_on_existing_heap (BYTES_TO_WORDS n) s')"
    if "collected s os (live_set s os) s' os'" "4 * unat (BYTES_TO_WORDS n) \<le> free_bytes s' os'" for s' os'
  proof -
    have "heap_view s' os'" using that(1) by (simp add: collected_def)
    from existing_heap_room [OF this that(2)] show ?thesis
      by (cases "gc_alloc_on_existing_heap (BYTES_TO_WORDS n) s'") (simp add: alloc_def)
  qed
  with gc_alloc_view [OF g k z(1)] show ?thesis unfolding a by (metis (no_types, lifting))
qed

section \<open>Allocation, with or without a collection\<close>

text \<open>
  \<open>alloc_result s os x r\<close>: \<open>r\<close> returns the address of a new object \<open>x\<close>, appended to the objects of \<open>s\<close>,
  or to those that a collection has left of them.
\<close>

definition alloc_result :: "gc_state \<Rightarrow> obj list \<Rightarrow> obj \<Rightarrow> (addr \<times> gc_state) outcome \<Rightarrow> bool" where
  "alloc_result s os x r \<longleftrightarrow> (\<exists>s0 os0 s'. r = ok (hadr (chunk_begin (heap s0)) os0 (length os0), s')
     \<and> appended s0 os0 x s' \<and> values_survive s s0
     \<and> (s0 = s \<and> os0 = os \<or> length os0 = card (live_set s os)))"

definition alloc_refused :: "mremap \<Rightarrow> gc_state \<Rightarrow> obj list \<Rightarrow> obj \<Rightarrow> (addr \<times> gc_state) outcome \<Rightarrow> bool" where
  "alloc_refused f s os x r \<longleftrightarrow> mremap_refuses f (word_of_nat (osz x)) s os \<and> r = err MremapFailed"

lemma values_survive_refl: "values_survive s s"
  by (simp add: values_survive_def)

text \<open>An object of \<open>n\<close> bytes can be asked for: the sizes that the collector computes do not wrap.\<close>

definition can_ask :: "gc_state \<Rightarrow> obj list \<Rightarrow> nat \<Rightarrow> bool" where
  "can_ask s os n \<longleftrightarrow> 2 * opos os (length os) + n < 4294967296
     \<and> unat (chunk_begin (heap s)) + opos os (length os) + n < 4294967296"

locale collecting_allocator = allocator +
  fixes f :: mremap
  assumes alloc_full: "gc_ready keep s os \<Longrightarrow> mremap_ok f keep \<Longrightarrow> allowed len \<Longrightarrow>
      free_bytes s os < 4 * osz (new_obj len) \<Longrightarrow> can_ask s os (4 * osz (new_obj len)) \<Longrightarrow>
      alloc_refused f s os (new_obj len) (alloc_obj len s) \<or> (\<exists>s' os'. alloc_obj len s = alloc_obj len s'
        \<and> collected s os (live_set s os) s' os' \<and> 4 * osz (new_obj len) \<le> free_bytes s' os')"
begin

lemma alloc_always:
  assumes "gc_ready keep s os" "mremap_ok f keep" "allowed len" "can_ask s os (4 * osz (new_obj len))"
  shows "alloc_refused f s os (new_obj len) (alloc_obj len s) \<or> alloc_result s os (new_obj len) (alloc_obj len s)"
proof (cases "4 * osz (new_obj len) \<le> free_bytes s os")
  case True
  have "heap_view s os" using assms(1) by (simp add: gc_ready_def)
  from alloc_room [OF this assms(3) True] show ?thesis
    unfolding alloc_result_def using values_survive_refl [of s] by blast
next
  case False
  then have "free_bytes s os < 4 * osz (new_obj len)" by simp
  from alloc_full [OF assms(1-3) this assms(4)] show ?thesis
  proof (elim disjE exE conjE)
    fix s' os'
    assume a: "alloc_obj len s = alloc_obj len s'" and c: "collected s os (live_set s os) s' os'"
      and r: "4 * osz (new_obj len) \<le> free_bytes s' os'"
    have "heap_view s' os'" using c by (simp add: collected_def)
    from alloc_room [OF this assms(3) r] show ?thesis
      unfolding alloc_result_def a
      using collected_survive [OF assms(1) c] collected_count [OF assms(1) c] by blast
  qed simp
qed

end

lemma alloc_kind_full:
  assumes g: "gc_ready keep s os" and k: "mremap_ok f keep" and len: "unat len < 536870912" "t = CLOSURE \<longrightarrow> len \<noteq> 0"
    and full: "free_bytes s os < 4 * osz (fresh t (kind_of t) len)" and c: "can_ask s os (4 * osz (fresh t (kind_of t) len))"
  shows "alloc_refused f s os (fresh t (kind_of t) len) (andthen (alloc f (type_size t len) s) h)
    \<or> (\<exists>s' os'. andthen (alloc f (type_size t len) s) h = andthen (alloc f (type_size t len) s') h
      \<and> collected s os (live_set s os) s' os' \<and> 4 * osz (fresh t (kind_of t) len) \<le> free_bytes s' os')"
proof -
  note w = words_fresh [OF len]
  have "2 * opos os (length os) + 4 * unat (BYTES_TO_WORDS (type_size t len)) < 4294967296"
    "unat (chunk_begin (heap s)) + opos os (length os) + 4 * unat (BYTES_TO_WORDS (type_size t len)) < 4294967296"
    "free_bytes s os < 4 * unat (BYTES_TO_WORDS (type_size t len))"
    using c full by (simp_all only: w can_ask_def)
  note ac = alloc_collects [OF g k this]
  have "BYTES_TO_WORDS (type_size t len) = word_of_nat (osz (fresh t (kind_of t) len))"
    unfolding w [symmetric] by simp
  with ac show ?thesis unfolding alloc_refused_def w by (elim disjE exE conjE) (simp, metis)
qed

interpretation gc_arrays: collecting_allocator "alloc_array f" "fresh ARRAY ARRAY_TAG" "\<lambda>len. unat len < 536870912" f
  for f
  by unfold_locales (use alloc_kind_full [where t = ARRAY] in \<open>simp add: alloc_array_def kind_of_def\<close>)

interpretation gc_strings: collecting_allocator "alloc_string f" "fresh STRING STRING_TAG" "\<lambda>len. unat len < 536870912" f
  for f
  by unfold_locales (use alloc_kind_full [where t = STRING] in \<open>simp add: alloc_string_def kind_of_def\<close>)

interpretation gc_sexps: collecting_allocator "alloc_sexp f" "fresh SEXP SEXP_TAG" "\<lambda>len. unat len < 536870912" f
  for f
  by unfold_locales (use alloc_kind_full [where t = SEXP] in \<open>simp add: alloc_sexp_def kind_of_def\<close>)

interpretation gc_closures: collecting_allocator "alloc_closure f" "fresh CLOSURE CLOSURE_TAG"
    "\<lambda>len. unat len < 536870912 \<and> len \<noteq> 0" f
  for f
  by unfold_locales (elim conjE, use alloc_kind_full [where t = CLOSURE] in \<open>simp add: alloc_closure_def kind_of_def\<close>)

end
