(* ===== verification/VirtStack.thy ===== *)
theory VirtStack
  imports Stacks
begin

text \<open>
  runtime/virt_stack.c and runtime/virt_stack.h: the stack that stands in for the program's
  stack in the runtime's unit tests. It grows downwards in an array of
  \<open>RUNTIME_VSTACK_SIZE + 1\<close> words; \<open>cur\<close> is the index of the top word. Every \<open>assert (0)\<close> is the
  error \<open>AssertFailed\<close>.
\<close>

definition RUNTIME_VSTACK_SIZE :: nat where
  "RUNTIME_VSTACK_SIZE = 100000"

record virt_stack =
  vbuf :: "u32 list"
  vcur :: nat

definition vstack_init :: "virt_stack \<Rightarrow> virt_stack" where
  "vstack_init st = \<lparr>vbuf = (vbuf st)[RUNTIME_VSTACK_SIZE := 0], vcur = RUNTIME_VSTACK_SIZE\<rparr>"

definition vstack_push :: "u32 \<Rightarrow> virt_stack \<Rightarrow> virt_stack outcome" where
  "vstack_push v st = (if vcur st = 0 then err AssertFailed
     else ok (st\<lparr>vcur := vcur st - 1, vbuf := (vbuf st)[vcur st - 1 := v]\<rparr>))"

definition vstack_pop :: "virt_stack \<Rightarrow> (u32 \<times> virt_stack) outcome" where
  "vstack_pop st = (if vcur st = RUNTIME_VSTACK_SIZE then err AssertFailed
     else ok (vbuf st ! vcur st, st\<lparr>vcur := vcur st + 1\<rparr>))"

text \<open>\<open>st->buf + st->cur\<close>, for a stack whose buffer is at address \<open>base\<close>.\<close>

definition vstack_top :: "addr \<Rightarrow> virt_stack \<Rightarrow> addr" where
  "vstack_top base st = base + 4 * word_of_nat (vcur st)"

definition vstack_size :: "virt_stack \<Rightarrow> nat" where
  "vstack_size st = RUNTIME_VSTACK_SIZE - vcur st"

definition vstack_kth_from_start :: "virt_stack \<Rightarrow> nat \<Rightarrow> u32 outcome" where
  "vstack_kth_from_start st k = (if \<not> k < vstack_size st then err AssertFailed
     else ok (vbuf st ! (RUNTIME_VSTACK_SIZE - 1 - k)))"

section \<open>The stack as a list, top first\<close>

definition vstack_elems :: "virt_stack \<Rightarrow> u32 list" where
  "vstack_elems st = drop (vcur st) (take RUNTIME_VSTACK_SIZE (vbuf st))"

definition vstack_inv :: "virt_stack \<Rightarrow> bool" where
  "vstack_inv st \<longleftrightarrow> length (vbuf st) = RUNTIME_VSTACK_SIZE + 1 \<and> vcur st \<le> RUNTIME_VSTACK_SIZE"

lemma vstack_init_elems:
  "length (vbuf st) = RUNTIME_VSTACK_SIZE + 1 \<Longrightarrow>
   vstack_inv (vstack_init st) \<and> vstack_elems (vstack_init st) = []"
  by (simp add: vstack_inv_def vstack_elems_def vstack_init_def)

lemma length_vstack_elems: "vstack_inv st \<Longrightarrow> length (vstack_elems st) = vstack_size st"
  by (simp add: vstack_inv_def vstack_elems_def vstack_size_def)

lemma vstack_elems_push:
  assumes "vstack_inv st" "0 < vcur st"
  shows "vstack_elems (st\<lparr>vcur := vcur st - 1, vbuf := (vbuf st)[vcur st - 1 := v]\<rparr>) = v # vstack_elems st"
proof (rule nth_equalityI)
  show "length (vstack_elems (st\<lparr>vcur := vcur st - 1, vbuf := (vbuf st)[vcur st - 1 := v]\<rparr>))
      = length (v # vstack_elems st)"
    using assms by (auto simp: vstack_elems_def vstack_inv_def)
next
  fix i assume i: "i < length (vstack_elems (st\<lparr>vcur := vcur st - 1, vbuf := (vbuf st)[vcur st - 1 := v]\<rparr>))"
  show "vstack_elems (st\<lparr>vcur := vcur st - 1, vbuf := (vbuf st)[vcur st - 1 := v]\<rparr>) ! i
      = (v # vstack_elems st) ! i"
    using assms i by (cases i) (auto simp: vstack_elems_def vstack_inv_def)
qed

interpretation vs: value_stack vstack_push vstack_elems "\<lambda>_. RUNTIME_VSTACK_SIZE" vstack_inv
    "\<lambda>_ _. True" vstack_pop
proof
  fix s x
  assume i: "vstack_inv s" and r: "length (vstack_elems s) < RUNTIME_VSTACK_SIZE"
  then have p: "0 < vcur s" by (simp add: length_vstack_elems vstack_size_def)
  with i show "\<exists>s'. vstack_push x s = ok s' \<and> vstack_inv s' \<and> vstack_elems s' = x # vstack_elems s
      \<and> RUNTIME_VSTACK_SIZE = RUNTIME_VSTACK_SIZE \<and> (\<forall>y. True = True)"
    using vstack_elems_push [OF i p] by (auto simp: vstack_push_def vstack_inv_def)
next
  fix s x
  assume i: "vstack_inv s" and r: "RUNTIME_VSTACK_SIZE \<le> length (vstack_elems s)"
  moreover have "0 < RUNTIME_VSTACK_SIZE" by (simp add: RUNTIME_VSTACK_SIZE_def)
  ultimately have "vcur s = 0" by (simp add: length_vstack_elems vstack_size_def)
  then show "\<exists>e. vstack_push x s = err e" by (simp add: vstack_push_def)
next
  fix s assume "vstack_inv s"
  then show "length (vstack_elems s) \<le> RUNTIME_VSTACK_SIZE"
    by (simp add: length_vstack_elems vstack_size_def)
next
  fix s x xs
  assume i: "vstack_inv s" and e: "vstack_elems s = x # xs"
  then have "0 < vstack_size s" by (metis length_vstack_elems length_greater_0_conv list.distinct(1))
  then have c: "vcur s < RUNTIME_VSTACK_SIZE" by (simp add: vstack_size_def)
  with i have "vstack_elems s = vbuf s ! vcur s # drop (Suc (vcur s)) (take RUNTIME_VSTACK_SIZE (vbuf s))"
    by (simp add: vstack_elems_def vstack_inv_def Cons_nth_drop_Suc [symmetric])
  with e i c show "\<exists>s'. vstack_pop s = ok (x, s') \<and> vstack_inv s' \<and> vstack_elems s' = xs
      \<and> RUNTIME_VSTACK_SIZE = RUNTIME_VSTACK_SIZE"
    by (auto simp: vstack_pop_def vstack_inv_def vstack_elems_def)
next
  fix s assume i: "vstack_inv s" and "vstack_elems s = []"
  then have "vstack_size s = 0" by (metis length_vstack_elems list.size(3))
  with i have "vcur s = RUNTIME_VSTACK_SIZE" by (simp add: vstack_size_def vstack_inv_def)
  then show "\<exists>e. vstack_pop s = err e" by (simp add: vstack_pop_def)
qed

end
