(* ===== verification/HeapProperties.thy ===== *)
theory HeapProperties
  imports Survival VirtStack
begin

text \<open>
  The properties of the collector, the allocator and the stacks, with their witnesses. The
  witnesses use a small heap: an array of two words whose first word points to an empty array,
  that empty array, and a second empty array that nothing points to. One word of the stack
  points to the first array.
\<close>

section \<open>A small heap\<close>

definition demo_mem :: memory where
  "demo_mem = (\<lambda>_. 0)(4096 := 19, 4104 := 24, 4105 := 16, 4108 := 11, 4112 := 3, 4120 := 3,
     8196 := 8, 8197 := 16)"

definition demo :: gc_state where
  "demo = \<lparr>mem = demo_mem,
     heap = \<lparr>chunk_begin = 4096, chunk_end = 4352, chunk_current = 4128, chunk_size = 64\<rparr>,
     extra_roots = \<lparr>current_free = 0, roots = replicate 32 0\<rparr>,
     gc_stack_top = 8192, gc_stack_bottom = 8200, start_custom_data = 9000, stop_custom_data = 9000\<rparr>"

definition demo_objs :: "obj list" where
  "demo_objs = [\<lparr>o_hdr = 19, o_fwd = 0, o_body = [4120, 11]\<rparr>, \<lparr>o_hdr = 3, o_fwd = 0, o_body = []\<rparr>,
     \<lparr>o_hdr = 3, o_fwd = 0, o_body = []\<rparr>]"

lemma demo_length: "length demo_objs = 3"
  by (simp add: demo_objs_def)

lemma demo_nth: "demo_objs ! 0 = \<lparr>o_hdr = 19, o_fwd = 0, o_body = [4120, 11]\<rparr>"
  "demo_objs ! Suc 0 = \<lparr>o_hdr = 3, o_fwd = 0, o_body = []\<rparr>" "demo_objs ! 2 = \<lparr>o_hdr = 3, o_fwd = 0, o_body = []\<rparr>"
  by (simp_all add: demo_objs_def)

lemma less_3: "i < (3 :: nat) \<longleftrightarrow> i = 0 \<or> i = Suc 0 \<or> i = 2"
  by auto

lemma demo_opos: "opos demo_objs 0 = 0" "opos demo_objs (Suc 0) = 16" "opos demo_objs 2 = 24" "opos demo_objs 3 = 32"
  by (simp_all add: opos_def demo_objs_def osz_def)

lemma demo_types: "otype \<lparr>o_hdr = 19, o_fwd = 0, o_body = [4120, 11]\<rparr> = ARRAY"
  "otype \<lparr>o_hdr = 3, o_fwd = 0, o_body = []\<rparr> = ARRAY"
  by (simp_all add: otype_def TAG_def tag_defs)

lemma demo_begin [simp]: "chunk_begin (heap demo) = 4096" "chunk_current (heap demo) = 4128"
  "chunk_size (heap demo) = 64" "chunk_end (heap demo) = 4352" "mem demo = demo_mem"
  by (simp_all add: demo_def)

lemma demo_loads: "load32 demo_mem 4096 = 19" "load32 demo_mem 4100 = 0" "load32 demo_mem 4104 = 4120"
  "load32 demo_mem 4108 = 11" "load32 demo_mem 4112 = 3" "load32 demo_mem 4116 = 0"
  "load32 demo_mem 4120 = 3" "load32 demo_mem 4124 = 0" "load32 demo_mem 8196 = 4104"
  by (simp_all add: load32_def demo_mem_def)

lemma demo_ptr: "ptr 4096 k = word_of_nat (4096 + k)"
  by (simp add: ptr_def)

lemma demo_obj_at: "i < 3 \<Longrightarrow> obj_at demo_mem 4096 (opos demo_objs i) (demo_objs ! i)"
  unfolding less_3
  by (auto simp: obj_at_def words_at_def demo_opos demo_nth less_Suc_eq demo_ptr demo_loads)

lemma demo_wf: "i < 3 \<Longrightarrow> wf_obj (demo_objs ! i)"
  unfolding less_3
  by (elim disjE) (simp_all add: demo_nth wf_obj_def demo_types, simp_all add: TAG_def LEN_def tag_defs)

lemma demo_view: "heap_view demo demo_objs"
proof -
  have "\<forall>x\<in>set demo_objs. wf_obj x" using demo_wf by (auto simp: in_set_conv_nth demo_length)
  moreover have "objs_at demo_mem 4096 demo_objs" using demo_obj_at by (simp add: objs_at_def demo_length)
  ultimately show ?thesis
    by (simp add: heap_view_def chunk_ok_def demo_opos demo_length demo_ptr)
qed

lemma demo_fields: "Layout.fields (demo_objs ! 0) = [4120, 11]" "Layout.fields (demo_objs ! Suc 0) = []" "Layout.fields (demo_objs ! 2) = []"
  by (simp_all add: Layout.fields_def first_field_def demo_nth demo_types)

lemma demo_closed: "heap_closed demo demo_objs"
proof -
  have "cadr 4096 demo_objs (Suc 0) = 4120" by (simp add: cadr_def demo_opos demo_ptr)
  then have "\<exists>k<3. 4120 = cadr 4096 demo_objs k" by (intro exI [of _ "Suc 0"]) simp
  moreover have "\<not> is_valid_heap_pointer demo 11" by (simp add: is_valid_heap_pointer_def UNBOXED_def)
  ultimately show ?thesis
    unfolding heap_closed_def demo_length less_3 by (auto simp: demo_fields less_3)
qed

lemma demo_slots: "root_slots demo = [8196]"
  by (simp add: root_slots_def area_words_def demo_def)

lemma demo_roots: "roots_ok demo demo_objs"
proof -
  have "load32 demo_mem 8196 = cadr 4096 demo_objs 0"
    by (simp add: demo_loads cadr_def demo_opos demo_ptr)
  moreover have "slot_outside demo demo_objs 8196"
    by (simp add: slot_outside_def demo_opos demo_length)
  ultimately have "slot_ok demo demo_objs 8196"
    by (auto simp: slot_ok_def demo_length intro!: exI [of _ 0])
  then show ?thesis by (simp add: roots_ok_def demo_slots) (simp add: demo_def)
qed

lemma demo_fwd: "i < 3 \<Longrightarrow> o_fwd (demo_objs ! i) = 0"
  unfolding less_3 by (auto simp: demo_nth)

lemma demo_marks: "marks demo_objs = {}" "enqs demo_objs = {}"
  using demo_fwd by (auto simp: marks_def enqs_def marked_def enqueued_def demo_length)

section \<open>A collection of the small heap\<close>

text \<open>The stack of the small heap is eight bytes; \<open>mremap\<close> moves the chunk to address 65536.\<close>

definition demo_keep :: "addr set" where
  "demo_keep = {8196, 8197, 8198, 8199, 8200, 8201, 8202, 8203}"

definition demo_mremap :: mremap where
  "demo_mremap m a old new = (if unat new < 2147483648
     then Some (65536, \<lambda>x. if unat (x - 65536) < unat new then m (a + (x - 65536)) else m x) else None)"

lemma demo_mremap_ok: "mremap_ok demo_mremap demo_keep"
proof (unfold mremap_ok_def, intro allI impI conjI ballI)
  fix m a old new b m' assume f: "demo_mremap m a old new = Some (b, m')"
  then have n: "unat new < 2147483648" and b: "b = 65536"
    and m': "m' = (\<lambda>x. if unat (x - 65536) < unat new then m (a + (x - 65536)) else m x)"
    by (auto simp: demo_mremap_def split: if_splits)
  show "b \<noteq> 0" "unat b mod 4 = 0" "unat b + unat new < 4294967296" using n by (simp_all add: b)
  show "m' (ptr b i) = m (ptr a i)" if "i < unat old" "i < unat new" for i
    using that n by (simp add: m' b unat_of_nat_u32) (simp add: ptr_def)
  fix x assume "x \<in> demo_keep" and "unat old \<le> unat (x - a)"
  then have "2147483648 \<le> unat (x - 65536)" by (auto simp: demo_keep_def)
  then show "unat new \<le> unat (x - b)" "m' x = m x" using n by (simp_all add: b m')
qed

lemma demo_fixed_slots: "fixed_slots demo = [8196, 8200]"
  by (simp add: fixed_slots_def area_words_def demo_def ptr_def upt_rec)

lemma demo_root_values: "root_values demo = [4104]"
  by (simp add: root_values_def demo_slots demo_loads)

lemma demo_ready: "gc_ready demo_keep demo demo_objs"
proof -
  have "unat (- 1 :: u32) = 4294967295" by (simp add: unsigned_minus_1_eq_mask mask_eq_exp_minus_1)
  then have "slots_apart [8196, 8200]" by (simp add: slots_apart_def slot_clear_def clear_of_def)
  moreover have "load32 demo_mem 8200 = 0" by (simp add: load32_def demo_mem_def)
  then have "\<not> is_valid_heap_pointer demo (load32 demo_mem 8200)" by (simp add: is_valid_heap_pointer_def)
  moreover have "256 \<le> unat (x - 4096)" if "x \<in> demo_keep" for x using that by (auto simp: demo_keep_def)
  ultimately show ?thesis
    using demo_view demo_closed demo_roots demo_marks
    by (simp add: gc_ready_def demo_fixed_slots demo_root_values demo_loads)
      (simp add: demo_keep_def demo_def)
qed

lemma demo_not_refused: "unat n < 256 \<Longrightarrow> \<not> mremap_refuses demo_mremap n demo demo_objs"
proof -
  assume n: "unat n < 256"
  have "unat (WORDS_TO_BYTES (next_heap_pseudo_size live_size n 64)) < 2147483648" if "4 * unat live_size \<le> 32"
    for live_size :: u32
  proof -
    have l: "unat live_size \<le> 8" using that by simp
    then have "unat (live_size * 2 + n) = 2 * unat live_size + unat n" using n by (simp add: unat_word_ariths)
    then have "unat (next_heap_pseudo_size live_size n 64) < 300"
      using l n by (simp add: next_heap_pseudo_size_def EXTRA_ROOM_HEAP_COEFFICIENT_def MINIMUM_HEAP_CAPACITY_def
          word_le_nat_alt max_def)
    then show ?thesis by (simp add: WORDS_TO_BYTES_def unat_word_ariths)
  qed
  then show ?thesis by (simp add: mremap_refuses_def demo_length demo_opos demo_mremap_def)
qed

lemma demo_rep: "rep demo 4104 (Arr_val [Arr_val [], Int_val 11])"
proof -
  have p: "is_valid_heap_pointer demo 4104" "is_valid_heap_pointer demo 4120"
    by (simp_all add: is_valid_heap_pointer_def UNBOXED_def)
  have t: "tag_at demo 4104 = ARRAY_TAG" "tag_at demo 4120 = ARRAY_TAG" "unat (len_at demo 4104) = 2"
    "unat (len_at demo 4120) = 0"
    by (simp_all add: tag_at_def len_at_def data_header_def TO_DATA_def DATA_HEADER_SZ_def demo_loads
        TAG_def LEN_def ARRAY_TAG_def)
  have w: "words_of demo 4104 0 2 = [4120, 11]"
    by (simp add: words_of_def word_at_def TO_DATA_def DATA_HEADER_SZ_def contents_def numeral_2_eq_2 demo_loads)
  have "rep demo 4120 (Arr_val [])" using p(2) t(2,4) by (intro rep.rep_arr) simp_all
  moreover have "rep demo 11 (Int_val 11)" by (rule rep.rep_int) (simp add: UNBOXED_def)
  ultimately show ?thesis using p(1) t(1,3) w by (intro rep.rep_arr) (simp_all add: numeral_2_eq_2)
qed

text \<open>
  C2: a garbage collection ends, unless the kernel refuses memory. Afterwards the heap consists of the
  objects that were reachable from the roots and nothing else, without marks, there is room for the
  allocation that asked for the collection, and every word of the program stack or extra root that
  stood for a value (an integer, string, array, closure or S-expression, as deep as it may be) stands
  for the same value, although the objects have moved.
\<close>

theorem collection_preserves_values:
  assumes "gc_ready keep s os" "mremap_ok f keep" "2 * opos os (length os) + 4 * unat sz < 4294967296"
  shows "(mremap_refuses f sz s os \<and> gc_alloc f sz s = err MremapFailed)
    \<or> (\<exists>s' os'. gc_alloc f sz s = ok (gc_alloc_on_existing_heap sz s') \<and> heap_view s' os' \<and> marks os' = {}
      \<and> length os' = card (live_set s os) \<and> 4 * unat sz \<le> free_bytes s' os'
      \<and> (\<forall>a\<in>set (fixed_slots s). \<forall>v. raw_free v \<longrightarrow> rep s (load32 (mem s) a) v \<longrightarrow> rep s' (load32 (mem s') a) v))"
  using gc_alloc_view [OF assms]
proof (elim disjE exE conjE)
  fix s' os'
  assume a: "gc_alloc f sz s = ok (gc_alloc_on_existing_heap sz s')" and c: "collected s os (live_set s os) s' os'"
    and r: "4 * unat sz \<le> free_bytes s' os'"
  have "heap_view s' os'" "marks os' = {}" using c by (simp_all add: collected_def)
  then show ?thesis
    using a r collected_count [OF assms(1) c] collected_survive [OF assms(1) c]
    by (intro disjI2 exI [of _ s'] exI [of _ os']) (simp add: values_survive_def)
qed simp

theorem collection_preserves_values_witness:
  "\<exists>s' os'. gc_alloc demo_mremap 1 demo = ok (gc_alloc_on_existing_heap 1 s') \<and> heap_view s' os'
    \<and> rep s' (load32 (mem s') 8196) (Arr_val [Arr_val [], Int_val 11])"
proof -
  have "2 * opos demo_objs (length demo_objs) + 4 * unat (1 :: u32) < 4294967296"
    by (simp add: demo_length demo_opos)
  moreover have "\<not> mremap_refuses demo_mremap 1 demo demo_objs" by (rule demo_not_refused) simp
  ultimately obtain s' os' where 1: "gc_alloc demo_mremap 1 demo = ok (gc_alloc_on_existing_heap 1 s')" "heap_view s' os'"
    "\<forall>a\<in>set (fixed_slots demo). \<forall>v. raw_free v \<longrightarrow> rep demo (load32 (mem demo) a) v \<longrightarrow> rep s' (load32 (mem s') a) v"
    using collection_preserves_values [OF demo_ready demo_mremap_ok, of 1] by blast
  have "rep demo (load32 (mem demo) 8196) (Arr_val [Arr_val [], Int_val 11])" using demo_rep by (simp add: demo_loads)
  then show ?thesis using 1 by (auto simp: demo_fixed_slots)
qed

text \<open>
  C3: an allocation of any kind of object, of a length that is not 0, returns the new object whether or not
  there is room, unless the kernel refuses memory: appended to the objects of the heap, or to the reachable
  ones among them after a collection that keeps the values of all roots. Length 0 is left out for all kinds
  alike, since a closure always has its code as a field; so empty arrays and strings and S-expressions
  without fields are not covered.
\<close>

theorem allocation_collects:
  assumes "gc_ready keep s os" "mremap_ok f keep" "unat len < 536870912" "len \<noteq> 0" "can_ask s os (4 * unat len + 12)"
  shows "(alloc_refused f s os (fresh ARRAY ARRAY_TAG len) (alloc_array f len s)
      \<or> alloc_result s os (fresh ARRAY ARRAY_TAG len) (alloc_array f len s))
    \<and> (alloc_refused f s os (fresh STRING STRING_TAG len) (alloc_string f len s)
      \<or> alloc_result s os (fresh STRING STRING_TAG len) (alloc_string f len s))
    \<and> (alloc_refused f s os (fresh SEXP SEXP_TAG len) (alloc_sexp f len s)
      \<or> alloc_result s os (fresh SEXP SEXP_TAG len) (alloc_sexp f len s))
    \<and> (alloc_refused f s os (fresh CLOSURE CLOSURE_TAG len) (alloc_closure f len s)
      \<or> alloc_result s os (fresh CLOSURE CLOSURE_TAG len) (alloc_closure f len s))"
proof -
  have "can_ask s os (4 * osz (fresh t k len))" for t k
    using assms(5) by (cases t) (auto simp: can_ask_def osz_def)
  then show ?thesis
    using gc_arrays.alloc_always [OF assms(1-3)] gc_strings.alloc_always [OF assms(1-3)]
      gc_sexps.alloc_always [OF assms(1-3)] gc_closures.alloc_always [OF assms(1,2)] assms(3,4) by simp
qed

theorem allocation_collects_witness:
  "alloc_result demo demo_objs (fresh ARRAY ARRAY_TAG 60) (alloc_array demo_mremap 60 demo)"
proof -
  have "can_ask demo demo_objs (4 * unat (60 :: u32) + 12)" by (simp add: can_ask_def demo_length demo_opos)
  moreover have "\<not> mremap_refuses demo_mremap (word_of_nat (osz (fresh ARRAY ARRAY_TAG 60))) demo demo_objs"
    using demo_not_refused [of 62] by (simp add: osz_def)
  ultimately show ?thesis
    using allocation_collects [OF demo_ready demo_mremap_ok, of 60] unfolding alloc_refused_def by simp
qed

section \<open>The collector\<close>

text \<open>
  C7: the marking phase of the collector ends, and then an object of the heap is marked exactly
  if it can be reached, over fields that hold heap pointers, from a word of the program stack, from
  an extra root or from the global area. Nothing but the mark words of the objects has changed, and
  the queue that the marking threads through the heap is empty again.
\<close>

theorem mark_phase_marks_reachable:
  assumes "heap_view s os" "heap_closed s os" "roots_ok s os" "marks os = {}" "enqs os = {}"
  shows "\<exists>s' os'. mark_phase s = ok s' \<and> gc_rel s os s' os' \<and> enqs os' = {}
    \<and> marks os' = reach (chunk_begin (heap s)) os (targets (chunk_begin (heap s)) os (root_values s))"
  by (rule mark_phase_view [OF assms])

theorem mark_phase_marks_reachable_witness:
  "\<exists>s' os'. mark_phase demo = ok s' \<and> gc_rel demo demo_objs s' os' \<and> enqs os' = {}
    \<and> marks os' = reach 4096 demo_objs (targets 4096 demo_objs (root_values demo))"
  using mark_phase_marks_reachable [OF demo_view demo_closed demo_roots demo_marks] by simp

text \<open>
  The first pass of the compaction ends. It returns the number of words of the live objects,
  and the forwarding address of each marked object is the start of the chunk plus the size of the
  marked objects before it: the objects slide down, in order and without gaps.
\<close>

theorem compute_locations_slides:
  assumes "gc_rel s0 os0 s os" "lpos os0 (marks os) (length os0) < 2147483648"
  shows "\<exists>s' os'. compute_locations s = ok (word_of_nat (lpos os0 (marks os) (length os0) div 4), s')
    \<and> gc_rel s0 os0 s' os' \<and> marks os' = marks os
    \<and> (\<forall>k\<in>marks os. fadr (os' ! k) = ptr (chunk_begin (heap s0)) (lpos os0 (marks os) k))"
  using compute_locations_view [OF assms] by blast

theorem compute_locations_slides_witness:
  "\<exists>s os s' os'. mark_phase demo = ok s
    \<and> compute_locations s = ok (word_of_nat (lpos demo_objs (marks os) (length demo_objs) div 4), s')
    \<and> (\<forall>k\<in>marks os. fadr (os' ! k) = ptr 4096 (lpos demo_objs (marks os) k))"
proof -
  obtain s os where m: "mark_phase demo = ok s" "gc_rel demo demo_objs s os"
    using mark_phase_view [OF demo_view demo_closed demo_roots demo_marks] by blast
  have "lpos demo_objs M 3 \<le> 32" for M
    by (simp add: lpos_def numeral_3_eq_3 demo_objs_def osz_def)
  from this [of "marks os"] have "lpos demo_objs (marks os) (length demo_objs) < 2147483648"
    by (simp add: demo_length)
  from compute_locations_slides [OF m(2) this] obtain s' os' where
    "compute_locations s = ok (word_of_nat (lpos demo_objs (marks os) (length demo_objs) div 4), s')"
    "\<forall>k\<in>marks os. fadr (os' ! k) = ptr 4096 (lpos demo_objs (marks os) k)"
    unfolding demo_begin by blast
  with m(1) show ?thesis by blast
qed

text \<open>
  C31: a run of array allocations for which there is room returns, and lays the new arrays out in
  order after the objects of the heap, which stay as they are.
\<close>

theorem alloc_array_run:
  assumes "heap_view s os" "\<forall>len\<in>set lens. unat len < 536870912"
    "(\<Sum>len\<leftarrow>lens. 4 * osz (fresh ARRAY ARRAY_TAG len)) \<le> free_bytes s os"
  shows "\<exists>s'. for_each (\<lambda>len s. andthen (alloc_array mremap len s) (\<lambda>(p, s). ok s)) lens s = ok s'
    \<and> heap_view s' (os @ map (fresh ARRAY ARRAY_TAG) lens)"
  using arrays.alloc_run [OF assms, of mremap] by blast

lemma demo_free: "free_bytes demo demo_objs = 224"
  by (simp add: free_bytes_def demo_length demo_opos)

theorem alloc_array_run_witness:
  "\<exists>s'. for_each (\<lambda>len s. andthen (alloc_array (\<lambda>m a o' n. None) len s) (\<lambda>(p, s). ok s)) [3, 0, 7] demo = ok s'
    \<and> heap_view s' (demo_objs @ map (fresh ARRAY ARRAY_TAG) [3, 0, 7])"
  by (rule alloc_array_run [OF demo_view]) (simp_all add: osz_def fresh_def demo_free)

text \<open>
  Each of the four allocation functions, when there is room, returns the address after the last
  object and appends one object there, of the right kind, length and size and with no mark; no byte
  outside that object changes.
\<close>

theorem alloc_appends:
  assumes "heap_view s os" "unat len < 536870912" "4 * (unat len + 3) \<le> free_bytes s os" "len \<noteq> 0"
  shows "(\<exists>s'. alloc_array mremap len s = ok (hadr (chunk_begin (heap s)) os (length os), s')
      \<and> appended s os (fresh ARRAY ARRAY_TAG len) s')
    \<and> (\<exists>s'. alloc_string mremap len s = ok (hadr (chunk_begin (heap s)) os (length os), s')
      \<and> appended s os (fresh STRING STRING_TAG len) s')
    \<and> (\<exists>s'. alloc_sexp mremap len s = ok (hadr (chunk_begin (heap s)) os (length os), s')
      \<and> appended s os (fresh SEXP SEXP_TAG len) s')
    \<and> (\<exists>s'. alloc_closure mremap len s = ok (hadr (chunk_begin (heap s)) os (length os), s')
      \<and> appended s os (fresh CLOSURE CLOSURE_TAG len) s')"
proof -
  have "4 * osz (fresh t k len) \<le> free_bytes s os" for t k
    using assms(3) by (cases t) (simp_all add: osz_def)
  then show ?thesis
    using assms by (intro conjI arrays.alloc_room strings.alloc_room sexps.alloc_room closures.alloc_room) simp_all
qed

theorem alloc_appends_witness:
  "\<exists>s'. alloc_sexp (\<lambda>m a o' n. None) 2 demo = ok (4128, s') \<and> appended demo demo_objs (fresh SEXP SEXP_TAG 2) s'"
  using alloc_appends [OF demo_view, of 2 "\<lambda>m a o' n. None"]
  by (simp add: demo_free hadr_def demo_length demo_opos demo_ptr)

text \<open>
  The size of an array in bytes is computed without wrapping exactly up to 2^30 - 3 elements; an
  array of 2^30 - 1 elements, which is the largest integer of the language, gets a single word.
\<close>

theorem array_size_exact:
  "(unat (array_size n) = 8 + 4 * unat n \<longleftrightarrow> unat n \<le> 1073741821) \<and> unat (BYTES_TO_WORDS (array_size 0x3FFFFFFF)) = 1"
proof
  have "unat (array_size n) = (8 + 4 * unat n) mod 4294967296"
    by (simp add: array_size_def MEMBER_SIZE_def unat_word_ariths mod_simps)
  then show "unat (array_size n) = 8 + 4 * unat n \<longleftrightarrow> unat n \<le> 1073741821"
    by (auto simp: mod_eq_self_iff_div_eq_0 div_eq_0_iff)
  show "unat (BYTES_TO_WORDS (array_size 0x3FFFFFFF)) = 1"
    by (simp add: BYTES_TO_WORDS_def array_size_def MEMBER_SIZE_def)
qed

section \<open>The stacks\<close>

text \<open>
  C35: extra roots that are pushed in order and popped in the opposite order, while no more than 32
  are in the pool, are all accepted and leave the pool as it was.
\<close>

theorem extra_roots_bracket:
  assumes "roots_inv s" "\<forall>p\<in>set ps. root_allowed p s"
    "length (live_roots s) + length ps \<le> MAX_EXTRA_ROOTS_NUMBER"
  shows "\<exists>s' s''. for_each push_extra_root ps s = ok s' \<and> live_roots s' = rev ps @ live_roots s
    \<and> for_each pop_extra_root (rev ps) s' = ok s'' \<and> roots_inv s'' \<and> live_roots s'' = live_roots s"
proof -
  obtain s' where s': "for_each push_extra_root ps s = ok s'" "roots_inv s'" "live_roots s' = rev ps @ live_roots s"
    using er.push_all [OF assms] by blast
  with er.pop_all [OF s'(2,3)] show ?thesis by auto
qed

lemma demo_pool: "roots_inv demo" "root_allowed 8192 demo" "root_allowed 8196 demo" "live_roots demo = []"
  by (simp_all add: roots_inv_def root_allowed_def live_roots_def demo_def MAX_EXTRA_ROOTS_NUMBER_def)

theorem extra_roots_bracket_witness:
  "\<exists>s' s''. for_each push_extra_root [8192, 8196] demo = ok s' \<and> live_roots s' = [8196, 8192]
    \<and> for_each pop_extra_root [8196, 8192] s' = ok s'' \<and> live_roots s'' = []"
  using extra_roots_bracket [OF demo_pool(1), of "[8192, 8196]"]
  by (auto simp: demo_pool MAX_EXTRA_ROOTS_NUMBER_def)

text \<open>
  A pop of an extra root returns only when the named address is the one pushed last; any other
  pop, and a push into a pool of 32 roots, ends the process.
\<close>

theorem extra_roots_errors:
  assumes "roots_inv s"
  shows "((\<exists>s'. pop_extra_root p s = ok s') \<longleftrightarrow> (\<exists>ps. live_roots s = p # ps))
    \<and> (length (live_roots s) = MAX_EXTRA_ROOTS_NUMBER \<longrightarrow> push_extra_root p s = err RootsOverflow)"
  using er.pop_ok_iff [OF assms, of p] assms
  by (simp add: push_extra_root_cases length_live_roots)

theorem extra_roots_errors_witness: "\<not> (\<exists>s'. pop_extra_root 8192 demo = ok s')"
  using extra_roots_errors [OF demo_pool(1), of 8192] by (simp add: demo_pool)

text \<open>
  The virtual stack of the runtime's tests takes any values up to its 100000 words and refuses
  more; a value pushed last is the one popped first, and the stack below it is unchanged.
\<close>

theorem vstack_lifo:
  assumes "vstack_inv st"
  shows "(length (vstack_elems st) + length vs \<le> RUNTIME_VSTACK_SIZE \<longrightarrow>
      (\<exists>st'. for_each vstack_push vs st = ok st' \<and> vstack_elems st' = rev vs @ vstack_elems st))
    \<and> (RUNTIME_VSTACK_SIZE < length (vstack_elems st) + length vs \<longrightarrow> (\<exists>e. for_each vstack_push vs st = err e))
    \<and> (\<forall>v xs. vstack_elems st = v # xs \<longrightarrow> (\<exists>st'. vstack_pop st = ok (v, st') \<and> vstack_elems st' = xs))"
  using vs.push_all [OF assms, of vs] vs.push_all_overflow [OF assms, of vs] vs.pop_some [OF assms] by blast

definition demo_stack :: virt_stack where
  "demo_stack = vstack_init \<lparr>vbuf = replicate (RUNTIME_VSTACK_SIZE + 1) 0, vcur = 0\<rparr>"

lemma demo_stack_empty: "vstack_inv demo_stack" "vstack_elems demo_stack = []"
  using vstack_init_elems [of "\<lparr>vbuf = replicate (RUNTIME_VSTACK_SIZE + 1) 0, vcur = 0\<rparr>"]
  by (simp_all add: demo_stack_def)

theorem vstack_lifo_witness:
  "\<exists>st'. for_each vstack_push [7, 9] demo_stack = ok st' \<and> vstack_elems st' = [9, 7]"
proof -
  have "length (vstack_elems demo_stack) + length [7 :: u32, 9] \<le> RUNTIME_VSTACK_SIZE"
    by (simp add: demo_stack_empty RUNTIME_VSTACK_SIZE_def)
  with vstack_lifo [OF demo_stack_empty(1), of "[7, 9]"] show ?thesis
    unfolding demo_stack_empty(2) by (auto simp del: for_each.simps)
qed

end
