(* ===== verification/Formats.thy ===== *)
theory Formats
  imports Prelude
begin

text \<open>The formats of the C library that the runtime and the tools use: decimal and hexadecimal numbers.\<close>

text \<open>The bytes of a string literal.\<close>

definition bytes_of :: "string \<Rightarrow> u8 list" where
  "bytes_of s = map (\<lambda>c. word_of_nat (of_char c)) s"

definition digit :: "nat \<Rightarrow> u8" where
  "digit n = (if n < 10 then word_of_nat (48 + n) else word_of_nat (87 + n))"

fun show_nat :: "nat \<Rightarrow> nat \<Rightarrow> u8 list" where
  "show_nat b n = (if n < b \<or> b < 2 then [digit n] else show_nat b (n div b) @ [digit (n mod b)])"

declare show_nat.simps [simp del]

definition show_int :: "int \<Rightarrow> u8 list" where
  "show_int z = (if z < 0 then 45 # show_nat 10 (nat (- z)) else show_nat 10 (nat z))"

definition show_hex :: "u32 \<Rightarrow> u8 list" where
  "show_hex w = bytes_of ''0x'' @ show_nat 16 (unat w)"

end
