(* ===== verification/TagHash.thy ===== *)
theory TagHash
  imports Values Formats
begin

text \<open>
  runtime/runtime.c, the numbering of constructor names (lines 225-270): \<open>LtagHash\<close> packs the
  first five characters of a name into an integer, six bits each, and \<open>de_hash\<close> unpacks it. A
  C string is the list of its bytes before the terminator. \<open>de_hash\<close> writes into a static buffer
  of six bytes from its end; a sixth character would be written before it.
\<close>

definition chars :: "u8 list" where
  "chars = bytes_of ''_abcdefghijklmnopqrstuvwxyzABCDEFGHIJKLMNOPQRSTUVWXYZ0123456789'' @ [39]"

fun index_in :: "u8 \<Rightarrow> u8 list \<Rightarrow> nat option" where
  "index_in c [] = None"
| "index_in c (d # ds) = (if d = c then Some 0 else map_option Suc (index_in c ds))"

fun tag_hash_loop :: "u8 list \<Rightarrow> nat \<Rightarrow> u32 \<Rightarrow> u32 outcome" where
  "tag_hash_loop [] limit h = ok h"
| "tag_hash_loop (c # cs) limit h =
     (if limit \<le> 4 then
        (case index_in c chars of
           Some pos \<Rightarrow> tag_hash_loop cs (limit + 1) (push_bit 6 h OR word_of_nat pos)
         | None \<Rightarrow> err (Failure ''tagHash: character not found: %c''))
      else ok h)"

text \<open>\<open>n >> 6\<close> on an \<open>int\<close> is an arithmetic shift: a negative \<open>n\<close> never becomes zero.\<close>

partial_function (option) de_hash_loop :: "u32 \<Rightarrow> u8 list \<Rightarrow> u8 list outcome" where
  "de_hash_loop n buf =
     (if n = 0 then ok buf
      else if 5 \<le> length buf then err OutOfBounds
      else de_hash_loop (signed_drop_bit 6 n) (chars ! unat (n AND 0x3F) # buf))"

definition de_hash :: "u32 \<Rightarrow> u8 list outcome" where
  "de_hash n = de_hash_loop n []"

text \<open>The check at the end compares the first five characters (\<open>strncmp (.., 5)\<close>).\<close>

definition LtagHash :: "u8 list \<Rightarrow> u32 outcome" where
  "LtagHash s = andthen (tag_hash_loop s 0 0) (\<lambda>h. andthen (de_hash h) (\<lambda>d.
     if take 5 s \<noteq> take 5 d then err (Failure ''%s <-> %s'') else ok (BOX h)))"

section \<open>Six-bit digits\<close>

definition num64 :: "nat list \<Rightarrow> nat" where
  "num64 ds = foldl (\<lambda>h d. h * 64 + d) 0 ds"

lemma num64_snoc [simp]: "num64 (ds @ [d]) = num64 ds * 64 + d"
  by (simp add: num64_def)

lemma num64_Nil [simp]: "num64 [] = 0"
  by (simp add: num64_def)

lemma num64_less: "\<forall>d\<in>set ds. d < 64 \<Longrightarrow> num64 ds < 64 ^ length ds"
  by (induction ds rule: rev_induct) auto

lemma num64_pos: "ds \<noteq> [] \<Longrightarrow> hd ds \<noteq> 0 \<Longrightarrow> 0 < num64 ds"
proof (induction ds rule: rev_induct)
  case (snoc d ds)
  then show ?case by (cases "ds = []") (auto simp: num64_def)
qed simp

lemma shift6_or:
  assumes "h < 16777216" "d < 64"
  shows "push_bit 6 (word_of_nat h) OR word_of_nat d = (word_of_nat (h * 64 + d) :: u32)"
proof -
  have "word_of_nat d = take_bit 6 (word_of_nat d :: u32)"
    using assms(2) by (simp add: take_bit_of_nat take_bit_nat_eq_self)
  moreover have "push_bit 6 (word_of_nat h) AND take_bit 6 (word_of_nat d :: u32) = 0"
    by (rule bit_word_eqI) (auto simp: bit_simps)
  ultimately have "push_bit 6 (word_of_nat h) OR word_of_nat d = push_bit 6 (word_of_nat h) + (word_of_nat d :: u32)"
    by (metis disjunctive_add_eq_or)
  then show ?thesis by (simp add: push_bit_eq_mult mult.commute)
qed

lemma digits6:
  assumes "n < 2147483648"
  shows "signed_drop_bit 6 (word_of_nat n :: u32) = word_of_nat (n div 64)"
    "unat ((word_of_nat n :: u32) AND 0x3F) = n mod 64"
proof -
  have "\<not> bit (unat (word_of_nat n :: u32)) 31" using assms by (simp add: bit_iff_odd unat_of_nat_u32)
  then have "\<not> bit (word_of_nat n :: u32) 31" by (simp add: bit_unsigned_iff)
  then have "signed_drop_bit 6 (word_of_nat n :: u32) = drop_bit 6 (word_of_nat n)"
    by (intro bit_word_eqI) (auto simp: bit_simps)
  then show "signed_drop_bit 6 (word_of_nat n :: u32) = word_of_nat (n div 64)"
    using assms by (simp add: word_unat_eq_iff drop_bit_eq_div unat_div unat_of_nat_u32)
  have "(word_of_nat n :: u32) AND 0x3F = take_bit 6 (word_of_nat n)"
    by (simp add: take_bit_eq_mask mask_eq_exp_minus_1)
  then show "unat ((word_of_nat n :: u32) AND 0x3F) = n mod 64"
    using assms by (simp add: take_bit_eq_mod unat_mod unat_of_nat_u32)
qed

section \<open>The round trip\<close>

lemma index_in_Some: "index_in c ds = Some i \<Longrightarrow> i < length ds \<and> ds ! i = c"
  by (induction ds arbitrary: i) (auto split: if_splits)

lemma index_in_chars: "index_in c chars = Some i \<Longrightarrow> i < 64 \<and> chars ! i = c"
  using index_in_Some [of c chars i] by (simp add: chars_def bytes_of_def)

lemma index_in_iff: "index_in c ds = None \<longleftrightarrow> c \<notin> set ds"
  by (induction ds) auto

text \<open>The digits of a name: the positions of its characters.\<close>

definition digits_of :: "u8 list \<Rightarrow> nat list" where
  "digits_of s = map (\<lambda>c. the (index_in c chars)) s"

lemma tag_hash_loop_digits:
  assumes "\<forall>c\<in>set (take (5 - k) s). c \<in> set chars" "length ds = k" "k \<le> 5" "\<forall>d\<in>set ds. d < 64"
  shows "tag_hash_loop s k (word_of_nat (num64 ds)) = ok (word_of_nat (num64 (ds @ digits_of (take (5 - k) s))))"
  using assms
proof (induction s arbitrary: k ds)
  case Nil
  then show ?case by (simp add: digits_of_def)
next
  case (Cons c cs)
  show ?case
  proof (cases "k = 5")
    case True
    then show ?thesis by (simp add: digits_of_def)
  next
    case False
    with Cons.prems(3) obtain j where j: "5 - k = Suc j" "5 - Suc k = j" by (cases "5 - k") auto
    then have "c \<in> set chars" using Cons.prems(1) by simp
    then obtain d where d: "index_in c chars = Some d" using index_in_iff [of c chars] by auto
    then have d64: "d < 64" using index_in_chars by blast
    have "num64 ds < 64 ^ k" using num64_less Cons.prems by blast
    also have "(64 :: nat) ^ k \<le> 64 ^ 4" using False Cons.prems(3) by (intro power_increasing) auto
    finally have "push_bit 6 (word_of_nat (num64 ds)) OR word_of_nat d = (word_of_nat (num64 (ds @ [d])) :: u32)"
      using shift6_or [OF _ d64, of "num64 ds"] by simp
    moreover have "tag_hash_loop cs (Suc k) (word_of_nat (num64 (ds @ [d])))
        = ok (word_of_nat (num64 ((ds @ [d]) @ digits_of (take (5 - Suc k) cs))))"
      using Cons.prems j False d64 by (intro Cons.IH) auto
    ultimately show ?thesis
      using j False Cons.prems(3) d by (simp add: digits_of_def del: num64_snoc)
  qed
qed

lemma de_hash_loop_digits:
  assumes "\<forall>d\<in>set ds. d < 64" "ds \<noteq> [] \<longrightarrow> hd ds \<noteq> 0" "length ds + length buf \<le> 5"
  shows "de_hash_loop (word_of_nat (num64 ds)) buf = ok (map ((!) chars) ds @ buf)"
  using assms
proof (induction ds arbitrary: buf rule: rev_induct)
  case Nil
  then show ?case by (simp add: de_hash_loop.simps)
next
  case (snoc d ds)
  have "num64 (ds @ [d]) < 64 ^ length (ds @ [d])" using snoc.prems(1) by (rule num64_less)
  also have "(64 :: nat) ^ length (ds @ [d]) \<le> 64 ^ 5"
    using snoc.prems(3) by (intro power_increasing) auto
  finally have b: "num64 (ds @ [d]) < 2147483648" by simp
  have "0 < num64 (ds @ [d])" using snoc.prems(2) by (intro num64_pos) auto
  then have nz: "(word_of_nat (num64 (ds @ [d])) :: u32) \<noteq> 0"
    using b by (simp add: word_unat_eq_iff unat_of_nat_u32 del: num64_snoc)
  have d: "d < 64" using snoc.prems(1) by simp
  have "de_hash_loop (word_of_nat (num64 ds)) (chars ! d # buf) = ok (map ((!) chars) ds @ chars ! d # buf)"
    using snoc.prems by (intro snoc.IH) (auto simp: hd_append)
  with nz d digits6 [OF b] snoc.prems(3) show ?case
    by (subst de_hash_loop.simps) (simp del: of_nat_add of_nat_mult)
qed

lemma digits_of_chars: "\<forall>c\<in>set s. c \<in> set chars \<Longrightarrow> map ((!) chars) (digits_of s) = s"
proof (induction s)
  case (Cons c s)
  then have "index_in c chars \<noteq> None" using index_in_iff [of c chars] by simp
  with Cons index_in_chars show ?case by (auto simp: digits_of_def)
qed (simp add: digits_of_def)

lemma digits_of_less: "\<forall>c\<in>set s. c \<in> set chars \<Longrightarrow> d \<in> set (digits_of s) \<Longrightarrow> d < 64"
proof -
  assume a: "\<forall>c\<in>set s. c \<in> set chars" "d \<in> set (digits_of s)"
  then obtain c where c: "c \<in> set s" "d = the (index_in c chars)" by (auto simp: digits_of_def)
  then have "index_in c chars \<noteq> None" using a(1) index_in_iff [of c chars] by simp
  then show "d < 64" using c index_in_chars by auto
qed

text \<open>A name of the alphabet that does not begin with an underscore (the digit 0).\<close>

definition hashable :: "u8 list \<Rightarrow> bool" where
  "hashable s \<longleftrightarrow> (\<forall>c\<in>set (take 5 s). c \<in> set chars) \<and> (s \<noteq> [] \<longrightarrow> hd s \<noteq> 95)"

definition tag_number :: "u8 list \<Rightarrow> nat" where
  "tag_number s = num64 (digits_of (take 5 s))"

lemma tag_number_less: "hashable s \<Longrightarrow> tag_number s < 1073741824"
proof -
  assume h: "hashable s"
  then have "tag_number s < 64 ^ length (digits_of (take 5 s))"
    unfolding tag_number_def using digits_of_less by (intro num64_less) (auto simp: hashable_def)
  also have "(64 :: nat) ^ length (digits_of (take 5 s)) \<le> 64 ^ 5"
    by (intro power_increasing) (auto simp: digits_of_def)
  finally show ?thesis by simp
qed

lemma index_0: "index_in c chars = Some 0 \<longleftrightarrow> c = 95"
  by (auto simp: chars_def bytes_of_def)

lemma de_hash_tag_number:
  assumes "hashable s" shows "de_hash (word_of_nat (tag_number s)) = ok (take 5 s)"
proof -
  have c: "\<forall>c\<in>set (take 5 s). c \<in> set chars" using assms by (simp add: hashable_def)
  have h: "hd (digits_of (take 5 s)) \<noteq> 0" if "digits_of (take 5 s) \<noteq> []"
  proof -
    have "s \<noteq> []" using that by (auto simp: digits_of_def)
    then obtain d ds where s: "s = d # ds" by (cases s) simp_all
    then have "d \<noteq> 95" "index_in d chars \<noteq> None" using assms c index_in_iff [of d chars]
      by (auto simp: hashable_def)
    then show ?thesis using s index_0 [of d] by (cases "index_in d chars") (auto simp: digits_of_def)
  qed
  have "de_hash (word_of_nat (tag_number s)) = ok (map ((!) chars) (digits_of (take 5 s)) @ [])"
    unfolding de_hash_def tag_number_def using digits_of_less [OF c] h
    by (intro de_hash_loop_digits) (auto simp: digits_of_def)
  then show ?thesis using digits_of_chars [OF c] by simp
qed

lemma LtagHash_hashable:
  assumes "hashable s" shows "LtagHash s = ok (BOX (word_of_nat (tag_number s)))"
proof -
  have "tag_hash_loop s 0 0 = ok (word_of_nat (tag_number s))"
    using tag_hash_loop_digits [of 0 s "[]"] assms by (simp add: hashable_def tag_number_def)
  then show ?thesis by (simp add: LtagHash_def de_hash_tag_number [OF assms])
qed

lemma LtagHash_bad_character:
  "c \<notin> set chars \<Longrightarrow> s = pre @ c # rest \<Longrightarrow> length pre < 5 \<Longrightarrow> \<forall>x\<in>set pre. x \<in> set chars \<Longrightarrow>
   LtagHash s = err (Failure ''tagHash: character not found: %c'')"
proof -
  assume a: "c \<notin> set chars" "s = pre @ c # rest" "length pre < 5" "\<forall>x\<in>set pre. x \<in> set chars"
  have "tag_hash_loop (pre @ c # rest) k h = err (Failure ''tagHash: character not found: %c'')"
    if "\<forall>x\<in>set pre. x \<in> set chars" "k + length pre < 5" for pre k h
    using that
  proof (induction pre arbitrary: k h)
    case Nil
    then show ?case using a(1) index_in_iff [of c chars] by simp
  next
    case (Cons x xs)
    then have "index_in x chars \<noteq> None" using index_in_iff [of x chars] by simp
    with Cons show ?case by auto
  qed
  with a show ?thesis by (simp add: LtagHash_def)
qed

end
