(* ===== verification/Builders.thy ===== *)
theory Builders
  imports Bodies CStrings TagHash
begin

text \<open>
  runtime/runtime.c, the operations that allocate. A parameter whose address the code takes
  (\<open>push_extra_root (&p)\<close>) lives in a stack slot, so that a collection can move what it points
  to: such a parameter is given by the address of its slot, and read again after the allocation,
  as in the code. Variadic arguments are the words at \<open>argp, argp + 4, \<dots>\<close>.
\<close>

section \<open>The code\<close>

text \<open>\<open>while (n--) *p++ = BOX (0)\<close>, for the \<open>n\<close> read as an unsigned count.\<close>

fun fill_boxed_zero :: "memory \<Rightarrow> addr \<Rightarrow> nat \<Rightarrow> memory" where
  "fill_boxed_zero m p 0 = m"
| "fill_boxed_zero m p (Suc n) = fill_boxed_zero (store32 m p (BOX 0)) (p + 4) n"

definition LmakeArray :: "mremap \<Rightarrow> u32 \<Rightarrow> gc_state \<Rightarrow> (u32 \<times> gc_state) outcome" where
  "LmakeArray mremap len s =
     andthen (ASSERT_UNBOXED ''makeArray:1'' len) (\<lambda>_. let n = UNBOX len in
     andthen (alloc_array mremap n s) (\<lambda>(r, s1).
       ok (contents r, s1\<lparr>mem := fill_boxed_zero (mem s1) (contents r) (unat n)\<rparr>)))"

definition LmakeString :: "mremap \<Rightarrow> u32 \<Rightarrow> gc_state \<Rightarrow> (u32 \<times> gc_state) outcome" where
  "LmakeString mremap len s = (let n = UNBOX len in
     andthen (ASSERT_UNBOXED ''makeString'' len) (\<lambda>_.
     andthen (alloc_string mremap n s) (\<lambda>(r, s1). ok (contents r, s1))))"

text \<open>\<open>p\<close>: the slot of the parameter.\<close>

definition Bstring :: "mremap \<Rightarrow> addr \<Rightarrow> gc_state \<Rightarrow> (u32 \<times> gc_state) outcome" where
  "Bstring mremap p s =
     andthen (strlen (mem s) (load32 (mem s) p)) (\<lambda>n.
     andthen (push_extra_root p s) (\<lambda>s1.
     andthen (LmakeString mremap (BOX n) s1) (\<lambda>(r, s2).
     andthen (pop_extra_root p s2) (\<lambda>s3.
       ok (r, s3\<lparr>mem := strncpy (mem s3) r (load32 (mem s3) p) (unat (n + 1))\<rparr>)))))"

text \<open>The sums of an \<open>int\<close> and an \<open>int\<close> are compared with an unsigned length.\<close>

definition LmatchSubString :: "gc_state \<Rightarrow> u32 \<Rightarrow> u32 \<Rightarrow> u32 \<Rightarrow> u32 outcome" where
  "LmatchSubString s subj patt pos =
     andthen (ASSERT_STRING ''matchSubString:1'' s subj) (\<lambda>_.
     andthen (ASSERT_STRING ''matchSubString:2'' s patt) (\<lambda>_.
     andthen (ASSERT_UNBOXED ''matchSubString:3'' pos) (\<lambda>_. let n = len_at s patt in
       if len_at s subj < n + UNBOX pos then ok (BOX 0)
       else ok (BOX (of_bool (strncmp (mem s) (subj + UNBOX pos) patt (unat n) = 0))))))"

definition Lsubstring :: "mremap \<Rightarrow> addr \<Rightarrow> u32 \<Rightarrow> u32 \<Rightarrow> gc_state \<Rightarrow> (u32 \<times> gc_state) outcome" where
  "Lsubstring mremap subj_slot p l s =
     (let subj = load32 (mem s) subj_slot; pp = UNBOX p; ll = UNBOX l in
      andthen (ASSERT_STRING ''substring:1'' s subj) (\<lambda>_.
      andthen (ASSERT_UNBOXED ''substring:2'' p) (\<lambda>_.
      andthen (ASSERT_UNBOXED ''substring:3'' l) (\<lambda>_.
        if pp + ll \<le> len_at s subj then
          andthen (push_extra_root subj_slot s) (\<lambda>s1.
          andthen (alloc_string mremap ll s1) (\<lambda>(r, s2).
          andthen (pop_extra_root subj_slot s2) (\<lambda>s3.
            ok (contents r, s3\<lparr>mem := strncpy (mem s3) (contents r)
                  (load32 (mem s3) subj_slot + pp) (unat ll)\<rparr>))))
        else err (Failure ''substring: index out of bounds (position=%d, length=%d, subject length=%d)'')))))"

text \<open>
  \<open>Lclone\<close>. \<open>Bstring\<close> receives a copy of the pointer in a parameter slot of its own, \<open>p2\<close>.
\<close>

definition Lclone :: "mremap \<Rightarrow> addr \<Rightarrow> addr \<Rightarrow> gc_state \<Rightarrow> (u32 \<times> gc_state) outcome" where
  "Lclone mremap p_slot p2 s =
     (let p = load32 (mem s) p_slot in
      if UNBOXED p then ok (p, s)
      else
        let t = tag_at s p; l = len_at s p;
            copy = (\<lambda>alloc_obj size s1. andthen (alloc_obj l s1) (\<lambda>(obj, s2).
              ok (contents obj, s2\<lparr>mem := mem_move (mem s2) obj (TO_DATA (load32 (mem s2) p_slot))
                    (unat (size l))\<rparr>))) in
        andthen (push_extra_root p_slot s) (\<lambda>s1.
        andthen
          (if t = STRING_TAG then
             Bstring mremap p2 (s1\<lparr>mem := store32 (mem s1) p2 (contents (TO_DATA (load32 (mem s1) p_slot)))\<rparr>)
           else if t = ARRAY_TAG then copy (alloc_array mremap) array_size s1
           else if t = CLOSURE_TAG then copy (alloc_closure mremap) closure_size s1
           else if t = SEXP_TAG then copy (alloc_sexp mremap) sexp_size s1
           else err (Failure ''invalid data_header %d in clone *****''))
          (\<lambda>(res, s2). andthen (pop_extra_root p_slot s2) (\<lambda>s3. ok (res, s3)))))"

text \<open>The loops that copy the variadic arguments, read one by one.\<close>

fun copy_args :: "memory \<Rightarrow> addr \<Rightarrow> addr \<Rightarrow> nat \<Rightarrow> memory" where
  "copy_args m dst argp 0 = m"
| "copy_args m dst argp (Suc n) = copy_args (store32 m dst (load32 m argp)) (dst + 4) (argp + 4) n"

definition nonneg :: "u32 \<Rightarrow> nat" where
  "nonneg n = nat (sint n)"

definition Barray :: "mremap \<Rightarrow> u32 \<Rightarrow> addr \<Rightarrow> gc_state \<Rightarrow> (u32 \<times> gc_state) outcome" where
  "Barray mremap bn argp s = (let n = UNBOX bn in
     andthen (alloc_array mremap n s) (\<lambda>(r, s1).
       ok (contents r, s1\<lparr>mem := copy_args (mem s1) (contents r) argp (nonneg n)\<rparr>)))"

text \<open>\<open>n - 1\<close> fields, and the tag as the last argument.\<close>

definition Bsexp :: "mremap \<Rightarrow> u32 \<Rightarrow> addr \<Rightarrow> gc_state \<Rightarrow> (u32 \<times> gc_state) outcome" where
  "Bsexp mremap bn argp s = (let n = UNBOX bn; fields_cnt = n - 1; k = nonneg n - 1 in
     andthen (alloc_sexp mremap fields_cnt s) (\<lambda>(r, s1).
       let m1 = store32 (mem s1) (r + 8) 0;
           m2 = copy_args m1 (contents r + 4) argp k;
           m3 = store32 m2 (r + 8) (UNBOX (load32 m2 (argp + 4 * word_of_nat k)))
       in ok (contents r, s1\<lparr>mem := m3\<rparr>)))"

text \<open>
  \<open>ebp + 12\<close> is arithmetic on an \<open>int *\<close>: the words that become extra roots start 48 bytes above
  the frame pointer. The arguments proper are \<open>bn\<close> at 8, \<open>entry\<close> at 12 and the captured values
  from 16 on. \<open>r_slot\<close> is the slot of the local variable \<open>r\<close>.
\<close>

definition closure_root_slots :: "addr \<Rightarrow> nat \<Rightarrow> addr list" where
  "closure_root_slots ebp n = map (\<lambda>i. ebp + 48 + 4 * word_of_nat i) [0..<n]"

definition Bclosure :: "mremap \<Rightarrow> addr \<Rightarrow> addr \<Rightarrow> gc_state \<Rightarrow> (u32 \<times> gc_state) outcome" where
  "Bclosure mremap ebp r_slot s =
     (let n = UNBOX (load32 (mem s) (ebp + 8)); k = nonneg n in
      andthen (for_each push_extra_root (closure_root_slots ebp k) s) (\<lambda>s1.
      andthen (alloc_closure mremap (n + 1) s1) (\<lambda>(r0, s2).
      let s3 = s2\<lparr>mem := store32 (mem s2) r_slot r0\<rparr> in
      andthen (push_extra_root r_slot s3) (\<lambda>s4.
      let r = load32 (mem s4) r_slot;
          m1 = store32 (mem s4) (contents r) (load32 (mem s4) (ebp + 12));
          m2 = copy_args m1 (contents r + 4) (ebp + 16) k in
      andthen (pop_extra_root r_slot (s4\<lparr>mem := m2\<rparr>)) (\<lambda>s5.
      andthen (for_each pop_extra_root (rev (closure_root_slots ebp k)) s5) (\<lambda>s6.
        ok (contents (load32 (mem s6) r_slot), s6)))))))"

text \<open>
  String concatenation. The three slots are those of \<open>a\<close> and \<open>b\<close>; both are read again after the
  allocation.
\<close>

definition Li__Infix_4343 :: "mremap \<Rightarrow> addr \<Rightarrow> addr \<Rightarrow> gc_state \<Rightarrow> (u32 \<times> gc_state) outcome" where
  "Li__Infix_4343 mremap a_slot b_slot s =
     (let a = load32 (mem s) a_slot; b = load32 (mem s) b_slot in
      andthen (ASSERT_STRING ''++:1'' s a) (\<lambda>_.
      andthen (ASSERT_STRING ''++:2'' s b) (\<lambda>_.
      andthen (push_extra_root a_slot s) (\<lambda>s1.
      andthen (push_extra_root b_slot s1) (\<lambda>s2.
      andthen (alloc_string mremap (len_at s a + len_at s b) s2) (\<lambda>(d, s3).
      andthen (pop_extra_root b_slot s3) (\<lambda>s4.
      andthen (pop_extra_root a_slot s4) (\<lambda>s5.
        let da = load32 (mem s5) a_slot; db = load32 (mem s5) b_slot;
            la = len_at s5 da; lb = len_at s5 db;
            m1 = strncpy (mem s5) (contents d) da (unat la);
            m2 = strncpy m1 (contents d + la) db (unat lb);
            m3 = m2(contents d + la + lb := 0)
        in ok (contents d, s5\<lparr>mem := m3\<rparr>)))))))))"

text \<open>
  \<open>Ls__Infix_58\<close>, the list constructor: the arguments of the call of \<open>Bsexp\<close> are pushed on the
  stack at \<open>argp\<close>.
\<close>

definition Ls__Infix_58 :: "mremap \<Rightarrow> addr \<Rightarrow> addr \<Rightarrow> addr \<Rightarrow> gc_state \<Rightarrow> (u32 \<times> gc_state) outcome" where
  "Ls__Infix_58 mremap p_slot q_slot argp s =
     andthen (push_extra_root p_slot s) (\<lambda>s1.
     andthen (push_extra_root q_slot s1) (\<lambda>s2.
     andthen (LtagHash (bytes_of ''cons'')) (\<lambda>h.
     let m = store32 (store32 (store32 (mem s2) argp (load32 (mem s2) p_slot))
               (argp + 4) (load32 (mem s2) q_slot)) (argp + 8) h in
     andthen (Bsexp mremap (BOX 3) argp (s2\<lparr>mem := m\<rparr>)) (\<lambda>(res, s3).
     andthen (pop_extra_root q_slot s3) (\<lambda>s4.
     andthen (pop_extra_root p_slot s4) (\<lambda>s5. ok (res, s5)))))))"

text \<open>String patterns, which compare two terminated strings.\<close>

definition Bstring_patt :: "gc_state \<Rightarrow> u32 \<Rightarrow> u32 \<Rightarrow> u32 outcome" where
  "Bstring_patt s x y =
     andthen (ASSERT_STRING ''.string_patt:2'' s y) (\<lambda>_.
       if UNBOXED x then ok (BOX 0)
       else if tag_at s x \<noteq> STRING_TAG then ok (BOX 0)
       else andthen (strcmp (mem s) x y) (\<lambda>c. ok (BOX (if c = 0 then 1 else 0))))"

end
