(* ===== verification/Building.thy ===== *)
theory Building
  imports Builders
begin

text \<open>
  What the allocating operations build, when there is room in the heap: the abstract heap gains
  one object with the elements the arguments name, and the older objects are as they were. The
  arguments lie outside the heap, in stack slots.
\<close>

section \<open>Storing a run of words\<close>

fun store_words :: "memory \<Rightarrow> addr \<Rightarrow> u32 list \<Rightarrow> memory" where
  "store_words m p [] = m"
| "store_words m p (w # ws) = store_words (store32 m p w) (p + 4) ws"

lemma store_words_outside:
  "i + length ws \<le> n \<Longrightarrow> 4 * n \<le> 4294967296 \<Longrightarrow> 4 * n \<le> unat (a - c) \<Longrightarrow>
   store_words m (ptr c (4 * i)) ws a = m a"
proof (induction ws arbitrary: m i)
  case Nil
  then show ?case by simp
next
  case (Cons w ws)
  have "ptr c (4 * i) + 4 = ptr c (4 * Suc i)" by (simp add: ptr_def algebra_simps)
  moreover have "store_words (store32 m (ptr c (4 * i)) w) (ptr c (4 * Suc i)) ws a = store32 m (ptr c (4 * i)) w a"
    using Cons.prems by (intro Cons.IH) auto
  moreover have "store32 m (ptr c (4 * i)) w a = m a"
    using Cons.prems by (intro store32_outside [of _ "4 * n"]) auto
  ultimately show ?case by (simp del: ptr_plus_numeral)
qed

lemma body_at_store_words:
  "i + length ws = n \<Longrightarrow> k + 4 * n \<le> 4294967296 \<Longrightarrow>
   body_at (store_words m (ptr b (k + 4 * i)) ws) b k n = take i (body_at m b k n) @ ws"
proof (induction ws arbitrary: m i)
  case Nil
  then show ?case by (simp add: body_at_def)
next
  case (Cons w ws)
  have p: "ptr b (k + 4 * i) + 4 = ptr b (k + 4 * Suc i)" by (simp add: ptr_def algebra_simps)
  have l: "length (body_at m b k n) = n" by (simp add: body_at_def)
  have "body_at (store_words (store32 m (ptr b (k + 4 * i)) w) (ptr b (k + 4 * Suc i)) ws) b k n
      = take (Suc i) (body_at (store32 m (ptr b (k + 4 * i)) w) b k n) @ ws"
    using Cons.prems by (intro Cons.IH) auto
  also have "take (Suc i) (body_at (store32 m (ptr b (k + 4 * i)) w) b k n) = take i (body_at m b k n) @ [w]"
    using Cons.prems l by (simp add: body_at_store take_Suc_conv_app_nth)
  finally show ?case using p by (simp del: ptr_plus_numeral)
qed

lemma fill_as_store: "fill_boxed_zero m p n = store_words m p (replicate n (BOX 0))"
  by (induction n arbitrary: m p) simp_all

text \<open>\<open>clear_of c n a\<close>: the word at \<open>a\<close> does not meet the \<open>n\<close> words from \<open>c\<close> on.\<close>

definition clear_of :: "addr \<Rightarrow> nat \<Rightarrow> addr \<Rightarrow> bool" where
  "clear_of c n a \<longleftrightarrow> (\<forall>d\<in>{0, 1, 2, 3}. 4 * n \<le> unat (a + d - c))"

lemma load32_clear:
  "(\<And>a. 4 * n \<le> unat (a - c) \<Longrightarrow> m' a = m a) \<Longrightarrow> clear_of c n a \<Longrightarrow> load32 m' a = load32 m a"
  by (intro load32_cong) (auto simp: clear_of_def)

definition arg_values :: "memory \<Rightarrow> addr \<Rightarrow> nat \<Rightarrow> u32 list" where
  "arg_values m argp n = map (\<lambda>i. load32 m (argp + 4 * word_of_nat i)) [0..<n]"

lemma arg_values_Suc: "arg_values m argp (Suc n) = load32 m argp # arg_values m (argp + 4) n"
  by (simp add: arg_values_def upt_conv_Cons map_Suc_upt [symmetric] o_def algebra_simps del: upt_Suc)

lemma copy_as_store:
  assumes "\<forall>i < k. clear_of c n (argp + 4 * word_of_nat i)" "j + k \<le> n" "4 * n \<le> 4294967296"
  shows "copy_args m (ptr c (4 * j)) argp k = store_words m (ptr c (4 * j)) (arg_values m argp k)"
  using assms
proof (induction k arbitrary: m j argp)
  case 0
  then show ?case by (simp add: arg_values_def)
next
  case (Suc k)
  let ?m = "store32 m (ptr c (4 * j)) (load32 m argp)"
  have p: "ptr c (4 * j) + 4 = ptr c (4 * Suc j)" by (simp add: ptr_def algebra_simps)
  have cl: "clear_of c n (argp + 4 + 4 * word_of_nat i)" if "i < k" for i
    using Suc.prems(1) that by (auto dest!: spec [of _ "Suc i"] simp: algebra_simps)
  have out: "?m a = m a" if "4 * n \<le> unat (a - c)" for a
    using store32_outside [of "4 * j" "4 * n" a c] that Suc.prems by simp
  have "arg_values ?m (argp + 4) k = arg_values m (argp + 4) k"
    using load32_clear [OF out cl] by (auto simp: arg_values_def)
  moreover have "copy_args ?m (ptr c (4 * Suc j)) (argp + 4) k
      = store_words ?m (ptr c (4 * Suc j)) (arg_values ?m (argp + 4) k)"
    using cl Suc.prems by (intro Suc.IH) auto
  ultimately show ?case by (simp add: arg_values_Suc p del: ptr_plus_numeral)
qed

section \<open>The new object\<close>

text \<open>\<open>off_heap s a\<close>: the word at \<open>a\<close> lies outside the chunk.\<close>

definition off_heap :: "gc_state \<Rightarrow> addr \<Rightarrow> bool" where
  "off_heap s a \<longleftrightarrow> (\<forall>d\<in>{0, 1, 2, 3}.
     4 * unat (chunk_size (heap s)) \<le> unat (a + d - chunk_begin (heap s)))"

lemma off_heap_clear:
  assumes "off_heap s a" "k + 4 * n \<le> 4 * unat (chunk_size (heap s))"
  shows "clear_of (ptr (chunk_begin (heap s)) k) n a"
  unfolding clear_of_def
proof
  fix d :: addr assume "d \<in> {0, 1, 2, 3}"
  then have l: "4 * unat (chunk_size (heap s)) \<le> unat (a + d - chunk_begin (heap s))"
    using assms(1) by (auto simp: off_heap_def)
  let ?x = "a + d - chunk_begin (heap s)"
  have e: "a + d - ptr (chunk_begin (heap s)) k = ?x - word_of_nat k"
    by (simp add: ptr_def)
  have "k < 4294967296" using l assms(2) unat_u32_lt [of ?x] by linarith
  then have "unat (word_of_nat k :: u32) = k" by (rule unat_of_nat_u32)
  then have "unat (?x - word_of_nat k) = unat ?x - k"
    using l assms(2) by (subst unat_sub) (simp_all add: word_le_nat_alt)
  then show "4 * n \<le> unat (a + d - ptr (chunk_begin (heap s)) k)"
    unfolding e using l assms(2) by linarith
qed

definition obj_of :: "lama_type \<Rightarrow> u32 \<Rightarrow> u32 list \<Rightarrow> obj" where
  "obj_of t len ws = \<lparr>o_hdr = kind_of t OR push_bit 3 len, o_fwd = 0, o_body = ws\<rparr>"

lemma appended_view: "appended s os x s' \<Longrightarrow> heap_view s' (os @ [x])"
  and appended_begin: "appended s os x s' \<Longrightarrow> chunk_begin (heap s') = chunk_begin (heap s)"
  by (simp_all add: appended_def)

lemma with_body_last: "with_body (os @ [x]) (length os) ws = os @ [x\<lparr>o_body := ws\<rparr>]"
  by (simp add: with_body_def)

lemma appended_rebody:
  assumes a: "appended s os (fresh t (kind_of t) len) s1"
    and out: "\<And>a. 4 * body_words t (unat len) \<le> unat (a - cadr (chunk_begin (heap s)) os (length os)) \<Longrightarrow>
      m a = mem s1 a"
  shows "heap_view (s1\<lparr>mem := m\<rparr>) (os @ [obj_of t len
    (body_at m (chunk_begin (heap s)) (opos os (length os) + 8) (body_words t (unat len)))])"
  using heap_view_rebody [OF appended_view [OF a], of "length os" m] out
  by (simp add: appended_begin [OF a] with_body_last cadr_def fresh_def obj_of_def)

lemma appended_clear:
  assumes a: "appended s os (fresh t (kind_of t) len) s1" and f: "off_heap s p"
    and r: "4 * osz (fresh t (kind_of t) len) \<le> free_bytes s os" and v: "heap_view s os"
  shows "load32 (mem s1) p = load32 (mem s) p"
    "clear_of (cadr (chunk_begin (heap s)) os (length os)) (body_words t (unat len)) p"
proof -
  have l: "opos os (length os) + 4 * osz (fresh t (kind_of t) len) \<le> 4 * unat (chunk_size (heap s))"
    using r v by (simp add: free_bytes_def heap_view_def chunk_ok_def osz_def)
  have "clear_of (hadr (chunk_begin (heap s)) os (length os)) (osz (fresh t (kind_of t) len)) p"
    unfolding hadr_def by (rule off_heap_clear [OF f l])
  then show "load32 (mem s1) p = load32 (mem s) p"
    using a by (intro load32_clear) (auto simp: appended_def)
  show "clear_of (cadr (chunk_begin (heap s)) os (length os)) (body_words t (unat len)) p"
    unfolding cadr_def using l by (intro off_heap_clear [OF f]) (simp add: osz_def)
qed

lemma room_bound:
  assumes "heap_view s os" "4 * osz x \<le> free_bytes s os"
  shows "opos os (length os) + 8 + 4 * length (o_body x) \<le> 4294967296"
proof -
  have "opos os (length os) \<le> 4 * unat (chunk_size (heap s))"
    "unat (chunk_begin (heap s)) + 4 * unat (chunk_size (heap s)) < 4294967296"
    using assms(1) by (auto simp: heap_view_def chunk_ok_def)
  then show ?thesis using assms(2) by (simp add: free_bytes_def osz_def)
qed

section \<open>Arrays\<close>

lemma UNBOX_BOX_len: "unat len < 536870912 \<Longrightarrow> UNBOX (BOX len) = len"
  using UNBOX_BOX_small [of "unat len"] by simp

lemma nonneg_small:
  assumes "unat len < 536870912" shows "nonneg len = unat len"
proof -
  obtain n where n: "len = word_of_nat n" "unat len = n" by (metis of_nat_unat ucast_id)
  then have "sint len = int n"
    using assms by (simp add: signed_of_nat signed_take_bit_int_eq_self)
  with n show ?thesis by (simp add: nonneg_def)
qed

lemma contents_hadr: "contents (hadr b os i) = cadr b os i"
  by (simp add: cadr_index)

theorem LmakeArray_view:
  assumes v: "heap_view s os" and n: "unat len < 536870912"
    and r: "4 * (unat len + 2) \<le> free_bytes s os"
  shows "\<exists>s'. LmakeArray mremap (BOX len) s = ok (cadr (chunk_begin (heap s)) os (length os), s')
    \<and> heap_view s' (os @ [obj_of ARRAY len (replicate (unat len) (BOX 0))])"
proof -
  let ?b = "chunk_begin (heap s)" and ?c = "cadr (chunk_begin (heap s)) os (length os)"
  have r': "4 * osz (fresh ARRAY ARRAY_TAG len) \<le> free_bytes s os" using r by (simp add: osz_def)
  obtain s1 where 1: "alloc_array mremap len s = ok (hadr ?b os (length os), s1)"
    "appended s os (fresh ARRAY (kind_of ARRAY) len) s1"
    using arrays.alloc_room [OF v n r'] by (auto simp: kind_of_def)
  let ?m = "store_words (mem s1) ?c (replicate (unat len) (BOX 0))"
  have bd: "opos os (length os) + 8 + 4 * unat len \<le> 4294967296" using room_bound [OF v r'] by simp
  have "?m a = mem s1 a" if "4 * unat len \<le> unat (a - ?c)" for a
    using store_words_outside [of 0 "replicate (unat len) (BOX 0)" "unat len" a ?c] that bd by simp
  moreover have "body_at ?m ?b (opos os (length os) + 8) (unat len) = replicate (unat len) (BOX 0)"
    using body_at_store_words [of 0 "replicate (unat len) (BOX 0)" "unat len"] bd by (simp add: cadr_def)
  ultimately have "heap_view (s1\<lparr>mem := ?m\<rparr>) (os @ [obj_of ARRAY len (replicate (unat len) (BOX 0))])"
    using appended_rebody [OF 1(2), of ?m] by simp
  with 1(1) show ?thesis
    by (simp add: LmakeArray_def assert_defs UNBOX_BOX_len [OF n] Let_def fill_as_store contents_hadr)
qed

text \<open>The slots of variadic arguments.\<close>

definition args_off_heap :: "gc_state \<Rightarrow> addr \<Rightarrow> nat \<Rightarrow> bool" where
  "args_off_heap s argp n \<longleftrightarrow> (\<forall>i < n. off_heap s (argp + 4 * word_of_nat i))"

lemma appended_args:
  assumes a: "appended s os (fresh t (kind_of t) len) s1" and f: "args_off_heap s argp n"
    and r: "4 * osz (fresh t (kind_of t) len) \<le> free_bytes s os" and v: "heap_view s os"
  shows "arg_values (mem s1) argp n = arg_values (mem s) argp n"
    "\<forall>i < n. clear_of (cadr (chunk_begin (heap s)) os (length os)) (body_words t (unat len)) (argp + 4 * word_of_nat i)"
  using appended_clear [OF a _ r v] f by (auto simp: arg_values_def args_off_heap_def)

theorem Barray_view:
  assumes v: "heap_view s os" and n: "unat len < 536870912"
    and r: "4 * (unat len + 2) \<le> free_bytes s os" and f: "args_off_heap s argp (unat len)"
  shows "\<exists>s'. Barray mremap (BOX len) argp s = ok (cadr (chunk_begin (heap s)) os (length os), s')
    \<and> heap_view s' (os @ [obj_of ARRAY len (arg_values (mem s) argp (unat len))])"
proof -
  let ?b = "chunk_begin (heap s)" and ?c = "cadr (chunk_begin (heap s)) os (length os)"
  let ?ws = "arg_values (mem s) argp (unat len)"
  have r': "4 * osz (fresh ARRAY ARRAY_TAG len) \<le> free_bytes s os" using r by (simp add: osz_def)
  obtain s1 where 1: "alloc_array mremap len s = ok (hadr ?b os (length os), s1)"
    "appended s os (fresh ARRAY (kind_of ARRAY) len) s1"
    using arrays.alloc_room [OF v n r'] by (auto simp: kind_of_def)
  have r2: "4 * osz (fresh ARRAY (kind_of ARRAY) len) \<le> free_bytes s os" using r by (simp add: osz_def)
  note args = appended_args [OF 1(2) f r2 v]
  have bd: "opos os (length os) + 8 + 4 * unat len \<le> 4294967296" using room_bound [OF v r'] by simp
  have cl: "\<forall>i < unat len. clear_of ?c (unat len) (argp + 4 * word_of_nat i)" using args(2) by simp
  let ?m = "store_words (mem s1) ?c ?ws"
  have l: "length ?ws = unat len" by (simp add: arg_values_def)
  have m: "copy_args (mem s1) ?c argp (unat len) = ?m"
    using copy_as_store [OF cl, of 0 "mem s1"] bd args(1) by simp
  have "?m a = mem s1 a" if "4 * unat len \<le> unat (a - ?c)" for a
    using store_words_outside [of 0 ?ws "unat len" a ?c] that bd l by simp
  moreover have "body_at ?m ?b (opos os (length os) + 8) (unat len) = ?ws"
    using body_at_store_words [of 0 ?ws "unat len"] bd l by (simp add: cadr_def)
  ultimately have "heap_view (s1\<lparr>mem := ?m\<rparr>) (os @ [obj_of ARRAY len ?ws])"
    using appended_rebody [OF 1(2), of ?m] by simp
  with 1(1) m show ?thesis
    by (simp add: Barray_def UNBOX_BOX_len [OF n] nonneg_small [OF n] Let_def contents_hadr)
qed

text \<open>An S-expression: the tag in the first word of the body, the fields after it.\<close>

theorem Bsexp_view:
  assumes v: "heap_view s os" and n: "unat len + 1 < 536870912"
    and r: "4 * (unat len + 3) \<le> free_bytes s os" and f: "args_off_heap s argp (unat len + 1)"
  shows "\<exists>s'. Bsexp mremap (BOX (len + 1)) argp s = ok (cadr (chunk_begin (heap s)) os (length os), s')
    \<and> heap_view s' (os @ [obj_of SEXP len (UNBOX (load32 (mem s) (argp + 4 * len))
        # arg_values (mem s) argp (unat len))])"
proof -
  let ?b = "chunk_begin (heap s)" and ?c = "cadr (chunk_begin (heap s)) os (length os)"
  let ?ws = "arg_values (mem s) argp (unat len)" and ?t = "UNBOX (load32 (mem s) (argp + 4 * len))"
  have n0: "unat len < 536870912" using n by simp
  have u1: "unat (len + 1) = unat len + 1" using n by (simp add: unat_word_ariths)
  have n1: "unat (len + 1) < 536870912" using n u1 by simp
  have r': "4 * osz (fresh SEXP SEXP_TAG len) \<le> free_bytes s os" using r by (simp add: osz_def)
  obtain s1 where 1: "alloc_sexp mremap len s = ok (hadr ?b os (length os), s1)"
    "appended s os (fresh SEXP (kind_of SEXP) len) s1"
    using sexps.alloc_room [OF v n0 r'] by (auto simp: kind_of_def)
  have r2: "4 * osz (fresh SEXP (kind_of SEXP) len) \<le> free_bytes s os" using r by (simp add: osz_def)
  note args = appended_args [OF 1(2) f r2 v]
  have bd: "opos os (length os) + 8 + 4 * (unat len + 1) \<le> 4294967296" using room_bound [OF v r'] by simp
  have cl: "\<forall>i < unat len + 1. clear_of ?c (unat len + 1) (argp + 4 * word_of_nat i)" using args(2) by simp
  have l: "length ?ws = unat len" by (simp add: arg_values_def)
  let ?m1 = "store32 (mem s1) ?c 0"
  let ?m2 = "store_words ?m1 (ptr ?c 4) ?ws"
  let ?m3 = "store32 ?m2 ?c ?t"
  have o1: "?m1 a = mem s1 a" if "4 * (unat len + 1) \<le> unat (a - ?c)" for a
    using store32_outside [of 0 "4 * (unat len + 1)" a ?c] that bd by simp
  have o2: "?m2 a = mem s1 a" if "4 * (unat len + 1) \<le> unat (a - ?c)" for a
    using store_words_outside [of 1 ?ws "unat len + 1" a ?c] that bd l o1 by simp
  have o3: "?m3 a = mem s1 a" if "4 * (unat len + 1) \<le> unat (a - ?c)" for a
    using store32_outside [of 0 "4 * (unat len + 1)" a ?c] that bd o2 by simp
  have av: "arg_values ?m1 argp (unat len) = ?ws"
    using args(1) load32_clear [of "unat len + 1" ?c ?m1 "mem s1", OF o1] cl
    by (auto simp: arg_values_def)
  have m2: "copy_args ?m1 (ptr ?c 4) argp (unat len) = ?m2"
    using copy_as_store [of "unat len" ?c "unat len + 1" argp 1 ?m1] cl bd av by simp
  have tg: "load32 ?m2 (argp + 4 * len) = load32 (mem s) (argp + 4 * len)"
  proof -
    have "clear_of ?c (unat len + 1) (argp + 4 * len)" using cl by (auto dest: spec [of _ "unat len"])
    then have "load32 ?m2 (argp + 4 * len) = load32 (mem s1) (argp + 4 * len)"
      using load32_clear [of "unat len + 1" ?c ?m2 "mem s1", OF o2] by blast
    moreover have "off_heap s (argp + 4 * len)" using f by (auto simp: args_off_heap_def dest: spec [of _ "unat len"])
    ultimately show ?thesis using appended_clear(1) [OF 1(2) _ r2 v] by simp
  qed
  let ?k = "opos os (length os) + 8" and ?n = "unat len + 1"
  have c0: "?c = ptr ?b (?k + 4 * 0)" "ptr ?c 4 = ptr ?b (?k + 4 * 1)" by (simp_all add: cadr_def)
  have "body_at ?m3 ?b ?k ?n = (body_at ?m2 ?b ?k ?n)[0 := ?t]"
    unfolding c0(1) using bd by (intro body_at_store) simp_all
  also have "body_at ?m2 ?b ?k ?n = take 1 (body_at ?m1 ?b ?k ?n) @ ?ws"
    unfolding c0(2) using bd l by (intro body_at_store_words) simp_all
  also have "(\<dots>)[0 := ?t] = ?t # ?ws"
    by (cases "body_at ?m1 ?b ?k ?n") (simp_all add: body_at_def upt_conv_Cons)
  finally have "heap_view (s1\<lparr>mem := ?m3\<rparr>) (os @ [obj_of SEXP len (?t # ?ws)])"
    using appended_rebody [OF 1(2), of ?m3] o3 by simp
  moreover have "?c + 4 = ptr ?c 4" by (simp add: ptr_def)
  ultimately show ?thesis using 1(1) m2 tg
    by (simp add: Bsexp_def UNBOX_BOX_len [OF n1] nonneg_small [OF n1] u1 Let_def contents_hadr)
qed

end
