(* ===== verification/StringObjects.thy ===== *)
theory StringObjects
  imports Building Compare
begin

text \<open>
  What the operations that build strings return, when there is room in the heap: a word that
  represents the expected string. The source bytes are in the older objects or outside the
  chunk; the parameters are in stack slots, and the pool of extra roots is as it was.
\<close>

section \<open>Bytes outside the free part of the heap\<close>

definition not_free :: "gc_state \<Rightarrow> obj list \<Rightarrow> addr \<Rightarrow> bool" where
  "not_free s os a \<longleftrightarrow> unat (a - chunk_begin (heap s)) < opos os (length os)
     \<or> 4 * unat (chunk_size (heap s)) \<le> unat (a - chunk_begin (heap s))"

lemma not_free_clear:
  assumes "not_free s os a" "k + n \<le> 4 * unat (chunk_size (heap s))" "opos os (length os) \<le> k"
    "4 * unat (chunk_size (heap s)) < 4294967296"
  shows "n \<le> unat (a - ptr (chunk_begin (heap s)) k)"
proof -
  let ?x = "unat (a - chunk_begin (heap s))"
  have a: "a = ptr (chunk_begin (heap s)) ?x" by (simp add: ptr_def)
  have "k < 4294967296" "k + n \<le> 4294967296" using assms(2,4) by linarith+
  then have "(unat (ptr (chunk_begin (heap s)) ?x - ptr (chunk_begin (heap s)) k) < n) = (k \<le> ?x \<and> ?x < k + n)"
    by (intro unat_ptr_diff_less) simp_all
  then have "(unat (a - ptr (chunk_begin (heap s)) k) < n) = (k \<le> ?x \<and> ?x < k + n)"
    using a by simp
  moreover have "\<not> (k \<le> ?x \<and> ?x < k + n)" using assms(1-3) by (auto simp: not_free_def)
  ultimately show ?thesis by linarith
qed

lemma chunk_total: "heap_view s os \<Longrightarrow> 4 * unat (chunk_size (heap s)) < 4294967296
    \<and> opos os (length os) \<le> 4 * unat (chunk_size (heap s))"
  by (auto simp: heap_view_def chunk_ok_def)

lemma appended_bytes:
  assumes a: "appended s os x s1" and v: "heap_view s os" and r: "4 * osz x \<le> free_bytes s os"
    and n: "not_free s os a"
  shows "mem s1 a = mem s a"
proof -
  have "opos os (length os) + 4 * osz x \<le> 4 * unat (chunk_size (heap s))"
    using r conjunct2 [OF chunk_total [OF v]] unfolding free_bytes_def by linarith
  then have "4 * osz x \<le> unat (a - hadr (chunk_begin (heap s)) os (length os))"
    unfolding hadr_def using chunk_total [OF v] by (intro not_free_clear [OF n]) auto
  then show ?thesis using a by (simp add: appended_def)
qed

section \<open>The pool of extra roots around an allocation\<close>

lemma heap_view_roots [simp]: "heap_view (s\<lparr>extra_roots := r\<rparr>) os = heap_view s os"
  by (simp add: heap_view_def)

lemma live_roots_cong: "extra_roots s = extra_roots s' \<Longrightarrow> live_roots s = live_roots s'"
  by (simp add: live_roots_def)

lemma roots_inv_cong: "extra_roots s = extra_roots s' \<Longrightarrow> roots_inv s = roots_inv s'"
  by (simp add: roots_inv_def)

lemma push_extra_root_state:
  "push_extra_root p s = ok s' \<Longrightarrow> s' = s\<lparr>extra_roots := extra_roots s'\<rparr>"
  by (auto simp: push_extra_root_cases split: if_splits)

lemma pop_extra_root_state:
  "pop_extra_root p s = ok s' \<Longrightarrow> s' = s\<lparr>extra_roots := extra_roots s'\<rparr>"
  by (auto simp: pop_extra_root_def Let_def split: if_splits)

definition can_root :: "addr \<Rightarrow> gc_state \<Rightarrow> nat \<Rightarrow> bool" where
  "can_root p s n \<longleftrightarrow> roots_inv s \<and> root_allowed p s \<and> length (live_roots s) + n \<le> MAX_EXTRA_ROOTS_NUMBER"

text \<open>A push, something that leaves the pool alone, and the matching pop.\<close>

lemma root_push:
  assumes "can_root p s (Suc n)"
  shows "\<exists>r. push_extra_root p s = ok (s\<lparr>extra_roots := r\<rparr>) \<and> roots_inv (s\<lparr>extra_roots := r\<rparr>)
    \<and> live_roots (s\<lparr>extra_roots := r\<rparr>) = p # live_roots s"
proof -
  from assms have "roots_inv s" "root_allowed p s" "length (live_roots s) < MAX_EXTRA_ROOTS_NUMBER"
    by (auto simp: can_root_def)
  then obtain s' where s': "push_extra_root p s = ok s'" "roots_inv s'" "live_roots s' = p # live_roots s"
    using er.push_room by blast
  have e: "s' = s\<lparr>extra_roots := extra_roots s'\<rparr>" by (rule push_extra_root_state [OF s'(1)])
  show ?thesis
  proof (intro exI [of _ "extra_roots s'"] conjI)
    show "push_extra_root p s = ok (s\<lparr>extra_roots := extra_roots s'\<rparr>)" using s'(1) e by simp
    show "roots_inv (s\<lparr>extra_roots := extra_roots s'\<rparr>)" using s'(2) by (simp add: roots_inv_def)
    show "live_roots (s\<lparr>extra_roots := extra_roots s'\<rparr>) = p # live_roots s"
      using s'(3) by (simp add: live_roots_def)
  qed
qed

lemma root_pop:
  assumes "roots_inv s" "live_roots s = p # ps" "extra_roots s1 = extra_roots s"
  shows "\<exists>r. pop_extra_root p s1 = ok (s1\<lparr>extra_roots := r\<rparr>) \<and> roots_inv (s1\<lparr>extra_roots := r\<rparr>)
    \<and> live_roots (s1\<lparr>extra_roots := r\<rparr>) = ps"
proof -
  have "roots_inv s1" "live_roots s1 = p # ps"
    using assms roots_inv_cong [of s1 s] live_roots_cong [of s1 s] by simp_all
  then obtain s' where s': "pop_extra_root p s1 = ok s'" "roots_inv s'" "live_roots s' = ps"
    using er.pop_match by blast
  have e: "s' = s1\<lparr>extra_roots := extra_roots s'\<rparr>" by (rule pop_extra_root_state [OF s'(1)])
  show ?thesis
  proof (intro exI [of _ "extra_roots s'"] conjI)
    show "pop_extra_root p s1 = ok (s1\<lparr>extra_roots := extra_roots s'\<rparr>)" using s'(1) e by simp
    show "roots_inv (s1\<lparr>extra_roots := extra_roots s'\<rparr>)" using s'(2) by (simp add: roots_inv_def)
    show "live_roots (s1\<lparr>extra_roots := extra_roots s'\<rparr>) = ps"
      using s'(3) by (simp add: live_roots_def)
  qed
qed

section \<open>A string object and the value it represents\<close>

lemma valid_last:
  assumes "heap_view s (os @ [x])"
  shows "is_valid_heap_pointer s (cadr (chunk_begin (heap s)) os (length os))"
proof -
  have r: "gc_rel s (os @ [x]) s (os @ [x])" by (rule gc_rel_refl [OF assms])
  have "is_valid_heap_pointer s (cadr (chunk_begin (heap s)) (os @ [x]) (length os))"
    by (rule gc_rel_steps(5) [OF r]) simp
  then show ?thesis by (simp add: cadr_def)
qed

lemma rep_last_string:
  assumes v: "heap_view s (os @ [obj_of STRING len ws])" and l: "len = word_of_nat (length bs)" "length bs < 536870912"
    and c: "cstring (mem s) (cadr (chunk_begin (heap s)) os (length os)) bs"
  shows "rep s (cadr (chunk_begin (heap s)) os (length os)) (Str_val bs)"
proof -
  have u: "unat len < 536870912" using l by (simp add: unat_of_nat_u32)
  have cd: "cadr (chunk_begin (heap s)) (os @ [obj_of STRING len ws]) (length os)
      = cadr (chunk_begin (heap s)) os (length os)" by (simp add: cadr_def)
  have t: "otype (obj_of STRING len ws) = STRING"
    using otype_fresh [OF u, of STRING] by (simp add: otype_def obj_of_def)
  have "tag_at s (cadr (chunk_begin (heap s)) os (length os)) = STRING_TAG"
    using tag_at_view [OF v, of "length os"] t cd by simp
  moreover have "len_at s (cadr (chunk_begin (heap s)) os (length os)) = len"
    using len_at_view [OF v, of "length os"] cd fresh_header(2) [OF u] by (simp add: obj_of_def)
  ultimately show ?thesis
    using valid_last [OF v] c l by (intro rep.rep_str) auto
qed

section \<open>\<open>Bstring\<close>\<close>

lemma LmakeString_room:
  assumes "heap_view s os" "unat len < 536870912" "4 * (unat len div 4 + 3) \<le> free_bytes s os"
  shows "\<exists>s'. LmakeString mremap (BOX len) s = ok (cadr (chunk_begin (heap s)) os (length os), s')
    \<and> appended s os (fresh STRING (kind_of STRING) len) s'"
proof -
  have "4 * osz (fresh STRING STRING_TAG len) \<le> free_bytes s os" using assms(3) by (simp add: osz_def)
  then obtain s' where "alloc_string mremap len s = ok (hadr (chunk_begin (heap s)) os (length os), s')"
    "appended s os (fresh STRING STRING_TAG len) s'"
    using strings.alloc_room [OF assms(1,2)] by blast
  then show ?thesis
    by (auto simp: LmakeString_def assert_defs UNBOX_BOX_len [OF assms(2)] contents_hadr kind_of_def Let_def)
qed

lemma appended_roots: "appended s os x s' \<Longrightarrow> extra_roots s' = extra_roots s"
  unfolding appended_def by (metis gc_state.select_convs(3) gc_state.surjective gc_state.update_convs(1,2))

text \<open>The bytes of a terminated string that is not in the free part of the heap.\<close>

definition string_not_free :: "gc_state \<Rightarrow> obj list \<Rightarrow> addr \<Rightarrow> nat \<Rightarrow> bool" where
  "string_not_free s os q n \<longleftrightarrow> (\<forall>j \<le> n. not_free s os (q + word_of_nat j))"

theorem Bstring_view:
  assumes v: "heap_view s os" and c: "cstring (mem s) (load32 (mem s) p) bs" and n: "length bs < 536870912"
    and nf: "string_not_free s os (load32 (mem s) p) (length bs)" and off: "off_heap s p"
    and room: "4 * (length bs div 4 + 3) \<le> free_bytes s os" and root: "can_root p s 1"
  shows "\<exists>s' ws. Bstring mremap p s = ok (cadr (chunk_begin (heap s)) os (length os), s')
    \<and> heap_view s' (os @ [obj_of STRING (word_of_nat (length bs)) ws])
    \<and> rep s' (cadr (chunk_begin (heap s)) os (length os)) (Str_val bs) \<and> live_roots s' = live_roots s \<and> roots_inv s'"
proof -
  let ?b = "chunk_begin (heap s)" and ?c = "cadr (chunk_begin (heap s)) os (length os)"
  let ?len = "word_of_nat (length bs) :: u32" and ?q = "load32 (mem s) p"
  let ?x = "fresh STRING (kind_of STRING) ?len"
  have u: "unat ?len = length bs" using n by (simp add: unat_of_nat_u32)
  have r: "4 * osz ?x \<le> free_bytes s os" using room by (simp add: osz_def u)
  obtain er where 1: "push_extra_root p s = ok (s\<lparr>extra_roots := er\<rparr>)" "roots_inv (s\<lparr>extra_roots := er\<rparr>)"
    "live_roots (s\<lparr>extra_roots := er\<rparr>) = p # live_roots s"
    using root_push [of p s 0] root by auto
  let ?s1 = "s\<lparr>extra_roots := er\<rparr>"
  have room1: "4 * (unat ?len div 4 + 3) \<le> free_bytes ?s1 os" using room u by (simp add: free_bytes_def)
  have v1: "heap_view ?s1 os" using v by simp
  obtain s2 where 2: "LmakeString mremap (BOX ?len) ?s1 = ok (?c, s2)" "appended ?s1 os ?x s2"
    using LmakeString_room [OF v1 _ room1] u n by auto
  have r1: "4 * osz ?x \<le> free_bytes ?s1 os" using r by (simp add: free_bytes_def)
  obtain er3 where 3: "pop_extra_root p s2 = ok (s2\<lparr>extra_roots := er3\<rparr>)"
    "live_roots (s2\<lparr>extra_roots := er3\<rparr>) = live_roots s" "roots_inv (s2\<lparr>extra_roots := er3\<rparr>)"
    using root_pop [OF 1(2,3) appended_roots [OF 2(2)]] by blast
  have lp: "load32 (mem s2) p = ?q"
    using appended_clear(1) [OF 2(2) _ r1 v1] off by (simp add: off_heap_def)
  have tot: "opos os (length os) + 4 * osz ?x \<le> 4 * unat (chunk_size (heap s))"
    using r conjunct2 [OF chunk_total [OF v]] unfolding free_bytes_def by linarith
  have src: "mem s2 (?q + word_of_nat j) = mem s (?q + word_of_nat j)" if "j \<le> length bs" for j
    using appended_bytes [OF 2(2) v1 r1] nf that by (simp add: string_not_free_def not_free_def)
  have c2: "cstring (mem s2) ?q bs" using c cstring_cong [of bs "mem s2" ?q "mem s"] src by simp
  have ap: "apart ?c (Suc (length bs)) ?q (Suc (length bs))"
    unfolding apart_def
  proof (intro allI impI)
    fix j assume "j < Suc (length bs)"
    then have "not_free s os (?q + word_of_nat j)" using nf by (simp add: string_not_free_def)
    then show "Suc (length bs) \<le> unat (?q + word_of_nat j - ?c)"
      unfolding cadr_def using tot chunk_total [OF v] by (intro not_free_clear) (auto simp: osz_def u)
  qed
  let ?m = "strncpy (mem s2) ?c ?q (Suc (length bs))"
  have cp: "cstring ?m ?c bs" "\<forall>a. Suc (length bs) \<le> unat (a - ?c) \<longrightarrow> ?m a = mem s2 a"
    using strncpy_cstring [OF c2 ap] n by auto
  have cnt: "unat (?len + 1) = Suc (length bs)" using n by (simp add: unat_word_ariths u)
  let ?ws = "body_at ?m ?b (opos os (length os) + 8) (body_words STRING (unat ?len))"
  let ?s3 = "s2\<lparr>extra_roots := er3, mem := ?m\<rparr>"
  have "heap_view (s2\<lparr>mem := ?m\<rparr>) (os @ [obj_of STRING ?len ?ws])"
    using appended_rebody [OF 2(2), of ?m] cp(2) by (simp add: u)
  then have v3: "heap_view ?s3 (os @ [obj_of STRING ?len ?ws])"
    by (simp add: heap_view_def)
  have b3: "chunk_begin (heap ?s3) = ?b" using appended_begin [OF 2(2)] by simp
  have "rep ?s3 ?c (Str_val bs)"
    using rep_last_string [OF v3 refl n] cp(1) b3 by simp
  moreover have "Bstring mremap p s = ok (?c, ?s3)"
    using 1(1) 2(1) 3(1) lp cnt strlen_cstring [OF c] by (simp add: Bstring_def del: strncpy.simps)
  moreover have "live_roots ?s3 = live_roots s" "roots_inv ?s3" using 3(2,3) by (simp_all add: live_roots_def roots_inv_def)
  ultimately show ?thesis using v3 by blast
qed

end
