(* ===== verification/RuntimeProperties.thy ===== *)
theory RuntimeProperties
  imports StringObjects Compare HeapProperties
begin

text \<open>
  The properties of the runtime library: integers, elements, constructors, comparison, hashing and
  tags. The witnesses use the small heap of the theory \<open>HeapProperties\<close>.
\<close>

section \<open>Integers\<close>

text \<open>
  Boxing an integer and unboxing it again reduces it to 31 bits, so that nothing changes
  exactly for the integers from -2^30 to 2^30 - 1; unboxing an unboxed value and boxing it again
  never changes it.
\<close>

theorem boxing_round_trip:
  "UNBOXED (BOX x) \<and> sint (UNBOX (BOX x)) = wrap31 (sint x) \<and> (UNBOX (BOX x) = x \<longleftrightarrow> fits31 (sint x))
    \<and> (UNBOXED v \<longrightarrow> BOX (UNBOX v) = v)"
proof -
  have w: "sint (UNBOX (BOX x)) = wrap31 (sint x)" using ival_BOX [of x] by (simp add: ival_def)
  have "UNBOX (BOX x) = x \<longleftrightarrow> wrap31 (sint x) = sint x" unfolding w [symmetric] by (metis signed_word_eqI)
  also have "\<dots> \<longleftrightarrow> fits31 (sint x)" by (metis fits31_wrap31 wrap31_fits)
  finally show ?thesis using w BOX_UNBOX by simp
qed

theorem boxing_round_trip_witness: "BOX (UNBOX 0xFFFFFFFF) = 0xFFFFFFFF \<and> UNBOX (BOX 0x40000000) \<noteq> 0x40000000"
  using boxing_round_trip [of "0x40000000" "0xFFFFFFFF"] by (simp add: UNBOXED_def fits31_def)

text \<open>
  On two integers, the operators +, - and * return the boxed sum, difference and product,
  reduced to 31 bits.
\<close>

theorem arithmetic_wraps:
  assumes "UNBOXED p" "UNBOXED q"
  shows "returns_int (Ls__Infix_43 p q) (ival p + ival q) \<and> returns_int (Ls__Infix_45 p q) (ival p - ival q)
    \<and> returns_int (Ls__Infix_42 p q) (ival p * ival q)"
proof (intro conjI)
  show "returns_int (Ls__Infix_43 p q) (ival p + ival q)" "returns_int (Ls__Infix_42 p q) (ival p * ival q)"
    unfolding infix_defs by (rule arith2_returns_int [OF assms], simp add: word_of_ival)+
  show "returns_int (Ls__Infix_45 p q) (ival p - ival q)"
    using assms returns_int_BOX [of "ival p - ival q"] by (simp add: infix_defs assert_defs word_of_ival)
qed

theorem arithmetic_wraps_witness: "returns_int (Ls__Infix_43 0x7FFFFFFF 3) (ival 0x7FFFFFFF + ival 3)"
  using arithmetic_wraps [of "0x7FFFFFFF" 3] by (simp add: UNBOXED_def)

text \<open>
  On two integers, the six comparisons and the two logical operators return the boxed 0 or 1
  that they should.
\<close>

theorem comparisons_decide:
  assumes "UNBOXED p" "UNBOXED q"
  shows "returns_int (Ls__Infix_60 p q) (of_bool (ival p < ival q))
    \<and> returns_int (Ls__Infix_6061 p q) (of_bool (ival p \<le> ival q))
    \<and> returns_int (Ls__Infix_62 p q) (of_bool (ival p > ival q))
    \<and> returns_int (Ls__Infix_6261 p q) (of_bool (ival p \<ge> ival q))
    \<and> returns_int (Ls__Infix_6161 p q) (of_bool (ival p = ival q))
    \<and> returns_int (Ls__Infix_3361 p q) (of_bool (ival p \<noteq> ival q))
    \<and> returns_int (Ls__Infix_3838 p q) (of_bool (ival p \<noteq> 0 \<and> ival q \<noteq> 0))
    \<and> returns_int (Ls__Infix_3333 p q) (of_bool (ival p \<noteq> 0 \<or> ival q \<noteq> 0))"
proof -
  have e: "UNBOX p = UNBOX q \<longleftrightarrow> ival p = ival q" by (auto simp: ival_def signed_word_eqI)
  have b: "returns_int (ok (BOX (of_bool c))) (of_bool c)" for c
    using returns_int_BOX [of "of_bool c"] by (cases c) simp_all
  have "returns_int (Ls__Infix_6161 p q) (of_bool (ival p = ival q))"
    using b [of "p = q"] assms by (simp add: infix_defs ival_inj)
  then show ?thesis
    unfolding infix_defs
    by (intro conjI arith2_of_bool [OF assms]) (simp_all add: ival_def [symmetric] UNBOX_zero_iff e)
qed

theorem comparisons_decide_witness: "returns_int (Ls__Infix_60 0xFFFFFFFF 3) (of_bool (ival 0xFFFFFFFF < ival 3))"
  using comparisons_decide [of "0xFFFFFFFF" 3] by (simp add: UNBOXED_def)

text \<open>
  C36: division and remainder truncate towards zero, and trap exactly when the divisor is 0; the
  overflowing quotient of 32-bit division cannot occur on 31-bit operands.
\<close>

theorem division_truncates:
  assumes "UNBOXED p" "UNBOXED q"
  shows "(if ival q = 0 then Ls__Infix_47 p q = err DivideTrap \<and> Ls__Infix_37 p q = err DivideTrap
    else returns_int (Ls__Infix_47 p q) (ival p sdiv ival q) \<and> returns_int (Ls__Infix_37 p q) (ival p smod ival q))"
proof (cases "ival q = 0")
  case True
  then show ?thesis using assms by (simp add: infix_defs arith2_def assert_defs c_div_def c_mod_def div_traps_iff)
next
  case False
  then have "returns_int (Ls__Infix_47 p q) (ival p sdiv ival q)" "returns_int (Ls__Infix_37 p q) (ival p smod ival q)"
    unfolding infix_defs
    by (intro arith2_returns_int [OF assms]; use False in \<open>simp add: c_div_def c_mod_def div_traps_iff\<close>;
        simp add: ival_def)+
  with False show ?thesis by simp
qed

theorem division_truncates_witness: "Ls__Infix_47 7 1 = err DivideTrap"
  using division_truncates [of 7 1] by (simp add: UNBOXED_def ival_def UNBOX_def)

text \<open>
  Every binary operator except == refuses an operand that is not an integer (subtraction
  refuses one pointer and one integer): the program ends with a message, nothing is computed.
\<close>

theorem operators_check_operands:
  assumes "\<not> (UNBOXED p \<and> UNBOXED q)"
  shows "(\<forall>f\<in>{Ls__Infix_43, Ls__Infix_42, Ls__Infix_47, Ls__Infix_37, Ls__Infix_60, Ls__Infix_6061, Ls__Infix_62,
      Ls__Infix_6261, Ls__Infix_3361, Ls__Infix_3838, Ls__Infix_3333}. \<exists>e. f p q = err e)
    \<and> (UNBOXED p \<noteq> UNBOXED q \<longrightarrow> (\<exists>e. Ls__Infix_45 p q = err e))"
proof -
  have "\<exists>e. Ls__Infix_45 p q = err e" if "UNBOXED p \<noteq> UNBOXED q"
    using that by (auto simp: infix_defs assert_defs)
  moreover have "\<exists>e. arith2 nm f p q = err e" for nm f by (rule arith2_checks [OF assms])
  ultimately show ?thesis by (simp add: Ls__Infix_43_def Ls__Infix_42_def Ls__Infix_47_def Ls__Infix_37_def
    Ls__Infix_60_def Ls__Infix_6061_def Ls__Infix_62_def Ls__Infix_6261_def Ls__Infix_3361_def
    Ls__Infix_3838_def Ls__Infix_3333_def)
qed

theorem operators_check_operands_witness: "\<exists>e. Ls__Infix_43 4104 3 = err e"
  using operators_check_operands [of 4104 3] by (simp add: UNBOXED_def)

section \<open>Elements and constructors\<close>

text \<open>
  C27: after an assignment to an element of an array, an S-expression or a closure, the element read
  back is the assigned value, every other element of every object reads as before, and the heap still
  holds the same objects otherwise.
\<close>

theorem element_assignment:
  assumes v: "heap_view s os" and i: "i < length os" "otype (os ! i) \<noteq> STRING"
    and j: "elem_base (os ! i) + j < length (o_body (os ! i))" "j < 1073741824"
    and k: "k < length os" "otype (os ! k) \<noteq> STRING" "elem_base (os ! k) + l < length (o_body (os ! k))" "l < 1073741824"
  shows "\<exists>s'. Bsta w (BOX (word_of_nat j)) (cadr (chunk_begin (heap s)) os i) s = ok (w, s')
    \<and> heap_view s' (with_body os i ((o_body (os ! i))[elem_base (os ! i) + j := w]))
    \<and> Belem s' (cadr (chunk_begin (heap s)) os k) (BOX (word_of_nat l))
      = (if k = i \<and> l = j then ok w else Belem s (cadr (chunk_begin (heap s)) os k) (BOX (word_of_nat l)))"
proof -
  let ?b = "chunk_begin (heap s)" and ?ws = "(o_body (os ! i))[elem_base (os ! i) + j := w]"
  obtain s' where s': "Bsta w (BOX (word_of_nat j)) (cadr ?b os i) s = ok (w, s')"
    "heap_view s' (with_body os i ?ws)" "heap s' = heap s"
    using Bsta_view [OF v i j, of w] by blast
  define os' where "os' = with_body os i ?ws"
  have n: "os' ! k = (if k = i then (os ! i)\<lparr>o_body := ?ws\<rparr> else os ! k)" using i by (simp add: os'_def)
  have t: "otype (os' ! k) = otype (os ! k)" unfolding n by (simp add: otype_def)
  then have e: "elem_base (os' ! k) = elem_base (os ! k)" by (simp add: elem_base_def)
  have l: "length (o_body (os' ! k)) = length (o_body (os ! k))" unfolding n by simp
  have "osz (os' ! m) = osz (os ! m)" for m
    using i(1) by (cases "m = i") (simp_all add: os'_def osz_def)
  then have "map osz os' = map osz os"
    by (intro nth_equalityI) (simp_all add: os'_def)
  then have "opos os' k = opos os k" by (rule opos_cong)
  then have c: "cadr ?b os' k = cadr ?b os k" by (simp add: cadr_def)
  have "Belem s' (cadr ?b os k) (BOX (word_of_nat l)) = ok (o_body (os' ! k) ! (elem_base (os ! k) + l))"
    using Belem_view [of s' os' k l] s'(2,3) k t e l c by (simp add: os'_def)
  moreover have "Belem s (cadr ?b os k) (BOX (word_of_nat l)) = ok (o_body (os ! k) ! (elem_base (os ! k) + l))"
    by (rule Belem_view [OF v k])
  ultimately have "Belem s' (cadr ?b os k) (BOX (word_of_nat l))
      = (if k = i \<and> l = j then ok w else Belem s (cadr ?b os k) (BOX (word_of_nat l)))"
    using j(1) by (auto simp: n nth_list_update)
  with s' show ?thesis by blast
qed

theorem element_assignment_witness:
  "\<exists>s'. Bsta 99 (BOX 1) 4104 demo = ok (99, s') \<and> Belem s' 4104 (BOX 1) = ok 99"
proof -
  have "otype (demo_objs ! 0) = ARRAY" by (simp add: demo_nth demo_types)
  moreover have "cadr (chunk_begin (heap demo)) demo_objs 0 = 4104" by (simp add: cadr_def demo_opos demo_ptr)
  ultimately show ?thesis
    using element_assignment [OF demo_view, of 0 1 0 1 99]
    by (auto simp: demo_length elem_base_def demo_nth)
qed

text \<open>
  When there is room, makeArray returns the address of a new array of the wanted length after the
  last object, every element of which is 0, and leaves the other objects as they were.
\<close>

theorem LmakeArray_makes:
  assumes "heap_view s os" "unat len < 536870912" "4 * (unat len + 2) \<le> free_bytes s os"
  shows "\<exists>s'. LmakeArray mremap (BOX len) s = ok (cadr (chunk_begin (heap s)) os (length os), s')
    \<and> heap_view s' (os @ [obj_of ARRAY len (replicate (unat len) (BOX 0))])"
  by (rule LmakeArray_view [OF assms])

theorem LmakeArray_makes_witness:
  "\<exists>s'. LmakeArray (\<lambda>m a o' n. None) (BOX 5) demo = ok (4136, s')
    \<and> heap_view s' (demo_objs @ [obj_of ARRAY 5 (replicate 5 (BOX 0))])"
  using LmakeArray_makes [OF demo_view, of 5 "\<lambda>m a o' n. None"]
  by (simp add: demo_free cadr_def demo_length demo_opos demo_ptr)

text \<open>
  C25: when there is room, the constructors of arrays and S-expressions return a new object after the
  last one that holds the argument words in order and, for an S-expression, the unboxed last argument
  as its tag.
\<close>

theorem constructors_hold_arguments:
  assumes "heap_view s os" "unat len + 1 < 536870912" "4 * (unat len + 3) \<le> free_bytes s os"
    "args_off_heap s argp (unat len + 1)"
  shows "(\<exists>s'. Barray mremap (BOX len) argp s = ok (cadr (chunk_begin (heap s)) os (length os), s')
      \<and> heap_view s' (os @ [obj_of ARRAY len (arg_values (mem s) argp (unat len))]))
    \<and> (\<exists>s'. Bsexp mremap (BOX (len + 1)) argp s = ok (cadr (chunk_begin (heap s)) os (length os), s')
      \<and> heap_view s' (os @ [obj_of SEXP len (UNBOX (load32 (mem s) (argp + 4 * len))
          # arg_values (mem s) argp (unat len))]))"
proof (intro conjI)
  have "args_off_heap s argp (unat len)" using assms(4) by (simp add: args_off_heap_def)
  then show "\<exists>s'. Barray mremap (BOX len) argp s = ok (cadr (chunk_begin (heap s)) os (length os), s')
      \<and> heap_view s' (os @ [obj_of ARRAY len (arg_values (mem s) argp (unat len))])"
    using assms by (intro Barray_view) simp_all
qed (rule Bsexp_view [OF assms])

lemma demo_off_heap: "off_heap demo 8196" "off_heap demo 8200"
  by (simp_all add: off_heap_def)

lemma demo_args: "args_off_heap demo 8196 2"
proof -
  have "i < 2 \<longleftrightarrow> i = 0 \<or> i = Suc 0" for i :: nat by auto
  then show ?thesis using demo_off_heap by (auto simp: args_off_heap_def)
qed

theorem constructors_hold_arguments_witness:
  "\<exists>s'. Bsexp (\<lambda>m a o' n. None) (BOX (1 + 1)) 8196 demo = ok (4136, s')
    \<and> heap_view s' (demo_objs @ [obj_of SEXP 1 (UNBOX (load32 demo_mem (8196 + 4 * 1)) # arg_values demo_mem 8196 1)])"
proof -
  have "args_off_heap demo 8196 (unat (1 :: u32) + 1)" using demo_args by (simp add: numeral_2_eq_2)
  from constructors_hold_arguments [OF demo_view _ _ this] show ?thesis
    by (simp add: demo_free cadr_def demo_length demo_opos demo_ptr)
qed

text \<open>
  C26: when there is room in the heap and in the pool of extra roots, a string constant becomes a
  string object after the last one that represents the same bytes, the other objects stay, and no extra
  root is left behind.
\<close>

theorem Bstring_copies:
  assumes "heap_view s os" "cstring (mem s) (load32 (mem s) p) bs" "length bs < 536870912"
    "string_not_free s os (load32 (mem s) p) (length bs)" "off_heap s p"
    "4 * (length bs div 4 + 3) \<le> free_bytes s os" "can_root p s 1"
  shows "\<exists>s' ws. Bstring mremap p s = ok (cadr (chunk_begin (heap s)) os (length os), s')
    \<and> heap_view s' (os @ [obj_of STRING (word_of_nat (length bs)) ws])
    \<and> rep s' (cadr (chunk_begin (heap s)) os (length os)) (Str_val bs) \<and> live_roots s' = live_roots s"
  using Bstring_view [OF assms] by blast

theorem Bstring_copies_witness:
  "\<exists>s'. Bstring (\<lambda>m a o' n. None) 8196 demo = ok (4136, s') \<and> rep s' 4136 (Str_val [24, 16]) \<and> live_roots s' = []"
proof -
  have "cstring demo_mem 4104 [24, 16]" by (simp add: demo_mem_def)
  moreover have "j \<le> 2 \<longleftrightarrow> j = 0 \<or> j = Suc 0 \<or> j = 2" for j :: nat by auto
  then have "string_not_free demo demo_objs 4104 (length [24 :: u8, 16])"
    by (auto simp: string_not_free_def not_free_def demo_length demo_opos numeral_2_eq_2 [symmetric])
  moreover have "off_heap demo 8196" by (rule demo_off_heap)
  moreover have "can_root 8196 demo 1" by (simp add: can_root_def demo_pool MAX_EXTRA_ROOTS_NUMBER_def)
  ultimately show ?thesis
    using Bstring_copies [OF demo_view, of 8196 "[24, 16]" "\<lambda>m a o' n. None"]
    by (auto simp: demo_loads demo_free cadr_def demo_length demo_opos demo_ptr demo_pool)
qed

section \<open>Comparison and hashing\<close>

text \<open>
  C9: on two words that represent finite values, structural comparison returns, and its result
  depends on the values only; for values built of integers, strings, arrays and S-expressions it
  returns 0 exactly when the values are equal.
\<close>

theorem Lcompare_structural:
  assumes "rep s p v" "rep s q w"
  shows "Lcompare s p q = ok (vcompare v w) \<and> (plain v \<and> plain w \<longrightarrow> (Lcompare s p q = ok (BOX 0) \<longleftrightarrow> v = w))"
  using Lcompare_rep [OF assms] vcompare_eqD [of v w] by auto

lemma demo_rep_empty: "rep demo 4120 (Arr_val [])" "rep demo 4128 (Arr_val [])"
  by (rule rep_arr; simp add: is_valid_heap_pointer_def UNBOXED_def tag_at_def len_at_def data_header_def TO_DATA_def
      DATA_HEADER_SZ_def demo_loads TAG_def LEN_def ARRAY_TAG_def)+

theorem Lcompare_structural_witness: "Lcompare demo 4120 4128 = ok (BOX 0)"
  using Lcompare_structural [OF demo_rep_empty] by simp

text \<open>
  C28: hashing a word that represents a finite value returns, within 22 bits, and words that
  represent equal values in any two heaps have equal hashes: the addresses of objects, which a
  collection changes, do not matter.
\<close>

theorem Lhash_address_independent:
  assumes "rep s p v" "rep s' q v"
  shows "\<exists>h. Lhash s p = ok (BOX h) \<and> Lhash s' q = ok (BOX h) \<and> unat h < 4194304"
proof -
  have "unat (0x3fffff AND x :: u32) < 4194304" for x
    using word_and_le2 [of "0x3fffff" x] by (simp add: word_le_nat_alt)
  with assms [THEN Lhash_rep] show ?thesis by blast
qed

theorem Lhash_address_independent_witness: "\<exists>h. Lhash demo 4120 = ok (BOX h) \<and> Lhash demo 4128 = ok (BOX h)"
  using Lhash_address_independent [OF demo_rep_empty] by blast

text \<open>
  The value patterns decide the kind of a represented value: each of them returns the boxed 1 on
  its own kind of value and the boxed 0 on every other kind of heap object and on integers.
\<close>

theorem patterns_decide_kind:
  assumes "rep s p v" "\<not> is_raw v"
  shows "Bunboxed_patt p = BOX (of_bool (is_int v)) \<and> Bboxed_patt p = BOX (of_bool (\<not> is_int v))
    \<and> Barray_tag_patt s p = BOX (of_bool (kind_tag v = ARRAY_TAG))
    \<and> Bstring_tag_patt s p = BOX (of_bool (kind_tag v = STRING_TAG))
    \<and> Bclosure_tag_patt s p = BOX (of_bool (kind_tag v = CLOSURE_TAG))
    \<and> Bsexp_tag_patt s p = BOX (of_bool (kind_tag v = SEXP_TAG))
    \<and> LkindOf s p = kind_tag v"
  using assms
  by (cases v) (auto simp: rep_iffs patt_defs LkindOf_def heap_pointer_boxed, simp_all add: tag_defs UNBOXED_TAG_def)

theorem patterns_decide_kind_witness: "Barray_tag_patt demo 4120 = BOX 1 \<and> Bstring_tag_patt demo 4120 = BOX 0"
  using patterns_decide_kind [OF demo_rep_empty(1)] by (simp add: tag_defs)

text \<open>
  The string pattern returns the boxed 1 exactly when both strings have the same bytes.
\<close>

theorem Bstring_patt_equal:
  assumes "rep s p (Str_val bs)" "rep s q (Str_val cs)"
  shows "Bstring_patt s p q = ok (BOX (of_bool (bs = cs)))"
proof -
  have c: "cstring (mem s) p bs" "cstring (mem s) q cs" using assms by (auto simp: rep_iffs)
  then have "0 \<notin> set bs" "0 \<notin> set cs" by (simp_all add: cstring_bytes)
  note e = cmp_bytes_eq [OF this]
  show ?thesis
    using assms by (auto simp: rep_iffs Bstring_patt_def ASSERT_STRING_def heap_pointer_boxed strcmp_cstring [OF c] e)
qed

lemma demo_string: "\<exists>s. rep s 4136 (Str_val [24, 16])"
proof -
  have "cstring demo_mem 4104 [24, 16]" by (simp add: demo_mem_def)
  moreover have "j \<le> 2 \<longleftrightarrow> j = 0 \<or> j = Suc 0 \<or> j = 2" for j :: nat by auto
  then have "string_not_free demo demo_objs 4104 (length [24 :: u8, 16])"
    by (auto simp: string_not_free_def not_free_def demo_length demo_opos numeral_2_eq_2 [symmetric])
  moreover have "can_root 8196 demo 1" by (simp add: can_root_def demo_pool MAX_EXTRA_ROOTS_NUMBER_def)
  ultimately show ?thesis
    using Bstring_view [OF demo_view, of 8196 "[24, 16]" "\<lambda>m a o' n. None"] demo_off_heap(1)
    by (auto simp: demo_loads demo_free cadr_def demo_length demo_opos demo_ptr demo_pool)
qed

theorem Bstring_patt_equal_witness: "\<exists>s. rep s 4136 (Str_val [24, 16]) \<and> Bstring_patt s 4136 4136 = ok (BOX 1)"
proof -
  obtain s where r: "rep s 4136 (Str_val [24, 16])" using demo_string by blast
  from Bstring_patt_equal [OF r r] r show ?thesis by auto
qed

section \<open>Tags\<close>

text \<open>
  C33: the tag hash of a name is an integer from which the first five characters of the name can be
  computed back; so two names have the same tag exactly when they agree on the first five characters.
  Names are over the 64 characters of the table and do not start with an underscore.
\<close>

theorem tag_hash_round_trip:
  assumes "hashable a" "hashable b"
  shows "\<exists>h. LtagHash a = ok h \<and> UNBOXED h \<and> de_hash (UNBOX h) = ok (take 5 a)
    \<and> (LtagHash a = LtagHash b \<longleftrightarrow> take 5 a = take 5 b)"
proof -
  have u: "UNBOX (BOX (word_of_nat (tag_number x))) = word_of_nat (tag_number x)" if "hashable x" for x
    by (rule UNBOX_BOX_small) (use tag_number_less [OF that] in simp)
  have d: "de_hash (UNBOX (BOX (word_of_nat (tag_number x)))) = ok (take 5 x)" if "hashable x" for x
    using de_hash_tag_number [OF that] u [OF that] by simp
  have "LtagHash a = LtagHash b \<longleftrightarrow> take 5 a = take 5 b"
  proof
    assume "LtagHash a = LtagHash b"
    then have "BOX (word_of_nat (tag_number a)) = BOX (word_of_nat (tag_number b))"
      by (simp add: LtagHash_hashable [OF assms(1)] LtagHash_hashable [OF assms(2)])
    then show "take 5 a = take 5 b" using d [OF assms(1)] d [OF assms(2)] by simp
  next
    assume "take 5 a = take 5 b"
    then have "tag_number a = tag_number b" by (simp add: tag_number_def)
    then show "LtagHash a = LtagHash b"
      by (simp add: LtagHash_hashable [OF assms(1)] LtagHash_hashable [OF assms(2)])
  qed
  then show ?thesis using LtagHash_hashable [OF assms(1)] d [OF assms(1)] by simp
qed

theorem tag_hash_round_trip_witness: "\<exists>h. LtagHash (bytes_of ''Cons'') = ok h \<and> de_hash (UNBOX h) = ok (bytes_of ''Cons'')"
proof -
  have "hashable (bytes_of ''Cons'')" by (simp add: hashable_def chars_def bytes_of_def)
  from tag_hash_round_trip [OF this this] show ?thesis by (auto simp: bytes_of_def)
qed

text \<open>
  A character outside the table among the first five ends the program with a message.
\<close>

theorem tag_hash_rejects:
  assumes "\<forall>x\<in>set pre. x \<in> set chars" "c \<notin> set chars" "length pre < 5"
  shows "LtagHash (pre @ c # rest) = err (Failure ''tagHash: character not found: %c'')"
  using LtagHash_bad_character [OF assms(2) refl assms(3,1)] .

theorem tag_hash_rejects_witness: "LtagHash (bytes_of ''a-b'') = err (Failure ''tagHash: character not found: %c'')"
  using tag_hash_rejects [of "bytes_of ''a''" 45 "bytes_of ''b''"] by (simp add: chars_def bytes_of_def)

end
