(* ===== verification/Bytefile.thy ===== *)
theory Bytefile
  imports Prelude
begin

text \<open>
  tools/bytefile.h and tools/bytefile.cpp: the unpacked bytecode file. \<open>buffer\<close> is the C
  flexible array at the end of the struct, which starts 32 bytes after the struct
  (\<open>sizeof (bytefile)\<close> with 32-bit pointers): the table of public symbols, the string table and
  the code, one after the other. The three pointers into the buffer are offsets here. Pointers
  into the code section are integers relative to \<open>code_ptr\<close>.
\<close>

record bytefile =
  bf_size :: u32
  stringtab_size :: u32
  global_area_size :: u32
  public_symbols_number :: u32
  buffer :: "u8 list"

definition SIZEOF_BYTEFILE :: nat where "SIZEOF_BYTEFILE = 32"

definition string_off :: "bytefile \<Rightarrow> nat" where
  "string_off f = 8 * unat (public_symbols_number f)"

definition code_off :: "bytefile \<Rightarrow> nat" where
  "code_off f = string_off f + unat (stringtab_size f)"

text \<open>A little-endian word.\<close>

definition word4 :: "u8 \<Rightarrow> u8 \<Rightarrow> u8 \<Rightarrow> u8 \<Rightarrow> u32" where
  "word4 a b c d = ucast a OR push_bit 8 (ucast b) OR push_bit 16 (ucast c) OR push_bit 24 (ucast d)"

definition word_in :: "u8 list \<Rightarrow> nat \<Rightarrow> u32" where
  "word_in bs i = word4 (bs ! i) (bs ! (i + 1)) (bs ! (i + 2)) (bs ! (i + 3))"

definition ASSERT :: "bool \<Rightarrow> string \<Rightarrow> unit outcome" where
  "ASSERT c msg = (if c then ok () else err (Fail msg))"

text \<open>
  \<open>read_file\<close> on the contents \<open>bs\<close> of the file. The sum of the section sizes is computed in
  32 bits and may wrap; the size of the global area counts, although globals are not stored in
  the file. A file shorter than the three header words leaves fields of the struct unread.
\<close>

definition read_file :: "u8 list \<Rightarrow> bytefile outcome" where
  "read_file bs =
     (let total_size = word_of_nat (20 + length bs) in
      if length bs < 12 then err OutOfBounds
      else let strs = word_in bs 0; globs = word_in bs 4; pubs = word_in bs 8 in
        andthen (ASSERT (0 \<le> sint strs) ''Negative string section size'') (\<lambda>_.
        andthen (ASSERT (0 \<le> sint pubs) ''Negative public symbols number'') (\<lambda>_.
        andthen (ASSERT (0 \<le> sint globs) ''Negative global area size'') (\<lambda>_.
        let total_sections_size = strs + pubs * 2 * 4 + globs * 4 in
        andthen (ASSERT (total_sections_size + word_of_nat SIZEOF_BYTEFILE \<le> total_size)
                   ''Invalid sections layout'') (\<lambda>_.
          ok \<lparr>bf_size = total_size, stringtab_size = strs, global_area_size = globs,
              public_symbols_number = pubs, buffer = drop 12 bs\<rparr>)))))"

text \<open>A string is given by its offset in the string table.\<close>

definition get_string :: "bytefile \<Rightarrow> u32 \<Rightarrow> nat outcome" where
  "get_string f pos =
     andthen (ASSERT (0 \<le> sint pos) ''Negative string index'') (\<lambda>_.
     andthen (ASSERT (sint pos < sint (stringtab_size f)) ''String does not exist'') (\<lambda>_.
       ok (unat pos)))"

definition get_public_name :: "bytefile \<Rightarrow> u32 \<Rightarrow> nat outcome" where
  "get_public_name f i =
     andthen (ASSERT (0 \<le> sint i) ''Negative public symbol index'') (\<lambda>_.
     andthen (ASSERT (sint i < sint (public_symbols_number f)) ''Public symbol does not exist'') (\<lambda>_.
       get_string f (word_in (buffer f) (8 * unat i))))"

definition get_public_offset :: "bytefile \<Rightarrow> u32 \<Rightarrow> int outcome" where
  "get_public_offset f i =
     andthen (ASSERT (0 \<le> sint i) ''Negative public symbol index'') (\<lambda>_.
     andthen (ASSERT (sint i < sint (public_symbols_number f)) ''Public symbol does not exist'') (\<lambda>_.
     let offset = word_in (buffer f) (8 * unat i + 4) in
     andthen (ASSERT (sint offset < sint (bf_size f)) ''Invalid public offset'') (\<lambda>_. ok (sint offset))))"

definition get_code_size :: "bytefile \<Rightarrow> int" where
  "get_code_size f = sint (bf_size f) - int (SIZEOF_BYTEFILE + code_off f)"

fun collect :: "('a \<Rightarrow> 'b outcome) \<Rightarrow> 'a list \<Rightarrow> 'b list outcome" where
  "collect f [] = ok []"
| "collect f (x # xs) = andthen (f x) (\<lambda>y. andthen (collect f xs) (\<lambda>ys. ok (y # ys)))"

definition get_entrypoints :: "bytefile \<Rightarrow> int list outcome" where
  "get_entrypoints f = collect (get_public_offset f)
     (map word_of_nat [0..<nat (sint (public_symbols_number f))])"

section \<open>Well-formed files\<close>

definition bytefile_ok :: "bytefile \<Rightarrow> bool" where
  "bytefile_ok f \<longleftrightarrow> unat (bf_size f) = SIZEOF_BYTEFILE + length (buffer f) \<and> unat (bf_size f) < 2147483648
     \<and> code_off f \<le> length (buffer f)
     \<and> 0 \<le> sint (stringtab_size f) \<and> 0 \<le> sint (public_symbols_number f)"

lemma ASSERT_ok [simp]: "ASSERT c msg = ok u \<longleftrightarrow> c"
  by (simp add: ASSERT_def)

lemma ASSERT_simps [simp]: "ASSERT True msg = ok ()" "ASSERT False msg = err (Fail msg)"
  by (simp_all add: ASSERT_def)

lemma read_file_ok:
  assumes r: "read_file bs = ok f" and b: "length bs < 2147483616"
    and nw: "unat (stringtab_size f) + 8 * unat (public_symbols_number f) + 4 * unat (global_area_size f)
      + 32 < 4294967296"
  shows "bytefile_ok f" "length (buffer f) + 12 = length bs"
    "4 * unat (global_area_size f) + code_off f \<le> length (buffer f)"
proof -
  let ?strs = "word_in bs 0" and ?globs = "word_in bs 4" and ?pubs = "word_in bs 8"
  have l: "12 \<le> length bs" using r by (auto simp: read_file_def Let_def split: if_splits)
  have f: "f = \<lparr>bf_size = word_of_nat (20 + length bs), stringtab_size = ?strs, global_area_size = ?globs,
      public_symbols_number = ?pubs, buffer = drop 12 bs\<rparr>"
    and c: "0 \<le> sint ?strs" "0 \<le> sint ?pubs"
      "?strs + ?pubs * 2 * 4 + ?globs * 4 + word_of_nat SIZEOF_BYTEFILE \<le> word_of_nat (20 + length bs)"
    using r l by (auto simp: read_file_def Let_def andthen_eq_ok)
  have u: "unat (word_of_nat (20 + length bs) :: u32) = 20 + length bs"
    using b by (intro unat_of_nat_u32) simp
  have w: "?strs + ?pubs * 2 * 4 + ?globs * 4 + word_of_nat SIZEOF_BYTEFILE
      = word_of_nat (unat ?strs + 8 * unat ?pubs + 4 * unat ?globs + 32)"
    by (simp add: SIZEOF_BYTEFILE_def)
  have "unat (?strs + ?pubs * 2 * 4 + ?globs * 4 + word_of_nat SIZEOF_BYTEFILE)
      = unat ?strs + 8 * unat ?pubs + 4 * unat ?globs + 32"
    unfolding w using nw f by (intro unat_of_nat_u32) simp
  with c(3) u have s: "unat ?strs + 8 * unat ?pubs + 4 * unat ?globs + 32 \<le> 20 + length bs"
    by (simp only: word_le_nat_alt)
  show "length (buffer f) + 12 = length bs" using f l by simp
  show "bytefile_ok f"
    using f c s u l b by (simp add: bytefile_ok_def SIZEOF_BYTEFILE_def code_off_def string_off_def del: of_nat_add)
  show "4 * unat (global_area_size f) + code_off f \<le> length (buffer f)"
    using f s l by (simp add: code_off_def string_off_def)
qed

end
