(* ===== verification/Instructions.thy ===== *)
theory Instructions
  imports Bytefile
begin

text \<open>
  tools/opcode.h, the instruction set, and tools/inst_reader.h, its decoder. The decoder applies
  a functor to the instruction it has read; here it returns the instruction as a value and the
  functors are functions of it (\<open>SuccessorsFunctor\<close> and \<open>StackDepthFunctor\<close> have theories of
  their own). \<open>ip\<close> is an offset from \<open>code_ptr\<close>.
\<close>

section \<open>Instructions\<close>

datatype binop = Binop_Add | Binop_Sub | Binop_Mul | Binop_Div | Binop_Rem | Binop_LessThan
  | Binop_LessEqual | Binop_GreaterThan | Binop_GreaterEqual | Binop_Equal | Binop_NotEqual
  | Binop_And | Binop_Or

datatype location = Location_Global | Location_Local | Location_Arg | Location_Captured

datatype patt = Pattern_String | Pattern_StringTag | Pattern_ArrayTag | Pattern_SExpTag
  | Pattern_Boxed | Pattern_Unboxed | Pattern_ClosureTag

datatype lcall = LCall_Lread | LCall_Lwrite | LCall_Llength | LCall_Lstring

text \<open>
  \<open>LocationEntry\<close>: the kind is a cast of a signed byte to the enum and need not be one of the
  four values. Strings are offsets in the string table. \<open>Call\<close> and \<open>CallC\<close> also pass the
  position after the instruction, which the second component of the decoder's result repeats.
  \<open>No_functor x\<close>: the byte \<open>x\<close> for which an inner \<open>switch\<close> without a default is left without
  applying any functor.
\<close>

record location_entry =
  loc_kind :: int
  loc_index :: u32

datatype inst =
    Const u32 | String nat | SExp nat u32 | StI | StA | Jmp u32 | End | Ret | Drop | Dup | Swap | Elem
  | CJmpZ u32 | CJmpNZ u32 | Begin u32 u32 | CBegin u32 u32 | Closure u32 "location_entry list"
  | CallC u32 | Call u32 u32 | Tag nat u32 | Array u32 | Fail_at u32 u32 | Line u32
  | Binop_inst binop | Ld location u32 | LdA location u32 | St location u32 | Patt patt
  | LCall_inst lcall | LCall_Barray u32 | Stop | No_functor u8

section \<open>The codes of opcode.h\<close>

definition opcode_Const :: u8 where "opcode_Const = 16"
definition opcode_End :: u8 where "opcode_End = 22"
definition opcode_Begin :: u8 where "opcode_Begin = 82"
definition opcode_CBegin :: u8 where "opcode_CBegin = 83"
definition opcode_Call :: u8 where "opcode_Call = 86"

fun binop_of :: "nat \<Rightarrow> binop option" where
  "binop_of n =
     (if n = 1 then Some Binop_Add else if n = 2 then Some Binop_Sub
      else if n = 3 then Some Binop_Mul else if n = 4 then Some Binop_Div
      else if n = 5 then Some Binop_Rem else if n = 6 then Some Binop_LessThan
      else if n = 7 then Some Binop_LessEqual else if n = 8 then Some Binop_GreaterThan
      else if n = 9 then Some Binop_GreaterEqual else if n = 10 then Some Binop_Equal
      else if n = 11 then Some Binop_NotEqual else if n = 12 then Some Binop_And
      else if n = 13 then Some Binop_Or else None)"

fun location_of :: "nat \<Rightarrow> location option" where
  "location_of n =
     (if n = 0 then Some Location_Global else if n = 1 then Some Location_Local
      else if n = 2 then Some Location_Arg else if n = 3 then Some Location_Captured else None)"

fun patt_of :: "nat \<Rightarrow> patt option" where
  "patt_of n =
     (if n = 0 then Some Pattern_String else if n = 1 then Some Pattern_StringTag
      else if n = 2 then Some Pattern_ArrayTag else if n = 3 then Some Pattern_SExpTag
      else if n = 4 then Some Pattern_Boxed else if n = 5 then Some Pattern_Unboxed
      else if n = 6 then Some Pattern_ClosureTag else None)"

section \<open>The reader\<close>

definition assert_can_read :: "bytefile \<Rightarrow> int \<Rightarrow> nat \<Rightarrow> unit outcome" where
  "assert_can_read f ip bytes =
     andthen (ASSERT (0 \<le> ip) ''ip is out of code section'') (\<lambda>_.
       ASSERT (int (SIZEOF_BYTEFILE + code_off f) + ip + int bytes \<le> sint (bf_size f))
         ''ip is out of code section'')"

definition byte_at :: "bytefile \<Rightarrow> int \<Rightarrow> u8" where
  "byte_at f ip = buffer f ! nat (int (code_off f) + ip)"

definition read_byte :: "bytefile \<Rightarrow> int \<Rightarrow> (u8 \<times> int) outcome" where
  "read_byte f ip = andthen (assert_can_read f ip 1) (\<lambda>_. ok (byte_at f ip, ip + 1))"

definition read_int :: "bytefile \<Rightarrow> int \<Rightarrow> (u32 \<times> int) outcome" where
  "read_int f ip = andthen (assert_can_read f ip 4) (\<lambda>_.
     ok (word4 (byte_at f ip) (byte_at f (ip + 1)) (byte_at f (ip + 2)) (byte_at f (ip + 3)), ip + 4))"

definition read_string :: "bytefile \<Rightarrow> int \<Rightarrow> (nat \<times> int) outcome" where
  "read_string f ip = andthen (read_int f ip) (\<lambda>(pos, ip'). andthen (get_string f pos) (\<lambda>str. ok (str, ip')))"

definition read_loc :: "bytefile \<Rightarrow> int \<Rightarrow> (location_entry \<times> int) outcome" where
  "read_loc f ip = andthen (read_byte f ip) (\<lambda>(kind, ip1). andthen (read_int f ip1) (\<lambda>(index, ip2).
     ok (\<lparr>loc_kind = sint kind, loc_index = index\<rparr>, ip2)))"

fun read_locs :: "bytefile \<Rightarrow> nat \<Rightarrow> int \<Rightarrow> (location_entry list \<times> int) outcome" where
  "read_locs f 0 ip = ok ([], ip)"
| "read_locs f (Suc n) ip = andthen (read_loc f ip) (\<lambda>(loc, ip1).
     andthen (read_locs f n ip1) (\<lambda>(locs, ip2). ok (loc # locs, ip2)))"

text \<open>One and two integer operands.\<close>

definition read1 :: "bytefile \<Rightarrow> int \<Rightarrow> (u32 \<Rightarrow> inst) \<Rightarrow> (inst \<times> int) outcome" where
  "read1 f ip C = andthen (read_int f ip) (\<lambda>(a, ip1). ok (C a, ip1))"

definition read2 :: "bytefile \<Rightarrow> int \<Rightarrow> (u32 \<Rightarrow> u32 \<Rightarrow> inst) \<Rightarrow> (inst \<times> int) outcome" where
  "read2 f ip C = andthen (read_int f ip) (\<lambda>(a, ip1). andthen (read_int f ip1) (\<lambda>(b, ip2). ok (C a b, ip2)))"

definition read_string_int :: "bytefile \<Rightarrow> int \<Rightarrow> (nat \<Rightarrow> u32 \<Rightarrow> inst) \<Rightarrow> (inst \<times> int) outcome" where
  "read_string_int f ip C =
     andthen (read_string f ip) (\<lambda>(str, ip1). andthen (read_int f ip1) (\<lambda>(n, ip2). ok (C str n, ip2)))"

text \<open>The inner switches, on the high and the low half of the first byte.\<close>

definition read_composed :: "bytefile \<Rightarrow> int \<Rightarrow> u8 \<Rightarrow> nat \<Rightarrow> nat \<Rightarrow> (inst \<times> int) outcome" where
  "read_composed f ip x h l =
     (if h = 0 then (case binop_of l of Some b \<Rightarrow> ok (Binop_inst b, ip) | None \<Rightarrow> ok (No_functor x, ip))
      else if h = 2 then (case location_of l of Some k \<Rightarrow> read1 f ip (Ld k) | None \<Rightarrow> ok (No_functor x, ip))
      else if h = 3 then (case location_of l of Some k \<Rightarrow> read1 f ip (LdA k) | None \<Rightarrow> ok (No_functor x, ip))
      else if h = 4 then (case location_of l of Some k \<Rightarrow> read1 f ip (St k) | None \<Rightarrow> ok (No_functor x, ip))
      else if h = 6 then (case patt_of l of Some p \<Rightarrow> ok (Patt p, ip) | None \<Rightarrow> ok (No_functor x, ip))
      else if h = 7 then
        (if l = 0 then ok (LCall_inst LCall_Lread, ip)
         else if l = 1 then ok (LCall_inst LCall_Lwrite, ip)
         else if l = 2 then ok (LCall_inst LCall_Llength, ip)
         else if l = 3 then ok (LCall_inst LCall_Lstring, ip)
         else if l = 4 then read1 f ip LCall_Barray
         else err (Fail ''Unknown LCall''))
      else if h = 15 then ok (Stop, ip)
      else err (Fail ''Unknown opcode''))"

text \<open>The outer switch, on the first byte \<open>x\<close>; \<open>ip\<close> is the position after it.\<close>

definition read_operands :: "bytefile \<Rightarrow> u8 \<Rightarrow> int \<Rightarrow> (inst \<times> int) outcome" where
  "read_operands f x ip = (let n = unat x in
     if n = 16 then read1 f ip Const
     else if n = 17 then andthen (read_string f ip) (\<lambda>(str, ip1). ok (String str, ip1))
     else if n = 18 then read_string_int f ip SExp
     else if n = 19 then ok (StI, ip)
     else if n = 20 then ok (StA, ip)
     else if n = 21 then read1 f ip Jmp
     else if n = 22 then ok (End, ip)
     else if n = 23 then ok (Ret, ip)
     else if n = 24 then ok (Drop, ip)
     else if n = 25 then ok (Dup, ip)
     else if n = 26 then ok (Swap, ip)
     else if n = 27 then ok (Elem, ip)
     else if n = 80 then read1 f ip CJmpZ
     else if n = 81 then read1 f ip CJmpNZ
     else if n = 82 then read2 f ip Begin
     else if n = 83 then read2 f ip CBegin
     else if n = 84 then andthen (read_int f ip) (\<lambda>(entry, ip1). andthen (read_int f ip1) (\<lambda>(k, ip2).
       andthen (read_locs f (nat (sint k)) ip2) (\<lambda>(captured, ip3). ok (Closure entry captured, ip3))))
     else if n = 85 then read1 f ip CallC
     else if n = 86 then read2 f ip Call
     else if n = 87 then read_string_int f ip Tag
     else if n = 88 then read1 f ip Array
     else if n = 89 then read2 f ip Fail_at
     else if n = 90 then read1 f ip Line
     else read_composed f ip x (n div 16) (n mod 16))"

definition read_inst :: "bytefile \<Rightarrow> int \<Rightarrow> (inst \<times> int) outcome" where
  "read_inst f ip0 = andthen (read_byte f ip0) (\<lambda>(x, ip). read_operands f x ip)"

section \<open>Where the reader reads\<close>

text \<open>\<open>in_code f ip n\<close>: the \<open>n\<close> bytes from \<open>ip\<close> on are bytes of the file's code section.\<close>

definition in_code :: "bytefile \<Rightarrow> int \<Rightarrow> nat \<Rightarrow> bool" where
  "in_code f ip n \<longleftrightarrow> 0 \<le> ip \<and> int (code_off f) + ip + int n \<le> int (length (buffer f))"

lemma assert_can_read_iff:
  assumes "bytefile_ok f"
  shows "assert_can_read f ip n = (if in_code f ip n then ok () else err (Fail ''ip is out of code section''))"
proof -
  have "sint (bf_size f) = int (SIZEOF_BYTEFILE + length (buffer f))"
    using assms sint_small [of "bf_size f"] by (simp add: bytefile_ok_def)
  then show ?thesis
    by (auto simp: assert_can_read_def in_code_def ASSERT_def)
qed

lemma read_byte_iff: "bytefile_ok f \<Longrightarrow> read_byte f ip =
    (if in_code f ip 1 then ok (byte_at f ip, ip + 1) else err (Fail ''ip is out of code section''))"
  by (simp add: read_byte_def assert_can_read_iff)

lemma read_int_iff: "bytefile_ok f \<Longrightarrow> read_int f ip =
    (if in_code f ip 4 then ok (word4 (byte_at f ip) (byte_at f (ip + 1)) (byte_at f (ip + 2)) (byte_at f (ip + 3)), ip + 4)
     else err (Fail ''ip is out of code section''))"
  by (simp add: read_int_def assert_can_read_iff)

text \<open>
  \<open>advances f r ip\<close>: if \<open>r\<close> returns, the new position is after \<open>ip\<close>, and everything between was
  inside the code section; \<open>r\<close> always returns or fails.
\<close>

definition advances :: "bytefile \<Rightarrow> ('a \<times> int) outcome \<Rightarrow> int \<Rightarrow> bool" where
  "advances f r ip \<longleftrightarrow> r \<noteq> None \<and> (\<forall>x ip'. r = ok (x, ip') \<longrightarrow> ip \<le> ip' \<and> in_code f ip (nat (ip' - ip)))"

lemma in_code_join: "in_code f ip (nat (a - ip)) \<Longrightarrow> in_code f a (nat (b - a)) \<Longrightarrow> ip \<le> a \<Longrightarrow> a \<le> b \<Longrightarrow>
    in_code f ip (nat (b - ip))"
  by (simp add: in_code_def)

lemma advances_ok_refl: "in_code f ip 0 \<Longrightarrow> advances f (ok (x, ip)) ip"
  by (simp add: advances_def)

lemma advances_err [simp]: "advances f (err e) ip"
  by (simp add: advances_def)

lemma advances_andthen:
  assumes r: "advances f r ip" and g: "\<And>x ip1. r = ok (x, ip1) \<Longrightarrow> in_code f ip1 0 \<Longrightarrow> advances f (g x ip1) ip1"
  shows "advances f (andthen r (\<lambda>(x, ip1). g x ip1)) ip"
proof (cases r)
  case None
  then show ?thesis using r by (simp add: advances_def)
next
  case (Some v)
  show ?thesis
  proof (cases v)
    case (Inl e)
    then show ?thesis using Some by simp
  next
    case (Inr p)
    obtain x ip1 where p: "p = (x, ip1)" by (cases p)
    have r1: "ip \<le> ip1" "in_code f ip (nat (ip1 - ip))" using r Some Inr p by (auto simp: advances_def)
    then have "in_code f ip1 0" by (simp add: in_code_def)
    then have "advances f (g x ip1) ip1" using g Some Inr p by simp
    with r1 in_code_join [of f ip ip1] show ?thesis
      using Some Inr p by (auto simp: advances_def)
  qed
qed

lemma advances_trivial: "in_code f ip 0 \<Longrightarrow> advances f (ok (x, ip)) ip"
  by (simp add: advances_def)

lemma advances_read_byte: "bytefile_ok f \<Longrightarrow> advances f (read_byte f ip) ip"
  by (auto simp: advances_def read_byte_iff)

lemma advances_read_int: "bytefile_ok f \<Longrightarrow> advances f (read_int f ip) ip"
  by (auto simp: advances_def read_int_iff)

lemma get_string_defined: "get_string f pos = ok (unat pos) \<or> (\<exists>e. get_string f pos = err e)"
  by (auto simp: get_string_def ASSERT_def)

lemma advances_read_string: "bytefile_ok f \<Longrightarrow> advances f (read_string f ip) ip"
  unfolding read_string_def
proof (intro advances_andthen advances_read_int)
  fix pos ip1 assume "in_code f ip1 0"
  then show "advances f (andthen (get_string f pos) (\<lambda>str. ok (str, ip1))) ip1"
    using get_string_defined [of f pos] by (auto intro: advances_trivial)
qed

lemma advances_read_loc: "bytefile_ok f \<Longrightarrow> advances f (read_loc f ip) ip"
  unfolding read_loc_def by (intro advances_andthen advances_read_byte advances_read_int advances_trivial)

lemma advances_read_locs: "bytefile_ok f \<Longrightarrow> in_code f ip 0 \<Longrightarrow> advances f (read_locs f n ip) ip"
proof (induction n arbitrary: ip)
  case 0
  then show ?case by (simp add: advances_trivial)
next
  case (Suc n)
  then show ?case
    by (auto intro!: advances_andthen advances_read_loc advances_trivial)
qed

lemmas advances_intros = advances_andthen advances_read_byte advances_read_int advances_read_string
  advances_read_loc advances_read_locs advances_trivial advances_err

lemma advances_operands:
  assumes "bytefile_ok f"
  shows "advances f (read1 f ip C) ip" "advances f (read2 f ip D) ip" "advances f (read_string_int f ip E) ip"
  unfolding read1_def read2_def read_string_int_def using assms by (auto intro!: advances_intros)

lemma advances_read_composed:
  "bytefile_ok f \<Longrightarrow> in_code f ip 0 \<Longrightarrow> advances f (read_composed f ip x h l) ip"
  unfolding read_composed_def
  by (auto intro: advances_operands advances_trivial split: option.splits)

lemma advances_if: "advances f a ip \<Longrightarrow> advances f b ip \<Longrightarrow> advances f (if c then a else b) ip"
  by simp

lemma advances_read_operands:
  assumes f: "bytefile_ok f" and ip: "in_code f ip 0"
  shows "advances f (read_operands f x ip) ip"
  unfolding read_operands_def Let_def
  by (intro advances_if advances_operands advances_andthen advances_read_string advances_read_int
      advances_read_locs advances_trivial advances_read_composed f; (assumption | rule ip))

lemma read_inst_advances: "bytefile_ok f \<Longrightarrow> advances f (read_inst f ip) ip"
  unfolding read_inst_def
  by (intro advances_andthen advances_read_byte advances_read_operands)

lemma read_inst_progress:
  assumes f: "bytefile_ok f" and r: "read_inst f ip = ok (i, ip')"
  shows "ip < ip' \<and> in_code f ip (nat (ip' - ip))"
proof -
  obtain x where x: "read_byte f ip = ok (x, ip + 1)" "read_operands f x (ip + 1) = ok (i, ip')"
    using r f by (auto simp: read_inst_def andthen_eq_ok read_byte_iff split: if_splits)
  have "in_code f (ip + 1) 0"
    using x(1) f by (auto simp: read_byte_iff in_code_def split: if_splits)
  then have "ip + 1 \<le> ip'"
    using advances_read_operands [OF f, of "ip + 1" x] x(2) by (simp add: advances_def)
  then show ?thesis
    using read_inst_advances [OF f, of ip] r by (simp add: advances_def)
qed

section \<open>Encoding\<close>

text \<open>The byte string of an instruction, as the compiler writes it.\<close>

definition le_bytes :: "u32 \<Rightarrow> u8 list" where
  "le_bytes w = [ucast w, ucast (drop_bit 8 w), ucast (drop_bit 16 w), ucast (drop_bit 24 w)]"

fun binop_code :: "binop \<Rightarrow> nat" where
  "binop_code Binop_Add = 1" | "binop_code Binop_Sub = 2" | "binop_code Binop_Mul = 3"
| "binop_code Binop_Div = 4" | "binop_code Binop_Rem = 5" | "binop_code Binop_LessThan = 6"
| "binop_code Binop_LessEqual = 7" | "binop_code Binop_GreaterThan = 8"
| "binop_code Binop_GreaterEqual = 9" | "binop_code Binop_Equal = 10"
| "binop_code Binop_NotEqual = 11" | "binop_code Binop_And = 12" | "binop_code Binop_Or = 13"

fun location_code :: "location \<Rightarrow> nat" where
  "location_code Location_Global = 0" | "location_code Location_Local = 1"
| "location_code Location_Arg = 2" | "location_code Location_Captured = 3"

fun patt_code :: "patt \<Rightarrow> nat" where
  "patt_code Pattern_String = 0" | "patt_code Pattern_StringTag = 1" | "patt_code Pattern_ArrayTag = 2"
| "patt_code Pattern_SExpTag = 3" | "patt_code Pattern_Boxed = 4" | "patt_code Pattern_Unboxed = 5"
| "patt_code Pattern_ClosureTag = 6"

fun lcall_code :: "lcall \<Rightarrow> nat" where
  "lcall_code LCall_Lread = 0" | "lcall_code LCall_Lwrite = 1" | "lcall_code LCall_Llength = 2"
| "lcall_code LCall_Lstring = 3"

definition encode_loc :: "location_entry \<Rightarrow> u8 list" where
  "encode_loc e = word_of_int (loc_kind e) # le_bytes (loc_index e)"

definition str_bytes :: "nat \<Rightarrow> u8 list" where
  "str_bytes p = le_bytes (word_of_nat p)"

definition op :: "nat \<Rightarrow> u8 list" where
  "op n = [word_of_nat n]"

fun encode :: "inst \<Rightarrow> u8 list" where
  "encode (Const a) = op 16 @ le_bytes a"
| "encode (String p) = op 17 @ str_bytes p"
| "encode (SExp p n) = op 18 @ str_bytes p @ le_bytes n"
| "encode StI = op 19"
| "encode StA = op 20"
| "encode (Jmp a) = op 21 @ le_bytes a"
| "encode End = op 22"
| "encode Ret = op 23"
| "encode Drop = op 24"
| "encode Dup = op 25"
| "encode Swap = op 26"
| "encode Elem = op 27"
| "encode (CJmpZ a) = op 80 @ le_bytes a"
| "encode (CJmpNZ a) = op 81 @ le_bytes a"
| "encode (Begin a b) = op 82 @ le_bytes a @ le_bytes b"
| "encode (CBegin a b) = op 83 @ le_bytes a @ le_bytes b"
| "encode (Closure a es) = op 84 @ le_bytes a @ le_bytes (word_of_nat (length es)) @ concat (map encode_loc es)"
| "encode (CallC a) = op 85 @ le_bytes a"
| "encode (Call a b) = op 86 @ le_bytes a @ le_bytes b"
| "encode (Tag p n) = op 87 @ str_bytes p @ le_bytes n"
| "encode (Array a) = op 88 @ le_bytes a"
| "encode (Fail_at a b) = op 89 @ le_bytes a @ le_bytes b"
| "encode (Line a) = op 90 @ le_bytes a"
| "encode (Binop_inst b) = op (binop_code b)"
| "encode (Ld k a) = op (32 + location_code k) @ le_bytes a"
| "encode (LdA k a) = op (48 + location_code k) @ le_bytes a"
| "encode (St k a) = op (64 + location_code k) @ le_bytes a"
| "encode (Patt p) = op (96 + patt_code p)"
| "encode (LCall_inst l) = op (112 + lcall_code l)"
| "encode (LCall_Barray a) = op 116 @ le_bytes a"
| "encode Stop = op 240"
| "encode (No_functor x) = [x]"

text \<open>The bytes that select no functor.\<close>

definition no_functor_byte :: "u8 \<Rightarrow> bool" where
  "no_functor_byte x \<longleftrightarrow> (let h = unat x div 16; l = unat x mod 16 in
     (h = 0 \<and> binop_of l = None) \<or> (h \<in> {2, 3, 4} \<and> location_of l = None) \<or> (h = 6 \<and> patt_of l = None))"

fun encodable :: "bytefile \<Rightarrow> inst \<Rightarrow> bool" where
  "encodable f (String p) = (int p < sint (stringtab_size f))"
| "encodable f (SExp p n) = (int p < sint (stringtab_size f))"
| "encodable f (Tag p n) = (int p < sint (stringtab_size f))"
| "encodable f (Closure a es) = (length es < 2147483648
     \<and> (\<forall>e\<in>set es. - 128 \<le> loc_kind e \<and> loc_kind e < 128))"
| "encodable f (No_functor x) = no_functor_byte x"
| "encodable f i = True"

fun has_bytes :: "bytefile \<Rightarrow> int \<Rightarrow> u8 list \<Rightarrow> bool" where
  "has_bytes f ip [] = in_code f ip 0"
| "has_bytes f ip (b # bs) = (in_code f ip 1 \<and> byte_at f ip = b \<and> has_bytes f (ip + 1) bs)"

lemma has_bytes_start: "has_bytes f ip bs \<Longrightarrow> in_code f ip 0"
  by (cases bs) (auto simp: in_code_def)

lemma in_code_4: "in_code f ip 1 \<Longrightarrow> in_code f (ip + 1) 1 \<Longrightarrow> in_code f (ip + 2) 1 \<Longrightarrow> in_code f (ip + 3) 1 \<Longrightarrow>
    in_code f ip 4"
  by (simp add: in_code_def)

lemma word4_le_bytes: "word4 (ucast w) (ucast (drop_bit 8 w)) (ucast (drop_bit 16 w)) (ucast (drop_bit 24 w)) = w"
proof (rule bit_word_eqI)
  fix n assume "n < LENGTH(32)"
  then consider "n < 8" | "8 \<le> n" "n < 16" | "16 \<le> n" "n < 24" | "24 \<le> n" "n < 32" by fastforce
  then show "bit (word4 (ucast w) (ucast (drop_bit 8 w)) (ucast (drop_bit 16 w)) (ucast (drop_bit 24 w))) n = bit w n"
    by cases (auto simp: word4_def bit_simps)
qed

lemma read_int_bytes:
  assumes "bytefile_ok f" "has_bytes f ip (le_bytes w @ bs)"
  shows "read_int f ip = ok (w, ip + 4)" "has_bytes f (ip + 4) bs"
proof -
  have h: "in_code f ip 1" "in_code f (ip + 1) 1" "in_code f (ip + 2) 1" "in_code f (ip + 3) 1"
    "byte_at f ip = ucast w" "byte_at f (ip + 1) = ucast (drop_bit 8 w)"
    "byte_at f (ip + 2) = ucast (drop_bit 16 w)" "byte_at f (ip + 3) = ucast (drop_bit 24 w)"
    "has_bytes f (ip + 4) bs"
    using assms(2) by (simp_all add: le_bytes_def add.assoc)
  show "read_int f ip = ok (w, ip + 4)"
    using in_code_4 [OF h(1-4)] h(5-8) by (simp add: read_int_iff [OF assms(1)] word4_le_bytes)
  show "has_bytes f (ip + 4) bs" by (rule h(9))
qed

lemma read_string_bytes:
  assumes "bytefile_ok f" "has_bytes f ip (str_bytes p @ bs)" "int p < sint (stringtab_size f)"
  shows "read_string f ip = ok (p, ip + 4)" "has_bytes f (ip + 4) bs"
proof -
  have p: "p < 2147483648" using assms(3) sint_bounds [of "stringtab_size f"] by linarith
  then have "unat (word_of_nat p :: u32) = p" by (intro unat_of_nat_u32) simp
  moreover from this p have "sint (word_of_nat p :: u32) = int p" by (subst sint_small) simp_all
  ultimately have "get_string f (word_of_nat p) = ok p" using assms(3) by (simp add: get_string_def)
  then show "read_string f ip = ok (p, ip + 4)"
    using read_int_bytes(1) [OF assms(1) assms(2) [unfolded str_bytes_def]] by (simp add: read_string_def)
  show "has_bytes f (ip + 4) bs"
    by (rule read_int_bytes(2) [OF assms(1) assms(2) [unfolded str_bytes_def]])
qed

lemma read1_bytes:
  "bytefile_ok f \<Longrightarrow> has_bytes f ip (le_bytes a) \<Longrightarrow> read1 f ip C = ok (C a, ip + 4)"
  using read_int_bytes(1) [of f ip a "[]"] by (simp add: read1_def)

lemma read2_bytes:
  assumes "bytefile_ok f" "has_bytes f ip (le_bytes a @ le_bytes b)"
  shows "read2 f ip C = ok (C a b, ip + 8)"
  using read_int_bytes [OF assms] read_int_bytes(1) [of f "ip + 4" b "[]"] assms(1)
  by (simp add: read2_def)

lemma read_string_int_bytes:
  assumes "bytefile_ok f" "has_bytes f ip (str_bytes p @ le_bytes n)" "int p < sint (stringtab_size f)"
  shows "read_string_int f ip C = ok (C p n, ip + 8)"
  using read_string_bytes [OF assms] read_int_bytes(1) [of f "ip + 4" n "[]"] assms(1)
  by (simp add: read_string_int_def)

lemma encode_loc_length [simp]: "length (encode_loc e) = 5"
  by (simp add: encode_loc_def le_bytes_def)

lemma sint_byte: "- 128 \<le> z \<Longrightarrow> z < 128 \<Longrightarrow> sint (word_of_int z :: u8) = z"
  by (simp add: signed_of_int signed_take_bit_int_eq_self)

lemma read_loc_bytes:
  assumes f: "bytefile_ok f" and h: "has_bytes f ip (encode_loc e @ bs)" and k: "- 128 \<le> loc_kind e" "loc_kind e < 128"
  shows "read_loc f ip = ok (e, ip + 5)" "has_bytes f (ip + 5) bs"
proof -
  have b: "in_code f ip 1" "byte_at f ip = word_of_int (loc_kind e)"
    "has_bytes f (ip + 1) (le_bytes (loc_index e) @ bs)"
    using h by (simp_all add: encode_loc_def)
  note r = read_int_bytes [OF f b(3)]
  show "read_loc f ip = ok (e, ip + 5)"
    using b(1,2) r(1) k by (simp add: read_loc_def read_byte_iff [OF f] sint_byte)
  show "has_bytes f (ip + 5) bs" using r(2) by (simp add: add.commute)
qed

lemma read_locs_bytes:
  assumes "bytefile_ok f" "has_bytes f ip (concat (map encode_loc es))"
    "\<forall>e\<in>set es. - 128 \<le> loc_kind e \<and> loc_kind e < 128"
  shows "read_locs f (length es) ip = ok (es, ip + 5 * int (length es))"
  using assms(2,3)
proof (induction es arbitrary: ip)
  case Nil
  then show ?case by simp
next
  case (Cons e es)
  have "has_bytes f ip (encode_loc e @ concat (map encode_loc es))" using Cons.prems(1) by simp
  note r = read_loc_bytes [OF assms(1) this]
  have "read_locs f (length es) (ip + 5) = ok (es, ip + 5 + 5 * int (length es))"
    using Cons r(2) by simp
  with r(1) Cons.prems(2) show ?case by simp
qed

lemma read_closure_bytes:
  assumes f: "bytefile_ok f" and e: "encodable f (Closure a es)"
    and h: "has_bytes f ip (le_bytes a @ le_bytes (word_of_nat (length es)) @ concat (map encode_loc es))"
  shows "andthen (read_int f ip) (\<lambda>(entry, ip1). andthen (read_int f ip1) (\<lambda>(k, ip2).
       andthen (read_locs f (nat (sint k)) ip2) (\<lambda>(captured, ip3). ok (Closure entry captured, ip3))))
    = ok (Closure a es, ip + (8 + 5 * int (length es)))"
proof -
  note 1 = read_int_bytes [OF f h]
  note 2 = read_int_bytes [OF f 1(2)]
  have l: "length es < 2147483648" using e by simp
  then have "unat (word_of_nat (length es) :: u32) = length es" by (intro unat_of_nat_u32) simp
  then have "nat (sint (word_of_nat (length es) :: u32)) = length es"
    using l by (subst sint_small) simp_all
  with 1(1) 2 read_locs_bytes [OF f 2(2)] e show ?thesis by simp
qed

lemma le_bytes_length [simp]: "length (le_bytes w) = 4" "length (str_bytes p) = 4"
  by (simp_all add: le_bytes_def str_bytes_def)

lemma closure_bytes_length [simp]: "length (concat (map encode_loc es)) = 5 * length es"
  by (induction es) simp_all

lemma unat_op: "n < 256 \<Longrightarrow> unat (word_of_nat n :: u8) = n"
  by (simp add: unat_of_nat take_bit_eq_mod)

lemma first_byte:
  assumes "bytefile_ok f" "has_bytes f ip (op n @ bs)"
  shows "read_inst f ip = read_operands f (word_of_nat n) (ip + 1)" "has_bytes f (ip + 1) bs"
  using assms by (simp_all add: op_def read_inst_def read_byte_iff)

text \<open>The decoder reads back what the encoder wrote, and stops right after it.\<close>

lemma read_inst_op:
  assumes "bytefile_ok f" "has_bytes f ip (op n @ bs)" "n < 256"
    "has_bytes f (ip + 1) bs \<Longrightarrow> in_code f (ip + 1) 0 \<Longrightarrow>
      read_operands f (word_of_nat n) (ip + 1) = ok (i, ip + 1 + int (length bs))"
  shows "read_inst f ip = ok (i, ip + int (length (op n @ bs)))"
  using first_byte [OF assms(1,2)] assms(4) has_bytes_start [of f "ip + 1" bs] by (simp add: op_def add.assoc)

lemma binop_of_code: "binop_of (binop_code b) = Some b" "binop_code b < 16"
  by (cases b; simp)+

lemma location_of_code: "location_of (location_code k) = Some k" "location_code k < 16"
  by (cases k; simp)+

lemma patt_of_code: "patt_of (patt_code p) = Some p" "patt_code p < 16"
  by (cases p; simp)+

declare binop_of.simps [simp del] location_of.simps [simp del] patt_of.simps [simp del]

lemma composed_operands:
  assumes "h \<in> {0, 2, 3, 4, 6, 7, 15}" "l < 16" "n = 16 * h + l"
  shows "read_operands f (word_of_nat n) ip = read_composed f ip (word_of_nat n) h l"
proof -
  have "n < 256" using assms by auto
  then have u: "unat (word_of_nat n :: u8) = n" by (rule unat_op)
  have "n div 16 = h" "n mod 16 = l" using assms by auto
  moreover have "n \<noteq> 16" "n \<noteq> 17" "n \<noteq> 18" "n \<noteq> 19" "n \<noteq> 20" "n \<noteq> 21" "n \<noteq> 22" "n \<noteq> 23"
    "n \<noteq> 24" "n \<noteq> 25" "n \<noteq> 26" "n \<noteq> 27" "n \<noteq> 80" "n \<noteq> 81" "n \<noteq> 82" "n \<noteq> 83"
    "n \<noteq> 84" "n \<noteq> 85" "n \<noteq> 86" "n \<noteq> 87" "n \<noteq> 88" "n \<noteq> 89" "n \<noteq> 90"
    using assms by auto
  ultimately show ?thesis by (simp add: read_operands_def u Let_def)
qed

lemma composed_none:
  "(h = 0 \<and> binop_of l = None) \<or> (h \<in> {2, 3, 4} \<and> location_of l = None) \<or> (h = 6 \<and> patt_of l = None) \<Longrightarrow>
   read_composed f ip x h l = ok (No_functor x, ip)"
  by (auto simp: read_composed_def)

lemma no_functor_operands:
  assumes "no_functor_byte x"
  shows "read_operands f x ip = ok (No_functor x, ip)"
proof -
  let ?h = "unat x div 16" and ?l = "unat x mod 16"
  have h: "?h \<in> {0, 2, 3, 4, 6, 7, 15}" using assms unfolding no_functor_byte_def Let_def by blast
  have "unat x = 16 * ?h + ?l" by simp
  then have "read_operands f x ip = read_composed f ip x ?h ?l"
    using composed_operands [OF h, of ?l "unat x" f ip] by simp
  also have "\<dots> = ok (No_functor x, ip)"
    using assms unfolding no_functor_byte_def Let_def by (rule composed_none)
  finally show ?thesis .
qed

theorem read_inst_encode:
  assumes f: "bytefile_ok f" and e: "encodable f i" and h: "has_bytes f ip (encode i)"
  shows "read_inst f ip = ok (i, ip + int (length (encode i)))"
proof (cases i)
  case (Const a)
  then show ?thesis
    using read_inst_op [OF f, of ip 16 "le_bytes a" i] h read1_bytes [OF f, of "ip + 1" a Const]
    by (simp add: read_operands_def unat_op)
next
  case (String p)
  have p: "int p < sint (stringtab_size f)" using e String by simp
  show ?thesis
    using read_inst_op [OF f, of ip 17 "str_bytes p" i] h String read_string_bytes [OF f, of "ip + 1" p "[]"] p
    by (simp add: read_operands_def unat_op)
next
  case (SExp p n)
  then show ?thesis
    using read_inst_op [OF f, of ip 18 "str_bytes p @ le_bytes n" i] h e
      read_string_int_bytes [OF f, of "ip + 1" p n SExp]
    by (simp add: read_operands_def unat_op)
next
  case (Tag p n)
  then show ?thesis
    using read_inst_op [OF f, of ip 87 "str_bytes p @ le_bytes n" i] h e
      read_string_int_bytes [OF f, of "ip + 1" p n Tag]
    by (simp add: read_operands_def unat_op)
next
  case (Begin a b)
  then show ?thesis
    using read_inst_op [OF f, of ip 82 "le_bytes a @ le_bytes b" i] h read2_bytes [OF f, of "ip + 1" a b Begin]
    by (simp add: read_operands_def unat_op)
next
  case (CBegin a b)
  then show ?thesis
    using read_inst_op [OF f, of ip 83 "le_bytes a @ le_bytes b" i] h read2_bytes [OF f, of "ip + 1" a b CBegin]
    by (simp add: read_operands_def unat_op)
next
  case (Call a b)
  then show ?thesis
    using read_inst_op [OF f, of ip 86 "le_bytes a @ le_bytes b" i] h read2_bytes [OF f, of "ip + 1" a b Call]
    by (simp add: read_operands_def unat_op)
next
  case (Fail_at a b)
  then show ?thesis
    using read_inst_op [OF f, of ip 89 "le_bytes a @ le_bytes b" i] h read2_bytes [OF f, of "ip + 1" a b Fail_at]
    by (simp add: read_operands_def unat_op)
next
  case (Closure a es)
  then show ?thesis
    using read_inst_op [OF f, of ip 84 "le_bytes a @ le_bytes (word_of_nat (length es)) @ concat (map encode_loc es)" i]
      h read_closure_bytes [OF f, of a es "ip + 1"] e
    by (simp add: read_operands_def unat_op add.assoc)
next
  case (Jmp a)
  then show ?thesis
    using read_inst_op [OF f, of ip 21 "le_bytes a" i] h read1_bytes [OF f, of "ip + 1" a Jmp]
    by (simp add: read_operands_def unat_op)
next
  case (CJmpZ a)
  then show ?thesis
    using read_inst_op [OF f, of ip 80 "le_bytes a" i] h read1_bytes [OF f, of "ip + 1" a CJmpZ]
    by (simp add: read_operands_def unat_op)
next
  case (CJmpNZ a)
  then show ?thesis
    using read_inst_op [OF f, of ip 81 "le_bytes a" i] h read1_bytes [OF f, of "ip + 1" a CJmpNZ]
    by (simp add: read_operands_def unat_op)
next
  case (CallC a)
  then show ?thesis
    using read_inst_op [OF f, of ip 85 "le_bytes a" i] h read1_bytes [OF f, of "ip + 1" a CallC]
    by (simp add: read_operands_def unat_op)
next
  case (Array a)
  then show ?thesis
    using read_inst_op [OF f, of ip 88 "le_bytes a" i] h read1_bytes [OF f, of "ip + 1" a Array]
    by (simp add: read_operands_def unat_op)
next
  case (Line a)
  then show ?thesis
    using read_inst_op [OF f, of ip 90 "le_bytes a" i] h read1_bytes [OF f, of "ip + 1" a Line]
    by (simp add: read_operands_def unat_op)
next
  case (Ld k a)
  then show ?thesis
    using read_inst_op [OF f, of ip "32 + location_code k" "le_bytes a" i] h location_of_code [of k]
      read1_bytes [OF f, of "ip + 1" a "Ld k"] composed_operands [of 2 "location_code k"]
    by (simp add: read_composed_def)
next
  case (LdA k a)
  then show ?thesis
    using read_inst_op [OF f, of ip "48 + location_code k" "le_bytes a" i] h location_of_code [of k]
      read1_bytes [OF f, of "ip + 1" a "LdA k"] composed_operands [of 3 "location_code k"]
    by (simp add: read_composed_def)
next
  case (St k a)
  then show ?thesis
    using read_inst_op [OF f, of ip "64 + location_code k" "le_bytes a" i] h location_of_code [of k]
      read1_bytes [OF f, of "ip + 1" a "St k"] composed_operands [of 4 "location_code k"]
    by (simp add: read_composed_def)
next
  case (Binop_inst b)
  then show ?thesis
    using read_inst_op [OF f, of ip "binop_code b" "[]" i] h binop_of_code [of b]
      composed_operands [of 0 "binop_code b"]
    by (simp add: read_composed_def)
next
  case (Patt p)
  then show ?thesis
    using read_inst_op [OF f, of ip "96 + patt_code p" "[]" i] h patt_of_code [of p]
      composed_operands [of 6 "patt_code p"]
    by (simp add: read_composed_def)
next
  case (LCall_inst l)
  then show ?thesis
    using read_inst_op [OF f, of ip "112 + lcall_code l" "[]" i] h
      composed_operands [of 7 "lcall_code l"]
    by (cases l) (simp_all add: read_composed_def)
next
  case (LCall_Barray a)
  then show ?thesis
    using read_inst_op [OF f, of ip 116 "le_bytes a" i] h read1_bytes [OF f, of "ip + 1" a LCall_Barray]
      composed_operands [of 7 4]
    by (simp add: read_composed_def)
next
  case Stop
  then show ?thesis
    using read_inst_op [OF f, of ip 240 "[]" i] h composed_operands [of 15 0]
    by (simp add: read_composed_def)
next
  case (No_functor x)
  then show ?thesis
    using h e no_functor_operands [of x f "ip + 1"] by (simp add: read_inst_def read_byte_iff [OF f])
qed (use read_inst_op [OF f, of ip _ "[]" i] h in \<open>simp_all add: read_operands_def unat_op\<close>)

end
