(* ===== verification/ControlFlow.thy ===== *)
theory ControlFlow
  imports Instructions
begin

text \<open>
  tools/functors/successors.h, and the first loop of \<open>verify_reachable_instructions\<close> in
  tools/verify.cpp (lines 111-228): it follows successors from the entry points over a queue,
  with one bit per byte of the code section, and checks that every call and closure names the
  start of a function. Positions are offsets from \<open>code_ptr\<close>. A \<open>vector<bool>\<close> is not
  bounds-checked, and a target is dereferenced as it is: outside the file both are the error
  \<open>OutOfBounds\<close>.
\<close>

section \<open>Successors\<close>

text \<open>An instruction to which no functor is applied leaves the vector empty.\<close>

fun successors :: "inst \<Rightarrow> int \<Rightarrow> int list" where
  "successors (Jmp target) next = [sint target]"
| "successors (CJmpNZ target) next = [sint target, next]"
| "successors (CJmpZ target) next = [next, sint target]"
| "successors (Call target args) next = [sint target, next]"
| "successors (Closure offset captured) next = [sint offset, next]"
| "successors Ret next = []"
| "successors End next = []"
| "successors (Fail_at line col) next = []"
| "successors Stop next = []"
| "successors (No_functor x) next = []"
| "successors i next = [next]"

section \<open>The reachability loop\<close>

definition peek :: "bytefile \<Rightarrow> int \<Rightarrow> u8 outcome" where
  "peek f ip = (if 0 \<le> int (code_off f) + ip \<and> int (code_off f) + ip < int (length (buffer f))
     then ok (byte_at f ip) else err OutOfBounds)"

record closure_entry =
  ce_offset :: int
  ce_captured :: nat

type_synonym begins = "int list \<times> closure_entry list"

fun push_call_offset :: "bytefile \<Rightarrow> inst \<Rightarrow> begins \<Rightarrow> begins outcome" where
  "push_call_offset f (Call offset args) (bs, cs) =
     andthen (peek f (sint offset)) (\<lambda>b.
       if b \<noteq> opcode_Begin then err (Fail ''Call offset does not point to BEGIN'')
       else ok (bs @ [sint offset], cs))"
| "push_call_offset f (Closure offset captured) (bs, cs) =
     andthen (peek f (sint offset)) (\<lambda>b.
       if b \<noteq> opcode_CBegin \<and> b \<noteq> opcode_Begin
       then err (Fail ''Closure offset does not point to BEGIN or CBEGIN'')
       else ok (bs, cs @ [\<lparr>ce_offset = sint offset, ce_captured = length captured\<rparr>]))"
| "push_call_offset f i begins = ok begins"

text \<open>\<open>if (!visited[s]) { visited[s] = true; q.push (s); }\<close> for each successor.\<close>

fun visit :: "int list \<Rightarrow> int list \<times> bool list \<Rightarrow> (int list \<times> bool list) outcome" where
  "visit [] st = ok st"
| "visit (p # ps) (q, visited) =
     (if \<not> (0 \<le> p \<and> p < int (length visited)) then err OutOfBounds
      else if visited ! nat p then visit ps (q, visited)
      else visit ps (q @ [p], visited[nat p := True]))"

partial_function (option) reach_loop ::
    "bytefile \<Rightarrow> int list \<times> bool list \<Rightarrow> begins \<Rightarrow> (begins \<times> bool list) outcome" where
  "reach_loop f st begins =
     (case st of (q, visited) \<Rightarrow> (case q of
        [] \<Rightarrow> ok (begins, visited)
      | ip # q' \<Rightarrow>
          andthen (read_inst f ip) (\<lambda>(i, next).
          andthen (push_call_offset f i begins) (\<lambda>begins'.
          andthen (visit (successors i next) (q', visited)) (\<lambda>st'. reach_loop f st' begins')))))"

text \<open>The entry points are queued and marked without a test, also when they repeat.\<close>

fun init_visited :: "int list \<Rightarrow> bool list \<Rightarrow> bool list outcome" where
  "init_visited [] visited = ok visited"
| "init_visited (p # ps) visited =
     (if \<not> (0 \<le> p \<and> p < int (length visited)) then err OutOfBounds
      else init_visited ps (visited[nat p := True]))"

definition reachable_instructions :: "bytefile \<Rightarrow> int list \<Rightarrow> (begins \<times> bool list) outcome" where
  "reachable_instructions f entrypoints =
     andthen (init_visited entrypoints (replicate (nat (get_code_size f)) False)) (\<lambda>visited.
       reach_loop f (entrypoints, visited) (entrypoints, []))"

section \<open>Control flow as a relation\<close>

inductive flow :: "bytefile \<Rightarrow> int \<Rightarrow> int \<Rightarrow> bool" for f :: bytefile where
  flow: "read_inst f ip = ok (i, next) \<Longrightarrow> s \<in> set (successors i next) \<Longrightarrow> flow f ip s"

inductive_simps flow_iff: "flow f ip s"

text \<open>What the loop checks of one instruction.\<close>

definition well_targeted :: "bytefile \<Rightarrow> inst \<Rightarrow> bool" where
  "well_targeted f i = (case i of
     Call offset args \<Rightarrow> peek f (sint offset) = ok opcode_Begin
   | Closure offset captured \<Rightarrow> peek f (sint offset) \<in> {ok opcode_Begin, ok opcode_CBegin}
   | _ \<Rightarrow> True)"

lemma push_call_offset_ok: "push_call_offset f i b = ok b' \<Longrightarrow> well_targeted f i"
  by (cases i; cases b) (auto simp: well_targeted_def andthen_eq_ok split: if_splits)

lemma push_call_offset_defined: "push_call_offset f i b \<noteq> None"
  by (cases i; cases b) (auto simp: peek_def)

definition vset :: "bool list \<Rightarrow> int set" where
  "vset visited = {p. 0 \<le> p \<and> p < int (length visited) \<and> visited ! nat p}"

lemma visit_ok:
  assumes "visit ps (q, vis) = ok (q', vis')"
  shows "length vis' = length vis \<and> vset vis' = vset vis \<union> set ps
    \<and> set q \<subseteq> set q' \<and> vset vis' \<subseteq> vset vis \<union> set q'
    \<and> set q' \<subseteq> set q \<union> vset vis'"
  using assms
proof (induction ps arbitrary: q vis)
  case Nil
  then show ?case by simp
next
  case (Cons p ps)
  then have p: "0 \<le> p" "p < int (length vis)" by (auto split: if_splits)
  show ?case
  proof (cases "vis ! nat p")
    case True
    then have "p \<in> vset vis" using p by (simp add: vset_def)
    moreover have "visit ps (q, vis) = ok (q', vis')" using Cons.prems p True by simp
    from Cons.IH [OF this] calculation show ?thesis by auto
  next
    case False
    have "vset (vis[nat p := True]) = insert p (vset vis)"
      using p by (auto simp: vset_def nth_list_update)
    moreover have "visit ps (q @ [p], vis[nat p := True]) = ok (q', vis')" using Cons.prems p False by simp
    from Cons.IH [OF this] calculation show ?thesis by auto
  qed
qed

text \<open>The measure of the loop: queued positions, and two for each bit that is not set.\<close>

definition unvisited :: "bool list \<Rightarrow> nat" where
  "unvisited vis = length (filter Not vis)"

lemma unvisited_update: "i < length vis \<Longrightarrow> \<not> vis ! i \<Longrightarrow> Suc (unvisited (vis[i := True])) = unvisited vis"
proof (induction vis arbitrary: i)
  case (Cons v vis)
  then show ?case by (cases i) (auto simp: unvisited_def)
qed simp

lemma visit_measure:
  "visit ps (q, vis) = ok (q', vis') \<Longrightarrow> length q' + 2 * unvisited vis' \<le> length q + 2 * unvisited vis"
proof (induction ps arbitrary: q vis)
  case (Cons p ps)
  then have p: "0 \<le> p" "p < int (length vis)" by (auto split: if_splits)
  show ?case
  proof (cases "vis ! nat p")
    case False
    then have "Suc (unvisited (vis[nat p := True])) = unvisited vis"
      using p by (intro unvisited_update) auto
    moreover have "visit ps (q @ [p], vis[nat p := True]) = ok (q', vis')" using Cons.prems p False by simp
    from Cons.IH [OF this] have "length q' + 2 * unvisited vis' \<le> Suc (length q) + 2 * unvisited (vis[nat p := True])"
      by simp
    ultimately show ?thesis by linarith
  qed (use Cons p in auto)
qed simp

lemma visit_defined: "visit ps st \<noteq> None"
  by (induction ps st rule: visit.induct) auto

lemma read_inst_defined: "bytefile_ok f \<Longrightarrow> read_inst f ip \<noteq> None"
  using read_inst_advances [of f ip] by (simp add: advances_def)

lemma reach_loop_terminates:
  assumes f: "bytefile_ok f"
  shows "reach_loop f (q, vis) begins \<noteq> None"
proof (induction "length q + 2 * unvisited vis" arbitrary: q vis begins rule: less_induct)
  case less
  show ?case
  proof (cases q)
    case Nil
    then show ?thesis by (simp add: reach_loop.simps)
  next
    case (Cons ip q1)
    have step: "reach_loop f st begins' \<noteq> None" if "visit ps (q1, vis) = ok st" for ps st begins'
    proof -
      obtain q2 vis2 where st: "st = (q2, vis2)" by (cases st)
      then have "length q2 + 2 * unvisited vis2 < length q + 2 * unvisited vis"
        using visit_measure [of ps q1 vis q2 vis2] that Cons by simp
      then show ?thesis using less st by blast
    qed
    have "andthen (push_call_offset f i begins) (\<lambda>begins'.
        andthen (visit (successors i nx) (q1, vis)) (\<lambda>st'. reach_loop f st' begins')) \<noteq> None" for i nx
      by (intro andthen_defined push_call_offset_defined visit_defined step)
    then have "andthen (read_inst f ip) (\<lambda>p. case p of (i, nx) \<Rightarrow> andthen (push_call_offset f i begins) (\<lambda>begins'.
        andthen (visit (successors i nx) (q1, vis)) (\<lambda>st'. reach_loop f st' begins'))) \<noteq> None"
      by (intro andthen_defined read_inst_defined [OF f]) (simp only: split_paired_all prod.case not_False_eq_True)
    then show ?thesis
      unfolding Cons by (subst reach_loop.simps) (simp only: prod.case list.case not_False_eq_True)
  qed
qed

text \<open>
  The loop's invariant: what is marked is either waiting in the queue or done, that is, decoded,
  checked, and with its successors marked.
\<close>

definition settled :: "bytefile \<Rightarrow> bool list \<Rightarrow> int \<Rightarrow> bool" where
  "settled f vis ip \<longleftrightarrow> (\<exists>i next. read_inst f ip = ok (i, next) \<and> well_targeted f i
     \<and> set (successors i next) \<subseteq> vset vis)"

definition reach_inv :: "bytefile \<Rightarrow> int list \<Rightarrow> bool list \<Rightarrow> bool" where
  "reach_inv f q vis \<longleftrightarrow> set q \<subseteq> vset vis \<and> (\<forall>ip\<in>vset vis. ip \<in> set q \<or> settled f vis ip)"

lemma settled_mono: "settled f vis ip \<Longrightarrow> vset vis \<subseteq> vset vis' \<Longrightarrow> settled f vis' ip"
  by (auto simp: settled_def)

lemma reach_inv_step:
  assumes inv: "reach_inv f (ip # q) vis" and r: "read_inst f ip = ok (i, next)" and w: "well_targeted f i"
    and v: "visit (successors i next) (q, vis) = ok (q', vis')"
  shows "reach_inv f q' vis'"
proof -
  have vs: "vset vis' = vset vis \<union> set (successors i next)" "set q \<subseteq> set q'"
    "vset vis' \<subseteq> vset vis \<union> set q'" "set q' \<subseteq> set q \<union> vset vis'"
    using visit_ok [OF v] by blast+
  have "settled f vis' ip" using r w vs(1) by (auto simp: settled_def)
  moreover have "settled f vis' p" if "p \<in> vset vis" "p \<notin> set (ip # q)" for p
    using inv that settled_mono [of f vis p vis'] vs(1) by (auto simp: reach_inv_def)
  ultimately have "\<forall>p\<in>vset vis'. p \<in> set q' \<or> settled f vis' p"
    using vs by auto
  moreover have "set q' \<subseteq> vset vis'" using inv vs by (auto simp: reach_inv_def)
  ultimately show ?thesis by (simp add: reach_inv_def)
qed

lemma reach_loop_settles:
  assumes "reach_loop f (q, vis) begins = ok (begins', vis')" "reach_inv f q vis"
  shows "vset vis \<subseteq> vset vis' \<and> (\<forall>ip\<in>vset vis'. settled f vis' ip)"
  using assms
proof (induction "length q + 2 * unvisited vis" arbitrary: q vis begins rule: less_induct)
  case less
  show ?case
  proof (cases q)
    case Nil
    with less.prems show ?thesis by (auto simp: reach_loop.simps reach_inv_def)
  next
    case (Cons ip q1)
    from less.prems(1) obtain i nx b1 q2 vis2 where
      r: "read_inst f ip = ok (i, nx)" "push_call_offset f i begins = ok b1"
      and v: "visit (successors i nx) (q1, vis) = ok (q2, vis2)"
      and l: "reach_loop f (q2, vis2) b1 = ok (begins', vis')"
      unfolding Cons by (subst (asm) reach_loop.simps) (auto simp: andthen_eq_ok)
    have "length q2 + 2 * unvisited vis2 < length q + 2 * unvisited vis"
      using visit_measure [OF v] Cons by simp
    moreover have "reach_inv f q2 vis2"
      using reach_inv_step [OF _ r(1) push_call_offset_ok [OF r(2)] v] less.prems(2) Cons by simp
    ultimately have "vset vis2 \<subseteq> vset vis' \<and> (\<forall>ip\<in>vset vis'. settled f vis' ip)"
      using less.hyps l by blast
    then show ?thesis using visit_ok [OF v] by auto
  qed
qed

lemma init_visited_length: "init_visited ps vis = ok vis' \<Longrightarrow> length vis' = length vis"
  by (induction ps arbitrary: vis) (auto split: if_splits)

lemma init_visited_vset:
  "init_visited ps vis = ok vis' \<Longrightarrow> vset vis' = vset vis \<union> set ps"
proof (induction ps arbitrary: vis)
  case (Cons p ps)
  then have p: "0 \<le> p" "p < int (length vis)" by (auto split: if_splits)
  then have "vset (vis[nat p := True]) = insert p (vset vis)"
    by (auto simp: vset_def nth_list_update)
  with Cons p show ?case by auto
qed simp

lemma init_visited_defined: "init_visited ps vis \<noteq> None"
  by (induction ps arbitrary: vis) auto

text \<open>The result covers everything that control flow can reach from the entry points.\<close>

lemma reachable_settled:
  assumes r: "reachable_instructions f es = ok (begins, vis)" and p: "(flow f)\<^sup>*\<^sup>* e p" "e \<in> set es"
  shows "settled f vis p"
proof -
  let ?z = "replicate (nat (get_code_size f)) False"
  obtain vis0 where 0: "init_visited es ?z = ok vis0" "reach_loop f (es, vis0) (es, []) = ok (begins, vis)"
    using r by (auto simp: reachable_instructions_def andthen_eq_ok)
  have "vset ?z = {}" by (auto simp: vset_def)
  then have v0: "vset vis0 = set es" using init_visited_vset [OF 0(1)] by simp
  then have "reach_inv f es vis0" by (auto simp: reach_inv_def)
  from reach_loop_settles [OF 0(2) this] v0
  have s: "set es \<subseteq> vset vis" "\<forall>ip\<in>vset vis. settled f vis ip" by auto
  from p(1) have "p \<in> vset vis"
  proof (induction rule: rtranclp_induct)
    case base
    then show ?case using s(1) p(2) by blast
  next
    case (step a b)
    then obtain i nx where "read_inst f a = ok (i, nx)" "set (successors i nx) \<subseteq> vset vis"
      using s(2) by (auto simp: settled_def)
    with step(2) show ?case by (auto simp: flow_iff)
  qed
  then show ?thesis using s(2) by blast
qed

lemma reachable_instructions_defined: "bytefile_ok f \<Longrightarrow> reachable_instructions f es \<noteq> None"
  unfolding reachable_instructions_def
  by (intro andthen_defined init_visited_defined reach_loop_terminates)

end
