(* ===== verification/StackDepth.thy ===== *)
theory StackDepth
  imports Instructions
begin

text \<open>
  tools/functors/stack_depth.h: what the verifier assumes that each instruction does to the
  stack. The fields of \<open>StackLayout\<close> are C \<open>int\<close>s; comparisons read them as signed. The vector
  \<open>jumps\<close>, which all layouts of one call share by a pointer, is a state of its own.
\<close>

section \<open>The layout\<close>

record stack_layout =
  sl_globals :: u32
  sl_locals :: u32
  sl_args :: u32
  sl_captured :: u32
  sl_is_closure :: bool

definition smax :: "u32 \<Rightarrow> u32 \<Rightarrow> u32" where
  "smax a b = (if sint a < sint b then b else a)"

definition load_location :: "stack_layout \<Rightarrow> location_entry \<Rightarrow> stack_layout outcome" where
  "load_location lay location = (let kind = loc_kind location; index = loc_index location in
     if kind = 0 then
       (if sint index > sint (sl_globals lay) then err (Fail ''Memory access failed: G is out of section'')
        else ok lay)
     else if kind = 1 then
       (if sint index > sint (sl_locals lay) then err (Fail ''Memory access failed: L is out of frame'')
        else ok lay)
     else if kind = 2 then ok (lay\<lparr>sl_args := smax (sl_args lay) (1 + index)\<rparr>)
     else if kind = 3 then
       (if \<not> sl_is_closure lay then err (Fail ''Memory access failed: C is invalid out of closure'')
        else ok (lay\<lparr>sl_captured := smax (sl_captured lay) (1 + index)\<rparr>))
     else ok lay)"

fun kind_of_location :: "location \<Rightarrow> int" where
  "kind_of_location Location_Global = 0"
| "kind_of_location Location_Local = 1"
| "kind_of_location Location_Arg = 2"
| "kind_of_location Location_Captured = 3"

definition grow :: "u32 \<Rightarrow> stack_layout \<Rightarrow> stack_layout" where
  "grow n lay = lay\<lparr>sl_locals := sl_locals lay + n\<rparr>"

fun stack_depth :: "inst \<Rightarrow> stack_layout \<times> u32 list \<Rightarrow> (stack_layout \<times> u32 list) outcome" where
  "stack_depth (Binop_inst b) (lay, js) = ok (grow (- 1) lay, js)"
| "stack_depth (Const n) (lay, js) = ok (grow 1 lay, js)"
| "stack_depth (String p) (lay, js) = ok (grow 1 lay, js)"
| "stack_depth (SExp p n) (lay, js) = ok (grow 1 lay, js)"
| "stack_depth Dup (lay, js) = ok (grow 1 lay, js)"
| "stack_depth (Ld k index) (lay, js) =
     andthen (load_location lay \<lparr>loc_kind = kind_of_location k, loc_index = index\<rparr>) (\<lambda>lay. ok (grow 1 lay, js))"
| "stack_depth (LdA k index) (lay, js) =
     andthen (load_location lay \<lparr>loc_kind = kind_of_location k, loc_index = index\<rparr>) (\<lambda>lay. ok (grow 2 lay, js))"
| "stack_depth (St k index) (lay, js) =
     andthen (load_location lay \<lparr>loc_kind = kind_of_location k, loc_index = index\<rparr>) (\<lambda>lay. ok (lay, js))"
| "stack_depth StI (lay, js) = ok (grow (- 1) lay, js)"
| "stack_depth StA (lay, js) = ok (grow (- 2) lay, js)"
| "stack_depth Drop (lay, js) = ok (grow (- 1) lay, js)"
| "stack_depth Elem (lay, js) = ok (grow (- 1) lay, js)"
| "stack_depth (Jmp target) (lay, js) = ok (lay, js @ [target])"
| "stack_depth (CJmpZ target) (lay, js) = ok (grow (- 1) lay, js @ [target])"
| "stack_depth (CJmpNZ target) (lay, js) = ok (grow (- 1) lay, js @ [target])"
| "stack_depth (Begin args_count locals_count) (lay, js) =
     ok (lay\<lparr>sl_args := args_count, sl_is_closure := False, sl_locals := locals_count, sl_captured := 0\<rparr>, js)"
| "stack_depth (CBegin args_count locals_count) (lay, js) =
     ok (lay\<lparr>sl_args := args_count, sl_is_closure := True, sl_locals := locals_count, sl_captured := 0\<rparr>, js)"
| "stack_depth (Closure offset capture) (lay, js) =
     andthen (for_each (\<lambda>loc lay. load_location lay loc) capture lay) (\<lambda>lay. ok (grow 1 lay, js))"
| "stack_depth (Call offset args) (lay, js) = ok (grow 1 lay, js)"
| "stack_depth (Patt Pattern_String) (lay, js) = ok (grow (- 1) lay, js)"
| "stack_depth (LCall_inst LCall_Lread) (lay, js) = ok (grow 1 lay, js)"
| "stack_depth (LCall_Barray n) (lay, js) = ok (grow 1 lay, js)"
| "stack_depth i (lay, js) = ok (lay, js)"

section \<open>Facts\<close>

fun jump_targets :: "inst \<Rightarrow> u32 list" where
  "jump_targets (Jmp target) = [target]"
| "jump_targets (CJmpZ target) = [target]"
| "jump_targets (CJmpNZ target) = [target]"
| "jump_targets i = []"

lemma load_location_defined: "load_location lay loc \<noteq> None"
  by (auto simp: load_location_def Let_def)

text \<open>What the check of an index admits: one more than the section or the frame holds.\<close>

lemma load_location_ok:
  "load_location lay loc = ok lay' \<Longrightarrow>
     (loc_kind loc = 0 \<longrightarrow> sint (loc_index loc) \<le> sint (sl_globals lay))
     \<and> (loc_kind loc = 1 \<longrightarrow> sint (loc_index loc) \<le> sint (sl_locals lay))
     \<and> (loc_kind loc = 3 \<longrightarrow> sl_is_closure lay)
     \<and> sl_globals lay' = sl_globals lay \<and> sl_locals lay' = sl_locals lay
     \<and> sl_is_closure lay' = sl_is_closure lay"
  by (auto simp: load_location_def Let_def split: if_splits)

lemma load_locations_defined: "for_each (\<lambda>loc lay. load_location lay loc) locs lay \<noteq> None"
proof (induction locs arbitrary: lay)
  case (Cons loc locs)
  show ?case
    unfolding for_each.simps by (rule andthen_defined [OF load_location_defined Cons])
qed simp

lemma stack_depth_defined: "stack_depth i st \<noteq> None"
proof -
  have "\<exists>y. andthen r (\<lambda>lay. ok (g lay)) = Some y" if "r \<noteq> None"
    for r :: "stack_layout outcome" and g :: "stack_layout \<Rightarrow> stack_layout \<times> u32 list"
    using andthen_defined [OF that, of "\<lambda>lay. ok (g lay)"] by simp
  note this [OF load_location_defined] this [OF load_locations_defined]
  then show ?thesis
    by (induction i st rule: stack_depth.induct) simp_all
qed

lemma stack_depth_jumps: "stack_depth i (lay, js) = ok (lay', js') \<Longrightarrow> js' = js @ jump_targets i"
  by (induction i "(lay, js)" rule: stack_depth.induct) (auto simp: andthen_eq_ok)

lemma stack_depth_layout: "stack_depth i (lay, js) = ok (lay', js') \<Longrightarrow> stack_depth i (lay, js2) = ok (lay', js2 @ jump_targets i)"
  by (induction i "(lay, js)" rule: stack_depth.induct) (auto simp: andthen_eq_ok)

end
