(* ===== verification/Verifier.thy ===== *)
theory Verifier
  imports ControlFlow StackDepth
begin

text \<open>
  The rest of tools/verify.cpp: \<open>verify_function\<close>, \<open>verify_calls\<close> and the second half of
  \<open>verify_reachable_instructions\<close>. An \<open>int\<close> that the code leaves uninitialised is a parameter.
\<close>

section \<open>verify\_function\<close>

text \<open>The first loop looks for the END of the body: \<open>size\<close> counts the bytes up to and with it.\<close>

partial_function (option) function_size :: "bytefile \<Rightarrow> int \<Rightarrow> int \<Rightarrow> nat \<Rightarrow> nat outcome" where
  "function_size f begin ip sz =
     andthen (peek f ip) (\<lambda>b. if b = opcode_End then ok sz else
       andthen (read_inst f ip) (\<lambda>(i, ip'). andthen (peek f ip') (\<lambda>b'.
         if b' = opcode_Begin \<or> b' = opcode_CBegin then err (Fail ''Nested begin'')
         else function_size f begin ip' (nat (ip' - begin + 1)))))"

fun visit_within ::
    "int \<Rightarrow> nat \<Rightarrow> stack_layout \<Rightarrow> int list \<Rightarrow> (int \<times> stack_layout) list \<times> bool list
      \<Rightarrow> (int \<times> stack_layout) list \<times> bool list" where
  "visit_within begin sz lay [] st = st"
| "visit_within begin sz lay (s # ss) (q, visited) =
     (if begin \<le> s \<and> s < begin + int sz then
        (if \<not> visited ! nat (s - begin)
         then visit_within begin sz lay ss (q @ [(s, lay)], visited[nat (s - begin) := True])
         else visit_within begin sz lay ss (q, visited))
      else visit_within begin sz lay ss (q, visited))"

partial_function (option) function_loop ::
    "bytefile \<Rightarrow> int \<Rightarrow> nat \<Rightarrow> (int \<times> stack_layout) list \<times> bool list \<Rightarrow> u32 list \<Rightarrow> u32 list outcome" where
  "function_loop f begin sz st jumps =
     (case st of (q, visited) \<Rightarrow> (case q of
        [] \<Rightarrow> ok jumps
      | (ip, lay) # q' \<Rightarrow>
          andthen (read_inst f ip) (\<lambda>(i, next).
          andthen (stack_depth i (lay, jumps)) (\<lambda>(lay', jumps').
            if sint (sl_locals lay') < 0 then err (Fail ''Stack underflow'')
            else function_loop f begin sz (visit_within begin sz lay' (successors i next) (q', visited)) jumps'))))"

definition function_layout :: "bytefile \<Rightarrow> u32 \<Rightarrow> stack_layout" where
  "function_layout f captured = \<lparr>sl_globals = global_area_size f, sl_locals = 0, sl_args = 0,
     sl_captured = captured, sl_is_closure = (0 \<le> sint captured)\<rparr>"

text \<open>
  The variable \<open>layout\<close> of the loop hides the one of the function, whose \<open>args\<close> is what the
  function returns.
\<close>

definition verify_function :: "bytefile \<Rightarrow> int \<Rightarrow> u32 \<Rightarrow> u32 outcome" where
  "verify_function f begin captured =
     (let layout = function_layout f captured in
      andthen (function_size f begin begin 2) (\<lambda>sz.
      andthen (function_loop f begin sz ([(begin, layout)], (replicate sz False)[0 := True]) []) (\<lambda>jumps.
        if \<exists>j\<in>set jumps. sint j < begin \<or> begin + int sz < sint j
        then err (Fail ''Jump out of the function body'')
        else ok (sl_args layout))))"

section \<open>verify\_calls\<close>

partial_function (option) calls_size :: "bytefile \<Rightarrow> int \<Rightarrow> int \<Rightarrow> nat \<Rightarrow> nat outcome" where
  "calls_size f begin ip sz =
     andthen (peek f ip) (\<lambda>b. if b = opcode_End then ok sz else
       andthen (read_inst f ip) (\<lambda>(i, ip'). calls_size f begin ip' (nat (ip' - begin))))"

text \<open>
  \<open>GetCallOffset\<close> is specialised for \<open>char *\<close> and the reader passes \<open>const char *\<close>, so the variable
  \<open>offset\<close> keeps the value it was not given. \<open>min_args_count.at\<close> throws when there is no entry.
\<close>

definition check_call :: "(u32 \<Rightarrow> u32 option) \<Rightarrow> u32 \<Rightarrow> u8 \<Rightarrow> stack_layout \<Rightarrow> unit outcome" where
  "check_call min_args_count offset b lay =
     (if b = opcode_Call then
        (case min_args_count offset of
           None \<Rightarrow> err (Fail ''std::out_of_range'')
         | Some n \<Rightarrow> if sint (sl_locals lay) < sint n then err (Fail ''Stack underflow'') else ok ())
      else ok ())"

partial_function (option) calls_loop ::
    "bytefile \<Rightarrow> int \<Rightarrow> nat \<Rightarrow> (u32 \<Rightarrow> u32 option) \<Rightarrow> u32 \<Rightarrow> (int \<times> stack_layout) list \<times> bool list
      \<Rightarrow> u32 list \<Rightarrow> unit outcome" where
  "calls_loop f begin sz min_args_count offset st jumps =
     (case st of (q, visited) \<Rightarrow> (case q of
        [] \<Rightarrow> ok ()
      | (ip, lay) # q' \<Rightarrow>
          andthen (peek f ip) (\<lambda>b.
          andthen (read_inst f ip) (\<lambda>(i, next).
          andthen (check_call min_args_count offset b lay) (\<lambda>_.
          andthen (stack_depth i (lay, jumps)) (\<lambda>(lay', jumps').
            calls_loop f begin sz min_args_count offset
              (visit_within begin sz lay' (successors i next) (q', visited)) jumps'))))))"

definition calls_layout :: "bytefile \<Rightarrow> stack_layout" where
  "calls_layout f = \<lparr>sl_globals = global_area_size f, sl_locals = 0, sl_args = 0,
     sl_captured = 0, sl_is_closure = False\<rparr>"

definition verify_calls :: "bytefile \<Rightarrow> int \<Rightarrow> (u32 \<Rightarrow> u32 option) \<Rightarrow> u32 \<Rightarrow> unit outcome" where
  "verify_calls f begin min_args_count offset =
     andthen (calls_size f begin begin 1) (\<lambda>sz.
       calls_loop f begin sz min_args_count offset
         ([(begin, calls_layout f)], (replicate sz False)[0 := True]) [])"

section \<open>verify\_reachable\_instructions\<close>

definition verify_reachable_instructions :: "bytefile \<Rightarrow> int list \<Rightarrow> u32 \<Rightarrow> unit outcome" where
  "verify_reachable_instructions f entrypoints offset =
     andthen (reachable_instructions f entrypoints) (\<lambda>((begins, cbegins), visited).
     andthen (for_each (\<lambda>b m. andthen (verify_function f b (- 1)) (\<lambda>n. ok (m(word_of_int b \<mapsto> n))))
       begins Map.empty) (\<lambda>min1.
     andthen (for_each (\<lambda>cl m. andthen (verify_function f (ce_offset cl) (word_of_nat (ce_captured cl)))
         (\<lambda>n. ok (m(word_of_int (ce_offset cl) \<mapsto> n)))) cbegins min1) (\<lambda>min_args_count.
     andthen (for_each (\<lambda>b _. verify_calls f b min_args_count offset) begins ()) (\<lambda>_.
       for_each (\<lambda>cl _. verify_calls f (ce_offset cl) min_args_count offset) cbegins ()))))"

section \<open>Every call returns\<close>

lemma peek_defined: "peek f ip \<noteq> None"
  by (simp add: peek_def)

lemma room_less:
  assumes "bytefile_ok f" "read_inst f ip = ok (i, ip')"
  shows "nat (int (length (buffer f)) - ip') < nat (int (length (buffer f)) - ip)"
  using read_inst_progress [OF assms] by (auto simp: in_code_def)

lemma function_size_defined:
  assumes f: "bytefile_ok f"
  shows "function_size f begin ip sz \<noteq> None"
proof (induction "nat (int (length (buffer f)) - ip)" arbitrary: ip sz rule: less_induct)
  case less
  have "function_size f begin ip' sz' \<noteq> None" if "read_inst f ip = ok (i, ip')" for i ip' sz'
    using less room_less [OF f that] by blast
  then have "andthen (read_inst f ip) (\<lambda>(i, ip'). andthen (peek f ip') (\<lambda>b'.
      if b' = opcode_Begin \<or> b' = opcode_CBegin then err (Fail ''Nested begin'')
      else function_size f begin ip' (nat (ip' - begin + 1)))) \<noteq> None"
    by (intro andthen_pair_defined read_inst_defined [OF f] andthen_defined [OF peek_defined]) simp
  then have "andthen (peek f ip) (\<lambda>b. if b = opcode_End then ok sz else
      andthen (read_inst f ip) (\<lambda>(i, ip'). andthen (peek f ip') (\<lambda>b'.
        if b' = opcode_Begin \<or> b' = opcode_CBegin then err (Fail ''Nested begin'')
        else function_size f begin ip' (nat (ip' - begin + 1))))) \<noteq> None"
    by (intro andthen_defined peek_defined) simp
  then show ?case by (subst function_size.simps)
qed

lemma calls_size_defined:
  assumes f: "bytefile_ok f"
  shows "calls_size f begin ip sz \<noteq> None"
proof (induction "nat (int (length (buffer f)) - ip)" arbitrary: ip sz rule: less_induct)
  case less
  have "calls_size f begin ip' sz' \<noteq> None" if "read_inst f ip = ok (i, ip')" for i ip' sz'
    using less room_less [OF f that] by blast
  then have "andthen (read_inst f ip) (\<lambda>(i, ip'). calls_size f begin ip' (nat (ip' - begin))) \<noteq> None"
    by (intro andthen_defined read_inst_defined [OF f]) auto
  then have "andthen (peek f ip) (\<lambda>b. if b = opcode_End then ok sz else
      andthen (read_inst f ip) (\<lambda>(i, ip'). calls_size f begin ip' (nat (ip' - begin)))) \<noteq> None"
    by (intro andthen_defined peek_defined) simp
  then show ?case by (subst calls_size.simps)
qed

lemma visit_within_measure:
  assumes "visit_within begin sz lay ss (q, vis) = (q', vis')" "length vis = sz"
  shows "length vis' = sz \<and> length q' + 2 * unvisited vis' \<le> length q + 2 * unvisited vis"
  using assms
proof (induction ss arbitrary: q vis)
  case (Cons s ss)
  show ?case
  proof (cases "begin \<le> s \<and> s < begin + int sz \<and> \<not> vis ! nat (s - begin)")
    case True
    then have "Suc (unvisited (vis[nat (s - begin) := True])) = unvisited vis"
      using Cons.prems(2) by (intro unvisited_update) auto
    moreover have "visit_within begin sz lay ss (q @ [(s, lay)], vis[nat (s - begin) := True]) = (q', vis')"
      using Cons.prems(1) True by simp
    from Cons.IH [OF this] Cons.prems(2)
    have "length vis' = sz" "length q' + 2 * unvisited vis' \<le> Suc (length q) + 2 * unvisited (vis[nat (s - begin) := True])"
      by simp_all
    ultimately show ?thesis by linarith
  next
    case False
    then have "visit_within begin sz lay ss (q, vis) = (q', vis')"
      using Cons.prems(1) by (auto split: if_splits)
    from Cons.IH [OF this Cons.prems(2)] show ?thesis .
  qed
qed simp

lemma function_loop_defined:
  assumes f: "bytefile_ok f"
  shows "length vis = sz \<Longrightarrow> function_loop f begin sz (q, vis) jumps \<noteq> None"
proof (induction "length q + 2 * unvisited vis" arbitrary: q vis jumps rule: less_induct)
  case less
  show ?case
  proof (cases q)
    case Nil
    then show ?thesis by (simp add: function_loop.simps)
  next
    case (Cons x q1)
    obtain ip lay where x: "x = (ip, lay)" by (cases x)
    have step: "function_loop f begin sz (visit_within begin sz lay' ss (q1, vis)) js \<noteq> None" for lay' ss js
    proof -
      obtain q2 vis2 where v: "visit_within begin sz lay' ss (q1, vis) = (q2, vis2)" by fastforce
      from visit_within_measure [OF v less.prems] less.hyps [of q2 vis2 js] Cons v show ?thesis by simp
    qed
    have "andthen (stack_depth i (lay, jumps)) (\<lambda>(lay', jumps').
        if sint (sl_locals lay') < 0 then err (Fail ''Stack underflow'')
        else function_loop f begin sz (visit_within begin sz lay' (successors i nx) (q1, vis)) jumps') \<noteq> None" for i nx
      using step by (intro andthen_defined stack_depth_defined) (simp only: split_paired_all prod.case, simp)
    then have "andthen (read_inst f ip) (\<lambda>p. case p of (i, nx) \<Rightarrow> andthen (stack_depth i (lay, jumps)) (\<lambda>(lay', jumps').
        if sint (sl_locals lay') < 0 then err (Fail ''Stack underflow'')
        else function_loop f begin sz (visit_within begin sz lay' (successors i nx) (q1, vis)) jumps')) \<noteq> None"
      by (intro andthen_defined read_inst_defined [OF f]) (simp only: split_paired_all prod.case not_False_eq_True)
    then show ?thesis
      unfolding Cons x by (subst function_loop.simps) (simp only: prod.case list.case not_False_eq_True)
  qed
qed

lemma calls_loop_defined:
  assumes f: "bytefile_ok f"
  shows "length vis = sz \<Longrightarrow> calls_loop f begin sz m off (q, vis) jumps \<noteq> None"
proof (induction "length q + 2 * unvisited vis" arbitrary: q vis jumps rule: less_induct)
  case less
  show ?case
  proof (cases q)
    case Nil
    then show ?thesis by (simp add: calls_loop.simps)
  next
    case (Cons x q1)
    obtain ip lay where x: "x = (ip, lay)" by (cases x)
    have step: "calls_loop f begin sz m off (visit_within begin sz lay' ss (q1, vis)) js \<noteq> None" for lay' ss js
    proof -
      obtain q2 vis2 where v: "visit_within begin sz lay' ss (q1, vis) = (q2, vis2)" by fastforce
      from visit_within_measure [OF v less.prems] less.hyps [of q2 vis2 js] Cons v show ?thesis by simp
    qed
    have c: "check_call m off b lay \<noteq> None" for b by (simp add: check_call_def split: option.split)
    have "andthen (stack_depth i (lay, jumps)) (\<lambda>(lay', jumps').
        calls_loop f begin sz m off (visit_within begin sz lay' (successors i nx) (q1, vis)) jumps') \<noteq> None" for i nx
      using step by (intro andthen_defined stack_depth_defined) (simp only: split_paired_all prod.case, simp)
    then have "andthen (check_call m off b lay) (\<lambda>_. andthen (stack_depth i (lay, jumps)) (\<lambda>(lay', jumps').
        calls_loop f begin sz m off (visit_within begin sz lay' (successors i nx) (q1, vis)) jumps')) \<noteq> None" for b i nx
      by (rule andthen_defined [OF c])
    then have "andthen (read_inst f ip) (\<lambda>p. case p of (i, nx) \<Rightarrow> andthen (check_call m off b lay) (\<lambda>_.
        andthen (stack_depth i (lay, jumps)) (\<lambda>(lay', jumps').
        calls_loop f begin sz m off (visit_within begin sz lay' (successors i nx) (q1, vis)) jumps'))) \<noteq> None" for b
      by (intro andthen_defined read_inst_defined [OF f]) (simp only: split_paired_all prod.case not_False_eq_True)
    then have "andthen (peek f ip) (\<lambda>b. andthen (read_inst f ip) (\<lambda>p. case p of (i, nx) \<Rightarrow>
        andthen (check_call m off b lay) (\<lambda>_. andthen (stack_depth i (lay, jumps)) (\<lambda>(lay', jumps').
        calls_loop f begin sz m off (visit_within begin sz lay' (successors i nx) (q1, vis)) jumps')))) \<noteq> None"
      by (rule andthen_defined [OF peek_defined])
    then show ?thesis
      unfolding Cons x by (subst calls_loop.simps) (simp only: prod.case list.case not_False_eq_True)
  qed
qed

lemma verify_function_defined: "bytefile_ok f \<Longrightarrow> verify_function f begin captured \<noteq> None"
  unfolding verify_function_def Let_def
  by (intro andthen_defined function_size_defined function_loop_defined) simp_all

lemma verify_calls_defined: "bytefile_ok f \<Longrightarrow> verify_calls f begin m off \<noteq> None"
  unfolding verify_calls_def
  by (intro andthen_defined calls_size_defined calls_loop_defined) simp_all

lemma for_each_defined: "(\<And>x s. g x s \<noteq> None) \<Longrightarrow> for_each g xs s \<noteq> None"
proof (induction xs arbitrary: s)
  case (Cons x xs)
  then show ?case unfolding for_each.simps by (intro andthen_defined) simp_all
qed simp

lemma verify_defined:
  assumes f: "bytefile_ok f"
  shows "verify_reachable_instructions f es off \<noteq> None"
proof -
  have v: "andthen (verify_function f b c) (\<lambda>n. ok (m(k \<mapsto> n))) \<noteq> None" for b c m k
    by (rule andthen_defined [OF verify_function_defined [OF f]]) simp
  have c: "andthen (for_each (\<lambda>b _. verify_calls f b m off) bs ()) (\<lambda>_.
       for_each (\<lambda>cl _. verify_calls f (ce_offset cl) m off) cs ()) \<noteq> None" for bs cs m
    by (intro andthen_defined for_each_defined verify_calls_defined [OF f])
  have w: "andthen (for_each (\<lambda>x m. andthen (verify_function f (b x) (c x)) (\<lambda>n. ok (m(k x \<mapsto> n)))) xs m0) g \<noteq> None"
    if "\<And>m. g m \<noteq> None" for g :: "(u32 \<Rightarrow> u32 option) \<Rightarrow> unit outcome" and b c k m0 and xs :: "'a list"
    by (rule andthen_defined [OF for_each_defined [OF v] that])
  show ?thesis
    unfolding verify_reachable_instructions_def
    by (intro andthen_pair_defined [OF reachable_instructions_defined [OF f]])
      (simp only: split_paired_all prod.case, intro w c)
qed

section \<open>What verify\_function has checked\<close>

text \<open>
  The layouts with which a position can be met: those that the depths of the instructions on some
  path from the start of the body give. The loop meets each position with one of them.
\<close>

inductive layout_at :: "bytefile \<Rightarrow> int \<Rightarrow> nat \<Rightarrow> stack_layout \<Rightarrow> int \<Rightarrow> stack_layout \<Rightarrow> bool"
  for f :: bytefile and start_ip :: int and sz :: nat and layout :: stack_layout where
  start: "layout_at f start_ip sz layout start_ip layout"
| step: "layout_at f start_ip sz layout ip lay \<Longrightarrow> read_inst f ip = ok (i, nx) \<Longrightarrow>
    stack_depth i (lay, js) = ok (lay', js') \<Longrightarrow> s \<in> set (successors i nx) \<Longrightarrow>
    start_ip \<le> s \<Longrightarrow> s < start_ip + int sz \<Longrightarrow> layout_at f start_ip sz layout s lay'"

definition depth_ok :: "bytefile \<Rightarrow> int \<Rightarrow> nat \<Rightarrow> stack_layout \<Rightarrow> u32 list \<Rightarrow> int \<Rightarrow> inst \<Rightarrow> int \<Rightarrow> bool" where
  "depth_ok f begin sz layout jumps ip i nx \<longleftrightarrow> (\<exists>lay lay' js'. layout_at f begin sz layout ip lay
     \<and> stack_depth i (lay, []) = ok (lay', js') \<and> 0 \<le> sint (sl_locals lay') \<and> set (jump_targets i) \<subseteq> set jumps)"

inductive body_flow :: "bytefile \<Rightarrow> int \<Rightarrow> nat \<Rightarrow> int \<Rightarrow> int \<Rightarrow> bool"
  for f :: bytefile and start_ip :: int and sz :: nat where
  "flow f ip s \<Longrightarrow> start_ip \<le> s \<Longrightarrow> s < start_ip + int sz \<Longrightarrow> body_flow f start_ip sz ip s"

inductive_simps body_flow_iff: "body_flow f begin sz ip s"

definition wset :: "int \<Rightarrow> bool list \<Rightarrow> int set" where
  "wset begin vis = {p. begin \<le> p \<and> p < begin + int (length vis) \<and> vis ! nat (p - begin)}"

definition inside :: "int \<Rightarrow> nat \<Rightarrow> int list \<Rightarrow> int set" where
  "inside begin sz ss = {s \<in> set ss. begin \<le> s \<and> s < begin + int sz}"

lemma inside_simps [simp]:
  "inside begin sz [] = {}"
  "inside begin sz (s # ss) = (if begin \<le> s \<and> s < begin + int sz then insert s (inside begin sz ss) else inside begin sz ss)"
  by (auto simp: inside_def)

lemma wset_update:
  "begin \<le> s \<Longrightarrow> s < begin + int (length vis) \<Longrightarrow> wset begin (vis[nat (s - begin) := True]) = insert s (wset begin vis)"
  by (auto simp: wset_def nth_list_update)

lemma visit_within_ok:
  assumes "visit_within begin sz lay ss (q, vis) = (q', vis')" "length vis = sz"
  shows "wset begin vis' = wset begin vis \<union> inside begin sz ss \<and> set q \<subseteq> set q'
    \<and> set q' \<subseteq> set q \<union> (\<lambda>s. (s, lay)) ` inside begin sz ss
    \<and> wset begin vis' \<subseteq> wset begin vis \<union> fst ` set q'"
  using assms
proof (induction ss arbitrary: q vis)
  case Nil
  then show ?case by simp
next
  case (Cons s ss)
  show ?case
  proof (cases "begin \<le> s \<and> s < begin + int sz \<and> \<not> vis ! nat (s - begin)")
    case True
    define vis1 where "vis1 = vis[nat (s - begin) := True]"
    have "wset begin vis1 = insert s (wset begin vis)"
      using wset_update [of "begin" s vis] True Cons.prems(2) by (simp add: vis1_def)
    moreover have "visit_within begin sz lay ss (q @ [(s, lay)], vis1) = (q', vis')" "length vis1 = sz"
      using Cons.prems True by (simp_all add: vis1_def)
    note IH = Cons.IH [OF this]
    moreover have "(s, lay) \<in> set q'" using IH by auto
    then have "s \<in> fst ` set q'" by force
    ultimately show ?thesis using True by auto
  next
    case False
    then have e: "wset begin vis \<union> inside begin sz (s # ss) = wset begin vis \<union> inside begin sz ss"
      using Cons.prems(2) by (auto simp: wset_def inside_def)
    have m: "(\<lambda>s. (s, lay)) ` inside begin sz ss \<subseteq> (\<lambda>s. (s, lay)) ` inside begin sz (s # ss)"
      by (rule image_mono) auto
    have "visit_within begin sz lay ss (q, vis) = (q', vis')"
      using Cons.prems(1) False by (auto split: if_splits)
    note IH = Cons.IH [OF this Cons.prems(2)]
    show ?thesis unfolding e using IH m by blast
  qed
qed

definition done_at :: "bytefile \<Rightarrow> int \<Rightarrow> nat \<Rightarrow> stack_layout \<Rightarrow> bool list \<Rightarrow> u32 list \<Rightarrow> int \<Rightarrow> bool" where
  "done_at f begin sz layout vis jumps ip \<longleftrightarrow> (\<exists>i nx. read_inst f ip = ok (i, nx)
     \<and> depth_ok f begin sz layout jumps ip i nx \<and> inside begin sz (successors i nx) \<subseteq> wset begin vis)"

definition function_inv ::
    "bytefile \<Rightarrow> int \<Rightarrow> nat \<Rightarrow> stack_layout \<Rightarrow> (int \<times> stack_layout) list \<Rightarrow> bool list \<Rightarrow> u32 list \<Rightarrow> bool" where
  "function_inv f begin sz layout q vis jumps \<longleftrightarrow> length vis = sz
     \<and> (\<forall>(ip, lay)\<in>set q. layout_at f begin sz layout ip lay)
     \<and> (\<forall>ip\<in>wset begin vis. ip \<in> fst ` set q \<or> done_at f begin sz layout vis jumps ip)"

lemma done_at_mono:
  "done_at f begin sz layout vis jumps ip \<Longrightarrow> wset begin vis \<subseteq> wset begin vis' \<Longrightarrow> set jumps \<subseteq> set jumps' \<Longrightarrow>
   done_at f begin sz layout vis' jumps' ip"
  by (fastforce simp: done_at_def depth_ok_def)

lemma function_inv_step:
  assumes inv: "function_inv f begin sz layout ((ip, lay) # q) vis jumps" and r: "read_inst f ip = ok (i, nx)"
    and d: "stack_depth i (lay, jumps) = ok (lay', jumps')" and n: "0 \<le> sint (sl_locals lay')"
    and v: "visit_within begin sz lay' (successors i nx) (q, vis) = (q', vis')"
  shows "function_inv f begin sz layout q' vis' jumps'"
proof -
  have l: "length vis = sz" "layout_at f begin sz layout ip lay"
    "\<forall>(ip, lay)\<in>set q. layout_at f begin sz layout ip lay"
    using inv by (auto simp: function_inv_def)
  note vs = visit_within_ok [OF v l(1)]
  have js: "set jumps \<subseteq> set jumps'" "set (jump_targets i) \<subseteq> set jumps'"
    using stack_depth_jumps [OF d] by auto
  have "layout_at f begin sz layout s lay'" if "s \<in> inside begin sz (successors i nx)" for s
    using that layout_at.step [OF l(2) r d] by (auto simp: inside_def)
  then have q: "\<forall>(ip, lay)\<in>set q'. layout_at f begin sz layout ip lay" using vs l(3) by blast
  have "done_at f begin sz layout vis' jumps' ip"
    unfolding done_at_def depth_ok_def
    using r l(2) stack_depth_layout [OF d, of "[]"] n js(2) vs by blast
  moreover have "done_at f begin sz layout vis' jumps' p" if "p \<in> wset begin vis" "p \<notin> fst ` set q" "p \<noteq> ip" for p
  proof -
    have "done_at f begin sz layout vis jumps p" using inv that by (auto simp: function_inv_def)
    then show ?thesis by (rule done_at_mono) (use vs js in auto)
  qed
  ultimately have "\<forall>p\<in>wset begin vis'. p \<in> fst ` set q' \<or> done_at f begin sz layout vis' jumps' p"
    using vs by blast
  with q show ?thesis using visit_within_measure [OF v l(1)] by (simp add: function_inv_def)
qed

lemma function_loop_checks:
  assumes "function_loop f begin sz (q, vis) jumps = ok jumps'" "function_inv f begin sz layout q vis jumps"
  shows "\<exists>vis'. wset begin vis \<subseteq> wset begin vis'
    \<and> (\<forall>ip\<in>wset begin vis'. done_at f begin sz layout vis' jumps' ip)"
  using assms
proof (induction "length q + 2 * unvisited vis" arbitrary: q vis jumps rule: less_induct)
  case less
  show ?case
  proof (cases q)
    case Nil
    with less.prems show ?thesis by (auto simp: function_loop.simps function_inv_def)
  next
    case (Cons x q1)
    obtain ip lay where x: "x = (ip, lay)" by (cases x)
    from less.prems(1) obtain i nx lay1 jumps1 where
      r: "read_inst f ip = ok (i, nx)" "stack_depth i (lay, jumps) = ok (lay1, jumps1)" "0 \<le> sint (sl_locals lay1)"
      and l: "function_loop f begin sz (visit_within begin sz lay1 (successors i nx) (q1, vis)) jumps1 = ok jumps'"
      unfolding Cons x by (subst (asm) function_loop.simps) (auto simp: andthen_eq_ok split: if_splits)
    obtain q2 vis2 where v: "visit_within begin sz lay1 (successors i nx) (q1, vis) = (q2, vis2)" by fastforce
    have len: "length vis = sz" using less.prems(2) by (simp add: function_inv_def)
    have "length q2 + 2 * unvisited vis2 < length q + 2 * unvisited vis"
      using visit_within_measure [OF v len] Cons by simp
    moreover have "function_inv f begin sz layout q2 vis2 jumps1"
      using function_inv_step [OF _ r v] less.prems(2) Cons x by simp
    ultimately obtain vis' where "wset begin vis2 \<subseteq> wset begin vis'"
      "\<forall>ip\<in>wset begin vis'. done_at f begin sz layout vis' jumps' ip"
      using less.hyps [of q2 vis2 jumps1] l [unfolded v] by blast
    moreover have "wset begin vis \<subseteq> wset begin vis2" using visit_within_ok [OF v len] by blast
    ultimately show ?thesis by blast
  qed
qed

lemma function_size_pos: "function_size f begin ip sz = ok sz' \<Longrightarrow> 0 < sz \<Longrightarrow> bytefile_ok f \<Longrightarrow> begin \<le> ip \<Longrightarrow> 0 < sz'"
proof (induction "nat (int (length (buffer f)) - ip)" arbitrary: ip sz rule: less_induct)
  case less
  show ?case
  proof (cases "peek f ip = ok opcode_End")
    case True
    then have "function_size f begin ip sz = ok sz" by (subst function_size.simps) simp
    with less.prems show ?thesis by simp
  next
    case False
    with less.prems(1) obtain i ip' where r: "read_inst f ip = ok (i, ip')"
      and l: "function_size f begin ip' (nat (ip' - begin + 1)) = ok sz'"
      by (subst (asm) function_size.simps) (auto simp: andthen_eq_ok split: if_splits)
    have "ip < ip'" using read_inst_progress [OF less.prems(3) r] by simp
    then show ?thesis
      using less.hyps [OF room_less [OF less.prems(3) r] l] less.prems by simp
  qed
qed

text \<open>
  When \<open>verify_function\<close> returns, every position that control flow reaches inside the body has
  been decoded and met with a layout that does not underflow, and every jump on the way stays in
  the body or ends right behind it.
\<close>

lemma verify_function_sound:
  assumes f: "bytefile_ok f" and v: "verify_function f begin captured = ok n"
  shows "\<exists>sz. function_size f begin begin 2 = ok sz \<and> n = 0 \<and> (\<forall>p. (body_flow f begin sz)\<^sup>*\<^sup>* begin p \<longrightarrow>
    (\<exists>i nx jumps. read_inst f p = ok (i, nx) \<and> depth_ok f begin sz (function_layout f captured) jumps p i nx
      \<and> (\<forall>j\<in>set (jump_targets i). begin \<le> sint j \<and> sint j \<le> begin + int sz)))"
proof -
  let ?lay = "function_layout f captured"
  from v obtain sz jumps where sz: "function_size f begin begin 2 = ok sz"
    and l: "function_loop f begin sz ([(begin, ?lay)], (replicate sz False)[0 := True]) [] = ok jumps"
    and j: "\<forall>j\<in>set jumps. begin \<le> sint j \<and> sint j \<le> begin + int sz" and n: "n = sl_args ?lay"
    by (auto simp: verify_function_def andthen_eq_ok Let_def not_less split: if_splits)
  have "0 < sz" using function_size_pos [OF sz _ f] by simp
  then have w: "wset begin ((replicate sz False)[0 := True]) = {begin}"
    by (auto simp: wset_def nth_list_update split: if_splits)
  have "function_inv f begin sz ?lay [(begin, ?lay)] ((replicate sz False)[0 := True]) []"
    by (simp add: function_inv_def w layout_at.start)
  from function_loop_checks [OF l this] w obtain vis where
    vis: "begin \<in> wset begin vis" "\<forall>ip\<in>wset begin vis. done_at f begin sz ?lay vis jumps ip" by auto
  have reached: "p \<in> wset begin vis" if "(body_flow f begin sz)\<^sup>*\<^sup>* begin p" for p
    using that
  proof (induction rule: rtranclp_induct)
    case base
    show ?case by (rule vis)
  next
    case (step a b)
    then obtain i nx where "read_inst f a = ok (i, nx)" "inside begin sz (successors i nx) \<subseteq> wset begin vis"
      using vis(2) by (auto simp: done_at_def)
    with step(2) show ?case by (auto simp: body_flow_iff flow_iff inside_def)
  qed
  have "\<exists>i nx jumps. read_inst f p = ok (i, nx) \<and> depth_ok f begin sz ?lay jumps p i nx
      \<and> (\<forall>j\<in>set (jump_targets i). begin \<le> sint j \<and> sint j \<le> begin + int sz)"
    if b: "(body_flow f begin sz)\<^sup>*\<^sup>* begin p" for p
  proof -
    obtain i nx where i: "read_inst f p = ok (i, nx)" "depth_ok f begin sz ?lay jumps p i nx"
      using vis(2) reached [OF b] unfolding done_at_def by blast
    then have "set (jump_targets i) \<subseteq> set jumps" by (auto simp: depth_ok_def)
    with i j show ?thesis by blast
  qed
  with sz n show ?thesis by (auto simp: function_layout_def)
qed

end
