(* ===== verification/ToolProperties.thy ===== *)
theory ToolProperties
  imports Verifier
begin

text \<open>
  The properties of the bytecode tools: the file reader, the instruction decoder and the verifier.
  The witnesses use a file whose code is one function: \<open>BEGIN 0 0; CONST 1; END\<close>.
\<close>

section \<open>A small file\<close>

definition demo_file :: bytefile where
  "demo_file = \<lparr>bf_size = 47, stringtab_size = 0, global_area_size = 0, public_symbols_number = 0,
     buffer = encode (Begin 0 0) @ encode (Const 1) @ encode End\<rparr>"

lemma demo_file_simps [simp]:
  "bf_size demo_file = 47" "stringtab_size demo_file = 0" "global_area_size demo_file = 0"
  "public_symbols_number demo_file = 0" "code_off demo_file = 0"
  "buffer demo_file = [82, 0, 0, 0, 0, 0, 0, 0, 0, 16, 1, 0, 0, 0, 22]"
  by (simp_all add: demo_file_def code_off_def string_off_def op_def le_bytes_def)

lemma demo_file_ok: "bytefile_ok demo_file"
  by (simp add: bytefile_ok_def SIZEOF_BYTEFILE_def)

lemma demo_bytes: "has_bytes demo_file 0 (encode (Begin 0 0))" "has_bytes demo_file 9 (encode (Const 1))"
  "has_bytes demo_file 14 (encode End)"
  by (simp_all add: in_code_def byte_at_def op_def le_bytes_def)

lemma demo_insts: "read_inst demo_file 0 = ok (Begin 0 0, 9)" "read_inst demo_file 9 = ok (Const 1, 14)"
  "read_inst demo_file 14 = ok (End, 15)"
  using read_inst_encode [OF demo_file_ok _ demo_bytes(1)] read_inst_encode [OF demo_file_ok _ demo_bytes(2)]
    read_inst_encode [OF demo_file_ok _ demo_bytes(3)]
  by (simp_all add: op_def le_bytes_def)

lemma demo_peeks: "peek demo_file 0 = ok 82" "peek demo_file 9 = ok 16" "peek demo_file 14 = ok 22"
  by (simp_all add: peek_def byte_at_def)

section \<open>Reading a file\<close>

text \<open>
  C32: a file that the reader accepts, and whose section sizes do not wrap, is well formed: the
  table of symbols, the string table and the words of the global area fit in the buffer in this
  order, and the recorded size is that of the struct and the buffer.
\<close>

theorem read_file_well_formed:
  assumes "read_file bs = ok f" "length bs < 2147483616"
    "unat (stringtab_size f) + 8 * unat (public_symbols_number f) + 4 * unat (global_area_size f) + 32 < 4294967296"
  shows "bytefile_ok f \<and> length (buffer f) + 12 = length bs \<and> 4 * unat (global_area_size f) + code_off f \<le> length (buffer f)"
  using read_file_ok [OF assms] by simp

lemma demo_read: "read_file ([0, 0, 0, 0, 0, 0, 0, 0, 0, 0, 0, 0] @ buffer demo_file) = ok demo_file"
  by (simp add: read_file_def word_in_def word4_def SIZEOF_BYTEFILE_def Let_def)

theorem read_file_well_formed_witness: "bytefile_ok demo_file"
  using read_file_well_formed [OF demo_read] by simp

text \<open>
  The sum of the section sizes is computed in 32 bits: the reader accepts a file of twelve bytes
  that claims 2^29 public symbols, and then the code section starts behind the end of the buffer.
\<close>

theorem read_file_accepts_wrapped_sizes:
  "\<exists>f. read_file [0, 0, 0, 0, 0, 0, 0, 0, 0, 0, 0, 32] = ok f \<and> buffer f = [] \<and> code_off f = 4294967296"
  by (simp add: read_file_def word_in_def word4_def SIZEOF_BYTEFILE_def Let_def code_off_def string_off_def)

section \<open>Decoding\<close>

text \<open>
  C13: decoding inverts the encoding of every instruction: at a place of the code section that holds the
  bytes of an instruction the decoder returns this instruction and the position right after it.
\<close>

theorem decode_encode:
  assumes "bytefile_ok f" "encodable f i" "has_bytes f ip (encode i)"
  shows "read_inst f ip = ok (i, ip + int (length (encode i)))"
  by (rule read_inst_encode [OF assms])

theorem decode_encode_witness: "read_inst demo_file 9 = ok (Const 1, 9 + int (length (encode (Const 1))))"
  by (rule decode_encode [OF demo_file_ok _ demo_bytes(2)]) simp

text \<open>
  C14: on any bytes, the decoder returns or ends the process with a message; what it returns it has read
  inside the code section only, and the next position is behind the current one and not behind the end
  of the file.
\<close>

theorem decode_in_bounds:
  assumes "bytefile_ok f"
  shows "\<exists>r. read_inst f ip = Some r \<and> (\<forall>i ip'. r = Inr (i, ip') \<longrightarrow>
    0 \<le> ip \<and> ip < ip' \<and> int (code_off f) + ip' \<le> int (length (buffer f)))"
proof -
  obtain r where r: "read_inst f ip = Some r" using read_inst_defined [OF assms, of ip] by blast
  have "0 \<le> ip \<and> ip < ip' \<and> int (code_off f) + ip' \<le> int (length (buffer f))" if "r = Inr (i, ip')" for i ip'
    using read_inst_progress [OF assms, of ip i ip'] r that by (auto simp: in_code_def)
  with r show ?thesis by blast
qed

theorem decode_in_bounds_witness: "\<exists>r. read_inst demo_file 9 = Some r \<and> (\<forall>i ip'. r = Inr (i, ip') \<longrightarrow> 9 < ip' \<and> ip' \<le> 15)"
  using decode_in_bounds [OF demo_file_ok, of 9] by auto

section \<open>The verifier\<close>

text \<open>
  C15: on every well-formed file and from any entry points, the whole verifier returns or ends the
  process: each of its loops over a queue ends.
\<close>

theorem verifier_terminates:
  assumes "bytefile_ok f"
  shows "\<exists>r. verify_reachable_instructions f entrypoints offset = Some r"
  using verify_defined [OF assms] by simp

theorem verifier_terminates_witness: "\<exists>r. verify_reachable_instructions demo_file [0] 7 = Some r"
  by (rule verifier_terminates [OF demo_file_ok])

text \<open>
  C12: when the first pass of the verifier returns, every position that control flow can reach from the
  entry points holds an instruction that decodes, every reached call names a BEGIN and every reached
  closure a BEGIN or CBEGIN, and the positions its marks hold contain all successors.
\<close>

theorem reachable_instructions_checked:
  assumes "reachable_instructions f es = ok (begins, vis)" "(flow f)\<^sup>*\<^sup>* e p" "e \<in> set es"
  shows "\<exists>i next. read_inst f p = ok (i, next) \<and> well_targeted f i \<and> set (successors i next) \<subseteq> vset vis"
  using reachable_settled [OF assms] by (simp add: settled_def)

lemma demo_reachable: "reachable_instructions demo_file [0] = ok (([0], []), [True, False, False, False, False,
    False, False, False, False, True, False, False, False, False, True])"
proof -
  let ?v0 = "[True, False, False, False, False, False, False, False, False, False, False, False, False, False, False]"
  let ?v1 = "[True, False, False, False, False, False, False, False, False, True, False, False, False, False, False]"
  let ?v2 = "[True, False, False, False, False, False, False, False, False, True, False, False, False, False, True]"
  have 3: "reach_loop demo_file ([], ?v2) ([0], []) = ok (([0], []), ?v2)" by (subst reach_loop.simps) simp
  have 2: "reach_loop demo_file ([14], ?v2) ([0], []) = ok (([0], []), ?v2)"
    by (subst reach_loop.simps) (simp add: demo_insts 3)
  have 1: "reach_loop demo_file ([9], ?v1) ([0], []) = ok (([0], []), ?v2)"
    by (subst reach_loop.simps) (simp add: demo_insts 2)
  have "reach_loop demo_file ([0], ?v0) ([0], []) = ok (([0], []), ?v2)"
    by (subst reach_loop.simps) (simp add: demo_insts 1)
  then show ?thesis
    by (simp add: reachable_instructions_def get_code_size_def SIZEOF_BYTEFILE_def numeral_eq_Suc)
qed

theorem reachable_instructions_checked_witness: "\<exists>i next. read_inst demo_file 9 = ok (i, next) \<and> well_targeted demo_file i"
proof -
  have "flow demo_file 0 9" by (auto simp: flow_iff demo_insts)
  then have "(flow demo_file)\<^sup>*\<^sup>* 0 9" by blast
  from reachable_instructions_checked [OF demo_reachable this] show ?thesis by auto
qed

text \<open>
  C11: when the verifier's second pass accepts a function, it returns 0 as its number of arguments,
  whatever the function is, and every position that control flow reaches inside its body decodes, has
  been met with a layout that some path from the start gives, does not underflow there, and jumps, if it
  does, into the body or right behind it.
\<close>

theorem verify_function_checks:
  assumes "bytefile_ok f" "verify_function f begin captured = ok n"
  shows "\<exists>sz. function_size f begin begin 2 = ok sz \<and> n = 0 \<and> (\<forall>p. (body_flow f begin sz)\<^sup>*\<^sup>* begin p \<longrightarrow>
    (\<exists>i nx jumps. read_inst f p = ok (i, nx) \<and> depth_ok f begin sz (function_layout f captured) jumps p i nx
      \<and> (\<forall>j\<in>set (jump_targets i). begin \<le> sint j \<and> sint j \<le> begin + int sz)))"
  by (rule verify_function_sound [OF assms])

lemma demo_function_size: "function_size demo_file 0 0 2 = ok 15"
proof -
  have "function_size demo_file 0 14 15 = ok 15"
    by (subst function_size.simps) (simp add: demo_peeks opcode_End_def)
  then have "function_size demo_file 0 9 10 = ok 15"
    by (subst function_size.simps) (simp add: demo_peeks demo_insts opcode_End_def opcode_Begin_def opcode_CBegin_def)
  then show ?thesis
    by (subst function_size.simps) (simp add: demo_peeks demo_insts opcode_End_def opcode_Begin_def opcode_CBegin_def)
qed

lemma demo_verify: "verify_function demo_file 0 (- 1) = ok 0"
proof -
  define v0 where "v0 = (replicate 15 False)[0 := True]"
  define v1 where "v1 = v0[9 := True]"
  define v2 where "v2 = v1[14 := True]"
  have n: "\<not> v0 ! 9" "\<not> v1 ! 14" by (simp_all add: v0_def v1_def nth_list_update)
  define l1 where "l1 = (function_layout demo_file (- 1))\<lparr>sl_args := 0, sl_is_closure := False, sl_locals := 0, sl_captured := 0\<rparr>"
  have l: "sl_locals l1 = 0" by (simp add: l1_def)
  have 3: "function_loop demo_file 0 15 ([], v2) [] = ok []" by (subst function_loop.simps) simp
  have 2: "function_loop demo_file 0 15 ([(14, grow 1 l1)], v2) [] = ok []"
    by (subst function_loop.simps) (simp add: demo_insts grow_def l 3)
  have 1: "function_loop demo_file 0 15 ([(9, l1)], v1) [] = ok []"
    by (subst function_loop.simps) (simp add: demo_insts n v2_def [symmetric] 2, simp add: grow_def l)
  have "function_loop demo_file 0 15 ([(0, function_layout demo_file (- 1))], v0) [] = ok []"
    by (subst function_loop.simps) (simp add: demo_insts n v1_def [symmetric] l1_def [symmetric] 1 l)
  then show ?thesis
    by (simp add: verify_function_def demo_function_size v0_def [symmetric]) (simp add: function_layout_def)
qed

theorem verify_function_checks_witness: "\<exists>sz. function_size demo_file 0 0 2 = ok sz \<and>
    (\<exists>i nx jumps. read_inst demo_file 0 = ok (i, nx) \<and> depth_ok demo_file 0 sz (function_layout demo_file (- 1)) jumps 0 i nx)"
  using verify_function_checks [OF demo_file_ok demo_verify] by blast

text \<open>
  The verifier's test of the index of a global or a local is off by one, and signed: it accepts
  exactly the indices up to and with the number of globals or of stack words, and all negative ones.
\<close>

theorem location_check_off_by_one:
  "(load_location lay \<lparr>loc_kind = 0, loc_index = i\<rparr> = ok lay \<longleftrightarrow> sint i \<le> sint (sl_globals lay))
    \<and> (load_location lay \<lparr>loc_kind = 1, loc_index = i\<rparr> = ok lay \<longleftrightarrow> sint i \<le> sint (sl_locals lay))"
  by (simp add: load_location_def)

end
