(* ===== verification/Printing.thy ===== *)
theory Printing
  imports StringObjects Compare Formats
begin

text \<open>
  runtime/runtime.c, printing into the string buffer (lines 258-426), the functions that turn values
  into strings, and the constructs read and write. \<open>StringBuf\<close> is a growing C array; what has been
  written into it is the list \<open>sb_text\<close>, and \<open>len\<close> is a C \<open>int\<close> that doubles. The formats \<open>%d\<close>, \<open>%x\<close> and
  \<open>%s\<close> of the C library are written out.
\<close>

section \<open>Strings\<close>

text \<open>The characters of a C string.\<close>

definition c_string :: "memory \<Rightarrow> addr \<Rightarrow> u8 list outcome" where
  "c_string m p = andthen (strlen m p) (\<lambda>n. ok (map (\<lambda>i. m (p + word_of_nat i)) [0..<unat n]))"

lemma c_string_cstring:
  assumes "cstring m p bs" "length bs < 4294967296"
  shows "c_string m p = ok bs"
proof -
  have "map (\<lambda>i. m (p + word_of_nat i)) [0..<length bs] = bs"
    using assms(1) by (intro nth_equalityI) (simp_all add: cstring_bytes bytes_at_nth)
  then show ?thesis using assms(2) by (simp add: c_string_def strlen_cstring [OF assms(1)] unat_of_nat_u32)
qed

section \<open>The string buffer\<close>

record string_buf =
  sb_text :: "u8 list"
  sb_ptr :: u32
  sb_len :: u32

definition STRINGBUF_INIT :: u32 where "STRINGBUF_INIT = 128"

definition createStringBuf :: string_buf where
  "createStringBuf = \<lparr>sb_text = [], sb_ptr = 0, sb_len = STRINGBUF_INIT\<rparr>"

definition extendStringBuf :: "string_buf \<Rightarrow> string_buf" where
  "extendStringBuf b = b\<lparr>sb_len := push_bit 1 (sb_len b)\<rparr>"

text \<open>\<open>s\<close> is the formatted text; it is written again after each extension until it fits.\<close>

partial_function (option) printStringBuf :: "u8 list \<Rightarrow> string_buf \<Rightarrow> string_buf outcome" where
  "printStringBuf s b =
     (let written = word_of_nat (length s); rest = sb_len b - sb_ptr b in
      if sint rest \<le> sint (written :: u32) then printStringBuf s (extendStringBuf b)
      else ok (b\<lparr>sb_text := sb_text b @ s, sb_ptr := sb_ptr b + written\<rparr>))"

section \<open>printValue and stringcat\<close>

text \<open>
  One recursive function: \<open>Inl p\<close> prints the value \<open>p\<close>, \<open>Inr sb\<close> runs the loop over the cells of a
  list from the cell \<open>sb\<close> on. The tail of a cell is taken for a cell without a test of its tag.
\<close>

partial_function (option) printer :: "gc_state \<Rightarrow> u32 + addr \<Rightarrow> string_buf \<Rightarrow> string_buf outcome" where
  "printer s x b = (case x of
     Inr sb \<Rightarrow>
       (if LEN (data_header (mem s) sb) = 0 then ok b
        else andthen (printer s (Inl (load32 (mem s) (sb + 12))) b) (\<lambda>b1.
          let list_next = load32 (mem s) (sb + 16) in
          if \<not> UNBOXED list_next
          then andthen (printStringBuf (bytes_of '', '') b1) (printer s (Inr (TO_SEXP list_next)))
          else ok b1))
   | Inl p \<Rightarrow>
       (if UNBOXED p then printStringBuf (show_int (sint (UNBOX p))) b
        else if \<not> is_valid_heap_pointer s p then printStringBuf (show_hex p) b
        else let t = tag_at s p; l = unat (len_at s p);
                 sep = (\<lambda>i b. if i \<noteq> l - 1 then printStringBuf (bytes_of '', '') b else ok b) in
          if t = STRING_TAG then
            andthen (c_string (mem s) p) (\<lambda>str. printStringBuf ([34] @ str @ [34]) b)
          else if t = CLOSURE_TAG then
            andthen (printStringBuf (bytes_of ''<closure '') b) (\<lambda>b1.
            andthen (for_each (\<lambda>i b. andthen
                (if i \<noteq> 0 then printer s (Inl (word_at s p i)) b else printStringBuf (show_hex (word_at s p i)) b)
                (sep i)) [0..<l] b1) (\<lambda>b2.
              printStringBuf (bytes_of ''>'') b2))
          else if t = ARRAY_TAG then
            andthen (printStringBuf (bytes_of ''['') b) (\<lambda>b1.
            andthen (for_each (\<lambda>i b. andthen (printer s (Inl (word_at s p i)) b) (sep i)) [0..<l] b1) (\<lambda>b2.
              printStringBuf (bytes_of '']'') b2))
          else if t = SEXP_TAG then
            andthen (de_hash (sexp_tag (mem s) (TO_SEXP p))) (\<lambda>tag.
              if tag = bytes_of ''cons'' then
                andthen (printStringBuf (bytes_of ''{'') b) (\<lambda>b1.
                andthen (printer s (Inr (TO_SEXP p)) b1) (\<lambda>b2. printStringBuf (bytes_of ''}'') b2))
              else andthen (printStringBuf tag b) (\<lambda>b1.
                if l \<noteq> 0 then
                  andthen (printStringBuf (bytes_of '' ('') b1) (\<lambda>b2.
                  andthen (for_each (\<lambda>i b. andthen (printer s (Inl (word_at s p (i + 1))) b) (sep i)) [0..<l] b2) (\<lambda>b3.
                    printStringBuf (bytes_of '')'') b3))
                else ok b1))
          else printStringBuf (bytes_of ''*** invalid data_header: '' @ show_hex t @ bytes_of '' ***'') b))"

definition printValue :: "gc_state \<Rightarrow> u32 \<Rightarrow> string_buf \<Rightarrow> string_buf outcome" where
  "printValue s p = printer s (Inl p)"

partial_function (option) stringcat_loop :: "gc_state \<Rightarrow> u32 + addr \<Rightarrow> string_buf \<Rightarrow> string_buf outcome" where
  "stringcat_loop s x b = (case x of
     Inr sb \<Rightarrow>
       (if LEN (data_header (mem s) sb) = 0 then ok b
        else andthen (stringcat_loop s (Inl (load32 (mem s) (sb + 12))) b) (\<lambda>b1.
          let next_b = load32 (mem s) (sb + 16) in
          if \<not> UNBOXED next_b then stringcat_loop s (Inr (TO_SEXP next_b)) b1 else ok b1))
   | Inl p \<Rightarrow>
       (if UNBOXED p then ok b
        else let t = tag_at s p in
          if t = STRING_TAG then andthen (c_string (mem s) p) (\<lambda>str. printStringBuf str b)
          else if t = SEXP_TAG then
            andthen (de_hash (sexp_tag (mem s) (TO_SEXP p))) (\<lambda>tag.
              if tag = bytes_of ''cons'' then stringcat_loop s (Inr (TO_SEXP p)) b
              else printStringBuf (bytes_of ''*** non-list data_header: '' @ tag @ bytes_of '' ***'') b)
          else printStringBuf (bytes_of ''*** invalid data_header: '' @ show_hex t @ bytes_of '' ***'') b))"

definition stringcat :: "gc_state \<Rightarrow> u32 \<Rightarrow> string_buf \<Rightarrow> string_buf outcome" where
  "stringcat s p = stringcat_loop s (Inl p)"

section \<open>Strings from values\<close>

text \<open>
  \<open>buf\<close> is the address that \<open>malloc\<close> or the last \<open>realloc\<close> gave the buffer, \<open>p2\<close> the slot of the
  parameter of \<open>Bstring\<close>. \<open>vsnprintf\<close> terminates what it writes.
\<close>

fun store_bytes :: "memory \<Rightarrow> addr \<Rightarrow> u8 list \<Rightarrow> memory" where
  "store_bytes m p [] = m"
| "store_bytes m p (c # cs) = store_bytes (m(p := c)) (p + 1) cs"

lemma store_bytes_apply:
  "length bs < 4294967296 \<Longrightarrow>
    store_bytes m p bs a = (if unat (a - p) < length bs then bs ! unat (a - p) else m a)"
proof (induction bs arbitrary: m p)
  case Nil
  then show ?case by simp
next
  case (Cons b bs)
  then have IH: "store_bytes (m(p := b)) (p + 1) bs a
      = (if unat (a - (p + 1)) < length bs then bs ! unat (a - (p + 1)) else (m(p := b)) a)" by simp
  show ?case
  proof (cases "a = p")
    case True
    have "length bs \<le> unat (p - (p + 1))" using Cons.prems by (intro wrap_back) simp
    with IH True show ?thesis by simp
  next
    case False
    then have "unat (a - p - 1) = unat (a - p) - 1" "0 < unat (a - p)"
      by (simp_all add: unat_minus_one unat_gt_0)
    moreover have "a - (p + 1) = a - p - 1" by simp
    ultimately have "unat (a - (p + 1)) = unat (a - p) - 1" "0 < unat (a - p)" by (simp_all only:)
    with IH False show ?thesis by (auto simp: nth_Cons')
  qed
qed

definition Lstring :: "mremap \<Rightarrow> addr \<Rightarrow> addr \<Rightarrow> addr \<Rightarrow> gc_state \<Rightarrow> (u32 \<times> gc_state) outcome" where
  "Lstring mremap buf p_slot p2 s =
     andthen (printValue s (load32 (mem s) p_slot) createStringBuf) (\<lambda>b.
     let s1 = s\<lparr>mem := store_bytes (mem s) buf (sb_text b @ [0])\<rparr> in
     andthen (push_extra_root p_slot s1) (\<lambda>s2.
     andthen (Bstring mremap p2 (s2\<lparr>mem := store32 (mem s2) p2 buf\<rparr>)) (\<lambda>(r, s3).
     andthen (pop_extra_root p_slot s3) (\<lambda>s4. ok (r, s4)))))"

definition Lstringcat :: "mremap \<Rightarrow> addr \<Rightarrow> addr \<Rightarrow> addr \<Rightarrow> gc_state \<Rightarrow> (u32 \<times> gc_state) outcome" where
  "Lstringcat mremap buf p_slot p2 s =
     andthen (stringcat s (load32 (mem s) p_slot) createStringBuf) (\<lambda>b.
     let s1 = s\<lparr>mem := store_bytes (mem s) buf (sb_text b @ [0])\<rparr> in
     andthen (push_extra_root p_slot s1) (\<lambda>s2.
     andthen (Bstring mremap p2 (s2\<lparr>mem := store32 (mem s2) p2 buf\<rparr>)) (\<lambda>(r, s3).
     andthen (pop_extra_root p_slot s3) (\<lambda>s4. ok (r, s4)))))"

text \<open>Case conversion, in the C locale.\<close>

definition toupper :: "int \<Rightarrow> int" where
  "toupper c = (if 97 \<le> c \<and> c \<le> 122 then c - 32 else c)"

definition tolower :: "int \<Rightarrow> int" where
  "tolower c = (if 65 \<le> c \<and> c \<le> 90 then c + 32 else c)"

definition Luppercase :: "u32 \<Rightarrow> u32 outcome" where
  "Luppercase v = andthen (ASSERT_UNBOXED ''Luppercase:1'' v) (\<lambda>_. ok (BOX (word_of_int (toupper (sint (UNBOX v))))))"

definition Llowercase :: "u32 \<Rightarrow> u32 outcome" where
  "Llowercase v = andthen (ASSERT_UNBOXED ''Llowercase:1'' v) (\<lambda>_. ok (BOX (word_of_int (tolower (sint (UNBOX v))))))"

text \<open>The value is printed first: on a cyclic one, no message appears.\<close>

definition Bmatch_failure :: "gc_state \<Rightarrow> u32 \<Rightarrow> unit outcome" where
  "Bmatch_failure s v = andthen (printValue s v createStringBuf)
     (\<lambda>b. err (Failure ''match failure at %s:%d:%d, value %s''))"

section \<open>read and write\<close>

text \<open>
  \<open>input\<close> holds the integers that \<open>scanf\<close> still delivers; when there is none it leaves the variable
  as it is, and the variable starts out boxed. \<open>Lwrite\<close> returns the C integer 0, which is not boxed.
\<close>

record io =
  io_input :: "u32 list"
  io_output :: "int list"

definition Lread :: "io \<Rightarrow> u32 \<times> io" where
  "Lread w = (case io_input w of
     [] \<Rightarrow> (BOX (BOX 0), w)
   | n # ns \<Rightarrow> (BOX n, w\<lparr>io_input := ns\<rparr>))"

definition Lwrite :: "u32 \<Rightarrow> io \<Rightarrow> u32 \<times> io" where
  "Lwrite n w = (0, w\<lparr>io_output := io_output w @ [sint (UNBOX n)]\<rparr>)"

section \<open>The buffer grows as needed\<close>

definition sb_inv :: "string_buf \<Rightarrow> bool" where
  "sb_inv b \<longleftrightarrow> unat (sb_ptr b) = length (sb_text b) \<and> length (sb_text b) < unat (sb_len b)
     \<and> unat (sb_len b) \<le> 1073741824"

lemma createStringBuf_inv: "sb_inv createStringBuf"
  by (simp add: sb_inv_def createStringBuf_def STRINGBUF_INIT_def)

lemma printStringBuf_appends:
  assumes "sb_inv b" "length (sb_text b) + length s < 536870912"
  shows "\<exists>b'. printStringBuf s b = ok b' \<and> sb_inv b' \<and> sb_text b' = sb_text b @ s"
  using assms
proof (induction "1073741824 - unat (sb_len b)" arbitrary: b rule: less_induct)
  case less
  let ?n = "length (sb_text b)" and ?w = "word_of_nat (length s) :: u32"
  have b: "unat (sb_ptr b) = ?n" "?n < unat (sb_len b)" "unat (sb_len b) \<le> 1073741824"
    using less.prems(1) by (auto simp: sb_inv_def)
  have w: "unat ?w = length s" using less.prems(2) by (intro unat_of_nat_u32) simp
  then have sw: "sint ?w = int (length s)" using less.prems(2) by (subst sint_small) simp_all
  have "unat (sb_len b - sb_ptr b) = unat (sb_len b) - ?n" using b by (simp add: unat_sub word_le_nat_alt)
  moreover from this have "unat (sb_len b - sb_ptr b) < 2147483648" using b(3) by linarith
  ultimately have sr: "sint (sb_len b - sb_ptr b) = int (unat (sb_len b) - ?n)" by (simp add: sint_small)
  have g: "sint (sb_len b - sb_ptr b) \<le> sint ?w \<longleftrightarrow> unat (sb_len b) - ?n \<le> length s"
    unfolding sr sw by (rule of_nat_le_iff)
  show ?case
  proof (cases "unat (sb_len b) - ?n \<le> length s")
    case True
    then have l: "unat (sb_len b) < 536870912" using less.prems(2) b(2) by linarith
    then have u: "unat (sb_len (extendStringBuf b)) = 2 * unat (sb_len b)"
      by (simp add: extendStringBuf_def push_bit_eq_mult unat_word_ariths)
    have "sb_inv (extendStringBuf b)" using b l u by (simp add: sb_inv_def) (simp add: extendStringBuf_def)
    moreover have "1073741824 - unat (sb_len (extendStringBuf b)) < 1073741824 - unat (sb_len b)"
      using u b l by linarith
    moreover have "sb_text (extendStringBuf b) = sb_text b" by (simp add: extendStringBuf_def)
    ultimately have "\<exists>b'. printStringBuf s (extendStringBuf b) = ok b' \<and> sb_inv b' \<and> sb_text b' = sb_text b @ s"
      using less.hyps [of "extendStringBuf b"] less.prems(2) by simp
    moreover have "printStringBuf s b = printStringBuf s (extendStringBuf b)"
      using True by (subst printStringBuf.simps) (simp only: g Let_def if_True)
    ultimately show ?thesis by simp
  next
    case False
    have "unat (sb_ptr b + ?w) = ?n + length s"
      using b w less.prems(2) by (simp add: unat_word_ariths)
    moreover have "printStringBuf s b = ok (b\<lparr>sb_text := sb_text b @ s, sb_ptr := sb_ptr b + ?w\<rparr>)"
      using False by (subst printStringBuf.simps) (simp only: g Let_def if_False)
    ultimately show ?thesis using False b(3) by (simp add: sb_inv_def)
  qed
qed

end
