(* ===== verification/Interpreter.thy ===== *)
theory Interpreter
  imports Printing Instructions
begin

text \<open>
  tools/interprete.cpp. The virtual stack is an array of words in memory, between the two pointers
  that the collector scans; it grows downwards, and \<open>__gc_stack_top\<close> points to the word below the
  top value. The call stack is an array of frames: a frame that is pushed keeps the field
  \<open>locals_count\<close> of the frame that was there before, until BEGIN sets it. Positions in the code are
  offsets from \<open>code_ptr\<close>, \<open>None\<close> is a null pointer. The call stack, the globals of the collector and the
  code are not in the byte memory \<open>mem\<close>: a store of STI or STA through a word that is no pointer of the program
  changes \<open>mem\<close> only, where the program could hit a frame, a pointer of the collector or the code.
\<close>

section \<open>The virtual stack\<close>

definition VSTACK_SIZE :: nat where "VSTACK_SIZE = 65536"
definition CSTACK_SIZE :: nat where "CSTACK_SIZE = 65536"

text \<open>\<open>b\<close> is the address of \<open>__vstack\<close>.\<close>

definition vs_init :: "addr \<Rightarrow> gc_state \<Rightarrow> gc_state" where
  "vs_init b s = s\<lparr>gc_stack_bottom := b + 4 * word_of_nat VSTACK_SIZE,
     gc_stack_top := b + 4 * word_of_nat VSTACK_SIZE - 4\<rparr>"

definition vs_alloc_globals :: "u32 \<Rightarrow> gc_state \<Rightarrow> gc_state outcome" where
  "vs_alloc_globals count s =
     andthen (ASSERT (unat count \<le> VSTACK_SIZE) ''Cannot allocate memory for globals'') (\<lambda>_.
       ok (s\<lparr>gc_stack_top := gc_stack_top s - 4 * count\<rparr>))"

definition vs_load :: "addr \<Rightarrow> gc_state \<Rightarrow> u32 outcome" where
  "vs_load p s = andthen (ASSERT (p < gc_stack_bottom s) ''Virtual stack underflow'') (\<lambda>_.
     andthen (ASSERT (gc_stack_top s < p) ''Location is out of stack'') (\<lambda>_. ok (load32 (mem s) p)))"

text \<open>The difference of two pointers to words is divided by their size, as a signed number.\<close>

definition vs_size :: "gc_state \<Rightarrow> u32" where
  "vs_size s = signed_drop_bit 2 (gc_stack_bottom s - gc_stack_top s) - 1"

definition vs_push :: "addr \<Rightarrow> u32 \<Rightarrow> gc_state \<Rightarrow> gc_state outcome" where
  "vs_push b v s = andthen (ASSERT (b < gc_stack_top s) ''Virtual stack overflow'') (\<lambda>_.
     ok (s\<lparr>mem := store32 (mem s) (gc_stack_top s) v, gc_stack_top := gc_stack_top s - 4\<rparr>))"

definition vs_pop :: "gc_state \<Rightarrow> (u32 \<times> gc_state) outcome" where
  "vs_pop s = andthen (ASSERT (gc_stack_top s + 4 \<noteq> gc_stack_bottom s) ''Virtual stack underflow'') (\<lambda>_.
     ok (load32 (mem s) (gc_stack_top s + 4), s\<lparr>gc_stack_top := gc_stack_top s + 4\<rparr>))"

definition vs_top :: "gc_state \<Rightarrow> u32 outcome" where
  "vs_top s = andthen (ASSERT (gc_stack_top s + 4 < gc_stack_bottom s) ''Virtual stack underflow'') (\<lambda>_.
     ok (load32 (mem s) (gc_stack_top s + 4)))"

definition vs_kth_from_end :: "u32 \<Rightarrow> gc_state \<Rightarrow> u32 outcome" where
  "vs_kth_from_end index s =
     andthen (ASSERT (gc_stack_top s + 4 + 4 * index < gc_stack_bottom s) ''Virtual stack underflow'') (\<lambda>_.
       ok (load32 (mem s) (gc_stack_top s + 4 + 4 * index)))"

section \<open>The state\<close>

record frame =
  return_ip :: "int option"
  fr_closure :: bool
  fr_base :: addr
  args_count :: u32
  locals_count :: u32

record istate =
  gs :: gc_state
  globals_count :: u32
  cframes :: "nat \<Rightarrow> frame"
  ctop :: nat
  world :: io

text \<open>
  What does not change: the file, the collector's parameters, the addresses of the stack, of the
  string table, of two parameter slots on the C stack and of the string buffer, and the value that
  the local variable \<open>closure_size\<close> of \<open>loc\<close>, which is never set, happens to have.
\<close>

record env =
  e_file :: bytefile
  e_mremap :: mremap
  e_vstack :: addr
  e_strings :: addr
  e_slot :: addr
  e_slot2 :: addr
  e_buf :: addr
  e_closure_size :: u32

datatype ip_advance = Normal | Jump_to "int option"

definition on_gc :: "(gc_state \<Rightarrow> gc_state outcome) \<Rightarrow> istate \<Rightarrow> istate outcome" where
  "on_gc f st = andthen (f (gs st)) (\<lambda>s. ok (st\<lparr>gs := s\<rparr>))"

definition popped :: "(u32 \<Rightarrow> istate \<Rightarrow> 'a outcome) \<Rightarrow> istate \<Rightarrow> 'a outcome" where
  "popped f st = andthen (vs_pop (gs st)) (\<lambda>(v, s). f v (st\<lparr>gs := s\<rparr>))"

definition push_value :: "env \<Rightarrow> u32 \<Rightarrow> istate \<Rightarrow> istate outcome" where
  "push_value e v = on_gc (vs_push (e_vstack e) v)"

section \<open>The call stack\<close>

definition cstack_init :: "istate \<Rightarrow> istate" where
  "cstack_init st = (let t = CSTACK_SIZE - 1 in
     st\<lparr>ctop := t, cframes := (cframes st)(t := (cframes st t)\<lparr>fr_base := gc_stack_top (gs st), return_ip := None\<rparr>)\<rparr>)"

definition cstack_call :: "int \<Rightarrow> u32 \<Rightarrow> bool \<Rightarrow> istate \<Rightarrow> istate outcome" where
  "cstack_call ret args is_closure st =
     andthen (ASSERT (0 < ctop st) ''Call stack overflow'') (\<lambda>_.
     andthen (ASSERT (gc_stack_top (gs st) + 4 * args < gc_stack_bottom (gs st)) ''Virtual stack underflow'') (\<lambda>_.
     let t = ctop st - 1;
         top_frame = (cframes st t)\<lparr>return_ip := Some ret, fr_base := gc_stack_top (gs st),
           fr_closure := is_closure, args_count := args\<rparr>
     in ok (st\<lparr>ctop := t, cframes := (cframes st)(t := top_frame)\<rparr>)))"

definition cstack_alloc :: "env \<Rightarrow> u32 \<Rightarrow> istate \<Rightarrow> istate outcome" where
  "cstack_alloc e locals st =
     andthen (ASSERT (e_vstack e < gc_stack_top (gs st) - 4 * locals) ''Virtual stack overflow'') (\<lambda>_.
       ok (st\<lparr>gs := (gs st)\<lparr>gc_stack_top := gc_stack_top (gs st) - 4 * locals\<rparr>,
           cframes := (cframes st)(ctop st := (cframes st (ctop st))\<lparr>locals_count := locals\<rparr>)\<rparr>))"

definition cstack_end :: "env \<Rightarrow> istate \<Rightarrow> (int option \<times> istate) outcome" where
  "cstack_end e = popped (\<lambda>return_value st. let fr = cframes st (ctop st) in
     andthen (ASSERT (ctop st \<noteq> CSTACK_SIZE) ''Call stack underflow'') (\<lambda>_.
     andthen (ASSERT (fr_base fr + 4 * args_count fr \<le> gc_stack_bottom (gs st)) ''Virtual stack underflow'') (\<lambda>_.
     let st1 = st\<lparr>gs := (gs st)\<lparr>gc_stack_top := fr_base fr + 4 * args_count fr + (if fr_closure fr then 4 else 0)\<rparr>\<rparr> in
     andthen (push_value e return_value st1) (\<lambda>st2.
       ok (return_ip fr, st2\<lparr>ctop := ctop st2 + 1\<rparr>)))))"

text \<open>\<open>index\<close> is compared with an unsigned count: a negative one is refused.\<close>

definition loc :: "env \<Rightarrow> istate \<Rightarrow> int \<Rightarrow> u32 \<Rightarrow> addr outcome" where
  "loc e st location index = (let fr = cframes st (ctop st) in
     if location = 0 then
       andthen (ASSERT (index < globals_count st) ''Memory access failed: G is out of section'') (\<lambda>_.
         ok (gc_stack_bottom (gs st) - 4 - 4 * index))
     else if location = 1 then
       andthen (ASSERT (index < locals_count fr) ''Memory access failed: L is out of frame'') (\<lambda>_.
         ok (fr_base fr - 4 * index))
     else if location = 2 then
       andthen (ASSERT (index < args_count fr) ''Memory access failed: A is out of frame'') (\<lambda>_.
         ok (fr_base fr + 4 * (args_count fr - index)))
     else if location = 3 then
       andthen (ASSERT (fr_closure fr) ''Memory access failed: C is invalid out of closure'') (\<lambda>_.
       let closure_content = load32 (mem (gs st)) (fr_base fr + 4 * (args_count fr + 1)) in
       andthen (ASSERT (index < e_closure_size e) ''Memory access failed: C is out of captured'') (\<lambda>_.
         ok (closure_content + 4 * (1 + index))))
     else err (Fail ''Unexpected location type''))"

section \<open>Constructors that take their arguments from the stack\<close>

text \<open>\<open>for (int i = n - 1; i >= 0; i--) p[i] = vstack_pop ();\<close>\<close>

fun pop_into :: "addr \<Rightarrow> nat \<Rightarrow> gc_state \<Rightarrow> gc_state outcome" where
  "pop_into p 0 s = ok s"
| "pop_into p (Suc k) s = andthen (vs_pop s) (\<lambda>(v, s1).
     pop_into p k (s1\<lparr>mem := store32 (mem s1) (p + 4 * word_of_nat k) v\<rparr>))"

definition stack_Barray :: "env \<Rightarrow> u32 \<Rightarrow> gc_state \<Rightarrow> (u32 \<times> gc_state) outcome" where
  "stack_Barray e n s = andthen (alloc_array (e_mremap e) n s) (\<lambda>(r, s1).
     andthen (pop_into (contents r) (nonneg n) s1) (\<lambda>s2. ok (contents r, s2)))"

definition stack_BSexp :: "env \<Rightarrow> u32 \<Rightarrow> u32 \<Rightarrow> gc_state \<Rightarrow> (u32 \<times> gc_state) outcome" where
  "stack_BSexp e n tag s = andthen (alloc_sexp (e_mremap e) n s) (\<lambda>(r, s1).
     andthen (pop_into (contents r + 4) (nonneg n) (s1\<lparr>mem := store32 (mem s1) (r + 8) 0\<rparr>)) (\<lambda>s2.
       ok (contents r, s2\<lparr>mem := store32 (mem s2) (r + 8) tag\<rparr>)))"

definition stack_Bclosure :: "env \<Rightarrow> u32 \<Rightarrow> u32 \<Rightarrow> gc_state \<Rightarrow> (u32 \<times> gc_state) outcome" where
  "stack_Bclosure e n entry s = andthen (alloc_closure (e_mremap e) (n + 1) s) (\<lambda>(r, s1).
     andthen (pop_into (contents r + 4) (nonneg n) (s1\<lparr>mem := store32 (mem s1) (contents r) entry\<rparr>)) (\<lambda>s2.
       ok (contents r, s2)))"

section \<open>Instructions\<close>

text \<open>\<open>res = lhv op rhv\<close>.\<close>

fun binop_apply :: "binop \<Rightarrow> u32 \<Rightarrow> u32 \<Rightarrow> u32 outcome" where
  "binop_apply Binop_Add a b = ok (a + b)"
| "binop_apply Binop_Sub a b = ok (a - b)"
| "binop_apply Binop_Mul a b = ok (a * b)"
| "binop_apply Binop_Div a b = c_div a b"
| "binop_apply Binop_Rem a b = c_mod a b"
| "binop_apply Binop_LessThan a b = ok (of_bool (sint a < sint b))"
| "binop_apply Binop_LessEqual a b = ok (of_bool (sint a \<le> sint b))"
| "binop_apply Binop_GreaterThan a b = ok (of_bool (sint b < sint a))"
| "binop_apply Binop_GreaterEqual a b = ok (of_bool (sint b \<le> sint a))"
| "binop_apply Binop_Equal a b = ok (of_bool (a = b))"
| "binop_apply Binop_NotEqual a b = ok (of_bool (a \<noteq> b))"
| "binop_apply Binop_And a b = ok (of_bool (a \<noteq> 0 \<and> b \<noteq> 0))"
| "binop_apply Binop_Or a b = ok (of_bool (a \<noteq> 0 \<or> b \<noteq> 0))"

fun location_index :: "location \<Rightarrow> int" where
  "location_index Location_Global = 0"
| "location_index Location_Local = 1"
| "location_index Location_Arg = 2"
| "location_index Location_Captured = 3"

text \<open>The characters of a name in the string table.\<close>

definition file_string :: "bytefile \<Rightarrow> nat \<Rightarrow> u8 list outcome" where
  "file_string f p = (let rest = drop (string_off f + p) (buffer f) in
     if 0 \<in> set rest then ok (takeWhile (\<lambda>c. c \<noteq> 0) rest) else err OutOfBounds)"

text \<open>A call of the runtime whose result is pushed.\<close>

definition push_result :: "env \<Rightarrow> (gc_state \<Rightarrow> (u32 \<times> gc_state) outcome) \<Rightarrow> istate \<Rightarrow> istate outcome" where
  "push_result e f st = andthen (f (gs st)) (\<lambda>(r, s). push_value e r (st\<lparr>gs := s\<rparr>))"

fun exec_patt :: "env \<Rightarrow> patt \<Rightarrow> u32 \<Rightarrow> istate \<Rightarrow> istate outcome" where
  "exec_patt e Pattern_String x st = popped (\<lambda>y st. andthen (Bstring_patt (gs st) x y) (\<lambda>r. push_value e r st)) st"
| "exec_patt e Pattern_StringTag x st = push_value e (Bstring_tag_patt (gs st) x) st"
| "exec_patt e Pattern_ArrayTag x st = push_value e (Barray_tag_patt (gs st) x) st"
| "exec_patt e Pattern_SExpTag x st = push_value e (Bsexp_tag_patt (gs st) x) st"
| "exec_patt e Pattern_Boxed x st = push_value e (Bboxed_patt x) st"
| "exec_patt e Pattern_Unboxed x st = push_value e (Bunboxed_patt x) st"
| "exec_patt e Pattern_ClosureTag x st = push_value e (Bclosure_tag_patt (gs st) x) st"

fun exec_lcall :: "env \<Rightarrow> lcall \<Rightarrow> istate \<Rightarrow> istate outcome" where
  "exec_lcall e LCall_Lread st = (let (v, w) = Lread (world st) in push_value e v (st\<lparr>world := w\<rparr>))"
| "exec_lcall e LCall_Lwrite st = popped (\<lambda>n st. let (v, w) = Lwrite n (world st) in
     push_value e v (st\<lparr>world := w\<rparr>)) st"
| "exec_lcall e LCall_Llength st = popped (\<lambda>p st. andthen (Llength (gs st) p) (\<lambda>v. push_value e v st)) st"
| "exec_lcall e LCall_Lstring st = popped (\<lambda>p st. push_result e (\<lambda>s.
     Lstring (e_mremap e) (e_buf e) (e_slot e) (e_slot2 e) (s\<lparr>mem := store32 (mem s) (e_slot e) p\<rparr>)) st) st"

definition normal :: "istate outcome \<Rightarrow> (istate \<times> ip_advance) outcome" where
  "normal r = andthen r (\<lambda>st. ok (st, Normal))"

definition jumping :: "int option \<Rightarrow> istate outcome \<Rightarrow> (istate \<times> ip_advance) outcome" where
  "jumping target r = andthen r (\<lambda>st. ok (st, Jump_to target))"

definition exec_StI :: "env \<Rightarrow> istate \<Rightarrow> istate outcome" where
  "exec_StI e = popped (\<lambda>v. popped (\<lambda>a st.
     push_value e v (st\<lparr>gs := (gs st)\<lparr>mem := store32 (mem (gs st)) a v\<rparr>\<rparr>)))"

definition exec_StA :: "env \<Rightarrow> istate \<Rightarrow> istate outcome" where
  "exec_StA e = popped (\<lambda>v. popped (\<lambda>i. popped (\<lambda>x. push_result e (Bsta v i x))))"

definition exec_end :: "env \<Rightarrow> istate \<Rightarrow> (istate \<times> ip_advance) outcome" where
  "exec_end e st = andthen (cstack_end e st) (\<lambda>(ip, st). ok (st, Jump_to ip))"

definition exec_Swap :: "env \<Rightarrow> istate \<Rightarrow> istate outcome" where
  "exec_Swap e = popped (\<lambda>fst. popped (\<lambda>snd st. andthen (push_value e fst st) (push_value e snd)))"

definition exec_Elem :: "env \<Rightarrow> istate \<Rightarrow> istate outcome" where
  "exec_Elem e = popped (\<lambda>i. popped (\<lambda>p st. andthen (Belem (gs st) p i) (\<lambda>v. push_value e v st)))"

definition exec_Closure :: "env \<Rightarrow> u32 \<Rightarrow> location_entry list \<Rightarrow> istate \<Rightarrow> istate outcome" where
  "exec_Closure e offset locations st = andthen
     (for_each (\<lambda>l st. andthen (loc e st (loc_kind l) (loc_index l)) (\<lambda>a.
        push_value e (load32 (mem (gs st)) a) st)) locations st)
     (push_result e (stack_Bclosure e (word_of_nat (length locations)) offset))"

definition exec_CallC :: "int \<Rightarrow> u32 \<Rightarrow> istate \<Rightarrow> (istate \<times> ip_advance) outcome" where
  "exec_CallC next args st = andthen (vs_kth_from_end args (gs st)) (\<lambda>closure.
     let entry = load32 (mem (gs st)) closure in jumping (Some (sint entry)) (cstack_call next args True st))"

definition exec_Call :: "int \<Rightarrow> u32 \<Rightarrow> u32 \<Rightarrow> istate \<Rightarrow> (istate \<times> ip_advance) outcome" where
  "exec_Call next offset args st = jumping (Some (sint offset)) (cstack_call next args False st)"

definition exec_Tag :: "env \<Rightarrow> nat \<Rightarrow> u32 \<Rightarrow> istate \<Rightarrow> istate outcome" where
  "exec_Tag e p n = popped (\<lambda>v st. andthen (file_string (e_file e) p) (\<lambda>name.
     andthen (LtagHash name) (\<lambda>h. push_value e (Btag (gs st) v h (BOX n)) st)))"

definition exec_Array :: "env \<Rightarrow> u32 \<Rightarrow> istate \<Rightarrow> istate outcome" where
  "exec_Array e n = popped (\<lambda>v st. push_value e (Barray_patt (gs st) v (BOX n)) st)"

definition exec_Fail :: "istate \<Rightarrow> istate outcome" where
  "exec_Fail = popped (\<lambda>v st. andthen (Bmatch_failure (gs st) v) (\<lambda>_. ok st))"

definition exec_binop :: "env \<Rightarrow> binop \<Rightarrow> istate \<Rightarrow> istate outcome" where
  "exec_binop e b = popped (\<lambda>rhv. popped (\<lambda>lhv st.
     andthen (binop_apply b (UNBOX lhv) (UNBOX rhv)) (\<lambda>res. push_value e (BOX res) st)))"

definition exec_Ld :: "env \<Rightarrow> location \<Rightarrow> u32 \<Rightarrow> istate \<Rightarrow> istate outcome" where
  "exec_Ld e k index st = andthen (loc e st (location_index k) index) (\<lambda>a.
     push_value e (load32 (mem (gs st)) a) st)"

definition exec_LdA :: "env \<Rightarrow> location \<Rightarrow> u32 \<Rightarrow> istate \<Rightarrow> istate outcome" where
  "exec_LdA e k index st = andthen (loc e st (location_index k) index) (\<lambda>a.
     andthen (push_value e a st) (push_value e a))"

definition exec_St :: "env \<Rightarrow> location \<Rightarrow> u32 \<Rightarrow> istate \<Rightarrow> istate outcome" where
  "exec_St e k index st = andthen (vs_top (gs st)) (\<lambda>v. andthen (loc e st (location_index k) index) (\<lambda>a.
     ok (st\<lparr>gs := (gs st)\<lparr>mem := store32 (mem (gs st)) a v\<rparr>\<rparr>)))"

fun exec_inst :: "env \<Rightarrow> int \<Rightarrow> inst \<Rightarrow> istate \<Rightarrow> (istate \<times> ip_advance) outcome" where
  "exec_inst e next (Const n) st = normal (push_value e (BOX n) st)"
| "exec_inst e next (String p) st = normal (push_result e (\<lambda>s.
     Bstring (e_mremap e) (e_slot e) (s\<lparr>mem := store32 (mem s) (e_slot e) (e_strings e + word_of_nat p)\<rparr>)) st)"
| "exec_inst e next (SExp p n) st = normal (andthen (file_string (e_file e) p) (\<lambda>name.
     andthen (LtagHash name) (\<lambda>h. push_result e (stack_BSexp e n (UNBOX h)) st)))"
| "exec_inst e next StI st = normal (exec_StI e st)"
| "exec_inst e next StA st = normal (exec_StA e st)"
| "exec_inst e next (Jmp target) st = ok (st, Jump_to (Some (sint target)))"
| "exec_inst e next End st = exec_end e st"
| "exec_inst e next Ret st = exec_end e st"
| "exec_inst e next Drop st = normal (popped (\<lambda>_ st. ok st) st)"
| "exec_inst e next Dup st = normal (andthen (vs_top (gs st)) (\<lambda>v. push_value e v st))"
| "exec_inst e next Swap st = normal (exec_Swap e st)"
| "exec_inst e next Elem st = normal (exec_Elem e st)"
| "exec_inst e next (CJmpZ target) st = popped (\<lambda>v st.
     ok (st, if UNBOX v = 0 then Jump_to (Some (sint target)) else Normal)) st"
| "exec_inst e next (CJmpNZ target) st = popped (\<lambda>v st.
     ok (st, if UNBOX v \<noteq> 0 then Jump_to (Some (sint target)) else Normal)) st"
| "exec_inst e next (Begin args locals) st = normal (cstack_alloc e locals st)"
| "exec_inst e next (CBegin args locals) st = normal (cstack_alloc e locals st)"
| "exec_inst e next (Closure offset locations) st = normal (exec_Closure e offset locations st)"
| "exec_inst e next (CallC args) st = exec_CallC next args st"
| "exec_inst e next (Call offset args) st = exec_Call next offset args st"
| "exec_inst e next (Tag p n) st = normal (exec_Tag e p n st)"
| "exec_inst e next (Array n) st = normal (exec_Array e n st)"
| "exec_inst e next (Fail_at line col) st = normal (exec_Fail st)"
| "exec_inst e next (Line line) st = ok (st, Normal)"
| "exec_inst e next (Binop_inst b) st = normal (exec_binop e b st)"
| "exec_inst e next (Ld k index) st = normal (exec_Ld e k index st)"
| "exec_inst e next (LdA k index) st = normal (exec_LdA e k index st)"
| "exec_inst e next (St k index) st = normal (exec_St e k index st)"
| "exec_inst e next (Patt p) st = normal (popped (exec_patt e p) st)"
| "exec_inst e next (LCall_inst l) st = normal (exec_lcall e l st)"
| "exec_inst e next (LCall_Barray n) st = normal (push_result e (stack_Barray e n) st)"
| "exec_inst e next Stop st = err Exited"
| "exec_inst e next (No_functor x) st = ok (st, Normal)"

section \<open>The main loop\<close>

definition next_ip :: "int \<Rightarrow> ip_advance \<Rightarrow> int option" where
  "next_ip next adv = (case adv of Normal \<Rightarrow> Some next | Jump_to target \<Rightarrow> target)"

definition step :: "env \<Rightarrow> int \<Rightarrow> istate \<Rightarrow> (int option \<times> istate) outcome" where
  "step e ip st = andthen (read_inst (e_file e) ip) (\<lambda>(i, next).
     andthen (exec_inst e next i st) (\<lambda>(st', adv). ok (next_ip next adv, st')))"

partial_function (option) interp_loop :: "env \<Rightarrow> int option \<Rightarrow> istate \<Rightarrow> istate outcome" where
  "interp_loop e ip st = (case ip of
     None \<Rightarrow> ok (st\<lparr>gs := gc_shutdown (gs st)\<rparr>)
   | Some ip \<Rightarrow> andthen (step e ip st) (\<lambda>(ip', st'). interp_loop e ip' st'))"

text \<open>\<open>interprete\<close> up to its loop.\<close>

definition interp_start :: "env \<Rightarrow> mmap \<Rightarrow> istate \<Rightarrow> istate outcome" where
  "interp_start e mmap st =
     andthen (gc_init mmap (gs st)) (\<lambda>s1.
     andthen (vs_alloc_globals (global_area_size (e_file e)) (vs_init (e_vstack e) s1)) (\<lambda>s2.
       ok (cstack_init (st\<lparr>gs := s2, globals_count := global_area_size (e_file e)\<rparr>))))"

definition interprete :: "env \<Rightarrow> mmap \<Rightarrow> int option \<Rightarrow> istate \<Rightarrow> istate outcome" where
  "interprete e mmap ip st = andthen (interp_start e mmap st) (interp_loop e ip)"

end
