(* ===== verification/Frame.thy ===== *)
theory Frame
  imports Printing
begin

text \<open>
  What the collector and the runtime leave alone: no function of gc.c or runtime.c moves the two
  pointers that delimit the program's stack. The loops of the collector need not return; the facts
  speak of what they return, by induction over the computation.
\<close>

section \<open>Postconditions of outcomes\<close>

definition yields :: "('a \<Rightarrow> bool) \<Rightarrow> 'a outcome \<Rightarrow> bool" where
  "yields P r \<longleftrightarrow> (\<forall>x. r = ok x \<longrightarrow> P x)"

lemma yields_simps [simp]:
  "yields P None" "yields P (err e)" "yields P (ok x) = P x"
  by (simp_all add: yields_def)

lemma yieldsD: "yields P r \<Longrightarrow> r = ok x \<Longrightarrow> P x"
  by (simp add: yields_def)

lemma yields_andthen: "yields P (andthen r f) \<longleftrightarrow> yields (\<lambda>x. yields P (f x)) r"
  by (auto simp: yields_def andthen_eq_ok)

lemma yields_mono: "yields P r \<Longrightarrow> (\<And>x. P x \<Longrightarrow> Q x) \<Longrightarrow> yields Q r"
  by (simp add: yields_def)

lemma yields_then: "yields P r \<Longrightarrow> (\<And>x. P x \<Longrightarrow> yields Q (f x)) \<Longrightarrow> yields Q (andthen r f)"
  by (simp add: yields_andthen yields_mono)

lemma yields_after: "(\<And>x. yields Q (f x)) \<Longrightarrow> yields Q (andthen r f)"
  by (auto simp: yields_andthen intro: yields_mono [where P = "\<lambda>_. True"]) (simp add: yields_def)

lemma yields_for_each:
  assumes "I s" "\<And>x s. x \<in> set xs \<Longrightarrow> I s \<Longrightarrow> yields I (f x s)"
  shows "yields I (for_each f xs s)"
  using assms
proof (induction xs arbitrary: s)
  case Nil
  then show ?case by simp
next
  case (Cons x xs)
  then show ?case by (auto intro!: yields_then [of I])
qed

lemma yields_if: "(b \<Longrightarrow> yields P r) \<Longrightarrow> (\<not> b \<Longrightarrow> yields P r') \<Longrightarrow> yields P (if b then r else r')"
  by simp

text \<open>For inductions over computations, which speak of what is returned.\<close>

lemma yields_ih: "(\<And>y. r = Some y \<Longrightarrow> yields P (Some y)) \<Longrightarrow> yields P r"
  by (cases r) simp_all

lemma yields_IH: "(\<And>y. r = Some y \<Longrightarrow> Q \<longrightarrow> yields P (Some y)) \<Longrightarrow> Q \<Longrightarrow> yields P r"
  by (cases r) simp_all

section \<open>The bounds of the stack\<close>

definition same_stack :: "gc_state \<Rightarrow> gc_state \<Rightarrow> bool" where
  "same_stack s s' \<longleftrightarrow> gc_stack_top s' = gc_stack_top s \<and> gc_stack_bottom s' = gc_stack_bottom s"

lemma same_stack_refl [simp]: "same_stack s s"
  by (simp add: same_stack_def)

lemma same_stack_fields [simp]:
  "same_stack s0 (s\<lparr>mem := m\<rparr>) = same_stack s0 s" "same_stack s0 (s\<lparr>heap := h\<rparr>) = same_stack s0 s"
  "same_stack s0 (s\<lparr>extra_roots := r\<rparr>) = same_stack s0 s"
  by (simp_all add: same_stack_def)

lemma same_stack_marks [simp]:
  "same_stack s0 (set_fwd_word s d v) = same_stack s0 s"
  "same_stack s0 (mark_object p s) = same_stack s0 s" "same_stack s0 (unmark_object p s) = same_stack s0 s"
  "same_stack s0 (make_enqueued p s) = same_stack s0 s" "same_stack s0 (make_dequeued p s) = same_stack s0 s"
  "same_stack s0 (set_forward_address p a s) = same_stack s0 s"
  "same_stack s0 (init_object k n p s) = same_stack s0 s"
  by (simp_all add: set_fwd_word_def mark_object_def unmark_object_def make_enqueued_def make_dequeued_def
      set_forward_address_def init_object_def Let_def)

text \<open>The shapes of results: a state, or values beside a state.\<close>

abbreviation keeps :: "gc_state \<Rightarrow> gc_state outcome \<Rightarrow> bool" where
  "keeps s0 \<equiv> yields (same_stack s0)"

abbreviation keeps2 :: "gc_state \<Rightarrow> ('a \<times> gc_state) outcome \<Rightarrow> bool" where
  "keeps2 s0 \<equiv> yields (\<lambda>(_, s). same_stack s0 s)"

lemma keeps_then: "keeps s0 r \<Longrightarrow> (\<And>s. same_stack s0 s \<Longrightarrow> yields Q (f s)) \<Longrightarrow> yields Q (andthen r f)"
  by (rule yields_then)

lemma keeps2_then:
  "keeps2 s0 r \<Longrightarrow> (\<And>a s. same_stack s0 s \<Longrightarrow> yields Q (f a s)) \<Longrightarrow> yields Q (andthen r (\<lambda>(a, s). f a s))"
  by (fastforce simp: yields_def andthen_eq_ok)

lemma keeps3_then:
  "yields (\<lambda>(_, _, s). same_stack s0 s) r \<Longrightarrow> (\<And>a b s. same_stack s0 s \<Longrightarrow> yields Q (f a b s)) \<Longrightarrow>
   yields Q (andthen r (\<lambda>(a, b, s). f a b s))"
  by (fastforce simp: yields_def andthen_eq_ok)

section \<open>Marking\<close>

lemma queue_enqueue_keeps: "same_stack s0 s \<Longrightarrow> keeps2 s0 (queue_enqueue t p s)"
  unfolding queue_enqueue_def Let_def by (intro yields_after) simp

lemma queue_dequeue_keeps:
  "same_stack s0 s \<Longrightarrow> yields (\<lambda>(_, _, s). same_stack s0 s) (queue_dequeue h s)"
  unfolding queue_dequeue_def Let_def by (intro yields_after) simp

lemma mark_fields_keeps: "same_stack s0 s \<Longrightarrow> keeps2 s0 (mark_fields it t s)"
  apply (rule yields_ih)
  apply (erule mark_fields.raw_induct [where P = "\<lambda>it t s y. same_stack s0 s \<longrightarrow> keeps2 s0 (Some y)",
        rotated, THEN mp])
   apply (rule impI)
  subgoal premises p for y f it t s
    unfolding p(3) [symmetric] Let_def
    apply (rule yields_after, rule yields_if)
     apply (simp add: p(4))
    apply (rule keeps2_then [of s0], rule yields_if)
      apply (simp add: p(4))
     apply (rule queue_enqueue_keeps [OF p(4)])
    apply (rule yields_after)
    apply (rule yields_IH, erule p(2), assumption)
    done
  apply assumption
  done

lemma mark_loop_keeps: "same_stack s0 s \<Longrightarrow> keeps s0 (mark_loop h t s)"
  apply (rule yields_ih)
  apply (erule mark_loop.raw_induct [where P = "\<lambda>h t s y. same_stack s0 s \<longrightarrow> keeps s0 (Some y)",
        rotated, THEN mp])
   apply (rule impI)
  subgoal premises p for y f h t s
    unfolding p(3) [symmetric] Let_def
    apply (rule yields_if)
     apply (simp add: p(4))
    apply (rule keeps3_then, rule queue_dequeue_keeps [OF p(4)])
    apply (rule yields_after, rule yields_after, rule keeps2_then, rule mark_fields_keeps)
     apply simp
    apply (rule yields_IH, erule p(2), assumption)
    done
  apply assumption
  done

lemma mark_keeps: "same_stack s0 s \<Longrightarrow> keeps s0 (mark p s)"
  unfolding mark_def Let_def
  by (rule yields_if, simp, rule keeps2_then, erule queue_enqueue_keeps, erule mark_loop_keeps)

lemma scan_area_keeps: "same_stack s0 s \<Longrightarrow> keeps s0 (scan_area a b s)"
  apply (rule yields_ih)
  apply (erule scan_area.raw_induct [where P = "\<lambda>a b s y. same_stack s0 s \<longrightarrow> keeps s0 (Some y)",
        rotated, THEN mp])
   apply (rule impI)
  subgoal premises p for y f a b s
    unfolding p(3) [symmetric] gc_test_and_mark_root_def
    apply (rule yields_if)
     apply (simp add: p(4))
    apply (rule keeps_then, rule mark_keeps [OF p(4)])
    apply (rule yields_IH, erule p(2), assumption)
    done
  apply assumption
  done

lemma mark_phase_keeps: "same_stack s0 s \<Longrightarrow> keeps s0 (mark_phase s)"
  unfolding mark_phase_def gc_root_scan_stack_def scan_extra_roots_def scan_global_area_def
  by (intro keeps_then [of s0] scan_area_keeps yields_for_each mark_keeps)

section \<open>Compaction\<close>

lemma compute_locations_loop_keeps: "same_stack s0 s \<Longrightarrow> keeps2 s0 (compute_locations_loop it a s)"
  apply (rule yields_ih)
  apply (erule compute_locations_loop.raw_induct [where P = "\<lambda>it a s y. same_stack s0 s \<longrightarrow> keeps2 s0 (Some y)",
        rotated, THEN mp])
   apply (rule impI)
  subgoal premises p for y f it a s
    unfolding p(3) [symmetric]
    apply (rule yields_if)
     apply (simp add: p(4))
    apply (rule yields_after, rule keeps2_then [of s0], rule yields_if)
      apply (rule yields_after, simp add: p(4))
     apply (simp add: p(4))
    apply (rule yields_after)
    apply (rule yields_IH, erule p(2), assumption)
    done
  apply assumption
  done

lemma compute_locations_keeps: "same_stack s0 s \<Longrightarrow> keeps2 s0 (compute_locations s)"
  unfolding compute_locations_def by (rule keeps2_then, erule compute_locations_loop_keeps, simp)

lemma scan_and_fix_region_keeps: "same_stack s0 s \<Longrightarrow> keeps s0 (scan_and_fix_region h a b s)"
  apply (rule yields_ih)
  apply (erule scan_and_fix_region.raw_induct [where P = "\<lambda>h a b s y. same_stack s0 s \<longrightarrow> keeps s0 (Some y)",
        rotated, THEN mp])
   apply (rule impI)
  subgoal premises p for y f h a b s
    unfolding p(3) [symmetric] Let_def
    apply (rule yields_if)
     apply (simp add: p(4))
    apply (rule keeps_then [of s0], rule yields_if)
      apply (rule yields_after, simp add: p(4))
     apply (simp add: p(4))
    apply (rule yields_IH, erule p(2), assumption)
    done
  apply assumption
  done

lemma fix_root_keeps: "same_stack s0 s \<Longrightarrow> keeps s0 (fix_root h r s)"
  unfolding fix_root_def Let_def by (intro yields_if) (simp_all add: yields_after)

lemma update_fields_keeps: "same_stack s0 s \<Longrightarrow> keeps s0 (update_fields h it s)"
  apply (rule yields_ih)
  apply (erule update_fields.raw_induct [where P = "\<lambda>h it s y. same_stack s0 s \<longrightarrow> keeps s0 (Some y)",
        rotated, THEN mp])
   apply (rule impI)
  subgoal premises p for y f h it s
    unfolding p(3) [symmetric] Let_def
    apply (rule yields_after, rule yields_if)
     apply (simp add: p(4))
    apply (rule keeps_then [of s0], rule yields_if)
      apply (simp add: p(4))
     apply (rule yields_after, simp add: p(4))
    apply (rule yields_after)
    apply (rule yields_IH, erule p(2), assumption)
    done
  apply assumption
  done

lemma update_objects_keeps: "same_stack s0 s \<Longrightarrow> keeps s0 (update_objects h it s)"
  apply (rule yields_ih)
  apply (erule update_objects.raw_induct [where P = "\<lambda>h it s y. same_stack s0 s \<longrightarrow> keeps s0 (Some y)",
        rotated, THEN mp])
   apply (rule impI)
  subgoal premises p for y f h it s
    unfolding p(3) [symmetric]
    apply (rule yields_if)
     apply (simp add: p(4))
    apply (rule yields_after, rule keeps_then [of s0], rule yields_if)
      apply (rule yields_after, rule update_fields_keeps, rule p(4))
     apply (simp add: p(4))
    apply (rule yields_after)
    apply (rule yields_IH, erule p(2), assumption)
    done
  apply assumption
  done

lemma relocate_objects_keeps: "same_stack s0 s \<Longrightarrow> keeps s0 (relocate_objects h it s)"
  apply (rule yields_ih)
  apply (erule relocate_objects.raw_induct [where P = "\<lambda>h it s y. same_stack s0 s \<longrightarrow> keeps s0 (Some y)",
        rotated, THEN mp])
   apply (rule impI)
  subgoal premises p for y f h it s
    unfolding p(3) [symmetric] Let_def
    apply (rule yields_if)
     apply (simp add: p(4))
    apply (rule yields_after, rule yields_after, rule keeps_then [of s0], rule yields_if)
      apply (rule yields_after, rule yields_after, simp add: p(4))
     apply (simp add: p(4))
    apply (rule yields_IH, erule p(2), assumption)
    done
  apply assumption
  done

lemma compact_phase_keeps: "same_stack s0 s \<Longrightarrow> keeps s0 (compact_phase mremap n s)"
  unfolding compact_phase_def Let_def
  apply (rule keeps2_then, erule compute_locations_keeps)
  apply (split option.split, intro conjI allI impI)
   apply simp
  apply clarify
  apply (rule keeps_then [of s0])
   apply (simp add: update_references_def)
   apply (rule keeps_then [of s0], rule update_objects_keeps, simp)
   apply (rule keeps_then [of s0], erule scan_and_fix_region_keeps)
   apply (simp add: scan_and_fix_region_roots_def yields_for_each fix_root_keeps)
  apply (rule keeps_then [of s0])
   apply (simp add: physically_relocate_def relocate_objects_keeps)
  apply simp
  done

section \<open>Allocation\<close>

lemma gc_alloc_on_existing_heap_keeps:
  "same_stack s0 s \<Longrightarrow> same_stack s0 (snd (gc_alloc_on_existing_heap n s))"
  by (simp add: gc_alloc_on_existing_heap_def Let_def)

lemma alloc_keeps: "same_stack s0 s \<Longrightarrow> keeps2 s0 (alloc mremap n s)"
  using gc_alloc_on_existing_heap_keeps [of s0 s "BYTES_TO_WORDS n"]
  unfolding alloc_def gc_alloc_def Let_def
  apply (simp add: case_prod_unfold)
  apply (intro impI)
  apply (rule keeps_then [of s0], erule mark_phase_keeps)
  apply (rule keeps_then [of s0], erule compact_phase_keeps)
  apply (simp add: gc_alloc_on_existing_heap_keeps)
  done

lemma alloc_object_keeps:
  assumes "same_stack s0 s"
  shows "keeps2 s0 (alloc_string mremap n s)" "keeps2 s0 (alloc_array mremap n s)"
    "keeps2 s0 (alloc_sexp mremap n s)" "keeps2 s0 (alloc_closure mremap n s)"
  unfolding alloc_string_def alloc_array_def alloc_sexp_def alloc_closure_def Let_def
  by (rule keeps2_then, rule alloc_keeps [OF assms], simp)+

section \<open>The runtime functions that the interpreter calls\<close>

lemma push_extra_root_keeps: "same_stack s0 s \<Longrightarrow> keeps s0 (push_extra_root p s)"
  by (simp add: push_extra_root_def Let_def)

lemma pop_extra_root_keeps: "same_stack s0 s \<Longrightarrow> keeps s0 (pop_extra_root p s)"
  by (simp add: pop_extra_root_def Let_def)

lemma Bstring_keeps: "same_stack s0 s \<Longrightarrow> keeps2 s0 (Bstring mremap p s)"
  unfolding Bstring_def LmakeString_def Let_def
  apply (rule yields_after, rule keeps_then, erule push_extra_root_keeps)
  apply (rule keeps2_then [of s0])
   apply (rule yields_after, rule keeps2_then [of s0], erule alloc_object_keeps, simp)
  apply (rule keeps_then, erule pop_extra_root_keeps, simp)
  done

lemma Lstring_keeps: "same_stack s0 s \<Longrightarrow> keeps2 s0 (Lstring mremap buf p q s)"
  unfolding Lstring_def Let_def
  apply (rule yields_after, rule keeps_then [of s0], rule push_extra_root_keeps, simp)
  apply (rule keeps2_then [of s0], rule Bstring_keeps, simp)
  apply (rule keeps_then, erule pop_extra_root_keeps, simp)
  done

lemma Bsta_keeps: "same_stack s0 s \<Longrightarrow> keeps2 s0 (Bsta v i x s)"
  unfolding Bsta_def by (intro yields_if yields_after) simp_all

end
