(* ===== verification/Machine.thy ===== *)
theory Machine
  imports Interpreter Frame
begin

text \<open>
  The virtual stack of the interpreter as a list of values, top first, the interpretation of
  \<open>value_stack\<close> on it, and what each instruction does to its height.
\<close>

section \<open>The virtual stack as a list\<close>

text \<open>
  The array is a static one; a process does not place it in the first 256 kB or the last 1 MB of
  the address space. The last word of the array is never used: \<open>vstack_push\<close> refuses it.
\<close>

definition placed :: "addr \<Rightarrow> bool" where
  "placed b \<longleftrightarrow> 262144 \<le> unat b \<and> unat b + 1048576 < 4294967296"

definition top_index :: "addr \<Rightarrow> gc_state \<Rightarrow> nat" where
  "top_index b s = unat (gc_stack_top s - b) div 4"

definition vs_inv :: "addr \<Rightarrow> gc_state \<Rightarrow> bool" where
  "vs_inv b s \<longleftrightarrow> placed b \<and> gc_stack_bottom s = ptr b 262144
     \<and> top_index b s \<le> 65535 \<and> gc_stack_top s = ptr b (4 * top_index b s)"

definition vs_values :: "addr \<Rightarrow> gc_state \<Rightarrow> u32 list" where
  "vs_values b s = map (\<lambda>k. load32 (mem s) (ptr b (4 * k))) [Suc (top_index b s)..<65536]"

lemma top_index_ptr: "k \<le> 65536 \<Longrightarrow> gc_stack_top s = ptr b (4 * k) \<Longrightarrow> top_index b s = k"
  by (simp add: top_index_def unat_of_nat_u32 del: of_nat_mult)

lemma vs_invI:
  "placed b \<Longrightarrow> gc_stack_bottom s = ptr b 262144 \<Longrightarrow> k \<le> 65535 \<Longrightarrow> gc_stack_top s = ptr b (4 * k) \<Longrightarrow> vs_inv b s"
  using top_index_ptr [of k s b] by (simp add: vs_inv_def)

lemma top_index_mem [simp]: "top_index b (s\<lparr>mem := m\<rparr>) = top_index b s"
  by (simp add: top_index_def)

lemma vs_inv_mem [simp]: "vs_inv b (s\<lparr>mem := m\<rparr>) = vs_inv b s"
  by (simp add: vs_inv_def)

lemma vs_inv_same_stack: "same_stack s s' \<Longrightarrow> vs_inv b s' = vs_inv b s"
  by (simp add: vs_inv_def top_index_def same_stack_def)

lemma top_index_same_stack: "same_stack s s' \<Longrightarrow> top_index b s' = top_index b s"
  by (simp add: top_index_def same_stack_def)

lemma length_vs_values: "length (vs_values b s) = 65535 - top_index b s"
  by (simp add: vs_values_def)

text \<open>The pointer moved to the word \<open>k\<close>.\<close>

lemma vs_inv_move:
  assumes "vs_inv b s" "k \<le> 65535"
  shows "vs_inv b (s\<lparr>gc_stack_top := ptr b (4 * k)\<rparr>)" "top_index b (s\<lparr>gc_stack_top := ptr b (4 * k)\<rparr>) = k"
  using assms top_index_ptr [of k "s\<lparr>gc_stack_top := ptr b (4 * k)\<rparr>" b] by (auto simp: vs_inv_def)

lemma ptr_minus_word: "4 * unat c \<le> k \<Longrightarrow> ptr b k - 4 * c = ptr b (k - 4 * unat c)"
  by (simp add: ptr_def of_nat_diff)

lemma ptr_4_Suc: "ptr b (4 * Suc k) = ptr b (4 * k) + 4"
  by (simp add: ptr_def)

lemma vs_push_eq:
  assumes "vs_inv b s"
  shows "vs_push b v s = (if top_index b s = 0 then err (Fail ''Virtual stack overflow'')
    else ok (s\<lparr>mem := store32 (mem s) (ptr b (4 * top_index b s)) v, gc_stack_top := ptr b (4 * (top_index b s - 1))\<rparr>))"
proof -
  let ?t = "top_index b s"
  have i: "placed b" "?t \<le> 65535" "gc_stack_top s = ptr b (4 * ?t)" using assms by (auto simp: vs_inv_def)
  then have "b < gc_stack_top s \<longleftrightarrow> 0 < ?t"
    using ptr_less_iff [of b 0 "4 * ?t"] by (simp add: placed_def)
  moreover have "0 < ?t \<Longrightarrow> ptr b (4 * ?t) - 4 = ptr b (4 * (?t - 1))"
    using ptr_minus_word [of 1 "4 * ?t" b] by (simp add: diff_mult_distrib2)
  ultimately show ?thesis using i(3) by (simp add: vs_push_def ASSERT_def)
qed

lemma vs_pop_eq:
  assumes "vs_inv b s"
  shows "vs_pop s = (if top_index b s = 65535 then err (Fail ''Virtual stack underflow'')
    else ok (load32 (mem s) (ptr b (4 * Suc (top_index b s))), s\<lparr>gc_stack_top := ptr b (4 * Suc (top_index b s))\<rparr>))"
proof -
  let ?t = "top_index b s"
  have i: "placed b" "?t \<le> 65535" "gc_stack_top s = ptr b (4 * ?t)" "gc_stack_bottom s = ptr b 262144"
    using assms by (auto simp: vs_inv_def)
  have "gc_stack_top s + 4 = ptr b (4 * Suc ?t)" using i(3) by (simp only: ptr_4_Suc)
  moreover have "ptr b (4 * Suc ?t) = ptr b 262144 \<longleftrightarrow> ?t = 65535"
    using i(2) by (subst ptr_eq_iff) auto
  ultimately show ?thesis using i(4) by (simp add: vs_pop_def ASSERT_def)
qed

lemma vs_pop_ok:
  assumes i: "vs_inv b s" and p: "vs_pop s = ok (v, s')"
  shows "vs_inv b s'" "top_index b s' = Suc (top_index b s)" "v = load32 (mem s) (ptr b (4 * top_index b s'))"
    "s' = s\<lparr>gc_stack_top := ptr b (4 * top_index b s')\<rparr>"
proof -
  from p have t: "top_index b s \<noteq> 65535" and s': "s' = s\<lparr>gc_stack_top := ptr b (4 * Suc (top_index b s))\<rparr>"
    and v: "v = load32 (mem s) (ptr b (4 * Suc (top_index b s)))"
    by (auto simp: vs_pop_eq [OF i] split: if_splits)
  from t i have "Suc (top_index b s) \<le> 65535" by (simp add: vs_inv_def)
  note m = vs_inv_move [OF i this]
  from m(1) show "vs_inv b s'" unfolding s' .
  from m(2) show n: "top_index b s' = Suc (top_index b s)" unfolding s' .
  show "v = load32 (mem s) (ptr b (4 * top_index b s'))" "s' = s\<lparr>gc_stack_top := ptr b (4 * top_index b s')\<rparr>"
    unfolding n by (rule v, rule s')
qed

lemma vs_push_ok:
  assumes i: "vs_inv b s" and p: "vs_push b v s = ok s'"
  shows "vs_inv b s'" "Suc (top_index b s') = top_index b s"
    "s' = s\<lparr>mem := store32 (mem s) (ptr b (4 * top_index b s)) v, gc_stack_top := ptr b (4 * top_index b s')\<rparr>"
proof -
  let ?m = "s\<lparr>mem := store32 (mem s) (ptr b (4 * top_index b s)) v\<rparr>"
  from p have t: "top_index b s \<noteq> 0" and s': "s' = ?m\<lparr>gc_stack_top := ptr b (4 * (top_index b s - 1))\<rparr>"
    by (auto simp: vs_push_eq [OF i] split: if_splits)
  have "vs_inv b ?m" "top_index b s - 1 \<le> 65535" using i by (auto simp: vs_inv_def)
  note m = vs_inv_move [OF this]
  from m(1) show "vs_inv b s'" unfolding s' .
  from m(2) have n: "top_index b s' = top_index b s - 1" unfolding s' .
  with t show "Suc (top_index b s') = top_index b s" by simp
  from s' show "s' = ?m\<lparr>gc_stack_top := ptr b (4 * top_index b s')\<rparr>" unfolding n .
qed

lemma vs_top_eq:
  assumes "vs_inv b s"
  shows "vs_top s = (if top_index b s = 65535 then err (Fail ''Virtual stack underflow'')
    else ok (load32 (mem s) (ptr b (4 * Suc (top_index b s)))))"
proof -
  let ?t = "top_index b s"
  have i: "placed b" "?t \<le> 65535" "gc_stack_top s = ptr b (4 * ?t)" "gc_stack_bottom s = ptr b 262144"
    using assms by (auto simp: vs_inv_def)
  have "gc_stack_top s + 4 = ptr b (4 * Suc ?t)" using i(3) by (simp only: ptr_4_Suc)
  moreover have "ptr b (4 * Suc ?t) < ptr b 262144 \<longleftrightarrow> ?t \<noteq> 65535"
    using i(1,2) by (subst ptr_less_iff) (auto simp: placed_def)
  ultimately show ?thesis using i(4) by (simp add: vs_top_def ASSERT_def)
qed

lemma vs_values_store:
  assumes "k \<le> top_index b s" "top_index b s \<le> 65535"
  shows "vs_values b (s\<lparr>mem := store32 (mem s) (ptr b (4 * k)) v\<rparr>) = vs_values b s"
  unfolding vs_values_def using assms by (auto intro!: load32_store32_other)

interpretation ivs: value_stack "vs_push b" "vs_values b" "\<lambda>_. 65535" "vs_inv b" "\<lambda>_ _. True" vs_pop
  for b :: addr
proof
  fix s x
  assume i: "vs_inv b s" and r: "length (vs_values b s) < 65535"
  then have t: "0 < top_index b s" "top_index b s \<le> 65535" by (auto simp: length_vs_values vs_inv_def)
  let ?s = "s\<lparr>mem := store32 (mem s) (ptr b (4 * top_index b s)) x\<rparr>"
  let ?s' = "?s\<lparr>gc_stack_top := ptr b (4 * (top_index b s - 1))\<rparr>"
  have n: "top_index b ?s' = top_index b s - 1" and v: "vs_inv b ?s'"
    using vs_inv_move [of b ?s "top_index b s - 1"] i t(2) by auto
  have "vs_values b ?s' = x # vs_values b ?s"
    using t n by (simp add: vs_values_def upt_conv_Cons)
  also have "vs_values b ?s = vs_values b s" using t(2) by (rule vs_values_store [OF order_refl])
  finally show "\<exists>s'. vs_push b x s = ok s' \<and> vs_inv b s' \<and> vs_values b s' = x # vs_values b s
      \<and> 65535 = 65535 \<and> (\<forall>y. True = True)"
    using t v by (simp add: vs_push_eq [OF i])
next
  fix s x
  assume i: "vs_inv b s" and "65535 \<le> length (vs_values b s)"
  then show "\<exists>e. vs_push b x s = err e" by (simp add: vs_push_eq length_vs_values)
next
  fix s assume "vs_inv b s"
  then show "length (vs_values b s) \<le> 65535" by (simp add: length_vs_values)
next
  fix s x xs
  assume i: "vs_inv b s" and e: "vs_values b s = x # xs"
  then have t: "top_index b s < 65535" by (metis length_vs_values length_greater_0_conv list.distinct(1) zero_less_diff)
  let ?k = "Suc (top_index b s)" and ?s' = "s\<lparr>gc_stack_top := ptr b (4 * Suc (top_index b s))\<rparr>"
  have n: "vs_inv b ?s'" "top_index b ?s' = ?k" using vs_inv_move [OF i, of ?k] t by simp_all
  have "vs_values b s = load32 (mem s) (ptr b (4 * ?k)) # vs_values b ?s'"
    using t n(2) by (simp add: vs_values_def upt_conv_Cons)
  with e have "x = load32 (mem s) (ptr b (4 * ?k))" "xs = vs_values b ?s'" by simp_all
  with t n(1) show "\<exists>s'. vs_pop s = ok (x, s') \<and> vs_inv b s' \<and> vs_values b s' = xs \<and> 65535 = 65535"
    by (simp add: vs_pop_eq [OF i])
next
  fix s assume i: "vs_inv b s" and "vs_values b s = []"
  then have "top_index b s = 65535" using length_vs_values [of b s] by (simp add: vs_inv_def)
  then show "\<exists>e. vs_pop s = err e" by (simp add: vs_pop_eq [OF i])
qed

section \<open>What instructions do to the height of the stack\<close>

text \<open>\<open>d\<close> more values than before, and the call stack as it was.\<close>

definition shifted :: "addr \<Rightarrow> int \<Rightarrow> istate \<Rightarrow> istate \<Rightarrow> bool" where
  "shifted b d st st' \<longleftrightarrow> vs_inv b (gs st') \<and> int (top_index b (gs st')) = int (top_index b (gs st)) - d
     \<and> ctop st' = ctop st \<and> cframes st' = cframes st \<and> globals_count st' = globals_count st"

lemma shifted_refl: "vs_inv b (gs st) \<Longrightarrow> shifted b 0 st st"
  by (simp add: shifted_def)

lemma shifted_trans: "shifted b d st st1 \<Longrightarrow> shifted b d' st1 st2 \<Longrightarrow> shifted b (d + d') st st2"
  by (simp add: shifted_def)

lemma shifted_inv: "shifted b d st st' \<Longrightarrow> vs_inv b (gs st')"
  by (simp add: shifted_def)

lemma shifted_mem [simp]:
  "shifted b d st (st'\<lparr>gs := (gs st')\<lparr>mem := m\<rparr>\<rparr>) = shifted b d st st'"
  "shifted b d st (st'\<lparr>world := w\<rparr>) = shifted b d st st'"
  by (simp_all add: shifted_def)

lemma shifted_keeps: "shifted b d st st1 \<Longrightarrow> same_stack (gs st1) s \<Longrightarrow> shifted b d st (st1\<lparr>gs := s\<rparr>)"
  by (simp add: shifted_def vs_inv_same_stack top_index_same_stack)

lemma yields_push:
  assumes "shifted (e_vstack e) d st st1" "d' = d + 1"
  shows "yields (shifted (e_vstack e) d' st) (push_value e v st1)"
proof -
  let ?b = "e_vstack e"
  have i: "vs_inv ?b (gs st1)" using assms(1) by (rule shifted_inv)
  then have "top_index ?b (gs st1) \<le> 65535" by (simp add: vs_inv_def)
  moreover have "vs_inv ?b (gs st1\<lparr>mem := m\<rparr>)" for m using i by simp
  note vs_inv_move [OF this, of "top_index ?b (gs st1) - 1"]
  ultimately show ?thesis
    using assms by (auto simp: push_value_def on_gc_def vs_push_eq [OF i] shifted_def of_nat_diff)
qed

lemma yields_popped:
  assumes "shifted b d st st1" "\<And>v st'. shifted b (d - 1) st st' \<Longrightarrow> yields Q (f v st')"
  shows "yields Q (popped f st1)"
proof -
  have i: "vs_inv b (gs st1)" using assms(1) by (rule shifted_inv)
  show ?thesis
  proof (cases "top_index b (gs st1) = 65535")
    case False
    then have "Suc (top_index b (gs st1)) \<le> 65535" using i by (simp add: vs_inv_def)
    note vs_inv_move [OF i this]
    then have "shifted b (d - 1) st (st1\<lparr>gs := gs st1\<lparr>gc_stack_top := ptr b (4 * Suc (top_index b (gs st1)))\<rparr>\<rparr>)"
      using assms(1) by (simp add: shifted_def)
    then show ?thesis using False assms(2) by (simp add: popped_def vs_pop_eq [OF i])
  qed (simp add: popped_def vs_pop_eq [OF i])
qed

lemma yields_push_result:
  assumes "shifted (e_vstack e) d st st1" "keeps2 (gs st1) (f (gs st1))" "d' = d + 1"
  shows "yields (shifted (e_vstack e) d' st) (push_result e f st1)"
  unfolding push_result_def
  by (rule keeps2_then [OF assms(2)], rule yields_push [OF shifted_keeps [OF assms(1)] assms(3)])

text \<open>The loop that fills an object from the stack.\<close>

definition lowered :: "addr \<Rightarrow> nat \<Rightarrow> gc_state \<Rightarrow> gc_state \<Rightarrow> bool" where
  "lowered b k s s' \<longleftrightarrow> vs_inv b s' \<and> top_index b s' = top_index b s + k"

lemma pop_into_lowered: "lowered b j s0 s \<Longrightarrow> yields (lowered b (j + k) s0) (pop_into p k s)"
proof (induction k arbitrary: j s)
  case (Suc k)
  have i: "vs_inv b s" using Suc.prems by (simp add: lowered_def)
  show ?case
  proof (cases "top_index b s = 65535")
    case False
    then have "Suc (top_index b s) \<le> 65535" using i by (simp add: vs_inv_def)
    note m = vs_inv_move [OF i this]
    let ?s = "s\<lparr>gc_stack_top := ptr b (4 * Suc (top_index b s))\<rparr>"
    have "lowered b (Suc j) s0 (?s\<lparr>mem := m\<rparr>)" for m :: memory
      using m Suc.prems by (simp add: lowered_def)
    from Suc.IH [OF this] False show ?thesis by (simp add: vs_pop_eq [OF i])
  qed (simp add: vs_pop_eq [OF i])
qed simp

lemma lowered_keeps: "vs_inv b s0 \<Longrightarrow> same_stack s0 s \<Longrightarrow> lowered b 0 s0 s"
  by (simp add: lowered_def vs_inv_same_stack top_index_same_stack)

lemma lowered_mem [simp]: "lowered b k s0 (s\<lparr>mem := m\<rparr>) = lowered b k s0 s"
  by (simp add: lowered_def)

lemma constructors_lower:
  assumes "vs_inv b s"
  shows "yields (\<lambda>(_, s'). lowered b (nonneg n) s s') (stack_Barray e n s)"
    "yields (\<lambda>(_, s'). lowered b (nonneg n) s s') (stack_BSexp e n tag s)"
    "yields (\<lambda>(_, s'). lowered b (nonneg n) s s') (stack_Bclosure e n entry s)"
  unfolding stack_Barray_def stack_BSexp_def stack_Bclosure_def
  using lowered_keeps [OF assms]
  by (rule_tac keeps2_then [of s], simp add: alloc_object_keeps,
      rule_tac yields_then [of "lowered b (0 + nonneg n) s"], rule_tac pop_into_lowered, simp, simp)+

lemma yields_push_lowered:
  assumes "shifted (e_vstack e) d st st1"
    "yields (\<lambda>(_, s'). lowered (e_vstack e) k (gs st1) s') (f (gs st1))" "d' = d + 1 - int k"
  shows "yields (shifted (e_vstack e) d' st) (push_result e f st1)"
  unfolding push_result_def
proof (rule yields_then [OF assms(2)], clarify)
  fix r s
  assume "lowered (e_vstack e) k (gs st1) s"
  then have "shifted (e_vstack e) (d - int k) st (st1\<lparr>gs := s\<rparr>)"
    using assms(1) by (simp add: shifted_def lowered_def)
  then show "yields (shifted (e_vstack e) d' st) (push_value e r (st1\<lparr>gs := s\<rparr>))"
    using assms(3) by (intro yields_push) auto
qed

lemma yields_push_constructor:
  assumes s: "shifted (e_vstack e) d st st1" and d: "d' = d + 1 - int (nonneg n)"
  shows "yields (shifted (e_vstack e) d' st) (push_result e (stack_Barray e n) st1)"
    "yields (shifted (e_vstack e) d' st) (push_result e (stack_BSexp e n tag) st1)"
    "yields (shifted (e_vstack e) d' st) (push_result e (stack_Bclosure e n entry) st1)"
  by (rule yields_push_lowered [where k = "nonneg n"], rule s, rule constructors_lower, rule shifted_inv [OF s], rule d)+

text \<open>How many values an instruction leaves on the stack, less those it takes from it.\<close>

fun net_effect :: "inst \<Rightarrow> int" where
  "net_effect (Const n) = 1"
| "net_effect (String p) = 1"
| "net_effect (SExp p n) = 1 - int (nonneg n)"
| "net_effect StI = - 1"
| "net_effect StA = - 2"
| "net_effect Drop = - 1"
| "net_effect Dup = 1"
| "net_effect Elem = - 1"
| "net_effect (CJmpZ target) = - 1"
| "net_effect (CJmpNZ target) = - 1"
| "net_effect (Closure offset locations) = 1"
| "net_effect (Binop_inst b) = - 1"
| "net_effect (Ld k index) = 1"
| "net_effect (LdA k index) = 2"
| "net_effect (Patt p) = (if p = Pattern_String then - 1 else 0)"
| "net_effect (LCall_inst l) = (if l = LCall_Lread then 1 else 0)"
| "net_effect (LCall_Barray n) = 1 - int (nonneg n)"
| "net_effect i = 0"

text \<open>The instructions that leave the call stack alone.\<close>

fun straight :: "inst \<Rightarrow> bool" where
  "straight (Begin args locals) = False"
| "straight (CBegin args locals) = False"
| "straight (Call offset args) = False"
| "straight (CallC args) = False"
| "straight End = False"
| "straight Ret = False"
| "straight i = True"

lemma yields_normal: "yields P r \<Longrightarrow> yields (\<lambda>(st, _). P st) (normal r)"
  unfolding normal_def by (erule yields_then) simp

lemma yields_locs:
  assumes "shifted (e_vstack e) d st st1"
  shows "yields (shifted (e_vstack e) (d + int (length ls)) st)
    (for_each (\<lambda>l st. andthen (loc e st (loc_kind l) (loc_index l)) (\<lambda>a.
        push_value e (load32 (mem (gs st)) a) st)) ls st1)"
  using assms
proof (induction ls arbitrary: d st1)
  case (Cons l ls)
  show ?case
    unfolding for_each.simps andthen_assoc
    by (rule yields_after, rule yields_then, rule yields_push [OF Cons.prems refl], drule Cons.IH)
      (simp add: algebra_simps)
qed simp

lemma nonneg_of_nat: "k < 2147483648 \<Longrightarrow> nonneg (word_of_nat k) = k"
  by (simp add: nonneg_def sint_small unat_of_nat_u32)

lemma exec_Closure_shifted:
  assumes "vs_inv (e_vstack e) (gs st)"
  shows "yields (shifted (e_vstack e) 1 st) (exec_Closure e offset ls st)"
  unfolding exec_Closure_def
proof (rule yields_then [OF yields_locs [OF shifted_refl [OF assms]]])
  fix st1
  assume s: "shifted (e_vstack e) (0 + int (length ls)) st st1"
  then have "length ls < 2147483648" using assms by (simp add: shifted_def vs_inv_def)
  then show "yields (shifted (e_vstack e) 1 st) (push_result e (stack_Bclosure e (word_of_nat (length ls)) offset) st1)"
    by (intro yields_push_constructor [OF s]) (simp add: nonneg_of_nat)
qed

lemma exec_patt_shifted:
  assumes "shifted (e_vstack e) d st st1"
  shows "yields (shifted (e_vstack e) (d + (if p = Pattern_String then 0 else 1)) st) (exec_patt e p x st1)"
  by (cases p) (auto intro!: yields_popped [OF assms] yields_push assms yields_after)

lemma exec_lcall_shifted:
  assumes "vs_inv (e_vstack e) (gs st)"
  shows "yields (shifted (e_vstack e) (if l = LCall_Lread then 1 else 0) st) (exec_lcall e l st)"
proof -
  note i = shifted_refl [OF assms]
  show ?thesis
  proof (cases l)
    case LCall_Lread
    then show ?thesis using i by (auto split: prod.split intro!: yields_push)
  next
    case LCall_Lwrite
    then show ?thesis by (auto split: prod.split intro!: yields_popped [OF i] yields_push)
  next
    case LCall_Llength
    then show ?thesis by (auto intro!: yields_popped [OF i] yields_after yields_push)
  next
    case LCall_Lstring
    then show ?thesis by (auto intro!: yields_popped [OF i] yields_push_result Lstring_keeps)
  qed
qed

theorem straight_effect:
  assumes "vs_inv (e_vstack e) (gs st)" "straight i"
  shows "yields (\<lambda>(st', _). shifted (e_vstack e) (net_effect i) st st') (exec_inst e next i st)"
proof -
  note i = shifted_refl [OF assms(1)]
  note push = yields_push [OF i] and pop = yields_popped [OF i]
  show ?thesis
  proof (cases i)
    case (SExp p n)
    then show ?thesis
      by (auto intro!: yields_normal yields_after yields_push_constructor [OF i])
  next
    case (LCall_Barray n)
    then show ?thesis
      by (auto intro!: yields_normal yields_push_constructor [OF i])
  next
    case (String p)
    then show ?thesis by (auto intro!: yields_normal yields_push_result [OF i] Bstring_keeps)
  next
    case (Closure offset ls)
    then show ?thesis using exec_Closure_shifted [OF assms(1)] by (auto intro!: yields_normal)
  next
    case (LCall_inst l)
    then show ?thesis using yields_normal [OF exec_lcall_shifted [OF assms(1), of l]] by simp
  next
    case (Patt p)
    have "yields (shifted (e_vstack e) (- 1 + (if p = Pattern_String then 0 else 1)) st) (popped (exec_patt e p) st)"
      by (rule pop, rule exec_patt_shifted) simp
    from yields_normal [OF this] Patt show ?thesis by (auto split: if_splits)
  next
    case (Ld k index)
    then show ?thesis by (auto simp: exec_Ld_def intro!: yields_normal yields_after push)
  next
    case (LdA k index)
    then show ?thesis
      by (auto simp: exec_LdA_def intro!: yields_normal yields_after yields_then [OF push [OF refl]] yields_push)
  next
    case (St k index)
    then show ?thesis using i by (auto simp: exec_St_def intro!: yields_normal yields_after)
  next
    case (Fail_at l c)
    then show ?thesis by (auto simp: exec_Fail_def Bmatch_failure_def andthen_assoc intro!: yields_normal pop yields_after)
  next
    case StI
    then show ?thesis by (auto simp: exec_StI_def intro!: yields_normal pop yields_popped yields_push)
  next
    case StA
    then show ?thesis
      by (auto simp: exec_StA_def intro!: yields_normal pop yields_popped yields_push_result Bsta_keeps)
  next
    case Swap
    then show ?thesis
      by (auto simp: exec_Swap_def intro!: yields_normal pop yields_popped yields_then [OF yields_push] yields_push)
  next
    case Elem
    then show ?thesis
      by (auto simp: exec_Elem_def intro!: yields_normal pop yields_popped yields_after yields_push)
  next
    case (Binop_inst b)
    then show ?thesis
      by (auto simp: exec_binop_def intro!: yields_normal pop yields_popped yields_after yields_push)
  next
    case (Tag p n)
    then show ?thesis
      by (auto simp: exec_Tag_def intro!: yields_normal pop yields_after yields_push)
  next
    case (Array n)
    then show ?thesis by (auto simp: exec_Array_def intro!: yields_normal pop yields_push)
  next
    case Dup
    then show ?thesis by (auto intro!: yields_normal yields_after push)
  next
    case Drop
    then show ?thesis by (auto intro!: yields_normal pop)
  next
    case (CJmpZ t)
    then show ?thesis by (auto intro!: pop)
  next
    case (CJmpNZ t)
    then show ?thesis by (auto intro!: pop)
  qed (use assms(2) i in \<open>auto intro!: yields_normal push\<close>)
qed

end
