(* ===== verification/Execution.thy ===== *)
theory Execution
  imports Machine
begin

text \<open>
  The invariant of the interpreter's state: both pointers that the collector scans stay inside the
  array, and the base and the arguments of every frame lie in it. Every instruction keeps it, and so
  it holds in every state that the loop of \<open>interprete\<close> reaches; with it, the addresses that \<open>loc\<close>
  accepts are words of the array.
\<close>

section \<open>Frames\<close>

text \<open>
  The arguments of a frame, and below them the closure if there is one, are words of the array above
  its base.
\<close>

definition base_index :: "addr \<Rightarrow> frame \<Rightarrow> nat" where
  "base_index b fr = unat (fr_base fr - b) div 4"

definition frame_words :: "frame \<Rightarrow> nat" where
  "frame_words fr = unat (args_count fr) + of_bool (fr_closure fr)"

definition frame_ok :: "addr \<Rightarrow> frame \<Rightarrow> bool" where
  "frame_ok b fr \<longleftrightarrow> fr_base fr = ptr b (4 * base_index b fr) \<and> base_index b fr + frame_words fr \<le> 65535"

lemma frame_okI: "fr_base fr = ptr b (4 * k) \<Longrightarrow> k + frame_words fr \<le> 65535 \<Longrightarrow> frame_ok b fr \<and> base_index b fr = k"
  by (simp add: frame_ok_def base_index_def unat_of_nat_u32 del: of_nat_mult)

definition machine_inv :: "env \<Rightarrow> istate \<Rightarrow> bool" where
  "machine_inv e st \<longleftrightarrow> vs_inv (e_vstack e) (gs st) \<and> ctop st \<le> CSTACK_SIZE
     \<and> (\<forall>k. ctop st \<le> k \<and> k < CSTACK_SIZE \<longrightarrow> frame_ok (e_vstack e) (cframes st k))
     \<and> return_ip (cframes st (CSTACK_SIZE - 1)) = None \<and> globals_count st \<le> 65535"

text \<open>
  The operands that are multiplied by the size of a word are at most the size of the array. The code
  does not test it: \<open>4 * args_count\<close> wraps from 2 to the 30th on.
\<close>

fun small_operands :: "inst \<Rightarrow> bool" where
  "small_operands (Begin args locals) = (locals \<le> 65536)"
| "small_operands (CBegin args locals) = (locals \<le> 65536)"
| "small_operands (Call offset args) = (args \<le> 65536)"
| "small_operands (CallC args) = (args \<le> 65536)"
| "small_operands i = True"

lemma unat_le_65536: "(w :: u32) \<le> 65536 \<longleftrightarrow> unat w \<le> 65536" "(w :: u32) \<le> 65535 \<longleftrightarrow> unat w \<le> 65535"
  by (simp_all add: word_le_nat_alt)

lemma ptr_plus_4: "ptr b k + 4 * c = ptr b (k + 4 * unat c)"
  by (simp add: ptr_def)

text \<open>A bound on a pointer into the array, moved by a small count.\<close>

lemma placed_less:
  assumes "placed b" "i < 1048576" "j < 1048576"
  shows "ptr b i < ptr b j \<longleftrightarrow> i < j" "ptr b i \<le> ptr b j \<longleftrightarrow> i \<le> j"
  using assms by (auto simp: placed_def intro!: ptr_less_iff ptr_le_iff)

lemma cstack_call_ok:
  assumes i: "machine_inv e st" and r: "ctop st < CSTACK_SIZE" and n: "args \<le> 65536" and c: "cstack_call ret args is_closure st = ok st'"
    and k: "is_closure \<Longrightarrow> top_index (e_vstack e) (gs st) + unat args + 1 \<le> 65535"
  shows "machine_inv e st'" "ctop st' < CSTACK_SIZE" "gs st' = gs st" "Suc (ctop st') = ctop st"
    "cframes st' (ctop st') = (cframes st (ctop st'))\<lparr>return_ip := Some ret,
       fr_base := gc_stack_top (gs st), fr_closure := is_closure, args_count := args\<rparr>"
    "\<forall>k. k \<noteq> ctop st' \<longrightarrow> cframes st' k = cframes st k" "globals_count st' = globals_count st"
proof -
  let ?b = "e_vstack e" and ?t = "top_index (e_vstack e) (gs st)"
  have v: "placed ?b" "?t \<le> 65535" "gc_stack_top (gs st) = ptr ?b (4 * ?t)" "gc_stack_bottom (gs st) = ptr ?b 262144"
    using i by (auto simp: machine_inv_def vs_inv_def)
  from c have t: "0 < ctop st" and l: "gc_stack_top (gs st) + 4 * args < gc_stack_bottom (gs st)"
    and st': "st' = st\<lparr>ctop := ctop st - 1, cframes := (cframes st)(ctop st - 1 :=
      (cframes st (ctop st - 1))\<lparr>return_ip := Some ret, fr_base := gc_stack_top (gs st),
        fr_closure := is_closure, args_count := args\<rparr>)\<rparr>"
    by (auto simp: cstack_call_def ASSERT_def Let_def split: if_splits)
  have "?t + unat args \<le> 65535"
    using l n v placed_less(1) [OF v(1), of "4 * ?t + 4 * unat args" 262144]
    by (simp add: ptr_plus_4 unat_le_65536)
  with k v(3) have "frame_ok ?b (cframes st' (ctop st'))"
    by (cases is_closure) (auto simp: st' frame_words_def intro!: frame_okI [THEN conjunct1])
  then have "\<forall>k. ctop st' \<le> k \<and> k < CSTACK_SIZE \<longrightarrow> frame_ok ?b (cframes st' k)"
    using i by (auto simp: st' machine_inv_def)
  moreover have "ctop st - 1 \<noteq> CSTACK_SIZE - 1" using t r by simp
  ultimately show "machine_inv e st'" using i by (auto simp: machine_inv_def st')
  show "ctop st' < CSTACK_SIZE" using r by (simp add: st')
qed (use c in \<open>auto simp: cstack_call_def ASSERT_def Let_def split: if_splits\<close>)

text \<open>BEGIN reserves the locals: the word it stops at is still inside the array.\<close>

lemma cstack_alloc_ok:
  assumes i: "machine_inv e st" and n: "locals \<le> 65536" and c: "cstack_alloc e locals st = ok st'"
  shows "machine_inv e st'" "ctop st' = ctop st" "globals_count st' = globals_count st"
    "top_index (e_vstack e) (gs st') + unat locals = top_index (e_vstack e) (gs st)"
    "0 < top_index (e_vstack e) (gs st')" "mem (gs st') = mem (gs st)"
    "cframes st' = (cframes st)(ctop st := (cframes st (ctop st))\<lparr>locals_count := locals\<rparr>)"
proof -
  let ?b = "e_vstack e" and ?t = "top_index (e_vstack e) (gs st)"
  have v: "placed ?b" "?t \<le> 65535" "gc_stack_top (gs st) = ptr ?b (4 * ?t)" and vi: "vs_inv ?b (gs st)"
    using i by (auto simp: machine_inv_def vs_inv_def)
  from c have l: "?b < ptr ?b (4 * ?t) - 4 * locals"
    and st': "st' = st\<lparr>gs := (gs st)\<lparr>gc_stack_top := ptr ?b (4 * ?t) - 4 * locals\<rparr>,
           cframes := (cframes st)(ctop st := (cframes st (ctop st))\<lparr>locals_count := locals\<rparr>)\<rparr>"
    using v(3) by (auto simp: cstack_alloc_def ASSERT_def split: if_splits)
  have u: "unat locals \<le> 65536" using n by (simp add: unat_le_65536)
  have lt: "unat locals < ?t"
  proof (rule ccontr)
    assume "\<not> unat locals < ?t"
    then have "ptr ?b (4 * ?t) - 4 * locals = ?b - word_of_nat (4 * (unat locals - ?t))"
      by (simp add: ptr_def of_nat_diff algebra_simps)
    moreover have w: "unat (word_of_nat (4 * (unat locals - ?t)) :: u32) = 4 * (unat locals - ?t)"
      by (rule unat_of_nat_u32) (use u in linarith)
    moreover have "4 * (unat locals - ?t) \<le> unat ?b" using u v(1) unfolding placed_def by linarith
    then have "unat (?b - word_of_nat (4 * (unat locals - ?t))) = unat ?b - 4 * (unat locals - ?t)"
      using w by (subst unat_sub) (simp_all only: word_le_nat_alt)
    ultimately show False using l by (simp add: word_less_nat_alt)
  qed
  then have p: "ptr ?b (4 * ?t) - 4 * locals = ptr ?b (4 * (?t - unat locals))"
    by (subst ptr_minus_word) (simp_all add: diff_mult_distrib2)
  note m = vs_inv_move [OF vi, of "?t - unat locals"]
  have fr: "frame_ok ?b (fr\<lparr>locals_count := x\<rparr>) = frame_ok ?b fr" for fr x
    by (simp add: frame_ok_def frame_words_def base_index_def)
  show "machine_inv e st'" using i m(1) v(2) by (auto simp: machine_inv_def st' p fr)
  show "top_index ?b (gs st') + unat locals = ?t" "0 < top_index ?b (gs st')"
    using m(2) v(2) lt by (auto simp: st' p)
qed (use c in \<open>auto simp: cstack_alloc_def ASSERT_def split: if_splits\<close>)

text \<open>
  END drops everything down to the arguments of the frame, and the closure, and pushes the result.
\<close>

lemma cstack_end_ok:
  assumes i: "machine_inv e st" and r: "ctop st < CSTACK_SIZE" and c: "cstack_end e st = ok (ip, st')"
  shows "machine_inv e st'" "ctop st' = Suc (ctop st)" "ip = return_ip (cframes st (ctop st))"
    "cframes st' = cframes st" "globals_count st' = globals_count st"
    "\<exists>v s1. vs_pop (gs st) = ok (v, s1) \<and> vs_push (e_vstack e) v (s1\<lparr>gc_stack_top :=
        ptr (e_vstack e) (4 * (base_index (e_vstack e) (cframes st (ctop st)) + frame_words (cframes st (ctop st))))\<rparr>)
        = ok (gs st')"
proof -
  let ?b = "e_vstack e" and ?fr = "cframes st (ctop st)"
  let ?k = "base_index ?b ?fr + frame_words ?fr"
  have vi: "vs_inv ?b (gs st)" and f: "frame_ok ?b ?fr" using i r by (auto simp: machine_inv_def)
  from c obtain v s1 s2 where p: "vs_pop (gs st) = ok (v, s1)"
    and q: "vs_push ?b v (s1\<lparr>gc_stack_top := fr_base ?fr + 4 * args_count ?fr + (if fr_closure ?fr then 4 else 0)\<rparr>) = ok s2"
    and st': "st' = st\<lparr>gs := s2, ctop := Suc (ctop st)\<rparr>" "ip = return_ip ?fr"
    by (auto simp: cstack_end_def popped_def push_value_def on_gc_def andthen_eq_ok Let_def ASSERT_def split: if_splits)
  have t: "fr_base ?fr + 4 * args_count ?fr + (if fr_closure ?fr then 4 else 0) = ptr ?b (4 * ?k)"
  proof -
    have "fr_base ?fr = ptr ?b (4 * base_index ?b ?fr)" using f by (simp add: frame_ok_def)
    then show ?thesis
      by (cases "fr_closure ?fr") (simp_all only: ptr_def frame_words_def, simp_all add: algebra_simps)
  qed
  have k: "?k \<le> 65535" using f by (simp add: frame_ok_def)
  have s1: "vs_inv ?b s1" using vs_pop_ok(1) [OF vi p] .
  from vs_push_ok(1) [OF vs_inv_move(1) [OF s1 k]] q have "vs_inv ?b s2" unfolding t by blast
  with i r show "machine_inv e st'" by (auto simp: machine_inv_def st')
  show "ctop st' = Suc (ctop st)" "ip = return_ip ?fr" "cframes st' = cframes st"
    "globals_count st' = globals_count st"
    "\<exists>v s1. vs_pop (gs st) = ok (v, s1) \<and> vs_push ?b v (s1\<lparr>gc_stack_top := ptr ?b (4 * ?k)\<rparr>) = ok (gs st')"
    using st' p q t vs_pop_ok(4) [OF vi p] by auto
qed

section \<open>Every instruction keeps the invariant\<close>

definition running :: "int option \<Rightarrow> istate \<Rightarrow> bool" where
  "running ip st \<longleftrightarrow> (ip \<noteq> None \<longrightarrow> ctop st < CSTACK_SIZE)"

lemma machine_inv_shifted: "machine_inv e st \<Longrightarrow> shifted (e_vstack e) d st st' \<Longrightarrow> machine_inv e st'"
  by (simp add: machine_inv_def shifted_def)

lemma exec_end_inv:
  assumes i: "machine_inv e st" and r: "ctop st < CSTACK_SIZE"
  shows "yields (\<lambda>(st', adv). machine_inv e st' \<and> running (next_ip next adv) st') (exec_end e st)"
  unfolding yields_def
proof (intro allI impI, clarify)
  fix st' adv
  assume "exec_end e st = ok (st', adv)"
  then obtain ip where c: "cstack_end e st = ok (ip, st')" and adv: "adv = Jump_to ip"
    by (auto simp: exec_end_def andthen_eq_ok)
  note k = cstack_end_ok [OF i r c]
  have "ip = None" if "Suc (ctop st) = CSTACK_SIZE"
  proof -
    have "CSTACK_SIZE - 1 = ctop st" using that by simp
    then show ?thesis using i k(3) by (simp add: machine_inv_def)
  qed
  then show "machine_inv e st' \<and> running (next_ip next adv) st'"
    using k(1,2) r by (fastforce simp: running_def next_ip_def adv)
qed

lemma exec_CallC_room:
  assumes i: "machine_inv e st" and n: "args \<le> 65536" and v: "vs_kth_from_end args (gs st) = ok c"
  shows "top_index (e_vstack e) (gs st) + unat args + 1 \<le> 65535"
    "c = load32 (mem (gs st)) (ptr (e_vstack e) (4 * (top_index (e_vstack e) (gs st) + unat args + 1)))"
proof -
  let ?b = "e_vstack e" and ?t = "top_index (e_vstack e) (gs st)"
  have b: "placed ?b" "?t \<le> 65535" "gc_stack_top (gs st) = ptr ?b (4 * ?t)" "gc_stack_bottom (gs st) = ptr ?b 262144"
    using i by (auto simp: machine_inv_def vs_inv_def)
  have p: "gc_stack_top (gs st) + 4 + 4 * args = ptr ?b (4 * (?t + unat args + 1))"
    unfolding b(3) by (simp add: ptr_def algebra_simps)
  from v have "ptr ?b (4 * (?t + unat args + 1)) < ptr ?b 262144"
    and c: "c = load32 (mem (gs st)) (ptr ?b (4 * (?t + unat args + 1)))"
    using b(4) by (auto simp: vs_kth_from_end_def ASSERT_def p split: if_splits)
  moreover have "4 * (?t + unat args + 1) < 1048576" using n b(2) by (simp add: unat_le_65536)
  ultimately show "?t + unat args + 1 \<le> 65535" by (simp add: placed_less(1) [OF b(1)])
  show "c = load32 (mem (gs st)) (ptr ?b (4 * (?t + unat args + 1)))" by (rule c)
qed

lemma exec_call_inv:
  assumes i: "machine_inv e st" and r: "ctop st < CSTACK_SIZE" and n: "args \<le> 65536"
  shows "yields (\<lambda>(st', adv). machine_inv e st' \<and> running (next_ip next adv) st') (exec_Call next offset args st)"
    "yields (\<lambda>(st', adv). machine_inv e st' \<and> running (next_ip next adv) st') (exec_CallC next args st)"
proof -
  have j: "yields (\<lambda>(st', adv). machine_inv e st' \<and> running (next_ip next adv) st')
      (jumping target (cstack_call next args is_closure st))"
    if "is_closure \<Longrightarrow> top_index (e_vstack e) (gs st) + unat args + 1 \<le> 65535" for is_closure target
    using cstack_call_ok(1,2) [OF i r n _ that]
    by (auto simp: jumping_def yields_def andthen_eq_ok running_def)
  show "yields (\<lambda>(st', adv). machine_inv e st' \<and> running (next_ip next adv) st') (exec_Call next offset args st)"
    unfolding exec_Call_def by (rule j) simp
  show "yields (\<lambda>(st', adv). machine_inv e st' \<and> running (next_ip next adv) st') (exec_CallC next args st)"
    unfolding exec_CallC_def Let_def
    by (rule yields_then [of "\<lambda>c. vs_kth_from_end args (gs st) = ok c"], simp add: yields_def)
      (blast intro: j dest: exec_CallC_room(1) [OF i n])
qed

lemma exec_begin_inv:
  assumes i: "machine_inv e st" and r: "ctop st < CSTACK_SIZE" and n: "locals \<le> 65536"
  shows "yields (\<lambda>(st', adv). machine_inv e st' \<and> running (next_ip next adv) st') (normal (cstack_alloc e locals st))"
  using cstack_alloc_ok(1,2) [OF i n] r by (auto simp: normal_def yields_def andthen_eq_ok running_def)

theorem exec_inst_inv:
  assumes i: "machine_inv e st" and r: "ctop st < CSTACK_SIZE" and n: "small_operands i"
  shows "yields (\<lambda>(st', adv). machine_inv e st' \<and> running (next_ip next adv) st') (exec_inst e next i st)"
proof (cases "straight i")
  case True
  have "vs_inv (e_vstack e) (gs st)" using i by (simp add: machine_inv_def)
  from straight_effect [OF this True] show ?thesis
    by (rule yields_mono) (use i r in \<open>auto simp: running_def shifted_def intro: machine_inv_shifted\<close>)
next
  case False
  then show ?thesis
    using n exec_end_inv [OF i r] exec_call_inv [OF i r] exec_begin_inv [OF i r] by (cases i) auto
qed

section \<open>Reachable states\<close>

text \<open>One turn of the loop of \<open>interprete\<close>, and its runs.\<close>

inductive machine_step :: "env \<Rightarrow> int option \<times> istate \<Rightarrow> int option \<times> istate \<Rightarrow> bool" for e where
  turn: "step e ip st = ok c \<Longrightarrow> machine_step e (Some ip, st) c"

inductive machine_reaches :: "env \<Rightarrow> int option \<times> istate \<Rightarrow> int option \<times> istate \<Rightarrow> bool" for e c where
  start: "machine_reaches e c c"
| more: "machine_reaches e c c' \<Longrightarrow> machine_step e c' c'' \<Longrightarrow> machine_reaches e c c''"

inductive_cases machine_stepE: "machine_step e (ip, st) c"
inductive_simps machine_step_iff: "machine_step e (ip, st) c"

definition operands_small :: "env \<Rightarrow> bool" where
  "operands_small e \<longleftrightarrow> (\<forall>ip i next. read_inst (e_file e) ip = ok (i, next) \<longrightarrow> small_operands i)"

lemma machine_step_inv:
  assumes "machine_step e (ip, st) (ip', st')" "operands_small e" "machine_inv e st" "running ip st"
  shows "machine_inv e st' \<and> running ip' st'"
proof -
  from assms(1) obtain p i nxt adv where ip: "ip = Some p" and rd: "read_inst (e_file e) p = ok (i, nxt)"
    and ex: "exec_inst e nxt i st = ok (st', adv)" and ip': "ip' = next_ip nxt adv"
    by (auto elim!: machine_stepE simp: step_def andthen_eq_ok)
  have "ctop st < CSTACK_SIZE" "small_operands i"
    using assms(2,4) ip rd by (auto simp: running_def operands_small_def)
  from yieldsD [OF exec_inst_inv [OF assms(3) this] ex] ip' show ?thesis by simp
qed

lemma machine_reaches_inv:
  assumes "machine_reaches e c c'" "operands_small e" "machine_inv e (snd c)" "running (fst c) (snd c)"
  shows "machine_inv e (snd c') \<and> running (fst c') (snd c')"
  using assms(1)
proof (induction rule: machine_reaches.induct)
  case start
  with assms(3,4) show ?case by simp
next
  case (more c' c'')
  then show ?case using machine_step_inv [of e "fst c'" "snd c'" "fst c''" "snd c''"] assms(2) by simp
qed

text \<open>The static variables start out as zero.\<close>

lemma interp_start_inv:
  assumes p: "placed (e_vstack e)" and g: "global_area_size (e_file e) \<le> 65535"
    and z: "args_count (cframes st (CSTACK_SIZE - 1)) = 0" "\<not> fr_closure (cframes st (CSTACK_SIZE - 1))"
    and s: "interp_start e mmap st = ok st'"
  shows "machine_inv e st'" "ctop st' < CSTACK_SIZE"
proof -
  let ?b = "e_vstack e" and ?g = "unat (global_area_size (e_file e))"
  from s obtain s1 s2 where s2: "vs_alloc_globals (global_area_size (e_file e)) (vs_init ?b s1) = ok s2"
    and st': "st' = cstack_init (st\<lparr>gs := s2, globals_count := global_area_size (e_file e)\<rparr>)"
    by (auto simp: interp_start_def andthen_eq_ok)
  have g': "?g \<le> 65535" using g by (simp add: unat_le_65536)
  have "s2 = vs_init ?b s1\<lparr>gc_stack_top := ptr ?b (4 * (65535 - ?g))\<rparr>"
    using s2 g' by (auto simp: vs_alloc_globals_def ASSERT_def vs_init_def VSTACK_SIZE_def ptr_def of_nat_diff algebra_simps
        split: if_splits)
  then have b: "gc_stack_bottom s2 = ptr ?b 262144" and t: "gc_stack_top s2 = ptr ?b (4 * (65535 - ?g))"
    by (simp_all add: vs_init_def VSTACK_SIZE_def ptr_def)
  have v: "vs_inv ?b s2" by (rule vs_invI [OF p b _ t]) simp
  have "frame_ok ?b (cframes st' (CSTACK_SIZE - 1))"
    by (rule frame_okI [THEN conjunct1, of _ _ "65535 - ?g"])
      (use z t in \<open>simp_all add: st' cstack_init_def Let_def frame_words_def\<close>)
  then show "machine_inv e st'"
    using v g by (auto simp: machine_inv_def st' cstack_init_def Let_def)
  show "ctop st' < CSTACK_SIZE" by (simp add: st' cstack_init_def Let_def CSTACK_SIZE_def)
qed

section \<open>Locations\<close>

definition in_vstack :: "env \<Rightarrow> addr \<Rightarrow> bool" where
  "in_vstack e a \<longleftrightarrow> (\<exists>k < VSTACK_SIZE. a = ptr (e_vstack e) (4 * k))"

text \<open>The locals that BEGIN reserved are words of the array.\<close>

definition locals_fit :: "env \<Rightarrow> istate \<Rightarrow> bool" where
  "locals_fit e st \<longleftrightarrow> unat (locals_count (cframes st (ctop st))) \<le> Suc (base_index (e_vstack e) (cframes st (ctop st)))"

lemma loc_global:
  assumes i: "machine_inv e st" and l: "loc e st 0 index = ok a"
  shows "a = ptr (e_vstack e) (4 * (65535 - unat index))"
proof -
  from l have n: "index < globals_count st" and a: "a = gc_stack_bottom (gs st) - 4 - 4 * index"
    by (auto simp: loc_def ASSERT_def split: if_splits)
  have "gc_stack_bottom (gs st) = ptr (e_vstack e) 262144" using i by (simp add: machine_inv_def vs_inv_def)
  moreover have "unat index < 65535" using n i by (simp add: machine_inv_def unat_le_65536 word_less_nat_alt)
  ultimately show ?thesis by (simp add: a ptr_def of_nat_diff algebra_simps)
qed

lemma loc_local:
  assumes i: "machine_inv e st" and r: "ctop st < CSTACK_SIZE" and f: "locals_fit e st" and l: "loc e st 1 index = ok a"
  shows "a = ptr (e_vstack e) (4 * (base_index (e_vstack e) (cframes st (ctop st)) - unat index))"
    "unat index \<le> base_index (e_vstack e) (cframes st (ctop st))"
proof -
  let ?fr = "cframes st (ctop st)"
  from l have n: "index < locals_count ?fr" and a: "a = fr_base ?fr - 4 * index"
    by (auto simp: loc_def Let_def ASSERT_def split: if_splits)
  show j: "unat index \<le> base_index (e_vstack e) ?fr" using n f by (simp add: locals_fit_def word_less_nat_alt)
  have "fr_base ?fr = ptr (e_vstack e) (4 * base_index (e_vstack e) ?fr)"
    using i r by (simp add: machine_inv_def frame_ok_def)
  with j show "a = ptr (e_vstack e) (4 * (base_index (e_vstack e) ?fr - unat index))"
    by (simp add: a ptr_def of_nat_diff algebra_simps)
qed

lemma loc_argument:
  assumes i: "machine_inv e st" and r: "ctop st < CSTACK_SIZE" and l: "loc e st 2 index = ok a"
  shows "a = ptr (e_vstack e) (4 * (base_index (e_vstack e) (cframes st (ctop st))
      + unat (args_count (cframes st (ctop st))) - unat index))"
    "unat index < unat (args_count (cframes st (ctop st)))"
proof -
  let ?fr = "cframes st (ctop st)"
  from l have n: "index < args_count ?fr" and a: "a = fr_base ?fr + 4 * (args_count ?fr - index)"
    by (auto simp: loc_def Let_def ASSERT_def split: if_splits)
  show j: "unat index < unat (args_count ?fr)" using n by (simp add: word_less_nat_alt)
  have "fr_base ?fr = ptr (e_vstack e) (4 * base_index (e_vstack e) ?fr)"
    using i r by (simp add: machine_inv_def frame_ok_def)
  with j show "a = ptr (e_vstack e) (4 * (base_index (e_vstack e) ?fr + unat (args_count ?fr) - unat index))"
    by (simp add: a ptr_def of_nat_diff algebra_simps)
qed

lemma in_vstackI: "k < 65536 \<Longrightarrow> in_vstack e (ptr (e_vstack e) (4 * k))"
  by (auto simp: in_vstack_def VSTACK_SIZE_def)

lemma loc_in_vstack:
  assumes i: "machine_inv e st" and r: "ctop st < CSTACK_SIZE" and l: "loc e st kind index = ok a"
    and k: "kind = 0 \<or> kind = 2 \<or> kind = 1 \<and> locals_fit e st"
  shows "in_vstack e a"
proof -
  let ?b = "e_vstack e" and ?fr = "cframes st (ctop st)"
  have f: "base_index ?b ?fr + unat (args_count ?fr) \<le> 65535"
    using i r by (fastforce simp: machine_inv_def frame_ok_def frame_words_def)
  consider "kind = 0" | "kind = 1" "locals_fit e st" | "kind = 2" using k by blast
  then show ?thesis
  proof cases
    case 1
    with loc_global [OF i, of index a] l show ?thesis by (simp add: in_vstackI)
  next
    case 2
    with loc_local(1) [OF i r, of index a] l f show ?thesis by (simp add: in_vstackI)
  next
    case 3
    with loc_argument(1) [OF i r, of index a] l f show ?thesis by (simp add: in_vstackI)
  qed
qed

section \<open>Frames of the callers\<close>

text \<open>What END reads of a frame. A callee does not change it in the frames of its callers or its own.\<close>

definition return_data :: "frame \<Rightarrow> int option \<times> bool \<times> addr \<times> u32" where
  "return_data fr = (return_ip fr, fr_closure fr, fr_base fr, args_count fr)"

lemma return_data_locals [simp]: "return_data (fr\<lparr>locals_count := n\<rparr>) = return_data fr"
  by (simp add: return_data_def)

definition callers_kept :: "istate \<Rightarrow> istate \<Rightarrow> bool" where
  "callers_kept st st' \<longleftrightarrow> (\<forall>k \<ge> ctop st. return_data (cframes st' k) = return_data (cframes st k))"

lemma exec_inst_callers:
  assumes i: "machine_inv e st" and r: "ctop st < CSTACK_SIZE" and n: "small_operands i"
    and x: "exec_inst e ret i st = ok (st', adv)"
  shows "callers_kept st st'"
proof (cases "straight i")
  case True
  have "vs_inv (e_vstack e) (gs st)" using i by (simp add: machine_inv_def)
  from yieldsD [OF straight_effect [OF this True] x] show ?thesis by (simp add: shifted_def callers_kept_def)
next
  case False
  have call: "callers_kept st st'" if "cstack_call ret args is_closure st = ok st'" for args is_closure
    using that by (auto simp: cstack_call_def ASSERT_def Let_def callers_kept_def split: if_splits)
  have begin': "callers_kept st st'" if "cstack_alloc e locals st = ok st'" for locals
    using that by (auto simp: cstack_alloc_def ASSERT_def callers_kept_def split: if_splits)
  have "callers_kept st st'" if "exec_end e st = ok (st', adv)"
    using that cstack_end_ok(4) [OF i r] by (auto simp: exec_end_def andthen_eq_ok callers_kept_def)
  with False x call begin' show ?thesis
    by (cases i) (auto simp: exec_Call_def exec_CallC_def jumping_def normal_def andthen_eq_ok Let_def)
qed

text \<open>Runs that stay in the frame \<open>k\<close> and the frames it calls.\<close>

inductive machine_runs :: "env \<Rightarrow> nat \<Rightarrow> int option \<times> istate \<Rightarrow> int option \<times> istate \<Rightarrow> bool" for e k c where
  here: "ctop (snd c) \<le> k \<Longrightarrow> machine_runs e k c c"
| further: "machine_runs e k c c' \<Longrightarrow> machine_step e c' c'' \<Longrightarrow> ctop (snd c'') \<le> k \<Longrightarrow> machine_runs e k c c''"

lemma machine_runs_kept:
  assumes "machine_runs e k c c'" "operands_small e" "machine_inv e (snd c)" "running (fst c) (snd c)"
  shows "machine_inv e (snd c') \<and> running (fst c') (snd c') \<and> ctop (snd c') \<le> k
    \<and> (\<forall>j \<ge> k. return_data (cframes (snd c') j) = return_data (cframes (snd c) j))"
  using assms(1)
proof (induction rule: machine_runs.induct)
  case here
  with assms(3,4) show ?case by simp
next
  case (further c' c'')
  from further.hyps(2) obtain p i nxt adv where c': "fst c' = Some p" and rd: "read_inst (e_file e) p = ok (i, nxt)"
    and ex: "exec_inst e nxt i (snd c') = ok (snd c'', adv)"
    by (cases rule: machine_step.cases) (auto simp: step_def andthen_eq_ok)
  have "ctop (snd c') < CSTACK_SIZE" "small_operands i"
    using further.IH c' rd assms(2) by (auto simp: running_def operands_small_def)
  from exec_inst_callers [OF _ this ex] further.IH have "callers_kept (snd c') (snd c'')" by blast
  with further.IH have "\<forall>j \<ge> k. return_data (cframes (snd c'') j) = return_data (cframes (snd c) j)"
    by (auto simp: callers_kept_def)
  moreover have "machine_inv e (snd c'') \<and> running (fst c'') (snd c'')"
    using machine_step_inv [of e "fst c'" "snd c'" "fst c''" "snd c''"] further.hyps(2) further.IH assms(2) by simp
  ultimately show ?case using further.hyps(3) by simp
qed

text \<open>What END leaves: the result above the values that lie below the frame.\<close>

lemma cstack_end_values:
  assumes i: "machine_inv e st" and r: "ctop st < CSTACK_SIZE" and c: "cstack_end e st = ok (ip, st')"
  defines "k \<equiv> base_index (e_vstack e) (cframes st (ctop st)) + frame_words (cframes st (ctop st))"
  shows "top_index (e_vstack e) (gs st') + 1 = k"
    "vs_values (e_vstack e) (gs st') = hd (vs_values (e_vstack e) (gs st))
       # map (\<lambda>j. load32 (mem (gs st)) (ptr (e_vstack e) (4 * j))) [Suc k..<65536]"
proof -
  let ?b = "e_vstack e"
  have vi: "vs_inv ?b (gs st)" and k: "k \<le> 65535"
    using i r by (auto simp: machine_inv_def frame_ok_def k_def)
  from cstack_end_ok(6) [OF i r c] obtain v s1 where p: "vs_pop (gs st) = ok (v, s1)"
    and q: "vs_push ?b v (s1\<lparr>gc_stack_top := ptr ?b (4 * k)\<rparr>) = ok (gs st')" unfolding k_def by blast
  note p' = vs_pop_ok [OF vi p]
  note m = vs_inv_move [OF p'(1) k]
  note q' = vs_push_ok [OF m(1) q]
  show t: "top_index ?b (gs st') + 1 = k" using q'(2) m(2) by simp
  have "top_index ?b s1 \<le> 65535" using p'(1) by (simp add: vs_inv_def)
  then have "vs_values ?b (gs st) \<noteq> []" "hd (vs_values ?b (gs st)) = v"
    using p'(2,3) by (simp_all add: vs_values_def upt_conv_Cons)
  moreover have "mem (gs st') = store32 (mem (gs st)) (ptr ?b (4 * k)) v"
    using q'(3) m(2) p'(4) by (metis gc_state.select_convs(1) gc_state.surjective gc_state.update_convs(1,4))
  then have "vs_values ?b (gs st') = v # map (\<lambda>j. load32 (mem (gs st)) (ptr ?b (4 * j))) [Suc k..<65536]"
    using t k by (auto simp: vs_values_def upt_conv_Cons intro!: load32_store32_other)
  ultimately show "vs_values ?b (gs st') = hd (vs_values ?b (gs st))
      # map (\<lambda>j. load32 (mem (gs st)) (ptr ?b (4 * j))) [Suc k..<65536]" by simp
qed

end
