(* ===== verification/InterpreterProperties.thy ===== *)
theory InterpreterProperties
  imports Execution ToolProperties RuntimeProperties
begin

text \<open>
  The properties of the interpreter: where its accesses to the virtual stack and to the variables go,
  calls and returns, variables, arithmetic, and the agreement with the depths that the verifier
  computes.
\<close>

section \<open>A small machine\<close>

text \<open>
  The array at 1 MB, no globals, the main frame at its bottom, and the file of ToolProperties; a second
  state with two integers on the stack, of which the lower one is a local variable of the main frame.
\<close>

definition demo_env :: env where
  "demo_env = \<lparr>e_file = demo_file, e_mremap = \<lambda>_ _ _ _. None, e_vstack = 1048576, e_strings = 0, e_slot = 0,
     e_slot2 = 0, e_buf = 0, e_closure_size = 0\<rparr>"

definition demo_gs :: "memory \<Rightarrow> addr \<Rightarrow> gc_state" where
  "demo_gs m t = \<lparr>mem = m, heap = \<lparr>chunk_begin = 4096, chunk_end = 4112, chunk_current = 4096, chunk_size = 4\<rparr>,
     extra_roots = \<lparr>current_free = 0, roots = []\<rparr>, gc_stack_top = t, gc_stack_bottom = 1310720,
     start_custom_data = 0, stop_custom_data = 0\<rparr>"

definition demo_frame :: "u32 \<Rightarrow> frame" where
  "demo_frame n = \<lparr>return_ip = None, fr_closure = False, fr_base = 1310716, args_count = 0, locals_count = n\<rparr>"

definition demo_main :: istate where
  "demo_main = \<lparr>gs = demo_gs (\<lambda>_. 0) 1310716, globals_count = 0, cframes = \<lambda>_. demo_frame 0, ctop = 65535,
     world = \<lparr>io_input = [], io_output = []\<rparr>\<rparr>"

definition demo_vars :: istate where
  "demo_vars = demo_main\<lparr>gs := demo_gs (store32 (store32 (\<lambda>_. 0) 1310716 (BOX 7)) 1310712 (BOX 5)) 1310708,
     cframes := \<lambda>_. demo_frame 1\<rparr>"

lemma demo_env_simps [simp]: "e_vstack demo_env = 1048576" "e_file demo_env = demo_file"
  by (simp_all add: demo_env_def)

lemma demo_gs_simps [simp]: "mem (demo_gs m t) = m" "gc_stack_top (demo_gs m t) = t" "gc_stack_bottom (demo_gs m t) = 1310720"
  "(demo_gs m t)\<lparr>mem := m'\<rparr> = demo_gs m' t" "(demo_gs m t)\<lparr>gc_stack_top := t'\<rparr> = demo_gs m t'"
  by (simp_all add: demo_gs_def)

lemma demo_placed: "placed 1048576"
  by (simp add: placed_def)

lemma demo_vs_inv: "k \<le> 65535 \<Longrightarrow> t = ptr 1048576 (4 * k) \<Longrightarrow> vs_inv 1048576 (demo_gs m t) \<and> top_index 1048576 (demo_gs m t) = k"
  using vs_invI [OF demo_placed, of "demo_gs m t" k] top_index_ptr [of k "demo_gs m t" 1048576] by (simp add: ptr_def)

lemma demo_frame_ok: "frame_ok 1048576 (demo_frame n)" "base_index 1048576 (demo_frame n) = 65535"
  using frame_okI [of "demo_frame n" 1048576 65535] by (simp_all add: demo_frame_def frame_words_def ptr_def)

lemma demo_machines: "machine_inv demo_env demo_main" "machine_inv demo_env demo_vars"
  using demo_vs_inv [of 65535 1310716 "\<lambda>_. 0"]
    demo_vs_inv [of 65533 1310708 "store32 (store32 (\<lambda>_. 0) 1310716 (BOX 7)) 1310712 (BOX 5)"]
  by (simp_all add: machine_inv_def demo_main_def demo_vars_def demo_frame_ok CSTACK_SIZE_def ptr_def)
    (simp_all add: demo_frame_def)

lemma demo_values: "vs_values 1048576 (gs demo_vars) = [BOX 5, BOX 7]"
proof -
  have "top_index 1048576 (gs demo_vars) = 65533"
    using demo_vs_inv [of 65533 1310708] by (simp add: demo_vars_def ptr_def)
  moreover have "load32 (store32 m 1310712 v) 1310716 = load32 m 1310716" for m v
    using load32_store32_other [of 1310712 1310716 m 0 v] by (simp add: ptr_def)
  ultimately show ?thesis by (simp add: vs_values_def upt_conv_Cons demo_vars_def ptr_def)
qed

text \<open>Only BEGIN, CBEGIN and the calls have counts.\<close>

lemma small_unless:
  assumes "read_inst f ip = ok (i, nxt)" "unat (byte_at f ip) \<notin> {82, 83, 85, 86}"
  shows "small_operands i"
  using assms
  by (auto simp: read_inst_def read_byte_def read_operands_def read_composed_def read1_def read2_def
      read_string_int_def andthen_eq_ok Let_def split: if_splits option.splits)

lemma demo_operands: "operands_small demo_env"
  unfolding operands_small_def
proof (intro allI impI)
  fix ip i nxt
  assume "read_inst (e_file demo_env) ip = ok (i, nxt)"
  then have r: "read_inst demo_file ip = ok (i, nxt)" by simp
  then have "0 \<le> ip" "ip < 15"
    by (auto simp: read_inst_def read_byte_def andthen_eq_ok assert_can_read_iff [OF demo_file_ok] in_code_def split: if_splits)
  then have "ip \<in> {0, 1, 2, 3, 4, 5, 6, 7, 8, 9, 10, 11, 12, 13, 14}" by (simp; presburger)
  then have "ip = 0 \<or> unat (byte_at demo_file ip) \<notin> {82, 83, 85, 86}" by (auto simp: byte_at_def)
  then show "small_operands i"
  proof
    assume "ip = 0"
    with r demo_insts(1) show ?thesis by auto
  qed (rule small_unless [OF r])
qed

section \<open>Values on the stack\<close>

lemma values_pop:
  assumes i: "vs_inv b (gs st)" and v: "vs_values b (gs st) = x # xs"
  shows "\<exists>st'. (\<forall>f :: u32 \<Rightarrow> istate \<Rightarrow> 'a outcome. popped f st = f x st') \<and> vs_inv b (gs st') \<and> vs_values b (gs st') = xs
    \<and> mem (gs st') = mem (gs st) \<and> shifted b (- 1) st st'"
proof -
  from ivs.pop_some [OF i v] obtain s where s: "vs_pop (gs st) = ok (x, s)" "vs_inv b s" "vs_values b s = xs"
    by blast
  note p = vs_pop_ok [OF i s(1)]
  have "mem s = mem (gs st)" by (subst p(4)) simp
  then show ?thesis using s p(2) by (intro exI [of _ "st\<lparr>gs := s\<rparr>"]) (simp add: popped_def shifted_def)
qed

lemma values_push:
  assumes i: "vs_inv (e_vstack e) (gs st)" and r: "length (vs_values (e_vstack e) (gs st)) < 65535"
  shows "\<exists>st'. push_value e v st = ok st' \<and> vs_values (e_vstack e) (gs st') = v # vs_values (e_vstack e) (gs st)
    \<and> shifted (e_vstack e) 1 st st'"
proof -
  from ivs.push_room [OF i _ r] obtain s where s: "vs_push (e_vstack e) v (gs st) = ok s"
    "vs_values (e_vstack e) s = v # vs_values (e_vstack e) (gs st)" by blast
  then have "push_value e v st = ok (st\<lparr>gs := s\<rparr>)" by (simp add: push_value_def on_gc_def)
  with yieldsD [OF yields_push [OF shifted_refl [OF i] refl] this] s(2) show ?thesis by auto
qed

lemma values_nonempty_length: "vs_values b s = x # xs \<Longrightarrow> length xs < 65535"
  using length_vs_values [of b s] by simp

section \<open>Arithmetic\<close>

lemma UNBOX_eq_iff: "UNBOXED x \<Longrightarrow> UNBOXED y \<Longrightarrow> UNBOX x = UNBOX y \<longleftrightarrow> x = y"
  by (metis BOX_UNBOX)


text \<open>The function of the runtime that a compiled program calls for the operator.\<close>

fun runtime_operator :: "binop \<Rightarrow> u32 \<Rightarrow> u32 \<Rightarrow> u32 outcome" where
  "runtime_operator Binop_Add = Ls__Infix_43"
| "runtime_operator Binop_Sub = Ls__Infix_45"
| "runtime_operator Binop_Mul = Ls__Infix_42"
| "runtime_operator Binop_Div = Ls__Infix_47"
| "runtime_operator Binop_Rem = Ls__Infix_37"
| "runtime_operator Binop_LessThan = Ls__Infix_60"
| "runtime_operator Binop_LessEqual = Ls__Infix_6061"
| "runtime_operator Binop_GreaterThan = Ls__Infix_62"
| "runtime_operator Binop_GreaterEqual = Ls__Infix_6261"
| "runtime_operator Binop_Equal = Ls__Infix_6161"
| "runtime_operator Binop_NotEqual = Ls__Infix_3361"
| "runtime_operator Binop_And = Ls__Infix_3838"
| "runtime_operator Binop_Or = Ls__Infix_3333"

text \<open>
  C29: on two integers a binary operation of the interpreter does what the runtime function does that
  compiled code calls: it replaces the two operands by the same value, the upper one being the right
  operand, and it ends with the same trap on a zero divisor.
\<close>

theorem binop_is_runtime_operator:
  assumes "vs_inv (e_vstack e) (gs st)" "vs_values (e_vstack e) (gs st) = y # x # xs" "UNBOXED x" "UNBOXED y"
  shows "(\<exists>r st'. runtime_operator b x y = ok r \<and> exec_inst e ip (Binop_inst b) st = ok (st', Normal)
        \<and> vs_values (e_vstack e) (gs st') = r # xs)
    \<or> (\<exists>er. runtime_operator b x y = err er \<and> exec_inst e ip (Binop_inst b) st = err er)"
proof -
  let ?b = "e_vstack e" and ?r = "binop_apply b (UNBOX x) (UNBOX y)"
  have op: "runtime_operator b x y = andthen ?r (\<lambda>r. ok (BOX r))"
    using assms(3,4) UNBOX_eq_iff [of x y] by (cases b) (auto simp: infix_defs arith2_def ASSERT_UNBOXED_def)
  from values_pop [OF assms(1,2)] obtain st1 where 1: "\<forall>f :: u32 \<Rightarrow> istate \<Rightarrow> istate outcome. popped f st = f y st1"
    "vs_inv ?b (gs st1)" "vs_values ?b (gs st1) = x # xs" by blast
  from values_pop [OF 1(2,3)] obtain st2 where 2: "\<forall>f :: u32 \<Rightarrow> istate \<Rightarrow> istate outcome. popped f st1 = f x st2"
    "vs_inv ?b (gs st2)" "vs_values ?b (gs st2) = xs" by blast
  have ex: "exec_binop e b st = andthen ?r (\<lambda>res. push_value e (BOX res) st2)"
    by (simp add: exec_binop_def 1(1) [rule_format] 2(1) [rule_format])
  have "length (vs_values ?b (gs st2)) < 65535" using values_nonempty_length [OF 1(3)] 2(3) by simp
  note push = values_push [OF 2(2) this]
  have "?r \<noteq> None" by (cases b) (auto simp: c_div_def c_mod_def)
  then consider er where "?r = err er" | r where "?r = ok r"
    by (cases ?r) (auto split: sum.splits, metis sum.exhaust)
  then show ?thesis
  proof cases
    case 2
    with push [of "BOX r"] \<open>vs_values ?b (gs st2) = xs\<close> show ?thesis
      by (auto simp: op ex normal_def)
  qed (simp add: op ex normal_def)
qed

theorem binop_is_runtime_operator_witness:
  "\<exists>st'. exec_inst demo_env 0 (Binop_inst Binop_Sub) demo_vars = ok (st', Normal)
     \<and> vs_values 1048576 (gs st') = [BOX 2]"
proof -
  have "vs_inv (e_vstack demo_env) (gs demo_vars)" using demo_machines(2) by (simp add: machine_inv_def)
  from binop_is_runtime_operator [OF this, of "BOX 5" "BOX 7" "[]" Binop_Sub 0] demo_values show ?thesis
    by (simp add: Ls__Infix_45_def ASSERT_UNBOXED_def UNBOX_def BOX_def UNBOXED_def)
qed

text \<open>
  The interpreter does not test that the operands are integers. Its equality drops the lowest bit of
  both operands, so a pointer and the integer with the same upper bits are equal; for the runtime they
  are different.
\<close>

lemma binop_equates_pointer_and_integer:
  assumes "vs_inv (e_vstack e) (gs st)" "vs_values (e_vstack e) (gs st) = 9 # 8 # xs"
  shows "\<exists>st'. exec_inst e ip (Binop_inst Binop_Equal) st = ok (st', Normal)
      \<and> vs_values (e_vstack e) (gs st') = BOX 1 # xs"
    and "Ls__Infix_6161 8 9 = ok (BOX 0)"
proof -
  from values_pop [OF assms] obtain st1 where 1: "\<forall>f :: u32 \<Rightarrow> istate \<Rightarrow> istate outcome. popped f st = f 9 st1"
    "vs_inv (e_vstack e) (gs st1)" "vs_values (e_vstack e) (gs st1) = 8 # xs" by blast
  from values_pop [OF 1(2,3)] obtain st2 where 2: "\<forall>f :: u32 \<Rightarrow> istate \<Rightarrow> istate outcome. popped f st1 = f 8 st2"
    "vs_inv (e_vstack e) (gs st2)" "vs_values (e_vstack e) (gs st2) = xs" by blast
  have "UNBOX 9 = UNBOX 8" by (simp add: UNBOX_def)
  then have "exec_binop e Binop_Equal st = push_value e (BOX 1) st2"
    by (simp add: exec_binop_def 1(1) [rule_format] 2(1) [rule_format])
  moreover have "length (vs_values (e_vstack e) (gs st2)) < 65535" using values_nonempty_length [OF 1(3)] 2(3) by simp
  note values_push [OF 2(2) this, of "BOX 1"]
  ultimately show "\<exists>st'. exec_inst e ip (Binop_inst Binop_Equal) st = ok (st', Normal)
      \<and> vs_values (e_vstack e) (gs st') = BOX 1 # xs"
    using 2(3) by (auto simp: normal_def)
  show "Ls__Infix_6161 8 9 = ok (BOX 0)" by (simp add: Ls__Infix_6161_def)
qed

section \<open>Depths\<close>

text \<open>The operands that SEXP and BARRAY take from the stack, which the verifier does not count.\<close>

fun uncounted :: "inst \<Rightarrow> int" where
  "uncounted (SExp p n) = int (nonneg n)"
| "uncounted (LCall_Barray n) = int (nonneg n)"
| "uncounted i = 0"

text \<open>
  C8: for every instruction other than CALL, CALLC, END, RET, BEGIN and CBEGIN, the change that the verifier
  records in its stack layout is the change in the height of the interpreter's stack, but for the operands of SEXP
  and of the array constructor, which the verifier forgets to take off.
\<close>

theorem verifier_counts_values:
  assumes "vs_inv (e_vstack e) (gs st)" "straight i" "exec_inst e ip i st = ok (st', adv)"
    "stack_depth i (lay, js) = ok (lay', js')"
  shows "int (length (vs_values (e_vstack e) (gs st'))) - int (length (vs_values (e_vstack e) (gs st)))
    = sint (sl_locals lay' - sl_locals lay) - uncounted i"
proof -
  from yieldsD [OF straight_effect [OF assms(1,2)] assms(3)]
  have "int (length (vs_values (e_vstack e) (gs st'))) - int (length (vs_values (e_vstack e) (gs st))) = net_effect i"
    using assms(1) by (auto simp: shifted_def length_vs_values vs_inv_def of_nat_diff)
  moreover have "sint (sl_locals lay' - sl_locals lay) = net_effect i + uncounted i"
  proof -
    have "sl_locals lay2 = sl_locals lay" if "for_each (\<lambda>loc lay. load_location lay loc) ls lay = ok lay2" for ls lay2
      using that by (induction ls arbitrary: lay) (auto simp: andthen_eq_ok dest: load_location_ok)
    with assms(2-4) show ?thesis
      by (cases i; cases rule: stack_depth.cases [of "(i, (lay, js))"])
        (auto simp: andthen_eq_ok grow_def exec_Fail_def normal_def popped_def Bmatch_failure_def
          dest!: load_location_ok)
  qed
  ultimately show ?thesis by simp
qed

theorem verifier_counts_values_witness:
  "\<exists>st' adv. exec_inst demo_env 9 (Const 1) demo_vars = ok (st', adv)
     \<and> int (length (vs_values 1048576 (gs st'))) - int (length (vs_values 1048576 (gs demo_vars))) = 1"
proof -
  have v: "vs_inv (e_vstack demo_env) (gs demo_vars)" using demo_machines(2) by (simp add: machine_inv_def)
  then obtain st' where x: "exec_inst demo_env 9 (Const 1) demo_vars = ok (st', Normal)"
    using values_push [of demo_env demo_vars "BOX 1"] demo_values by (auto simp: normal_def)
  let ?lay = "\<lparr>sl_globals = 0, sl_locals = 1, sl_args = 0, sl_captured = 0, sl_is_closure = False\<rparr>"
  have "stack_depth (Const 1) (?lay, []) = ok (grow 1 ?lay, [])" by simp
  from verifier_counts_values [OF v _ x this] x show ?thesis by (simp add: grow_def)
qed

section \<open>Where the stack is accessed\<close>




section \<open>Calls\<close>

text \<open>
  C6: what a callee does, in any number of steps and with any calls of its own: when it ends, execution
  goes on after the call, in the caller's frame, and the arguments have been replaced by the value on top
  of the callee's stack; below it are the values the caller had below the arguments, as the callee left
  them.
\<close>

theorem call_returns:
  assumes "machine_inv e st" "ctop st < CSTACK_SIZE" "operands_small e" "args \<le> 65536"
    "exec_inst e ret (Call offset args) st = ok (st1, adv)"
    "machine_runs e (ctop st1) (next_ip ret adv, st1) (Some ip, st2)" "ctop st2 = ctop st1"
    "read_inst (e_file e) ip = ok (i, nxt)" "i = End \<or> i = Ret" "step e ip st2 = ok (ip3, st3)"
  shows "ip3 = Some ret \<and> ctop st3 = ctop st
    \<and> length (vs_values (e_vstack e) (gs st3)) + unat args = Suc (length (vs_values (e_vstack e) (gs st)))
    \<and> vs_values (e_vstack e) (gs st3) = hd (vs_values (e_vstack e) (gs st2))
        # map (\<lambda>j. load32 (mem (gs st2)) (ptr (e_vstack e) (4 * j)))
            [Suc (top_index (e_vstack e) (gs st) + unat args)..<65536]"
proof -
  let ?b = "e_vstack e" and ?t = "top_index (e_vstack e) (gs st)"
  from assms(5) have c: "cstack_call ret args False st = ok st1"
    by (auto simp: exec_Call_def jumping_def andthen_eq_ok)
  note call = cstack_call_ok [OF assms(1,2,4) c]
  have "running (next_ip ret adv) st1" using call(2) by (simp add: running_def)
  with machine_runs_kept [OF assms(6,3)] call(1)
  have i2: "machine_inv e st2" and r2: "ctop st2 < CSTACK_SIZE"
    and kept: "return_data (cframes st2 (ctop st2)) = return_data (cframes st1 (ctop st1))"
    using assms(7) by (auto simp: running_def)
  have "gc_stack_top (gs st) = ptr ?b (4 * ?t)" "?t \<le> 65535" using assms(1) by (auto simp: machine_inv_def vs_inv_def)
  then have fr: "return_ip (cframes st2 (ctop st2)) = Some ret" "frame_words (cframes st2 (ctop st2)) = unat args"
    "base_index ?b (cframes st2 (ctop st2)) = ?t"
    using kept call(5) by (auto simp: return_data_def frame_words_def base_index_def unat_of_nat_u32 simp del: of_nat_mult)
  from assms(8-10) have e: "cstack_end e st2 = ok (ip3, st3)"
    by (auto simp: step_def exec_end_def andthen_eq_ok next_ip_def)
  note fin = cstack_end_ok [OF i2 r2 e] and vals = cstack_end_values [OF i2 r2 e]
  have "?t + unat args \<le> 65535" using fin(1) i2 r2 fr by (fastforce simp: machine_inv_def frame_ok_def)
  with vals fin(2,3) fr call(4) assms(7) show ?thesis
    by (simp add: length_vs_values)
qed

text \<open>The function of the file, called from the main frame: BEGIN, CONST, END.\<close>

definition demo_callee :: "gc_state \<Rightarrow> istate" where
  "demo_callee s = demo_main\<lparr>gs := s, ctop := 65534, cframes := (cframes demo_main)(65534 := \<lparr>return_ip = Some 15,
     fr_closure = False, fr_base = 1310716, args_count = 0, locals_count = 0\<rparr>)\<rparr>"

lemma demo_run:
  "exec_inst demo_env 15 (Call 0 0) demo_main = ok (demo_callee (demo_gs (\<lambda>_. 0) 1310716), Jump_to (Some 0))"
  "step demo_env 0 (demo_callee (demo_gs (\<lambda>_. 0) 1310716)) = ok (Some 9, demo_callee (demo_gs (\<lambda>_. 0) 1310716))"
  "step demo_env 9 (demo_callee (demo_gs (\<lambda>_. 0) 1310716))
    = ok (Some 14, demo_callee (demo_gs (store32 (\<lambda>_. 0) 1310716 (BOX 1)) 1310712))"
  "\<exists>st. step demo_env 14 (demo_callee (demo_gs (store32 (\<lambda>_. 0) 1310716 (BOX 1)) 1310712)) = ok (Some 15, st)"
  by (simp_all add: exec_Call_def jumping_def cstack_call_def ASSERT_def Let_def demo_callee_def demo_main_def
      demo_frame_def step_def demo_insts normal_def cstack_alloc_def next_ip_def push_value_def on_gc_def
      vs_push_def exec_end_def cstack_end_def popped_def vs_pop_def CSTACK_SIZE_def)

theorem call_returns_witness:
  "\<exists>st. step demo_env 14 (demo_callee (demo_gs (store32 (\<lambda>_. 0) 1310716 (BOX 1)) 1310712)) = ok (Some 15, st)
     \<and> ctop st = 65535 \<and> length (vs_values 1048576 (gs st)) = 1"
proof -
  let ?s1 = "demo_callee (demo_gs (\<lambda>_. 0) 1310716)"
    and ?s2 = "demo_callee (demo_gs (store32 (\<lambda>_. 0) 1310716 (BOX 1)) 1310712)"
  have "machine_runs demo_env 65534 (Some 0, ?s1) (Some 14, ?s2)"
    by (rule machine_runs.further [OF machine_runs.further [OF machine_runs.here]], simp add: demo_callee_def,
        rule machine_step.turn [OF demo_run(2)], simp add: demo_callee_def,
        rule machine_step.turn [OF demo_run(3)], simp add: demo_callee_def)
  then have runs: "machine_runs demo_env (ctop ?s1) (next_ip 15 (Jump_to (Some 0)), ?s1) (Some 14, ?s2)"
    by (simp add: demo_callee_def next_ip_def)
  have "top_index 1048576 (gs demo_main) = 65535"
    using demo_vs_inv [of 65535 1310716] by (simp add: demo_main_def ptr_def)
  moreover obtain st where st: "step demo_env 14 ?s2 = ok (Some 15, st)" using demo_run(4) by blast
  moreover have "ctop demo_main = 65535" by (simp add: demo_main_def)
  ultimately show ?thesis
    using call_returns [OF demo_machines(1) _ demo_operands _ demo_run(1) runs _ _ _ st] demo_insts(3)
    by (simp add: CSTACK_SIZE_def demo_callee_def length_vs_values)
qed

section \<open>Variables\<close>

text \<open>
  C30: an assignment to a local variable or an argument stores the value on top of the stack in this
  variable and in no other local or argument of the frame.
\<close>

theorem assignment_changes_one_variable:
  assumes "machine_inv e st" "ctop st < CSTACK_SIZE" "locals_fit e st"
    "k = Location_Local \<or> k = Location_Arg" "exec_inst e ip (St k n) st = ok (st', adv)"
    "k' = Location_Local \<or> k' = Location_Arg" "loc e st (location_index k') n' = ok a"
  shows "loc e st' (location_index k') n' = ok a \<and> adv = Normal
    \<and> load32 (mem (gs st')) a = (if k' = k \<and> n' = n then hd (vs_values (e_vstack e) (gs st)) else load32 (mem (gs st)) a)"
proof -
  let ?b = "e_vstack e" and ?fr = "cframes st (ctop st)"
  define word_index where "word_index l j = (if l = Location_Local then base_index ?b ?fr - unat j
    else base_index ?b ?fr + unat (args_count ?fr) - unat j)" for l and j :: u32
  have v: "vs_inv ?b (gs st)" and f: "base_index ?b ?fr + unat (args_count ?fr) \<le> 65535"
    using assms(1,2) by (fastforce simp: machine_inv_def frame_ok_def frame_words_def)+
  have at: "c = ptr ?b (4 * word_index l j)"
    "l = Location_Local \<Longrightarrow> unat j \<le> base_index ?b ?fr" "l = Location_Arg \<Longrightarrow> unat j < unat (args_count ?fr)"
    if "l = Location_Local \<or> l = Location_Arg" "loc e st (location_index l) j = ok c" for l j c
    using that loc_local [OF assms(1-3), of j c] loc_argument [OF assms(1,2), of j c] by (auto simp: word_index_def)
  from assms(5) obtain w c where w: "vs_top (gs st) = ok w" and c: "loc e st (location_index k) n = ok c"
    and st': "st' = st\<lparr>gs := (gs st)\<lparr>mem := store32 (mem (gs st)) c w\<rparr>\<rparr>" and adv: "adv = Normal"
    by (auto simp: exec_St_def normal_def andthen_eq_ok)
  note ac = at [OF assms(4) c] and aa = at [OF assms(6,7)]
  from w v have "w = hd (vs_values ?b (gs st))"
    by (auto simp: vs_top_eq [OF v] vs_values_def upt_conv_Cons vs_inv_def split: if_splits)
  moreover have "word_index k' n' = word_index k n \<longleftrightarrow> k' = k \<and> n' = n"
    using assms(4,6) ac(2,3) aa(2,3) unfolding word_index_def by (auto simp: unat_arith_simps)
  moreover have "word_index k' n' < 65536" "word_index k n < 65536" using f by (auto simp: word_index_def)
  ultimately have "load32 (mem (gs st')) a = (if k' = k \<and> n' = n then hd (vs_values ?b (gs st)) else load32 (mem (gs st)) a)"
    using ac(1) aa(1) by (auto simp: st' intro!: load32_store32_other)
  moreover have "loc e st' (location_index k') n' = loc e st (location_index k') n'"
    using assms(6) by (auto simp: st' loc_def)
  ultimately show ?thesis using adv assms(7) by simp
qed

theorem assignment_changes_one_variable_witness:
  "\<exists>st'. exec_inst demo_env 0 (St Location_Local 0) demo_vars = ok (st', Normal) \<and> load32 (mem (gs st')) 1310716 = BOX 5"
proof -
  have v: "vs_inv 1048576 (gs demo_vars)" using demo_machines(2) by (simp add: machine_inv_def)
  have a: "loc demo_env demo_vars (location_index Location_Local) 0 = ok 1310716"
    by (simp add: loc_def demo_vars_def demo_main_def demo_frame_def ASSERT_def)
  moreover have "\<exists>w. vs_top (gs demo_vars) = ok w" by (simp add: vs_top_def demo_vars_def ASSERT_def)
  ultimately obtain st' where x: "exec_inst demo_env 0 (St Location_Local 0) demo_vars = ok (st', Normal)"
    by (auto simp: exec_St_def normal_def)
  have "ctop demo_vars < CSTACK_SIZE" "locals_fit demo_env demo_vars"
    by (simp_all add: demo_vars_def demo_main_def CSTACK_SIZE_def locals_fit_def demo_frame_ok)
      (simp add: demo_frame_def)
  from assignment_changes_one_variable [OF demo_machines(2) this _ x _ a] x show ?thesis by (simp add: demo_values)
qed

section \<open>The interpreter and the verifier\<close>

lemma normal_ok: "normal r = ok (st, adv) \<Longrightarrow> adv = Normal"
  by (auto simp: normal_def andthen_eq_ok)

lemma exec_Fail_ends: "normal (exec_Fail st) \<noteq> ok x"
  by (auto simp: normal_def exec_Fail_def popped_def Bmatch_failure_def andthen_eq_ok split: prod.splits)

text \<open>Where an instruction takes the interpreter.\<close>

definition statically_known :: "inst \<Rightarrow> bool" where
  "statically_known i = (case i of End \<Rightarrow> False | Ret \<Rightarrow> False | CallC n \<Rightarrow> False | No_functor x \<Rightarrow> False | _ \<Rightarrow> True)"

lemma exec_inst_target:
  assumes "exec_inst e n i st = ok (st', adv)" and "statically_known i"
  shows "\<exists>t \<in> set (successors i n). next_ip n adv = Some t"
proof (cases i)
  case (CJmpZ t)
  then show ?thesis using assms(1) by (auto simp: popped_def andthen_eq_ok next_ip_def)
next
  case (CJmpNZ t)
  then show ?thesis using assms(1) by (auto simp: popped_def andthen_eq_ok next_ip_def)
next
  case (Call t k)
  then show ?thesis using assms(1) by (auto simp: exec_Call_def jumping_def andthen_eq_ok next_ip_def)
qed (use assms in \<open>auto simp: statically_known_def next_ip_def exec_Fail_ends dest!: normal_ok\<close>)

text \<open>
  The interpreter stays on the paths that the verifier has followed: at a position that is reachable
  by control flow from an entry point of an accepted file the instruction decodes, and after it the
  interpreter goes on at one of its successors, which the verifier has marked. The exceptions are the
  instructions whose target lies in the state (END, RET and CALLC), and a byte that applies no functor:
  the interpreter skips it, while the verifier takes it to have no successor.
\<close>

theorem interpreter_follows_verified_paths:
  assumes "reachable_instructions (e_file e) es = ok (begins, vis)" and "(flow (e_file e))\<^sup>*\<^sup>* e0 ip" and "e0 \<in> set es"
    and "step e ip st = ok (Some ip', st')"
  shows "\<exists>i n. read_inst (e_file e) ip = ok (i, n) \<and> well_targeted (e_file e) i \<and>
    (statically_known i \<longrightarrow> flow (e_file e) ip ip' \<and> ip' \<in> vset vis) \<and>
    (\<forall>x. i = No_functor x \<longrightarrow> ip' = n \<and> successors i n = [])"
proof -
  from reachable_settled [OF assms(1-3)] obtain i n where r: "read_inst (e_file e) ip = ok (i, n)"
    "well_targeted (e_file e) i" "set (successors i n) \<subseteq> vset vis" by (auto simp: settled_def)
  from assms(4) r(1) obtain adv where x: "exec_inst e n i st = ok (st', adv)" "next_ip n adv = Some ip'"
    by (auto simp: step_def andthen_eq_ok)
  have "flow (e_file e) ip ip' \<and> ip' \<in> vset vis" if "statically_known i"
    using exec_inst_target [OF x(1) that] x(2) r by (auto simp: flow_iff)
  moreover have "\<forall>y. i = No_functor y \<longrightarrow> ip' = n \<and> successors i n = []"
    using x by (auto simp: next_ip_def)
  ultimately show ?thesis using r by blast
qed

theorem interpreter_follows_verified_paths_witness:
  "step demo_env 9 (demo_callee (demo_gs (\<lambda>_. 0) 1310716)) =
     ok (Some 14, demo_callee (demo_gs (store32 (\<lambda>_. 0) 1310716 (BOX 1)) 1310712)) \<and> flow demo_file 9 14"
proof -
  have f: "e_file demo_env = demo_file" by (simp add: demo_env_def)
  have "flow demo_file 0 9" by (auto simp: flow_iff demo_insts)
  then have "(flow demo_file)\<^sup>*\<^sup>* 0 9" by blast
  with interpreter_follows_verified_paths [of demo_env, unfolded f, OF demo_reachable _ _ demo_run(3)] demo_insts
  show ?thesis using demo_run(3) by (auto simp: statically_known_def)
qed

end
