(* ===== verification/Statistics.thy ===== *)
theory Statistics
  imports ControlFlow "HOL-Library.Multiset"
begin

text \<open>
  tools/bcstats.cpp: counts the instructions, and the pairs of adjacent instructions, that reachable code
  consists of. Positions are offsets from \<open>code_ptr\<close>; an \<open>Idiom\<close> is a pair of positions, and two
  idioms are compared by their bytes. The tables of short idioms are maps from the index to the entry,
  where no entry stands for the initial one with a null pointer. \<open>std::sort\<close> is a parameter. What the
  program prints of a group is in theory Dump.
\<close>

section \<open>Marking\<close>

partial_function (option) mark_loop_stats ::
    "bytefile \<Rightarrow> int list \<times> bool list \<Rightarrow> bool list outcome" where
  "mark_loop_stats f st =
     (case st of (q, visited) \<Rightarrow> (case q of
        [] \<Rightarrow> ok visited
      | ip # q' \<Rightarrow> andthen (read_inst f ip) (\<lambda>(i, next).
          andthen (visit (successors i next) (q', visited)) (mark_loop_stats f))))"

definition mark_reachable_instructions :: "bytefile \<Rightarrow> int list \<Rightarrow> bool list outcome" where
  "mark_reachable_instructions f entrypoints =
     andthen (init_visited entrypoints (replicate (nat (get_code_size f)) False))
       (\<lambda>visited. mark_loop_stats f (entrypoints, visited))"

definition is_jump :: "u8 \<Rightarrow> bool" where
  "is_jump opcode \<longleftrightarrow> opcode \<in> {21, 81, 80, 86, 85, 89, 240}"

text \<open>\<open>at\<close> throws an exception outside the vector.\<close>

fun mark_labels :: "int \<Rightarrow> int list \<Rightarrow> bool list \<Rightarrow> bool list outcome" where
  "mark_labels next [] label = ok label"
| "mark_labels next (s # ss) label =
     (if next = s then mark_labels next ss label
      else if \<not> (0 \<le> s \<and> s < int (length label)) then err (Fail ''std::out_of_range'')
      else mark_labels next ss (label[nat s := True]))"

partial_function (option) mark_jumps_loop ::
    "bytefile \<Rightarrow> int \<Rightarrow> bool list \<times> bool list \<Rightarrow> (bool list \<times> bool list) outcome" where
  "mark_jumps_loop f ip st =
     (if ip = get_code_size f then ok st
      else let jump = (if is_jump (byte_at f ip) then (fst st)[nat ip := True] else fst st) in
        andthen (read_inst f ip) (\<lambda>(i, next).
        andthen (mark_labels next (successors i next) (snd st)) (\<lambda>label.
          mark_jumps_loop f next (jump, label))))"

definition mark_jumps :: "bytefile \<Rightarrow> (bool list \<times> bool list) outcome" where
  "mark_jumps f = (let none = replicate (nat (get_code_size f)) False in mark_jumps_loop f 0 (none, none))"

section \<open>Idioms\<close>

record idiom =
  i_begin :: int
  i_end :: int

text \<open>The bytes of an idiom, as the values of \<open>char\<close>.\<close>

definition idiom_chars :: "bytefile \<Rightarrow> idiom \<Rightarrow> int list" where
  "idiom_chars f i = map (\<lambda>k. sint (byte_at f k)) [i_begin i .. i_end i - 1]"

fun compare_bytes :: "int list \<Rightarrow> int list \<Rightarrow> int" where
  "compare_bytes (x # xs) (y # ys) = (if x \<noteq> y then x - y else compare_bytes xs ys)"
| "compare_bytes xs ys = int (length xs) - int (length ys)"

definition compare_idioms :: "bytefile \<Rightarrow> idiom \<Rightarrow> idiom \<Rightarrow> int" where
  "compare_idioms f a b = compare_bytes (idiom_chars f a) (idiom_chars f b)"

type_synonym group = "idiom \<times> nat"

record stats =
  one_byte_idioms :: "nat \<Rightarrow> group option"
  two_byte_idioms :: "nat \<Rightarrow> group option"
  long_idioms :: "idiom list"

definition empty_stats :: stats where
  "empty_stats = \<lparr>one_byte_idioms = (\<lambda>_. None), two_byte_idioms = (\<lambda>_. None), long_idioms = []\<rparr>"

definition count_in :: "(nat \<Rightarrow> group option) \<Rightarrow> nat \<Rightarrow> idiom \<Rightarrow> nat \<Rightarrow> group option" where
  "count_in t index i = t(index \<mapsto> (i, (case t index of None \<Rightarrow> 1 | Some (i', n) \<Rightarrow> n + 1)))"

text \<open>The index of a pair is computed from signed characters, and not tested.\<close>

definition two_byte_index :: "bytefile \<Rightarrow> int \<Rightarrow> int \<Rightarrow> int" where
  "two_byte_index f prev ip = push_bit 8 (sint (byte_at f prev)) OR sint (byte_at f ip)"

definition record_pair :: "bytefile \<Rightarrow> int \<Rightarrow> int \<Rightarrow> int \<Rightarrow> stats \<Rightarrow> stats outcome" where
  "record_pair f prev ip next st =
     (if next - prev = 2
      then let index = two_byte_index f prev ip in
        if 0 \<le> index \<and> index < 65536
        then ok (st\<lparr>two_byte_idioms := count_in (two_byte_idioms st) (nat index) \<lparr>i_begin = prev, i_end = next\<rparr>\<rparr>)
        else err OutOfBounds
      else ok (st\<lparr>long_idioms := long_idioms st @ [\<lparr>i_begin = prev, i_end = next\<rparr>]\<rparr>))"

definition record_single :: "bytefile \<Rightarrow> int \<Rightarrow> int \<Rightarrow> stats \<Rightarrow> stats" where
  "record_single f ip next st =
     (if next - ip = 1
      then st\<lparr>one_byte_idioms := count_in (one_byte_idioms st) (unat (byte_at f ip)) \<lparr>i_begin = ip, i_end = next\<rparr>\<rparr>
      else st\<lparr>long_idioms := long_idioms st @ [\<lparr>i_begin = ip, i_end = next\<rparr>]\<rparr>)"

partial_function (option) collect_loop ::
    "bytefile \<Rightarrow> bool list \<Rightarrow> bool list \<Rightarrow> bool list \<Rightarrow> int \<Rightarrow> int option \<Rightarrow> stats \<Rightarrow> stats outcome" where
  "collect_loop f reachable jump label ip prev st =
     (if ip = get_code_size f then ok st
      else andthen (read_inst f ip) (\<lambda>(i, next).
        if \<not> reachable ! nat ip then collect_loop f reachable jump label next None st
        else andthen (case prev of Some p \<Rightarrow> if \<not> label ! nat ip then record_pair f p ip next st else ok st
            | None \<Rightarrow> ok st) (\<lambda>st'.
          collect_loop f reachable jump label next (if jump ! nat ip then None else Some ip)
            (record_single f ip next st'))))"

section \<open>Groups\<close>

definition group_step :: "bytefile \<Rightarrow> group list \<Rightarrow> idiom \<Rightarrow> group list" where
  "group_step f gs i = (if gs = [] \<or> compare_idioms f i (fst (last gs)) \<noteq> 0 then gs @ [(i, 1)]
     else butlast gs @ [(fst (last gs), snd (last gs) + 1)])"

definition table_groups :: "(nat \<Rightarrow> group option) \<Rightarrow> nat \<Rightarrow> group list" where
  "table_groups t n = List.map_filter t [0..<n]"

definition idiom_groups :: "bytefile \<Rightarrow> (idiom list \<Rightarrow> idiom list) \<Rightarrow> (group list \<Rightarrow> group list) \<Rightarrow> stats \<Rightarrow> group list" where
  "idiom_groups f sort_idioms sort_groups st =
     sort_groups (foldl (group_step f) [] (sort_idioms (long_idioms st)) @
       table_groups (one_byte_idioms st) 256 @ table_groups (two_byte_idioms st) 65536)"

definition bcstats :: "(idiom list \<Rightarrow> idiom list) \<Rightarrow> (group list \<Rightarrow> group list) \<Rightarrow> bytefile \<Rightarrow> group list outcome" where
  "bcstats sort_idioms sort_groups f =
     andthen (get_entrypoints f) (\<lambda>entrypoints.
     andthen (mark_reachable_instructions f entrypoints) (\<lambda>reachable.
     andthen (mark_jumps f) (\<lambda>(jump, label).
     andthen (collect_loop f reachable jump label 0 None empty_stats) (\<lambda>st.
       ok (idiom_groups f sort_idioms sort_groups st)))))"

text \<open>What \<open>std::sort\<close> promises for the comparison \<open>lt\<close>.\<close>

definition sorts :: "('a \<Rightarrow> 'a \<Rightarrow> bool) \<Rightarrow> ('a list \<Rightarrow> 'a list) \<Rightarrow> bool" where
  "sorts lt sort_fun \<longleftrightarrow> (\<forall>xs. mset (sort_fun xs) = mset xs \<and> sorted_wrt (\<lambda>x y. \<not> lt y x) (sort_fun xs))"

section \<open>The instructions of the code section\<close>

text \<open>The instructions in the order of the code, each with the position after it.\<close>

partial_function (option) sweep :: "bytefile \<Rightarrow> int \<Rightarrow> (int \<times> int) list outcome" where
  "sweep f ip = (if ip = get_code_size f then ok []
     else andthen (read_inst f ip) (\<lambda>(i, next). andthen (sweep f next) (\<lambda>is. ok ((ip, next) # is))))"

lemma read_operands_length:
  "read_operands f x ip = ok (i, ip') \<Longrightarrow> ip' = ip \<or> ip + 4 \<le> ip'"
proof -
  have locs: "read_locs f n ip = ok (ls, ip') \<Longrightarrow> ip \<le> ip'" for n ip ls ip'
    by (induction n arbitrary: ip ls)
      (auto simp: andthen_eq_ok read_loc_def read_byte_def read_int_def, fastforce)
  assume "read_operands f x ip = ok (i, ip')"
  then show ?thesis
    by (auto simp: read_operands_def read_composed_def Let_def andthen_eq_ok read1_def read2_def read_string_int_def
        read_string_def read_int_def split: if_splits option.splits dest!: locs)
qed

lemma read_inst_length: "read_inst f ip = ok (i, ip') \<Longrightarrow> ip' = ip + 1 \<or> ip + 5 \<le> ip'"
  by (auto simp: read_inst_def andthen_eq_ok read_byte_def dest!: read_operands_length)

lemma get_code_size_ok: "bytefile_ok f \<Longrightarrow> get_code_size f = int (length (buffer f)) - int (code_off f)"
  using sint_small [of "bf_size f"] by (simp add: bytefile_ok_def get_code_size_def)

lemma read_inst_inside:
  assumes "bytefile_ok f" and "read_inst f ip = ok (i, ip')"
  shows "ip < ip'" "ip' \<le> get_code_size f"
  using read_inst_progress [OF assms] get_code_size_ok [OF assms(1)] by (auto simp: in_code_def)

lemma position_induct [consumes 2, case_names pos]:
  assumes f: "bytefile_ok f" and ip: "ip \<le> get_code_size f"
    and step: "\<And>ip. ip \<le> get_code_size f \<Longrightarrow>
      (\<And>i next. ip \<noteq> get_code_size f \<Longrightarrow> read_inst f ip = ok (i, next) \<Longrightarrow> P next) \<Longrightarrow> P ip"
  shows "P ip"
  using ip
proof (induction "nat (get_code_size f - ip)" arbitrary: ip rule: less_induct)
  case less
  show ?case
  proof (rule step [OF less.prems])
    fix i n assume "ip \<noteq> get_code_size f" "read_inst f ip = ok (i, n)"
    with read_inst_inside [OF f this(2)] less.prems show "P n" by (intro less.hyps) auto
  qed
qed

text \<open>A loop over the code section returns when its body does.\<close>

lemma position_step:
  assumes f: "bytefile_ok f" and g: "\<And>i n. read_inst f ip = ok (i, n) \<Longrightarrow> g i n \<noteq> None"
  shows "andthen (read_inst f ip) (\<lambda>(i, n). g i n) \<noteq> None"
  by (rule andthen_pair_defined [OF read_inst_defined [OF f] g])

lemma sweep_defined:
  assumes f: "bytefile_ok f" and ip: "ip \<le> get_code_size f"
  shows "sweep f ip \<noteq> None"
  using assms
proof (induction rule: position_induct)
  case (pos ip)
  show ?case
  proof (cases "ip = get_code_size f")
    case False
    have "andthen (read_inst f ip) (\<lambda>(i, next). andthen (sweep f next) (\<lambda>is. ok ((ip, next) # is))) \<noteq> None"
      using pos.IH [OF False] by (intro position_step f andthen_defined) simp_all
    with False show ?thesis by (subst sweep.simps) (simp only: if_False not_False_eq_True)
  qed (simp add: sweep.simps)
qed

lemma mark_labels_defined: "mark_labels n ss label \<noteq> None"
  by (induction n ss label rule: mark_labels.induct) auto

lemma mark_jumps_loop_defined:
  assumes f: "bytefile_ok f" and ip: "ip \<le> get_code_size f"
  shows "\<forall>st. mark_jumps_loop f ip st \<noteq> None"
  using assms
proof (induction rule: position_induct)
  case (pos ip)
  show ?case
  proof (cases "ip = get_code_size f")
    case False
    have "andthen (read_inst f ip) (\<lambda>(i, next). andthen (mark_labels next (successors i next) l)
        (\<lambda>label. mark_jumps_loop f next (j, label))) \<noteq> None" for l j
      using pos.IH [OF False] by (intro position_step f andthen_defined mark_labels_defined) simp_all
    with False show ?thesis by (subst mark_jumps_loop.simps) (simp only: if_False not_False_eq_True Let_def HOL.simp_thms)
  qed (simp add: mark_jumps_loop.simps)
qed

lemma record_pair_defined: "record_pair f p ip n st \<noteq> None"
  by (simp add: record_pair_def Let_def)

lemma collect_loop_defined:
  assumes f: "bytefile_ok f" and ip: "ip \<le> get_code_size f"
  shows "\<forall>prev st. collect_loop f reachable jump label ip prev st \<noteq> None"
  using assms
proof (induction rule: position_induct)
  case (pos ip)
  show ?case
  proof (cases "ip = get_code_size f")
    case False
    have b: "(case prev of Some p \<Rightarrow> if c then record_pair f p ip n st else ok st | None \<Rightarrow> ok st) \<noteq> None" for prev c n st
      using record_pair_defined by (simp split: option.splits)
    have "andthen (read_inst f ip) (\<lambda>(i, next).
        if \<not> reachable ! nat ip then collect_loop f reachable jump label next None st
        else andthen (case prev of Some p \<Rightarrow> if \<not> label ! nat ip then record_pair f p ip next st else ok st
            | None \<Rightarrow> ok st) (\<lambda>st'.
          collect_loop f reachable jump label next (if jump ! nat ip then None else Some ip)
            (record_single f ip next st'))) \<noteq> None" for prev st
    proof (intro position_step f)
      fix i n assume "read_inst f ip = ok (i, n)"
      note q = pos.IH [OF False this, rule_format]
      show "(if \<not> reachable ! nat ip then collect_loop f reachable jump label n None st
        else andthen (case prev of Some p \<Rightarrow> if \<not> label ! nat ip then record_pair f p ip n st else ok st
            | None \<Rightarrow> ok st) (\<lambda>st'.
          collect_loop f reachable jump label n (if jump ! nat ip then None else Some ip)
            (record_single f ip n st'))) \<noteq> None"
        by (cases "reachable ! nat ip") (simp_all only: not_True_eq_False not_False_eq_True if_True if_False q andthen_defined [OF b q])
    qed
    with False show ?thesis by (subst collect_loop.simps) (simp only: if_False not_False_eq_True HOL.simp_thms)
  qed (simp add: collect_loop.simps)
qed

lemma mark_loop_stats_defined:
  assumes f: "bytefile_ok f"
  shows "mark_loop_stats f (q, vis) \<noteq> None"
proof (induction "length q + 2 * unvisited vis" arbitrary: q vis rule: less_induct)
  case less
  show ?case
  proof (cases q)
    case (Cons ip q1)
    have step: "mark_loop_stats f st \<noteq> None" if "visit ps (q1, vis) = ok st" for ps st
    proof -
      obtain q2 vis2 where st: "st = (q2, vis2)" by (cases st)
      then have "length q2 + 2 * unvisited vis2 < length q + 2 * unvisited vis"
        using visit_measure [of ps q1 vis q2 vis2] that Cons by simp
      then show ?thesis using less st by blast
    qed
    have "andthen (read_inst f ip) (\<lambda>(i, next). andthen (visit (successors i next) (q1, vis)) (mark_loop_stats f)) \<noteq> None"
      by (intro position_step f andthen_defined visit_defined step)
    then show ?thesis unfolding Cons by (subst mark_loop_stats.simps) (simp only: prod.case list.case not_False_eq_True)
  qed (simp add: mark_loop_stats.simps)
qed

lemma collect_defined: "(\<And>x. g x \<noteq> None) \<Longrightarrow> collect g xs \<noteq> None"
  by (induction xs) (simp_all add: andthen_defined del: not_None_eq)

lemma get_entrypoints_defined: "get_entrypoints f \<noteq> None"
  unfolding get_entrypoints_def
  by (rule collect_defined) (auto simp: get_public_offset_def ASSERT_def Let_def)

text \<open>A pair that ends with \<open>STOP\<close> has a negative index, since its code is negative as a \<open>char\<close>.\<close>

lemma pair_with_stop_out_of_bounds:
  assumes "byte_at f q = 240"
  shows "record_pair f p q (p + 2) st = err OutOfBounds"
proof -
  have "two_byte_index f p q < 0"
    using assms by (simp add: two_byte_index_def not_le [symmetric] or_nonnegative_int_iff)
  then show ?thesis by (simp add: record_pair_def Let_def)
qed

end
