(* ===== verification/Counting.thy ===== *)
theory Counting
  imports Statistics
begin

text \<open>
  What the counting of bcstats.cpp (theory Statistics) computes: the comparison of idioms is a linear order
  on their bytes, sorting and grouping counts equal idioms, the tables count the short ones, and the loop
  records every reachable instruction and every pair of adjacent ones that control cannot separate.
\<close>

section \<open>The order of idioms\<close>

datatype bytes = Bytes (the_bytes: "int list")

lemma compare_bytes_0: "compare_bytes xs ys = 0 \<longleftrightarrow> xs = ys"
  by (induction xs ys rule: compare_bytes.induct) auto

lemma compare_bytes_swap: "compare_bytes ys xs = - compare_bytes xs ys"
  by (induction xs ys rule: compare_bytes.induct) auto

lemma compare_bytes_trans:
  "compare_bytes xs ys \<le> 0 \<Longrightarrow> compare_bytes ys zs \<le> 0 \<Longrightarrow> compare_bytes xs zs \<le> 0"
proof (induction xs arbitrary: ys zs)
  case Nil
  then show ?case by (cases zs) auto
next
  case (Cons x xs)
  then obtain y ys' where ys: "ys = y # ys'" by (cases ys) auto
  with Cons.prems obtain z zs' where zs: "zs = z # zs'" by (cases zs) auto
  show ?case using Cons.prems Cons.IH [of ys' zs'] by (auto simp: ys zs split: if_splits)
qed

instantiation bytes :: linorder
begin

definition less_eq_bytes :: "bytes \<Rightarrow> bytes \<Rightarrow> bool" where
  "a \<le> b \<longleftrightarrow> compare_bytes (the_bytes a) (the_bytes b) \<le> 0"

definition less_bytes :: "bytes \<Rightarrow> bytes \<Rightarrow> bool" where
  "a < b \<longleftrightarrow> compare_bytes (the_bytes a) (the_bytes b) < 0"

instance
proof
  fix a b c :: bytes
  show "a < b \<longleftrightarrow> a \<le> b \<and> \<not> b \<le> a"
    using compare_bytes_swap [of "the_bytes a" "the_bytes b"] by (auto simp: less_eq_bytes_def less_bytes_def)
  show "a \<le> a" using compare_bytes_0 [of "the_bytes a" "the_bytes a"] by (simp add: less_eq_bytes_def)
  show "a \<le> b \<Longrightarrow> b \<le> c \<Longrightarrow> a \<le> c" unfolding less_eq_bytes_def by (rule compare_bytes_trans)
  show "a \<le> b \<Longrightarrow> b \<le> a \<Longrightarrow> a = b"
    using compare_bytes_swap [of "the_bytes a" "the_bytes b"] compare_bytes_0 [of "the_bytes a" "the_bytes b"]
    by (auto simp: less_eq_bytes_def intro: bytes.expand)
  show "a \<le> b \<or> b \<le> a"
    using compare_bytes_swap [of "the_bytes a" "the_bytes b"] by (auto simp: less_eq_bytes_def)
qed

end

definition key :: "bytefile \<Rightarrow> idiom \<Rightarrow> bytes" where
  "key f i = Bytes (idiom_chars f i)"

lemma compare_idioms_less: "compare_idioms f a b < 0 \<longleftrightarrow> key f a < key f b"
  by (simp add: compare_idioms_def less_bytes_def key_def)

lemma compare_idioms_eq: "compare_idioms f a b = 0 \<longleftrightarrow> key f a = key f b"
  by (simp add: compare_idioms_def compare_bytes_0 key_def)

section \<open>Grouping a sorted list\<close>

text \<open>\<open>counts f gs M\<close>: the groups hold every element of \<open>M\<close> once, with the number of its occurrences.\<close>

definition counts :: "bytefile \<Rightarrow> group list \<Rightarrow> bytes multiset \<Rightarrow> bool" where
  "counts f gs M \<longleftrightarrow> distinct (map (key f \<circ> fst) gs) \<and> set (map (key f \<circ> fst) gs) = set_mset M \<and>
     (\<forall>g \<in> set gs. snd g = count M (key f (fst g)))"

lemma group_step_counts:
  assumes c: "counts f gs (mset (map (key f) xs))" and l: "xs \<noteq> [] \<Longrightarrow> gs \<noteq> [] \<and> key f (fst (last gs)) = key f (last xs)"
    and s: "sorted (map (key f) (xs @ [x]))"
  shows "counts f (group_step f gs x) (mset (map (key f) (xs @ [x])))"
    "group_step f gs x \<noteq> [] \<and> key f (fst (last (group_step f gs x))) = key f x"
proof -
  show "group_step f gs x \<noteq> [] \<and> key f (fst (last (group_step f gs x))) = key f x"
    by (auto simp: group_step_def compare_idioms_eq)
  show "counts f (group_step f gs x) (mset (map (key f) (xs @ [x])))"
  proof (cases "gs = [] \<or> key f x \<noteq> key f (fst (last gs))")
    case True
    have "key f x \<notin> set (map (key f) xs)"
    proof
      assume x: "key f x \<in> set (map (key f) xs)"
      then have ne: "xs \<noteq> []" by auto
      have "key f x \<le> key f (last xs)"
        using x s by (cases xs rule: rev_cases) (auto simp: sorted_append)
      moreover have "key f (last xs) \<le> key f x" using s ne by (auto simp: sorted_append)
      ultimately show False using True l [OF ne] by auto
    qed
    then show ?thesis using c True
      by (auto simp: counts_def group_step_def compare_idioms_eq count_eq_zero_iff)
  next
    case False
    then obtain gs' i n where gs: "gs = gs' @ [(i, n)]" by (cases gs rule: rev_cases) auto
    then have "key f x = key f i" using False by simp
    then show ?thesis using c gs
      by (auto simp: counts_def group_step_def compare_idioms_eq)
  qed
qed

lemma group_counts:
  assumes "sorted (map (key f) xs)"
  shows "counts f (foldl (group_step f) [] xs) (mset (map (key f) xs)) \<and>
    (xs \<noteq> [] \<longrightarrow> foldl (group_step f) [] xs \<noteq> [] \<and> key f (fst (last (foldl (group_step f) [] xs))) = key f (last xs))"
  using assms
proof (induction xs rule: rev_induct)
  case (snoc x xs)
  then have "sorted (map (key f) xs)" by (simp add: sorted_append)
  with snoc have "counts f (foldl (group_step f) [] xs) (mset (map (key f) xs))"
    "xs \<noteq> [] \<Longrightarrow> foldl (group_step f) [] xs \<noteq> [] \<and> key f (fst (last (foldl (group_step f) [] xs))) = key f (last xs)"
    by blast+
  from group_step_counts [OF this snoc.prems] show ?case by simp
qed (simp add: counts_def)

lemma sorts_sorted:
  assumes "sorts (\<lambda>a b. compare_idioms f a b < 0) sort_fun"
  shows "sorted (map (key f) (sort_fun xs))" "mset (sort_fun xs) = mset xs"
  using assms by (auto simp: sorts_def compare_idioms_less sorted_wrt_map not_less sorted_map)

section \<open>The tables\<close>

text \<open>A table counts the elements of \<open>M\<close> in \<open>S\<close>, under the index \<open>h\<close>.\<close>

definition table_ok :: "bytefile \<Rightarrow> bytes set \<Rightarrow> (bytes \<Rightarrow> nat) \<Rightarrow> (nat \<Rightarrow> group option) \<Rightarrow> bytes multiset \<Rightarrow> bool" where
  "table_ok f S h t M \<longleftrightarrow> (\<forall>b \<in># M. b \<in> S \<longrightarrow> t (h b) \<noteq> None) \<and>
     (\<forall>k g. t k = Some g \<longrightarrow> key f (fst g) \<in> S \<and> h (key f (fst g)) = k \<and> snd g = count M (key f (fst g)) \<and> 0 < snd g)"

lemma table_ok_empty: "table_ok f S h (\<lambda>_. None) {#}"
  by (simp add: table_ok_def)

lemma table_ok_Some:
  assumes "table_ok f S h t M" and "t k = Some g"
  shows "key f (fst g) \<in> S" "h (key f (fst g)) = k" "snd g = count M (key f (fst g))" "0 < snd g"
  using assms unfolding table_ok_def by blast+

lemma table_ok_other:
  assumes t: "table_ok f S h t M" and b: "b \<notin> S"
  shows "table_ok f S h t (add_mset b M)"
  unfolding table_ok_def
proof (intro conjI allI impI ballI)
  fix x assume "x \<in># add_mset b M" "x \<in> S"
  then show "t (h x) \<noteq> None" using t b by (auto simp: table_ok_def)
next
  fix k g assume "t k = Some g"
  note g = table_ok_Some [OF t this]
  show "key f (fst g) \<in> S" "h (key f (fst g)) = k" "0 < snd g" by (fact g)+
  show "snd g = count (add_mset b M) (key f (fst g))" using g(1,3) b by auto
qed

lemma table_ok_count_in:
  assumes t: "table_ok f S h t M" and i: "key f i \<in> S" and inj: "inj_on h S"
  shows "table_ok f S h (count_in t (h (key f i)) i) (add_mset (key f i) M)"
  unfolding table_ok_def
proof (intro conjI allI impI ballI)
  fix b assume "b \<in># add_mset (key f i) M" "b \<in> S"
  then show "count_in t (h (key f i)) i (h b) \<noteq> None" using t by (auto simp: table_ok_def count_in_def)
next
  fix k g assume g: "count_in t (h (key f i)) i k = Some g"
  have "key f (fst g) \<in> S \<and> h (key f (fst g)) = k \<and> snd g = count (add_mset (key f i) M) (key f (fst g)) \<and> 0 < snd g"
  proof (cases "k = h (key f i)")
    case True
    have "(case t k of None \<Rightarrow> 1 | Some (j, n) \<Rightarrow> n + 1) = Suc (count M (key f i))"
    proof (cases "t k")
      case None
      then have "key f i \<notin># M" using t i True by (auto simp: table_ok_def)
      then show ?thesis using None by (simp add: not_in_iff)
    next
      case (Some e)
      note e = table_ok_Some [OF t Some]
      have "key f (fst e) = key f i" using inj_onD [OF inj _ e(1) i] e(2) True by simp
      then show ?thesis using Some e(3) by (simp add: case_prod_beta)
    qed
    then show ?thesis using g True i by (auto simp: count_in_def)
  next
    case False
    then have tk: "t k = Some g" using g by (simp add: count_in_def)
    note g = table_ok_Some [OF t tk]
    have "key f (fst g) \<noteq> key f i" using g(2) False by auto
    then show ?thesis using g by simp
  qed
  then show "key f (fst g) \<in> S" "h (key f (fst g)) = k" "snd g = count (add_mset (key f i) M) (key f (fst g))" "0 < snd g"
    by blast+
qed

lemma set_table_groups: "set (List.map_filter t ks) = {g. \<exists>k \<in> set ks. t k = Some g}"
  by (induction ks) (auto simp: map_filter_simps split: option.splits)

lemma distinct_table_groups:
  assumes t: "table_ok f S h t M"
  shows "distinct ks \<Longrightarrow> distinct (map (key f \<circ> fst) (List.map_filter t ks))"
proof (induction ks)
  case (Cons k ks)
  show ?case
  proof (cases "t k")
    case None
    then show ?thesis using Cons by (simp add: map_filter_simps)
  next
    case (Some g)
    have "key f (fst g) \<notin> set (map (key f \<circ> fst) (List.map_filter t ks))"
    proof
      assume "key f (fst g) \<in> set (map (key f \<circ> fst) (List.map_filter t ks))"
      then obtain j g' where j: "j \<in> set ks" "t j = Some g'" "key f (fst g) = key f (fst g')"
        by (auto simp: set_table_groups)
      then have "j = k" using table_ok_Some(2) [OF t Some] table_ok_Some(2) [OF t j(2)] by simp
      then show False using j(1) Cons.prems by simp
    qed
    then show ?thesis using Cons Some by (simp add: map_filter_simps)
  qed
qed (simp add: map_filter_simps)

lemma table_groups_counts:
  assumes t: "table_ok f S h t M" and inj: "inj_on h S" and n: "\<And>b. b \<in># M \<Longrightarrow> b \<in> S \<Longrightarrow> h b < n"
  shows "counts f (table_groups t n) {#b \<in># M. b \<in> S#}"
  unfolding counts_def
proof (intro conjI ballI)
  show "distinct (map (key f \<circ> fst) (table_groups t n))"
    unfolding table_groups_def by (rule distinct_table_groups [OF t distinct_upt])
  have set: "set (table_groups t n) = {g. \<exists>k < n. t k = Some g}"
    by (auto simp: table_groups_def set_table_groups)
  show "set (map (key f \<circ> fst) (table_groups t n)) = set_mset {#b \<in># M. b \<in> S#}"
  proof (intro set_eqI iffI)
    fix b assume "b \<in> set (map (key f \<circ> fst) (table_groups t n))"
    then obtain g k where "b = key f (fst g)" "t k = Some g" by (auto simp: set)
    with table_ok_Some [OF t this(2)] show "b \<in> set_mset {#b \<in># M. b \<in> S#}"
      by (simp add: count_greater_zero_iff [symmetric] del: count_greater_zero_iff)
  next
    fix b assume b: "b \<in> set_mset {#b \<in># M. b \<in> S#}"
    obtain g where g: "t (h b) = Some g" using b t by (auto simp: table_ok_def)
    have "key f (fst g) = b" using inj_onD [OF inj table_ok_Some(2) [OF t g] table_ok_Some(1) [OF t g]] b by simp
    moreover have "g \<in> set (table_groups t n)" using g n b by (auto simp: set)
    ultimately show "b \<in> set (map (key f \<circ> fst) (table_groups t n))" by auto
  qed
  fix g assume "g \<in> set (table_groups t n)"
  then obtain k where "t k = Some g" by (auto simp: set)
  with table_ok_Some [OF t this] show "snd g = count {#b \<in># M. b \<in> S#} (key f (fst g))" by simp
qed

section \<open>The indices of the tables\<close>

definition one_byte :: "bytes set" where
  "one_byte = range (\<lambda>x :: u8. Bytes [sint x])"

definition two_bytes :: "bytes set" where
  "two_bytes = {Bytes [c, d] | c d. 0 \<le> c \<and> c < 128 \<and> 0 \<le> d \<and> d < 128}"

definition one_index :: "bytes \<Rightarrow> nat" where
  "one_index b = unat (word_of_int (hd (the_bytes b)) :: u8)"

definition two_index :: "bytes \<Rightarrow> nat" where
  "two_index b = nat (256 * hd (the_bytes b) + hd (tl (the_bytes b)))"

lemma one_index_inj: "inj_on one_index one_byte"
  by (rule inj_onI) (auto simp: one_byte_def one_index_def dest: unsigned_word_eqI [where 'a = nat])

lemma two_index_inj: "inj_on two_index two_bytes"
proof (rule inj_onI)
  fix a b assume "a \<in> two_bytes" "b \<in> two_bytes" and e: "two_index a = two_index b"
  then obtain c d c' d' where a: "a = Bytes [c, d]" "0 \<le> c" "0 \<le> d" "d < 128"
    and b: "b = Bytes [c', d']" "0 \<le> c'" "0 \<le> d'" "d' < 128" by (auto simp: two_bytes_def)
  then have "256 * c + d = 256 * c' + d'" using e by (simp add: two_index_def)
  moreover have "(256 * c + d) div 256 = c" "(256 * c' + d') div 256 = c'" using a b by simp_all
  ultimately have "c = c'" "d = d'" by auto
  then show "a = b" by (simp add: a b)
qed

lemma index_bounds: "b \<in> one_byte \<Longrightarrow> one_index b < 256" "b \<in> two_bytes \<Longrightarrow> two_index b < 65536"
  using unsigned_less [where 'a = nat and 'b = 8] by (auto simp: one_byte_def one_index_def two_bytes_def two_index_def)

lemma two_byte_index_eq:
  assumes "0 \<le> two_byte_index f p q"
  shows "0 \<le> sint (byte_at f p)" "0 \<le> sint (byte_at f q)"
    "two_byte_index f p q = 256 * sint (byte_at f p) + sint (byte_at f q)"
proof -
  show c: "0 \<le> sint (byte_at f p)" and d: "0 \<le> sint (byte_at f q)"
    using assms by (simp_all add: two_byte_index_def or_nonnegative_int_iff)
  have "sint (byte_at f q) < 128" using sint_lt [of "byte_at f q"] by simp
  then have "take_bit 8 (sint (byte_at f q)) = sint (byte_at f q)" using d by (intro take_bit_int_eq_self) simp_all
  then have "push_bit 8 (sint (byte_at f p)) OR sint (byte_at f q) = concat_bit 8 (sint (byte_at f q)) (sint (byte_at f p))"
    by (simp add: concat_bit_def or.commute)
  also have "\<dots> = 256 * sint (byte_at f p) + sint (byte_at f q)"
    using \<open>take_bit 8 _ = _\<close> by (simp add: concat_bit_eq push_bit_eq_mult)
  finally show "two_byte_index f p q = 256 * sint (byte_at f p) + sint (byte_at f q)" by (simp add: two_byte_index_def)
qed

section \<open>What is recorded\<close>

lemma length_chars: "length (idiom_chars f i) = nat (i_end i - i_begin i)"
  by (simp add: idiom_chars_def)

lemma idiom_chars_1: "idiom_chars f \<lparr>i_begin = p, i_end = p + 1\<rparr> = [sint (byte_at f p)]"
  by (simp add: idiom_chars_def)

lemma idiom_chars_2: "idiom_chars f \<lparr>i_begin = p, i_end = p + 2\<rparr> = [sint (byte_at f p), sint (byte_at f (p + 1))]"
  by (simp add: idiom_chars_def upto_rec1)

definition stats_ok :: "bytefile \<Rightarrow> stats \<Rightarrow> bytes multiset \<Rightarrow> bool" where
  "stats_ok f st M \<longleftrightarrow> table_ok f one_byte one_index (one_byte_idioms st) M \<and>
     table_ok f two_bytes two_index (two_byte_idioms st) M \<and>
     mset (map (key f) (long_idioms st)) = {#b \<in># M. 2 < length (the_bytes b)#} \<and>
     (\<forall>b \<in># M. b \<in> one_byte \<or> b \<in> two_bytes \<or> 2 < length (the_bytes b))"

lemma stats_ok_empty: "stats_ok f empty_stats {#}"
  by (simp add: stats_ok_def empty_stats_def table_ok_empty)

lemma short_bytes: "b \<in> one_byte \<Longrightarrow> length (the_bytes b) = 1" "b \<in> two_bytes \<Longrightarrow> length (the_bytes b) = 2"
  by (auto simp: one_byte_def two_bytes_def)

lemma stats_ok_long:
  assumes "stats_ok f st M" and "p + 2 < n"
  shows "stats_ok f (st\<lparr>long_idioms := long_idioms st @ [\<lparr>i_begin = p, i_end = n\<rparr>]\<rparr>) (add_mset (key f \<lparr>i_begin = p, i_end = n\<rparr>) M)"
proof -
  let ?b = "key f \<lparr>i_begin = p, i_end = n\<rparr>"
  have l: "2 < length (the_bytes ?b)" using assms(2) by (simp add: key_def length_chars)
  then have "?b \<notin> one_byte" "?b \<notin> two_bytes" using short_bytes [of ?b] by auto
  then show ?thesis using assms(1) l by (simp add: stats_ok_def table_ok_other)
qed

lemma record_single_ok:
  assumes st: "stats_ok f st M" and r: "read_inst f ip = ok (i, n)"
  shows "stats_ok f (record_single f ip n st) (add_mset (key f \<lparr>i_begin = ip, i_end = n\<rparr>) M)"
proof (cases "n - ip = 1")
  case True
  then have n: "n = ip + 1" by simp
  let ?i = "\<lparr>i_begin = ip, i_end = n\<rparr>"
  have k: "key f ?i = Bytes [sint (byte_at f ip)]" by (simp add: n key_def idiom_chars_1)
  have one: "key f ?i \<in> one_byte" by (simp add: k one_byte_def)
  then have two: "key f ?i \<notin> two_bytes" and len: "\<not> 2 < length (the_bytes (key f ?i))"
    using short_bytes [of "key f ?i"] by auto
  have "one_index (key f ?i) = unat (byte_at f ip)" by (simp add: k one_index_def)
  then show ?thesis
    using st True one len table_ok_count_in [OF _ one one_index_inj, of "one_byte_idioms st" M] table_ok_other [OF _ two]
    by (simp add: stats_ok_def record_single_def)
next
  case False
  then show ?thesis using stats_ok_long [OF st, of ip n] read_inst_length [OF r] by (simp add: record_single_def)
qed

lemma record_pair_ok:
  assumes st: "stats_ok f st M" and r: "record_pair f p q n st = ok st'" and o: "p < q" "q < n"
  shows "stats_ok f st' (add_mset (key f \<lparr>i_begin = p, i_end = n\<rparr>) M)"
proof (cases "n - p = 2")
  case True
  then have n: "n = p + 2" "q = p + 1" using o by simp_all
  let ?i = "\<lparr>i_begin = p, i_end = n\<rparr>"
  have st': "st' = st\<lparr>two_byte_idioms := count_in (two_byte_idioms st) (nat (two_byte_index f p q)) ?i\<rparr>"
    and ix: "0 \<le> two_byte_index f p q" using r True by (auto simp: record_pair_def Let_def split: if_splits)
  note t = two_byte_index_eq [OF ix]
  have k: "key f ?i = Bytes [sint (byte_at f p), sint (byte_at f q)]" by (simp add: n key_def idiom_chars_2)
  have two: "key f ?i \<in> two_bytes"
    using t(1,2) sint_lt [of "byte_at f p"] sint_lt [of "byte_at f q"] by (simp add: k two_bytes_def)
  then have one: "key f ?i \<notin> one_byte" and len: "\<not> 2 < length (the_bytes (key f ?i))"
    using short_bytes [of "key f ?i"] by auto
  have "two_index (key f ?i) = nat (two_byte_index f p q)" by (simp add: k two_index_def t(3))
  then show ?thesis
    using st two len table_ok_count_in [OF _ two two_index_inj, of "two_byte_idioms st" M] table_ok_other [OF _ one]
    by (simp add: stats_ok_def st')
next
  case False
  then have "st' = st\<lparr>long_idioms := long_idioms st @ [\<lparr>i_begin = p, i_end = n\<rparr>]\<rparr>"
    using r by (simp add: record_pair_def)
  then show ?thesis using stats_ok_long [OF st, of p n] False o by simp
qed

text \<open>The byte strings recorded from a position on, when \<open>prev\<close> is the instruction before it that may
  start a pair.\<close>

fun recorded :: "bytefile \<Rightarrow> bool list \<Rightarrow> bool list \<Rightarrow> bool list \<Rightarrow> int option \<Rightarrow> (int \<times> int) list \<Rightarrow> bytes multiset" where
  "recorded f reachable jump label prev [] = {#}"
| "recorded f reachable jump label prev ((ip, n) # is) =
     (if \<not> reachable ! nat ip then recorded f reachable jump label None is
      else (case prev of Some p \<Rightarrow> if \<not> label ! nat ip then {#key f \<lparr>i_begin = p, i_end = n\<rparr>#} else {#} | None \<Rightarrow> {#}) +
        {#key f \<lparr>i_begin = ip, i_end = n\<rparr>#} +
        recorded f reachable jump label (if jump ! nat ip then None else Some ip) is)"

lemma collect_loop_records:
  assumes f: "bytefile_ok f"
  shows "sweep f ip = ok is \<Longrightarrow> collect_loop f reachable jump label ip prev st = ok st' \<Longrightarrow> stats_ok f st M \<Longrightarrow>
    (\<And>p. prev = Some p \<Longrightarrow> p < ip) \<Longrightarrow> stats_ok f st' (M + recorded f reachable jump label prev is)"
proof (induction "is" arbitrary: ip prev st M)
  case Nil
  then have "ip = get_code_size f" by (subst (asm) sweep.simps) (auto simp: andthen_eq_ok split: if_splits)
  then show ?case using Nil by (simp add: collect_loop.simps)
next
  case (Cons x "is")
  then obtain i n where x: "x = (ip, n)" "ip \<noteq> get_code_size f" and r: "read_inst f ip = ok (i, n)" and sw: "sweep f n = ok is"
    by (subst (asm) sweep.simps) (auto simp: andthen_eq_ok split: if_splits)
  note n = read_inst_inside(1) [OF f r]
  note c = Cons.prems(2) [unfolded collect_loop.simps [of f reachable jump label ip]]
  show ?case
  proof (cases "reachable ! nat ip")
    case False
    then have "collect_loop f reachable jump label n None st = ok st'" using c x(2) r by simp
    from Cons.IH [OF sw this Cons.prems(3)] show ?thesis using False by (simp add: x(1))
  next
    case True
    let ?pair = "case prev of Some p \<Rightarrow> if \<not> label ! nat ip then {#key f \<lparr>i_begin = p, i_end = n\<rparr>#} else {#} | None \<Rightarrow> {#}"
    from c x(2) r True obtain st1 where
      pair: "(case prev of Some p \<Rightarrow> if \<not> label ! nat ip then record_pair f p ip n st else ok st | None \<Rightarrow> ok st) = ok st1"
      and rest: "collect_loop f reachable jump label n (if jump ! nat ip then None else Some ip) (record_single f ip n st1) = ok st'"
      by (auto simp: andthen_eq_ok)
    have "stats_ok f st1 (M + ?pair)"
      using pair Cons.prems(3,4) n record_pair_ok [OF Cons.prems(3)] by (auto split: option.splits if_splits)
    from record_single_ok [OF this r]
    have s1: "stats_ok f (record_single f ip n st1) (M + ?pair + {#key f \<lparr>i_begin = ip, i_end = n\<rparr>#})" by simp
    have "\<And>p. (if jump ! nat ip then None else Some ip) = Some p \<Longrightarrow> p < n" using n by (auto split: if_splits)
    from Cons.IH [OF sw rest s1 this] True show ?thesis by (simp add: x(1) ac_simps)
  qed
qed

section \<open>The groups\<close>

lemma counts_append:
  assumes "counts f gs A" and "counts f hs B" and "set_mset A \<inter> set_mset B = {}"
  shows "counts f (gs @ hs) (A + B)"
proof -
  have "snd g = count (A + B) (key f (fst g))" if "g \<in> set gs \<or> g \<in> set hs" for g
  proof -
    have "g \<in> set gs \<Longrightarrow> key f (fst g) \<in># A" "g \<in> set hs \<Longrightarrow> key f (fst g) \<in># B"
      using assms(1,2) by (auto simp: counts_def)
    then have "g \<in> set gs \<Longrightarrow> count B (key f (fst g)) = 0" "g \<in> set hs \<Longrightarrow> count A (key f (fst g)) = 0"
      using assms(3) by (auto simp: count_eq_zero_iff)
    then show ?thesis using that assms(1,2) by (auto simp: counts_def)
  qed
  then show ?thesis using assms by (auto simp: counts_def)
qed

lemma counts_perm:
  assumes "counts f gs M" and "mset hs = mset gs"
  shows "counts f hs M"
proof -
  have "mset (map (key f \<circ> fst) hs) = mset (map (key f \<circ> fst) gs)" using assms(2) by simp
  then have "distinct (map (key f \<circ> fst) hs)" using assms(1) mset_eq_imp_distinct_iff unfolding counts_def by blast
  moreover have "set hs = set gs" using assms(2) by (rule mset_eq_setD)
  ultimately show ?thesis using assms(1) by (simp add: counts_def)
qed

lemma idiom_groups_count:
  assumes st: "stats_ok f st M" and s1: "sorts (\<lambda>a b. compare_idioms f a b < 0) sort_idioms"
    and s2: "sorts (\<lambda>g h. snd h < snd g) sort_groups"
  shows "counts f (idiom_groups f sort_idioms sort_groups st) M"
    "sorted_wrt (\<lambda>g h. snd h \<le> snd g) (idiom_groups f sort_idioms sort_groups st)"
proof -
  let ?long = "{#b \<in># M. 2 < length (the_bytes b)#}" and ?one = "{#b \<in># M. b \<in> one_byte#}" and ?two = "{#b \<in># M. b \<in> two_bytes#}"
  have "mset (map (key f) (sort_idioms (long_idioms st))) = ?long"
    using sorts_sorted(2) [OF s1] st by (simp add: stats_ok_def)
  then have l: "counts f (foldl (group_step f) [] (sort_idioms (long_idioms st))) ?long"
    using group_counts [OF sorts_sorted(1) [OF s1], of "long_idioms st"] by simp
  have o: "counts f (table_groups (one_byte_idioms st) 256) ?one"
    using st index_bounds by (intro table_groups_counts [OF _ one_index_inj]) (auto simp: stats_ok_def)
  have t: "counts f (table_groups (two_byte_idioms st) 65536) ?two"
    using st index_bounds by (intro table_groups_counts [OF _ two_index_inj]) (auto simp: stats_ok_def)
  have ot: "counts f (table_groups (one_byte_idioms st) 256 @ table_groups (two_byte_idioms st) 65536) (?one + ?two)"
    by (rule counts_append [OF o t]) (auto dest!: short_bytes)
  have lot: "counts f (foldl (group_step f) [] (sort_idioms (long_idioms st)) @
      table_groups (one_byte_idioms st) 256 @ table_groups (two_byte_idioms st) 65536) (?long + (?one + ?two))"
    by (rule counts_append [OF l ot]) (auto dest!: short_bytes)
  have "M = ?long + (?one + ?two)"
  proof (rule multiset_eqI)
    fix b
    show "count M b = count (?long + (?one + ?two)) b"
    proof (cases "b \<in># M")
      case True
      then have "b \<in> one_byte \<or> b \<in> two_bytes \<or> 2 < length (the_bytes b)" using st by (auto simp: stats_ok_def)
      then show ?thesis using short_bytes [of b] by auto
    qed (simp add: not_in_iff)
  qed
  with lot have "counts f (foldl (group_step f) [] (sort_idioms (long_idioms st)) @
      table_groups (one_byte_idioms st) 256 @ table_groups (two_byte_idioms st) 65536) M" by simp
  then show "counts f (idiom_groups f sort_idioms sort_groups st) M"
    unfolding idiom_groups_def by (rule counts_perm) (use s2 in \<open>simp add: sorts_def\<close>)
  show "sorted_wrt (\<lambda>g h. snd h \<le> snd g) (idiom_groups f sort_idioms sort_groups st)"
    using s2 by (simp add: idiom_groups_def sorts_def not_less)
qed

section \<open>Occurrences\<close>

text \<open>How often a byte string is a reachable instruction, and how often it is a pair of adjacent reachable
  instructions of which the first is not a jump and the second is not a label.\<close>

definition occurrences :: "bytefile \<Rightarrow> bool list \<Rightarrow> bool list \<Rightarrow> bool list \<Rightarrow> (int \<times> int) list \<Rightarrow> int list \<Rightarrow> nat" where
  "occurrences f reachable jump label is bs =
     length (filter (\<lambda>(p, n). reachable ! nat p \<and> idiom_chars f \<lparr>i_begin = p, i_end = n\<rparr> = bs) is) +
     length (filter (\<lambda>((p, m), (q, n)). reachable ! nat p \<and> reachable ! nat q \<and> \<not> jump ! nat p \<and> \<not> label ! nat q \<and>
       idiom_chars f \<lparr>i_begin = p, i_end = n\<rparr> = bs) (zip is (tl is)))"

lemma recorded_after:
  "count (recorded f reachable jump label (if reachable ! nat p \<and> \<not> jump ! nat p then Some p else None) is) (Bytes bs) =
     length (filter (\<lambda>(p, n). reachable ! nat p \<and> idiom_chars f \<lparr>i_begin = p, i_end = n\<rparr> = bs) is) +
     length (filter (\<lambda>((p, m), (q, n)). reachable ! nat p \<and> reachable ! nat q \<and> \<not> jump ! nat p \<and> \<not> label ! nat q \<and>
       idiom_chars f \<lparr>i_begin = p, i_end = n\<rparr> = bs) (zip ((p, m) # is) is))"
proof (induction "is" arbitrary: p m)
  case (Cons x "is")
  obtain q n where x: "x = (q, n)" by (cases x)
  show ?case using Cons [of q n] by (cases "reachable ! nat q") (auto simp: x key_def)
qed simp

lemma count_recorded:
  "count (recorded f reachable jump label None is) (Bytes bs) = occurrences f reachable jump label is bs"
proof (cases "is")
  case (Cons x js)
  obtain q n where x: "x = (q, n)" by (cases x)
  show ?thesis using recorded_after [of f reachable jump label q js bs n]
    by (cases "reachable ! nat q") (auto simp: Cons x key_def occurrences_def)
qed (simp add: occurrences_def)

lemma collect_loop_sweep:
  assumes f: "bytefile_ok f" and ip: "ip \<le> get_code_size f"
  shows "\<forall>prev st. collect_loop f reachable jump label ip prev st = ok st' \<longrightarrow> (\<exists>is. sweep f ip = ok is)"
  using assms
proof (induction rule: position_induct)
  case (pos ip)
  show ?case
  proof (intro allI impI)
    fix prev st assume c: "collect_loop f reachable jump label ip prev st = ok st'"
    show "\<exists>is. sweep f ip = ok is"
    proof (cases "ip = get_code_size f")
      case False
      from c False obtain i n where r: "read_inst f ip = ok (i, n)"
        and n: "\<exists>prev st. collect_loop f reachable jump label n prev st = ok st'"
        by (subst (asm) collect_loop.simps) (auto simp: andthen_eq_ok split: if_splits)
      with pos.IH [OF False r] obtain js where "sweep f n = ok js" by blast
      then show ?thesis using False r by (subst sweep.simps) simp
    qed (simp add: sweep.simps)
  qed
qed

end
