(* ===== verification/Occurrences.thy ===== *)
theory Occurrences
  imports Counting
begin

text \<open>
  What the statistics should count, without the code's marks: the instructions of the code section as a
  list that tiles it, control flow as a relation, jumps by their constructors and labels as the targets of
  branches. The marks of tools/bcstats.cpp are proved to agree with them.
\<close>

section \<open>Instructions, flow and branches\<close>

text \<open>A list of instructions with their positions and the positions after them tiles the code from \<open>p\<close> on.\<close>

fun listing :: "bytefile \<Rightarrow> int \<Rightarrow> (int \<times> inst \<times> int) list \<Rightarrow> bool" where
  "listing f p [] = (p = get_code_size f)"
| "listing f p ((q, i, n) # is) = (q = p \<and> p \<noteq> get_code_size f \<and> read_inst f p = ok (i, n) \<and> listing f n is)"

text \<open>Where an instruction may send control, and whether control may go on behind it.\<close>

definition branch_targets :: "inst \<Rightarrow> int set" where
  "branch_targets i = (case i of Jmp t \<Rightarrow> {sint t} | CJmpZ t \<Rightarrow> {sint t} | CJmpNZ t \<Rightarrow> {sint t}
     | Call t n \<Rightarrow> {sint t} | Closure t cs \<Rightarrow> {sint t} | _ \<Rightarrow> {})"

definition falls_through :: "inst \<Rightarrow> bool" where
  "falls_through i = (case i of Jmp t \<Rightarrow> False | End \<Rightarrow> False | Ret \<Rightarrow> False | Fail_at l c \<Rightarrow> False | Stop \<Rightarrow> False
     | No_functor x \<Rightarrow> False | _ \<Rightarrow> True)"

definition goes :: "bytefile \<Rightarrow> int \<Rightarrow> int \<Rightarrow> bool" where
  "goes f p q \<longleftrightarrow> (\<exists>i n. read_inst f p = ok (i, n) \<and> (q \<in> branch_targets i \<or> q = n \<and> falls_through i))"

definition reached :: "bytefile \<Rightarrow> int list \<Rightarrow> int \<Rightarrow> bool" where
  "reached f es p \<longleftrightarrow> (\<exists>e \<in> set es. (goes f)\<^sup>*\<^sup>* e p)"

text \<open>The instructions behind which no pair begins. \<open>STOP\<close> counts only in its first encoding.\<close>

definition is_transfer :: "bytefile \<Rightarrow> int \<Rightarrow> inst \<Rightarrow> bool" where
  "is_transfer f p i = (case i of Jmp t \<Rightarrow> True | CJmpZ t \<Rightarrow> True | CJmpNZ t \<Rightarrow> True | Call t n \<Rightarrow> True
     | CallC n \<Rightarrow> True | Fail_at l c \<Rightarrow> True | Stop \<Rightarrow> byte_at f p = 240 | _ \<Rightarrow> False)"

definition targeted :: "(int \<times> inst \<times> int) list \<Rightarrow> int \<Rightarrow> bool" where
  "targeted is q \<longleftrightarrow> (\<exists>(p, i, n) \<in> set is. q \<in> branch_targets i \<and> q \<noteq> n)"

text \<open>How often a byte string is a reached instruction, and how often it is a pair of adjacent reached
  instructions of which the first does not transfer control and the second is not the target of a branch.\<close>

definition occurs :: "bytefile \<Rightarrow> int list \<Rightarrow> (int \<times> inst \<times> int) list \<Rightarrow> int list \<Rightarrow> nat" where
  "occurs f es is bs =
     length (filter (\<lambda>(p, i, n). reached f es p \<and> idiom_chars f \<lparr>i_begin = p, i_end = n\<rparr> = bs) is) +
     length (filter (\<lambda>((p, i, m), (q, j, n)). reached f es p \<and> reached f es q \<and> \<not> is_transfer f p i \<and> \<not> targeted is q \<and>
       idiom_chars f \<lparr>i_begin = p, i_end = n\<rparr> = bs) (zip is (tl is)))"

lemma successors_split: "set (successors i n) = branch_targets i \<union> (if falls_through i then {n} else {})"
  by (cases i) (auto simp: branch_targets_def falls_through_def)

lemma goes_iff: "read_inst f p = ok (i, n) \<Longrightarrow> goes f p q \<longleftrightarrow> q \<in> set (successors i n)"
  by (auto simp: goes_def successors_split)

lemma listing_inside:
  assumes "bytefile_ok f"
  shows "listing f p is \<Longrightarrow> 0 \<le> p \<Longrightarrow> (q, i, n) \<in> set is \<Longrightarrow> p \<le> q \<and> q < get_code_size f \<and> read_inst f q = ok (i, n)"
proof (induction "is" arbitrary: p)
  case (Cons x xs)
  obtain j m where x: "x = (p, j, m)" "read_inst f p = ok (j, m)" "listing f m xs" using Cons.prems(1) by (cases x) auto
  note r = read_inst_inside [OF assms x(2)]
  show ?case
  proof (cases "(q, i, n) = x")
    case True
    then show ?thesis using x r by auto
  next
    case False
    then show ?thesis using Cons.IH [OF x(3)] Cons.prems(2,3) r by auto
  qed
qed simp

lemma sweep_listing: "sweep f p = ok ps \<Longrightarrow> \<exists>is. listing f p is \<and> ps = map (\<lambda>(q, i, n). (q, n)) is"
proof (induction ps arbitrary: p)
  case Nil
  then have "p = get_code_size f" by (subst (asm) sweep.simps) (auto simp: andthen_eq_ok split: if_splits)
  then show ?case by (intro exI [of _ "[]"]) simp
next
  case (Cons x ps)
  then obtain i n where x: "x = (p, n)" "p \<noteq> get_code_size f" "read_inst f p = ok (i, n)" "sweep f n = ok ps"
    by (subst (asm) sweep.simps) (auto simp: andthen_eq_ok split: if_splits)
  from Cons.IH [OF x(4)] obtain js where "listing f n js" "ps = map (\<lambda>(q, i, n). (q, n)) js" by blast
  with x show ?case by (intro exI [of _ "(p, i, n) # js"]) simp
qed

lemma listing_unique: "listing f p is \<Longrightarrow> listing f p js \<Longrightarrow> is = js"
proof (induction "is" arbitrary: p js)
  case Nil
  then show ?case by (cases js) auto
next
  case (Cons x xs)
  then show ?case by (cases x; cases js) auto
qed

section \<open>The marks of reachable code\<close>

definition closed_at :: "bytefile \<Rightarrow> bool list \<Rightarrow> int \<Rightarrow> bool" where
  "closed_at f vis p \<longleftrightarrow> (\<forall>q. goes f p q \<longrightarrow> q \<in> vset vis)"

lemma mark_loop_stats_marks:
  assumes "mark_loop_stats f (q, vis) = ok vis'" "set q \<subseteq> vset vis" "\<forall>p \<in> vset vis. p \<in> set q \<or> closed_at f vis p"
  shows "length vis' = length vis \<and> vset vis \<subseteq> vset vis' \<and> (\<forall>p \<in> vset vis'. closed_at f vis' p)
    \<and> (\<forall>p \<in> vset vis'. \<exists>e \<in> vset vis. (goes f)\<^sup>*\<^sup>* e p)"
  using assms
proof (induction "length q + 2 * unvisited vis" arbitrary: q vis rule: less_induct)
  case less
  show ?case
  proof (cases q)
    case Nil
    then have "vis' = vis" using less.prems(1) by (simp add: mark_loop_stats.simps)
    then show ?thesis using less.prems(3) Nil by auto
  next
    case (Cons ip q1)
    from less.prems(1) obtain i n q2 vis2 where r: "read_inst f ip = ok (i, n)"
      and v: "visit (successors i n) (q1, vis) = ok (q2, vis2)" and l: "mark_loop_stats f (q2, vis2) = ok vis'"
      unfolding Cons by (subst (asm) mark_loop_stats.simps) (auto simp: andthen_eq_ok)
    have vs: "length vis2 = length vis" "vset vis2 = vset vis \<union> set (successors i n)" "set q1 \<subseteq> set q2"
      "vset vis2 \<subseteq> vset vis \<union> set q2" "set q2 \<subseteq> set q1 \<union> vset vis2"
      using visit_ok [OF v] by blast+
    have lt: "length q2 + 2 * unvisited vis2 < length q + 2 * unvisited vis" using visit_measure [OF v] Cons by simp
    have q: "set q2 \<subseteq> vset vis2" using less.prems(2) Cons vs by auto
    have "closed_at f vis2 ip" using vs(2) by (simp add: closed_at_def goes_iff [OF r])
    then have c: "\<forall>p \<in> vset vis2. p \<in> set q2 \<or> closed_at f vis2 p"
      using less.prems(3) Cons vs by (auto simp: closed_at_def)
    from less.hyps [OF lt l q c]
    have ih: "length vis' = length vis2" "vset vis2 \<subseteq> vset vis'" "\<forall>p \<in> vset vis'. closed_at f vis' p"
      "\<forall>p \<in> vset vis'. \<exists>e \<in> vset vis2. (goes f)\<^sup>*\<^sup>* e p" by blast+
    have ip: "ip \<in> vset vis" using less.prems(2) Cons by simp
    have "\<exists>e \<in> vset vis. (goes f)\<^sup>*\<^sup>* e p" if p: "p \<in> vset vis'" for p
    proof -
      from ih(4) p obtain e where e: "e \<in> vset vis2" "(goes f)\<^sup>*\<^sup>* e p" by blast
      show ?thesis
      proof (cases "e \<in> vset vis")
        case False
        then have "goes f ip e" using e(1) vs(2) goes_iff [OF r] by auto
        then show ?thesis using ip e(2) by (meson converse_rtranclp_into_rtranclp)
      qed (use e(2) in blast)
    qed
    then show ?thesis using ih vs(1,2) by auto
  qed
qed

lemma marks_reached:
  assumes "mark_reachable_instructions f es = ok vis"
  shows "length vis = nat (get_code_size f)" "vset vis = {p. reached f es p}"
proof -
  let ?z = "replicate (nat (get_code_size f)) False"
  obtain vis0 where 0: "init_visited es ?z = ok vis0" "mark_loop_stats f (es, vis0) = ok vis"
    using assms by (auto simp: mark_reachable_instructions_def andthen_eq_ok)
  have "length vis0 = length ?z" using 0(1) by (rule init_visited_length)
  moreover have "vset ?z = {}" by (auto simp: vset_def)
  then have v0: "vset vis0 = set es" using init_visited_vset [OF 0(1)] by simp
  moreover note mark_loop_stats_marks [OF 0(2)]
  ultimately have m: "length vis = length ?z" "set es \<subseteq> vset vis" "\<forall>p \<in> vset vis. closed_at f vis p"
    "\<forall>p \<in> vset vis. \<exists>e \<in> set es. (goes f)\<^sup>*\<^sup>* e p" by auto
  show "length vis = nat (get_code_size f)" using m(1) by simp
  have "p \<in> vset vis" if "e \<in> set es" "(goes f)\<^sup>*\<^sup>* e p" for e p
    using that(2)
  proof (induction rule: rtranclp_induct)
    case base
    then show ?case using that(1) m(2) by blast
  next
    case (step a b)
    then show ?case using m(3) by (auto simp: closed_at_def)
  qed
  with m(4) show "vset vis = {p. reached f es p}" by (auto simp: reached_def)
qed

section \<open>The marks of jumps and labels\<close>

lemma is_jump_iff:
  assumes "bytefile_ok f" "read_inst f p = ok (i, n)"
  shows "is_jump (byte_at f p) \<longleftrightarrow> is_transfer f p i"
proof -
  have r: "read_operands f (byte_at f p) (p + 1) = ok (i, n)"
    using assms by (auto simp: read_inst_def andthen_eq_ok read_byte_iff split: if_splits)
  have u: "byte_at f p = x \<longleftrightarrow> unat (byte_at f p) = unat x" for x by (rule word_unat_eq_iff)
  show ?thesis
    using r by (auto simp: read_operands_def read_composed_def Let_def read1_def read2_def read_string_int_def andthen_eq_ok
        is_jump_def is_transfer_def u split: if_splits option.splits)
qed

lemma vset_update: "0 \<le> p \<Longrightarrow> p < int (length vis) \<Longrightarrow> vset (vis[nat p := True]) = insert p (vset vis)"
  by (auto simp: vset_def nth_list_update)

lemma mark_labels_marks:
  assumes "mark_labels next ss label = ok label'"
  shows "length label' = length label \<and> vset label' = vset label \<union> {s \<in> set ss. s \<noteq> next}"
  using assms
proof (induction "next" ss label rule: mark_labels.induct)
  case (2 "next" s ss label)
  show ?case
  proof (cases "next = s")
    case False
    then have s: "0 \<le> s" "s < int (length label)" "mark_labels next ss (label[nat s := True]) = ok label'"
      using 2(3) by (auto split: if_splits)
    from 2(2) [OF False _ s(3)] s(1,2) False show ?thesis by (auto simp: vset_update)
  qed (use 2 in auto)
qed simp

lemma mark_jumps_marks:
  assumes f: "bytefile_ok f"
  shows "listing f p is \<Longrightarrow> 0 \<le> p \<Longrightarrow> mark_jumps_loop f p (J, L) = ok (J', L') \<Longrightarrow> length J = nat (get_code_size f) \<Longrightarrow>
    length J' = length J \<and> length L' = length L \<and>
    vset J' = vset J \<union> {q. \<exists>i n. (q, i, n) \<in> set is \<and> is_transfer f q i} \<and> vset L' = vset L \<union> {q. targeted is q}"
proof (induction "is" arbitrary: p J L)
  case Nil
  then show ?case by (simp add: mark_jumps_loop.simps targeted_def)
next
  case (Cons x xs)
  obtain i n where x: "x = (p, i, n)" "p \<noteq> get_code_size f" "read_inst f p = ok (i, n)" "listing f n xs"
    using Cons.prems(1) by (cases x) auto
  note r = read_inst_inside [OF f x(3)]
  let ?J = "if is_jump (byte_at f p) then J[nat p := True] else J"
  from Cons.prems(3) [unfolded mark_jumps_loop.simps [of f p "(J, L)"] fst_conv snd_conv] x(2,3) obtain L1 where l: "mark_labels n (successors i n) L = ok L1"
    and m: "mark_jumps_loop f n (?J, L1) = ok (J', L')"
    by (auto simp: andthen_eq_ok Let_def)
  have "0 \<le> n" "length ?J = nat (get_code_size f)" using r Cons.prems(2,4) by auto
  from Cons.IH [OF x(4) this(1) m this(2)]
  have ih: "length J' = length ?J" "length L' = length L1"
    "vset J' = vset ?J \<union> {q. \<exists>i n. (q, i, n) \<in> set xs \<and> is_transfer f q i}" "vset L' = vset L1 \<union> {q. targeted xs q}" by blast+
  have "p < int (length J)" using r Cons.prems(4) by linarith
  then have "vset ?J = vset J \<union> {q. q = p \<and> is_transfer f p i}"
    using Cons.prems(2) by (auto simp: vset_update is_jump_iff [OF f x(3)])
  moreover have "vset L1 = vset L \<union> {q. q \<in> branch_targets i \<and> q \<noteq> n}" "length L1 = length L"
    using mark_labels_marks [OF l] by (auto simp: successors_split split: if_splits)
  ultimately show ?case using ih by (auto simp: x(1) targeted_def)
qed

section \<open>The counts\<close>

lemma occurrences_occurs:
  assumes f: "bytefile_ok f" and l: "listing f 0 is" and R: "mark_reachable_instructions f es = ok R"
    and J: "mark_jumps f = ok (J, L)"
  shows "occurrences f R J L (map (\<lambda>(p, i, n). (p, n)) is) bs = occurs f es is bs"
proof -
  let ?z = "replicate (nat (get_code_size f)) False"
  have z: "vset ?z = {}" by (auto simp: vset_def)
  have "mark_jumps_loop f 0 (?z, ?z) = ok (J, L)" using J by (simp add: mark_jumps_def Let_def)
  from mark_jumps_marks [OF f l _ this]
  have m: "length J = length ?z" "length L = length ?z" "vset J = {q. \<exists>i n. (q, i, n) \<in> set is \<and> is_transfer f q i}"
    "vset L = {q. targeted is q}" by (simp_all add: z)
  have e: "R ! nat p \<longleftrightarrow> reached f es p" "J ! nat p \<longleftrightarrow> is_transfer f p i" "L ! nat p \<longleftrightarrow> targeted is p"
    if x: "(p, i, n) \<in> set is" for p i n
  proof -
    note b = listing_inside [OF f l order_refl x]
    then have v: "R ! nat p \<longleftrightarrow> p \<in> vset R" "J ! nat p \<longleftrightarrow> p \<in> vset J" "L ! nat p \<longleftrightarrow> p \<in> vset L"
      using m(1,2) marks_reached(1) [OF R] by (simp_all add: vset_def zless_nat_eq_int_zless [symmetric] nat_less_iff)
    have "i' = i" if "(p, i', n') \<in> set is" for i' n'
      using listing_inside [OF f l order_refl that] b by simp
    then have "p \<in> vset J \<longleftrightarrow> is_transfer f p i" unfolding m(3) using x by blast
    then show "R ! nat p \<longleftrightarrow> reached f es p" "J ! nat p \<longleftrightarrow> is_transfer f p i" "L ! nat p \<longleftrightarrow> targeted is p"
      unfolding v by (simp_all add: m(4) marks_reached(2) [OF R])
  qed
  let ?g = "\<lambda>(p, i, n). (p, n)"
  have "length (filter (\<lambda>(p, n). R ! nat p \<and> idiom_chars f \<lparr>i_begin = p, i_end = n\<rparr> = bs) (map ?g is)) =
      length (filter (\<lambda>(p, i, n). reached f es p \<and> idiom_chars f \<lparr>i_begin = p, i_end = n\<rparr> = bs) is)"
    unfolding filter_map length_map by (rule arg_cong [of _ _ length], rule filter_cong) (auto simp: e)
  moreover have z2: "zip (map ?g is) (tl (map ?g is)) = map (map_prod ?g ?g) (zip is (tl is))"
    by (simp add: map_tl [symmetric] zip_map_map map_prod_def)
  let ?P = "\<lambda>((p, m), (q, n)). R ! nat p \<and> R ! nat q \<and> \<not> J ! nat p \<and> \<not> L ! nat q \<and>
      idiom_chars f \<lparr>i_begin = p, i_end = n\<rparr> = bs"
  let ?Q = "\<lambda>((p, i, m), (q, j, n)). reached f es p \<and> reached f es q \<and> \<not> is_transfer f p i \<and> \<not> targeted is q \<and>
      idiom_chars f \<lparr>i_begin = p, i_end = n\<rparr> = bs"
  have "?P (map_prod ?g ?g x) = ?Q x" if x: "x \<in> set (zip is (tl is))" for x
  proof -
    obtain p i m q j n where s: "x = ((p, i, m), (q, j, n))" by (metis prod_cases3 surj_pair)
    moreover have "y \<in> set (tl is) \<Longrightarrow> y \<in> set is" for y by (cases "is") auto
    ultimately have "(p, i, m) \<in> set is" "(q, j, n) \<in> set is"
      using x by (auto dest: set_zip_leftD set_zip_rightD)
    from e [OF this(1)] e [OF this(2)] show ?thesis by (simp add: s)
  qed
  then have "filter (?P \<circ> map_prod ?g ?g) (zip is (tl is)) = filter ?Q (zip is (tl is))"
    by (intro filter_cong refl) simp
  then have "length (filter ?P (zip (map ?g is) (tl (map ?g is)))) = length (filter ?Q (zip is (tl is)))"
    by (simp only: z2 filter_map length_map)
  ultimately show ?thesis by (simp add: occurrences_def occurs_def)
qed

text \<open>The counts of the groups, as numbers of byte strings.\<close>

lemma counts_chars:
  assumes "counts f groups M" and o: "\<And>bs. count M (Bytes bs) = h bs"
  shows "distinct (map (idiom_chars f \<circ> fst) groups) \<and>
    (\<forall>bs. bs \<in> set (map (idiom_chars f \<circ> fst) groups) \<longleftrightarrow> 0 < h bs) \<and>
    (\<forall>g \<in> set groups. snd g = h (idiom_chars f (fst g)))"
proof (intro conjI allI)
  have k: "key f \<circ> fst = Bytes \<circ> (idiom_chars f \<circ> fst)" by (auto simp: key_def)
  show "distinct (map (idiom_chars f \<circ> fst) groups)"
    using assms(1) unfolding counts_def k by (auto simp: distinct_map dest: inj_on_imageI2)
  show "\<forall>g \<in> set groups. snd g = h (idiom_chars f (fst g))"
    using assms(1) by (simp add: counts_def o [symmetric] key_def)
  fix bs
  have "bs \<in> set (map (idiom_chars f \<circ> fst) groups) \<longleftrightarrow> Bytes bs \<in> set (map (key f \<circ> fst) groups)"
    by (auto simp: key_def image_iff)
  also have "\<dots> \<longleftrightarrow> Bytes bs \<in># M" using assms(1) by (simp add: counts_def)
  finally show "bs \<in> set (map (idiom_chars f \<circ> fst) groups) \<longleftrightarrow> 0 < h bs" by (simp add: o [symmetric])
qed

end
