(* ===== verification/Dump.thy ===== *)
theory Dump
  imports Statistics Formats
begin

text \<open>
  tools/functors/print_inst.h, the text of an instruction; tools/bcdump.cpp, which prints every instruction of
  the code section; and the report of tools/bcstats.cpp. The text is a list of bytes. A string operand
  is printed up to its terminating zero; where the file has none the code reads behind it, which is the
  error \<open>OutOfBounds\<close>.
\<close>

section \<open>Names\<close>

fun binop_to_string :: "binop \<Rightarrow> string" where
  "binop_to_string Binop_Add = ''BINOP +''"
| "binop_to_string Binop_Sub = ''BINOP -''"
| "binop_to_string Binop_Mul = ''BINOP *''"
| "binop_to_string Binop_Div = ''BINOP /''"
| "binop_to_string Binop_Rem = ''BINOP %''"
| "binop_to_string Binop_LessThan = ''BINOP <''"
| "binop_to_string Binop_LessEqual = ''BINOP <=''"
| "binop_to_string Binop_GreaterThan = ''BINOP >''"
| "binop_to_string Binop_GreaterEqual = ''BINOP >=''"
| "binop_to_string Binop_Equal = ''BINOP ==''"
| "binop_to_string Binop_NotEqual = ''BINOP !=''"
| "binop_to_string Binop_And = ''BINOP &&''"
| "binop_to_string Binop_Or = ''BINOP ||''"

fun patt_string :: "patt \<Rightarrow> string" where
  "patt_string Pattern_String = ''=str''"
| "patt_string Pattern_StringTag = ''#string''"
| "patt_string Pattern_ArrayTag = ''#array''"
| "patt_string Pattern_SExpTag = ''#sexp''"
| "patt_string Pattern_Boxed = ''#ref''"
| "patt_string Pattern_Unboxed = ''#val''"
| "patt_string Pattern_ClosureTag = ''#fun''"

fun lcall_string :: "lcall \<Rightarrow> string" where
  "lcall_string LCall_Lread = ''Lread''"
| "lcall_string LCall_Lwrite = ''Lwrite''"
| "lcall_string LCall_Llength = ''Llength''"
| "lcall_string LCall_Lstring = ''Lstring''"

fun location_string :: "location \<Rightarrow> string" where
  "location_string Location_Global = ''G''"
| "location_string Location_Local = ''L''"
| "location_string Location_Arg = ''A''"
| "location_string Location_Captured = ''C''"

fun opcode_to_string :: "inst \<Rightarrow> string" where
  "opcode_to_string (Binop_inst b) = binop_to_string b"
| "opcode_to_string (Ld k i) = ''LD''"
| "opcode_to_string (LdA k i) = ''LDA''"
| "opcode_to_string (St k i) = ''ST''"
| "opcode_to_string Stop = ''STOP''"
| "opcode_to_string (Patt p) = ''PATT '' @ patt_string p"
| "opcode_to_string (LCall_inst l) = ''LCALL '' @ lcall_string l"
| "opcode_to_string (LCall_Barray n) = ''LCALL Barray''"
| "opcode_to_string (Const v) = ''CONST''"
| "opcode_to_string (String s) = ''STRING''"
| "opcode_to_string (SExp s n) = ''SEXP''"
| "opcode_to_string StI = ''STI''"
| "opcode_to_string StA = ''STA''"
| "opcode_to_string (Jmp t) = ''JMP''"
| "opcode_to_string End = ''END''"
| "opcode_to_string Ret = ''RET''"
| "opcode_to_string Drop = ''DROP''"
| "opcode_to_string Dup = ''DUP''"
| "opcode_to_string Swap = ''SWAP''"
| "opcode_to_string Elem = ''ELEM''"
| "opcode_to_string (CJmpZ t) = ''CJMPz''"
| "opcode_to_string (CJmpNZ t) = ''CJMPnz''"
| "opcode_to_string (Begin a l) = ''BEGIN''"
| "opcode_to_string (CBegin a l) = ''CBEGIN''"
| "opcode_to_string (Closure e c) = ''CLOSURE''"
| "opcode_to_string (CallC n) = ''CALLC''"
| "opcode_to_string (Call t n) = ''CALL''"
| "opcode_to_string (Tag s n) = ''TAG''"
| "opcode_to_string (Array n) = ''ARRAY''"
| "opcode_to_string (Fail_at l c) = ''FAIL''"
| "opcode_to_string (Line l) = ''LINE''"
| "opcode_to_string (No_functor x) = ''''"

section \<open>Operands\<close>

fun c_chars :: "u8 list \<Rightarrow> u8 list outcome" where
  "c_chars [] = err OutOfBounds"
| "c_chars (b # bs) = (if b = 0 then ok [] else andthen (c_chars bs) (\<lambda>r. ok (b # r)))"

definition table_string :: "bytefile \<Rightarrow> nat \<Rightarrow> u8 list outcome" where
  "table_string f str = c_chars (drop (string_off f + str) (buffer f))"

definition code_string :: "bytefile \<Rightarrow> int \<Rightarrow> u8 list outcome" where
  "code_string f ip = c_chars (drop (nat (int (code_off f) + ip)) (buffer f))"

definition TAB :: u8 where "TAB = 9"
definition SPACE :: u8 where "SPACE = 32"

definition hex :: "u32 \<Rightarrow> u8 list" where
  "hex w = show_nat 16 (unat w)"

definition decimal :: "u32 \<Rightarrow> u8 list" where
  "decimal w = show_int (sint w)"

definition name_of :: "inst \<Rightarrow> u8 list" where
  "name_of i = bytes_of (opcode_to_string i)"

text \<open>The primary template: the name, and every argument with a space behind it.\<close>

definition default_text :: "inst \<Rightarrow> u8 list list \<Rightarrow> u8 list" where
  "default_text i args = name_of i @ [TAB] @ concat (map (\<lambda>a. a @ [SPACE]) args)"

definition location_text :: "inst \<Rightarrow> location \<Rightarrow> u32 \<Rightarrow> u8 list" where
  "location_text i k index = name_of i @ [TAB] @ bytes_of (location_string k @ ''('') @ decimal index @ bytes_of '')''"

definition offset_text :: "inst \<Rightarrow> u32 \<Rightarrow> u8 list" where
  "offset_text i offset = name_of i @ [TAB] @ bytes_of ''0x'' @ hex offset"

text \<open>The kind of a captured variable indexes an array of four strings.\<close>

fun captured_text :: "location_entry list \<Rightarrow> u8 list outcome" where
  "captured_text [] = ok []"
| "captured_text (e # es) = (case (if 0 \<le> loc_kind e then location_of (nat (loc_kind e)) else None) of
     None \<Rightarrow> err OutOfBounds
   | Some k \<Rightarrow> andthen (captured_text es) (\<lambda>r.
       ok (bytes_of (location_string k @ ''('') @ decimal (loc_index e) @ bytes_of '')'' @ [TAB] @ r)))"

text \<open>
  \<open>next\<close> is the position after the instruction. The functor for \<open>CALLC\<close> is written for the arguments of
  \<open>CALL\<close>, so that \<open>CALLC\<close> uses the primary template, which prints the code behind the instruction as a
  string.
\<close>

fun print_inst :: "bytefile \<Rightarrow> inst \<Rightarrow> int \<Rightarrow> u8 list outcome" where
  "print_inst f (Const v) next = ok (default_text (Const v) [decimal v])"
| "print_inst f (String s) next = andthen (table_string f s) (\<lambda>str. ok (default_text (String s) [str]))"
| "print_inst f (SExp s n) next = andthen (table_string f s) (\<lambda>str. ok (default_text (SExp s n) [str, decimal n]))"
| "print_inst f (Tag s n) next = andthen (table_string f s) (\<lambda>str. ok (default_text (Tag s n) [str, decimal n]))"
| "print_inst f (Jmp t) next = ok (offset_text (Jmp t) t)"
| "print_inst f (CJmpZ t) next = ok (offset_text (CJmpZ t) t)"
| "print_inst f (CJmpNZ t) next = ok (offset_text (CJmpNZ t) t)"
| "print_inst f (Begin a l) next = ok (default_text (Begin a l) [decimal a, decimal l])"
| "print_inst f (CBegin a l) next = ok (default_text (CBegin a l) [decimal a, decimal l])"
| "print_inst f (Closure e cs) next = andthen (captured_text cs) (\<lambda>text.
     ok (name_of (Closure e cs) @ [SPACE] @ hex e @ [SPACE] @ text))"
| "print_inst f (CallC n) next = andthen (code_string f next) (\<lambda>str. ok (default_text (CallC n) [str, decimal n]))"
| "print_inst f (Call t n) next = ok (offset_text (Call t n) t @ [SPACE] @ decimal n)"
| "print_inst f (Array n) next = ok (default_text (Array n) [decimal n])"
| "print_inst f (Fail_at l c) next = ok (default_text (Fail_at l c) [decimal l, decimal c])"
| "print_inst f (Line l) next = ok (default_text (Line l) [decimal l])"
| "print_inst f (Ld k i) next = ok (location_text (Ld k i) k i)"
| "print_inst f (LdA k i) next = ok (location_text (LdA k i) k i)"
| "print_inst f (St k i) next = ok (location_text (St k i) k i)"
| "print_inst f (Patt p) next = ok (name_of (Patt p) @ [TAB] @ bytes_of (patt_string p))"
| "print_inst f (LCall_inst l) next = ok (name_of (LCall_inst l))"
| "print_inst f (LCall_Barray n) next = ok (default_text (LCall_Barray n) [decimal n])"
| "print_inst f (No_functor x) next = ok []"
| "print_inst f i next = ok (default_text i [])"

section \<open>bcdump and the report of bcstats\<close>

definition address_text :: "int \<Rightarrow> u8 list" where
  "address_text ip = (let digits = show_nat 16 (nat ip) in
     bytes_of ''0x'' @ replicate (8 - length digits) SPACE @ digits @ [TAB])"

text \<open>The lines that the dump prints.\<close>

partial_function (option) bcdump_loop :: "bytefile \<Rightarrow> int \<Rightarrow> u8 list list outcome" where
  "bcdump_loop f ip =
     (if ip < get_code_size f
      then andthen (read_inst f ip) (\<lambda>(i, next).
        andthen (print_inst f i next) (\<lambda>text.
        andthen (bcdump_loop f next) (\<lambda>lines. ok ((address_text ip @ text) # lines))))
      else ok [])"

definition bcdump :: "bytefile \<Rightarrow> u8 list list outcome" where
  "bcdump f = bcdump_loop f 0"

partial_function (option) print_idiom :: "bytefile \<Rightarrow> int \<Rightarrow> int \<Rightarrow> u8 list list outcome" where
  "print_idiom f ip e =
     (if ip = e then ok []
      else andthen (read_inst f ip) (\<lambda>(i, next).
        andthen (print_inst f i next) (\<lambda>text.
        andthen (print_idiom f next e) (\<lambda>lines. ok (text # lines)))))"

text \<open>The header and the lines of every group, numbered from 1.\<close>

fun print_groups :: "bytefile \<Rightarrow> nat \<Rightarrow> group list \<Rightarrow> (nat \<times> nat \<times> u8 list list) list outcome" where
  "print_groups f index [] = ok []"
| "print_groups f index ((i, n) # gs) =
     andthen (print_idiom f (i_begin i) (i_end i)) (\<lambda>lines.
     andthen (print_groups f (index + 1) gs) (\<lambda>r. ok ((index + 1, n, lines) # r)))"

section \<open>The dump returns\<close>

lemma andthen_ok_defined [simp]: "(\<exists>y. andthen r (\<lambda>x. ok (g x)) = Some y) \<longleftrightarrow> (\<exists>y. r = Some y)"
  by (cases r) (auto simp: andthen_def split: sum.splits)

lemma c_chars_defined: "\<exists>y. c_chars bs = Some y"
  by (induction bs) auto

lemma captured_text_defined: "\<exists>y. captured_text es = Some y"
  by (induction es) (auto split: option.splits)

lemma print_inst_defined: "print_inst f i n \<noteq> None"
  by (cases i) (auto simp: c_chars_defined captured_text_defined table_string_def code_string_def)

lemma bcdump_loop_defined:
  assumes f: "bytefile_ok f" and ip: "ip \<le> get_code_size f"
  shows "bcdump_loop f ip \<noteq> None"
  using assms
proof (induction rule: position_induct)
  case (pos ip)
  show ?case
  proof (cases "ip = get_code_size f")
    case False
    then have lt: "ip < get_code_size f" using pos.hyps by simp
    have "andthen (read_inst f ip) (\<lambda>(i, next). andthen (print_inst f i next) (\<lambda>text.
        andthen (bcdump_loop f next) (\<lambda>lines. ok ((address_text ip @ text) # lines)))) \<noteq> None"
      using pos.IH [OF False] by (intro position_step f andthen_defined print_inst_defined) simp_all
    then show ?thesis using lt by (subst bcdump_loop.simps) (simp only: if_True not_False_eq_True)
  qed (simp add: bcdump_loop.simps)
qed

end
