(* ===== verification/Disassembly.thy ===== *)
theory Disassembly
  imports Dump
begin

text \<open>
  What tools/bcdump.cpp should print for an assembled program: a table of the text of every instruction,
  which does not follow the functors of tools/functors/print_inst.h, and the column of the addresses digit
  by digit. The dump of the bytes of a program is proved to be this listing.
\<close>

section \<open>The listing of a program\<close>

text \<open>The column of the address: eight places, hexadecimal, with spaces in front.\<close>

definition address_column :: "nat \<Rightarrow> u8 list" where
  "address_column p = bytes_of ''0x'' @
     map (\<lambda>k. if 0 < k \<and> p < 16 ^ k then 32 else digit (p div 16 ^ k mod 16)) (rev [0..<8]) @ [9]"

fun binop_symbol :: "binop \<Rightarrow> string" where
  "binop_symbol Binop_Add = ''+''" | "binop_symbol Binop_Sub = ''-''" | "binop_symbol Binop_Mul = ''*''"
| "binop_symbol Binop_Div = ''/''" | "binop_symbol Binop_Rem = ''%''" | "binop_symbol Binop_LessThan = ''<''"
| "binop_symbol Binop_LessEqual = ''<=''" | "binop_symbol Binop_GreaterThan = ''>''"
| "binop_symbol Binop_GreaterEqual = ''>=''" | "binop_symbol Binop_Equal = ''==''"
| "binop_symbol Binop_NotEqual = ''!=''" | "binop_symbol Binop_And = ''&&''" | "binop_symbol Binop_Or = ''||''"

fun variable_text :: "location \<Rightarrow> u32 \<Rightarrow> u8 list" where
  "variable_text Location_Global n = bytes_of ''G('' @ decimal n @ bytes_of '')''"
| "variable_text Location_Local n = bytes_of ''L('' @ decimal n @ bytes_of '')''"
| "variable_text Location_Arg n = bytes_of ''A('' @ decimal n @ bytes_of '')''"
| "variable_text Location_Captured n = bytes_of ''C('' @ decimal n @ bytes_of '')''"

text \<open>A word, a tab and the operands, each with what the tools write behind it.\<close>

definition row :: "string \<Rightarrow> u8 list \<Rightarrow> u8 list" where
  "row w rest = bytes_of w @ 9 # rest"

definition num :: "u32 \<Rightarrow> u8 list" where
  "num n = decimal n @ [32]"

definition offset :: "u32 \<Rightarrow> u8 list" where
  "offset t = bytes_of ''0x'' @ hex t"

fun asm_text :: "(nat \<Rightarrow> u8 list) \<Rightarrow> inst \<Rightarrow> u8 list" where
  "asm_text S (Const v) = row ''CONST'' (num v)"
| "asm_text S (String s) = row ''STRING'' (S s @ [32])"
| "asm_text S (SExp s n) = row ''SEXP'' (S s @ [32] @ num n)"
| "asm_text S (Tag s n) = row ''TAG'' (S s @ [32] @ num n)"
| "asm_text S StI = row ''STI'' []"
| "asm_text S StA = row ''STA'' []"
| "asm_text S (Jmp t) = row ''JMP'' (offset t)"
| "asm_text S (CJmpZ t) = row ''CJMPz'' (offset t)"
| "asm_text S (CJmpNZ t) = row ''CJMPnz'' (offset t)"
| "asm_text S End = row ''END'' []"
| "asm_text S Ret = row ''RET'' []"
| "asm_text S Drop = row ''DROP'' []"
| "asm_text S Dup = row ''DUP'' []"
| "asm_text S Swap = row ''SWAP'' []"
| "asm_text S Elem = row ''ELEM'' []"
| "asm_text S (Begin a l) = row ''BEGIN'' (num a @ num l)"
| "asm_text S (CBegin a l) = row ''CBEGIN'' (num a @ num l)"
| "asm_text S (Closure t cs) = bytes_of ''CLOSURE '' @ hex t @ [32] @
     concat (map (\<lambda>c. variable_text (the (location_of (nat (loc_kind c)))) (loc_index c) @ [9]) cs)"
| "asm_text S (Call t n) = row ''CALL'' (offset t @ [32] @ decimal n)"
| "asm_text S (CallC n) = row ''CALLC'' (decimal n)"
| "asm_text S (Array n) = row ''ARRAY'' (num n)"
| "asm_text S (Fail_at l c) = row ''FAIL'' (num l @ num c)"
| "asm_text S (Line l) = row ''LINE'' (num l)"
| "asm_text S (Binop_inst b) = row (''BINOP '' @ binop_symbol b) []"
| "asm_text S (Ld k n) = row ''LD'' (variable_text k n)"
| "asm_text S (LdA k n) = row ''LDA'' (variable_text k n)"
| "asm_text S (St k n) = row ''ST'' (variable_text k n)"
| "asm_text S (Patt Pattern_String) = row ''PATT =str'' (bytes_of ''=str'')"
| "asm_text S (Patt Pattern_StringTag) = row ''PATT #string'' (bytes_of ''#string'')"
| "asm_text S (Patt Pattern_ArrayTag) = row ''PATT #array'' (bytes_of ''#array'')"
| "asm_text S (Patt Pattern_SExpTag) = row ''PATT #sexp'' (bytes_of ''#sexp'')"
| "asm_text S (Patt Pattern_Boxed) = row ''PATT #ref'' (bytes_of ''#ref'')"
| "asm_text S (Patt Pattern_Unboxed) = row ''PATT #val'' (bytes_of ''#val'')"
| "asm_text S (Patt Pattern_ClosureTag) = row ''PATT #fun'' (bytes_of ''#fun'')"
| "asm_text S (LCall_inst LCall_Lread) = bytes_of ''LCALL Lread''"
| "asm_text S (LCall_inst LCall_Lwrite) = bytes_of ''LCALL Lwrite''"
| "asm_text S (LCall_inst LCall_Llength) = bytes_of ''LCALL Llength''"
| "asm_text S (LCall_inst LCall_Lstring) = bytes_of ''LCALL Lstring''"
| "asm_text S (LCall_Barray n) = row ''LCALL Barray'' (num n)"
| "asm_text S Stop = row ''STOP'' []"
| "asm_text S (No_functor x) = []"

text \<open>The lines of a program that begins at the position \<open>p\<close>.\<close>

fun program_lines :: "(nat \<Rightarrow> u8 list) \<Rightarrow> nat \<Rightarrow> inst list \<Rightarrow> u8 list list" where
  "program_lines S p [] = []"
| "program_lines S p (i # is) = (address_column p @ asm_text S i) # program_lines S (p + length (encode i)) is"

text \<open>\<open>S\<close> gives the strings of the table. \<open>CALLC\<close> is left out: its text is wrong, since its functor is
  never chosen.\<close>

definition table_holds :: "bytefile \<Rightarrow> nat \<Rightarrow> u8 list \<Rightarrow> bool" where
  "table_holds f s t \<longleftrightarrow> 0 \<notin> set t \<and> take (Suc (length t)) (drop (string_off f + s) (buffer f)) = t @ [0]"

fun listable :: "bytefile \<Rightarrow> (nat \<Rightarrow> u8 list) \<Rightarrow> inst \<Rightarrow> bool" where
  "listable f S (String s) = table_holds f s (S s)"
| "listable f S (SExp s n) = table_holds f s (S s)"
| "listable f S (Tag s n) = table_holds f s (S s)"
| "listable f S (Closure t cs) = (\<forall>c \<in> set cs. 0 \<le> loc_kind c \<and> loc_kind c < 4)"
| "listable f S (CallC n) = False"
| "listable f S i = True"

section \<open>The text of one instruction\<close>

lemma c_chars_terminated: "0 \<notin> set t \<Longrightarrow> take (Suc (length t)) xs = t @ [0] \<Longrightarrow> c_chars xs = ok t"
proof (induction t arbitrary: xs)
  case Nil
  then show ?case by (cases xs) auto
next
  case (Cons b t)
  then show ?case by (cases xs) auto
qed

lemma table_string_holds: "table_holds f s t \<Longrightarrow> table_string f s = ok t"
  by (simp add: table_holds_def table_string_def c_chars_terminated)

lemma variable_text_alt: "variable_text k n = bytes_of (location_string k @ ''('') @ decimal n @ bytes_of '')''"
  by (cases k) (simp_all add: bytes_of_def)

lemma captured_text_holds:
  "\<forall>c \<in> set cs. 0 \<le> loc_kind c \<and> loc_kind c < 4 \<Longrightarrow> captured_text cs =
     ok (concat (map (\<lambda>c. variable_text (the (location_of (nat (loc_kind c)))) (loc_index c) @ [9]) cs))"
proof (induction cs)
  case (Cons c cs)
  then have "loc_kind c = 0 \<or> loc_kind c = 1 \<or> loc_kind c = 2 \<or> loc_kind c = 3" by auto
  then obtain k where "location_of (nat (loc_kind c)) = Some k" by (auto simp: location_of.simps)
  with Cons show ?case by (simp add: variable_text_alt TAB_def)
qed simp

lemma print_inst_asm:
  assumes "listable f S i"
  shows "print_inst f i n = ok (asm_text S i)"
proof (cases i)
  case (Binop_inst b)
  then show ?thesis by (cases b) (simp_all add: row_def default_text_def name_of_def bytes_of_def TAB_def)
next
  case (Patt p)
  then show ?thesis by (cases p) (simp_all add: row_def name_of_def bytes_of_def TAB_def)
next
  case (LCall_inst l)
  then show ?thesis by (cases l) (simp_all add: name_of_def bytes_of_def)
next
  case (Closure t cs)
  then show ?thesis using assms by (simp add: captured_text_holds name_of_def bytes_of_def SPACE_def)
qed (use assms in \<open>simp_all add: row_def num_def offset_def default_text_def location_text_def offset_text_def name_of_def
    table_string_holds variable_text_alt TAB_def SPACE_def bytes_of_def\<close>)

section \<open>The column of the addresses\<close>

lemma right_aligned:
  "n < 16 ^ w \<Longrightarrow> 0 < w \<Longrightarrow> replicate (w - length (show_nat 16 n)) 32 @ show_nat 16 n =
     map (\<lambda>k. if 0 < k \<and> n < 16 ^ k then 32 else digit (n div 16 ^ k mod 16)) (rev [0..<w])"
proof (induction w arbitrary: n)
  case (Suc w)
  have r: "rev [0..<Suc w] = map Suc (rev [0..<w]) @ [0]"
    by (simp add: rev_map [symmetric] map_Suc_upt upt_conv_Cons del: upt_Suc)
  show ?case
  proof (cases "n < 16")
    case True
    have "n < 16 ^ Suc k" for k using True by (rule order.strict_trans2) simp
    then have "map (\<lambda>k. if 0 < k \<and> n < 16 ^ k then 32 else digit (n div 16 ^ k mod 16)) (map Suc (rev [0..<w])) = replicate w 32"
      by (simp add: o_def map_replicate_const)
    then show ?thesis using True unfolding r by (simp add: show_nat.simps [of 16 n])
  next
    case False
    then have w: "0 < w" using Suc.prems(1) by (cases w) auto
    have "n div 16 < 16 ^ w" using Suc.prems(1) by (simp add: less_mult_imp_div_less mult.commute)
    note ih = Suc.IH [OF this w]
    have k: "n < 16 ^ Suc k \<longleftrightarrow> 0 < k \<and> n div 16 < 16 ^ k" for k
      using False by (cases k) (auto simp: div_less_iff_less_mult mult.commute)
    have "n div 16 ^ Suc k = n div 16 div 16 ^ k" for k by (simp add: div_mult2_eq)
    then have "map (\<lambda>k. if 0 < k \<and> n < 16 ^ k then 32 else digit (n div 16 ^ k mod 16)) (map Suc (rev [0..<w])) =
        map (\<lambda>k. if 0 < k \<and> n div 16 < 16 ^ k then 32 else digit (n div 16 div 16 ^ k mod 16)) (rev [0..<w])"
      using k by (simp add: o_def del: power_Suc)
    then show ?thesis using False unfolding r ih [symmetric] map_append by (simp add: show_nat.simps [of 16 n] ih)
  qed
qed simp

lemma address_text_column: "p < 4294967296 \<Longrightarrow> address_text (int p) = address_column p"
  using right_aligned [of p 8] by (simp add: address_text_def address_column_def Let_def SPACE_def TAB_def)

section \<open>The dump of a program\<close>

lemma has_bytes_here:
  "drop (nat (int (code_off f) + ip)) (buffer f) = bs @ rest \<Longrightarrow> 0 \<le> ip \<Longrightarrow> nat (int (code_off f) + ip) \<le> length (buffer f) \<Longrightarrow>
     has_bytes f ip bs"
proof (induction bs arbitrary: ip)
  case Nil
  then show ?case by (simp add: in_code_def)
next
  case (Cons b bs)
  let ?k = "nat (int (code_off f) + ip)"
  have l: "?k < length (buffer f)" using Cons.prems(1) by (metis append_Cons drop_all linorder_not_less list.distinct(1))
  then have d: "drop ?k (buffer f) = buffer f ! ?k # drop (Suc ?k) (buffer f)" by (rule Cons_nth_drop_Suc [symmetric])
  have s: "Suc ?k = nat (int (code_off f) + (ip + 1))" using Cons.prems(2) by simp
  have "buffer f ! ?k = b" "drop (nat (int (code_off f) + (ip + 1))) (buffer f) = bs @ rest"
    using Cons.prems(1) d s by simp_all
  then show ?case using Cons.IH [of "ip + 1"] Cons.prems(2) l s by (simp add: in_code_def byte_at_def)
qed

lemma encode_nonempty: "encode i \<noteq> []"
  by (cases i) (simp_all add: op_def)

lemma dump_program:
  assumes f: "bytefile_ok f"
  shows "drop (code_off f + p) (buffer f) = concat (map encode is) \<Longrightarrow> code_off f + p \<le> length (buffer f) \<Longrightarrow>
    \<forall>i \<in> set is. encodable f i \<and> listable f S i \<Longrightarrow> bcdump_loop f (int p) = ok (program_lines S p is)"
proof (induction "is" arbitrary: p)
  case Nil
  then have "int p = get_code_size f" using get_code_size_ok [OF f] by simp
  then show ?case by (simp add: bcdump_loop.simps)
next
  case (Cons i "is")
  have k: "nat (int (code_off f) + int p) = code_off f + p" by simp
  have "has_bytes f (int p) (encode i)"
    by (rule has_bytes_here [of _ _ _ "concat (map encode is)"]) (use Cons.prems k in simp_all)
  then have r: "read_inst f (int p) = ok (i, int p + int (length (encode i)))"
    using read_inst_encode [OF f] Cons.prems(3) by simp
  have t: "print_inst f i n = ok (asm_text S i)" for n using Cons.prems(3) by (intro print_inst_asm) simp
  have len: "length (buffer f) = code_off f + p + length (encode i) + length (concat (map encode is))"
  proof -
    have "length (drop (code_off f + p) (buffer f)) = length (concat (map encode (i # is)))"
      by (simp only: Cons.prems(1))
    then have "length (buffer f) - (code_off f + p) = length (encode i) + length (concat (map encode is))"
      unfolding length_drop by simp
    then show ?thesis using Cons.prems(2) by linarith
  qed
  have "drop (code_off f + (p + length (encode i))) (buffer f) = drop (length (encode i)) (drop (code_off f + p) (buffer f))"
    by (simp add: add.commute add.left_commute)
  also have "\<dots> = concat (map encode is)" by (simp add: Cons.prems(1))
  finally have tail: "drop (code_off f + (p + length (encode i))) (buffer f) = concat (map encode is)" .
  have "code_off f + (p + length (encode i)) \<le> length (buffer f)" using len by linarith
  moreover have "\<forall>i \<in> set is. encodable f i \<and> listable f S i" using Cons.prems(3) by simp
  ultimately have "bcdump_loop f (int (p + length (encode i))) = ok (program_lines S (p + length (encode i)) is)"
    using tail by (intro Cons.IH)
  then have ih: "bcdump_loop f (int p + int (length (encode i))) = ok (program_lines S (p + length (encode i)) is)" by simp
  have "0 < length (encode i)" using encode_nonempty by simp
  then have "int p < get_code_size f" using get_code_size_ok [OF f] len by linarith
  moreover have "p < 4294967296" using len f by (simp add: bytefile_ok_def)
  ultimately show ?case using r t ih
    by (subst bcdump_loop.simps) (simp add: address_text_column)
qed

end
