(* ===== verification/ReportProperties.thy ===== *)
theory ReportProperties
  imports Occurrences Disassembly ToolProperties
begin

text \<open>
  The properties of the tools that report on a bytecode file: the dump and the statistics. The witnesses
  use a file with one public function: \<open>BEGIN 0 0; CONST 1; DROP; CONST 1; END\<close>.
\<close>

definition report_file :: bytefile where
  "report_file = \<lparr>bf_size = 61, stringtab_size = 0, global_area_size = 0, public_symbols_number = 1,
     buffer = replicate 8 0 @ encode (Begin 0 0) @ encode (Const 1) @ encode Drop @ encode (Const 1) @ encode End\<rparr>"

lemma report_file_simps [simp]:
  "bf_size report_file = 61" "stringtab_size report_file = 0" "public_symbols_number report_file = 1"
  "code_off report_file = 8" "get_code_size report_file = 21"
  "buffer report_file = [0, 0, 0, 0, 0, 0, 0, 0, 82, 0, 0, 0, 0, 0, 0, 0, 0, 16, 1, 0, 0, 0, 24, 16, 1, 0, 0, 0, 22]"
  by (simp_all add: report_file_def code_off_def string_off_def op_def le_bytes_def get_code_size_def SIZEOF_BYTEFILE_def
      numeral_eq_Suc)

lemma report_file_ok: "bytefile_ok report_file"
  by (simp add: bytefile_ok_def SIZEOF_BYTEFILE_def)

text \<open>One result of \<open>std::sort\<close> for each of the two comparisons.\<close>

definition sort_idioms :: "bytefile \<Rightarrow> idiom list \<Rightarrow> idiom list" where
  "sort_idioms f = sort_key (key f)"

definition sort_groups :: "group list \<Rightarrow> group list" where
  "sort_groups gs = rev (sort_key snd gs)"

lemma sort_idioms_sorts: "sorts (\<lambda>a b. compare_idioms f a b < 0) (sort_idioms f)"
  using sorted_sort_key [of "key f"]
  by (auto simp: sorts_def sort_idioms_def compare_idioms_less not_less sorted_wrt_map [symmetric])

lemma sort_groups_sorts: "sorts (\<lambda>g h. snd h < snd g) sort_groups"
  using sorted_sort_key [of snd]
  by (auto simp: sorts_def sort_groups_def not_less sorted_wrt_rev sorted_wrt_map [symmetric])

text \<open>C16: The statistics of a well-formed file terminate. Where they report, every byte string that is an
  instruction reached from the entry points, or a pair of adjacent reached ones of which the first does not
  transfer control and the second is not the target of a branch, has exactly one group, with the number of
  its occurrences in the code; no other string has one, and the groups are in descending order.\<close>

theorem statistics_count_occurrences:
  assumes "bytefile_ok f" and "sorts (\<lambda>a b. compare_idioms f a b < 0) sort1" and "sorts (\<lambda>g h. snd h < snd g) sort2"
  shows "bcstats sort1 sort2 f \<noteq> None \<and> (\<forall>groups. bcstats sort1 sort2 f = ok groups \<longrightarrow>
    (\<exists>es is. get_entrypoints f = ok es \<and> listing f 0 is \<and>
       distinct (map (idiom_chars f \<circ> fst) groups) \<and>
       (\<forall>bs. bs \<in> set (map (idiom_chars f \<circ> fst) groups) \<longleftrightarrow> 0 < occurs f es is bs) \<and>
       (\<forall>g \<in> set groups. snd g = occurs f es is (idiom_chars f (fst g))) \<and>
       sorted_wrt (\<lambda>g h. snd h \<le> snd g) groups))"
proof (intro conjI allI impI)
  have size: "0 \<le> get_code_size f"
    using get_code_size_ok [OF assms(1)] assms(1) by (simp add: bytefile_ok_def)
  have entry: "get_entrypoints f \<noteq> None" by (rule get_entrypoints_defined)
  show "bcstats sort1 sort2 f \<noteq> None"
    unfolding bcstats_def mark_reachable_instructions_def mark_jumps_def Let_def
    using mark_jumps_loop_defined [OF assms(1) size] collect_loop_defined [OF assms(1) size]
    by (intro andthen_defined andthen_pair_defined entry init_visited_defined mark_loop_stats_defined assms(1)) auto
  fix groups assume "bcstats sort1 sort2 f = ok groups"
  then obtain es reachable jump label st where
    r: "get_entrypoints f = ok es" "mark_reachable_instructions f es = ok reachable" "mark_jumps f = ok (jump, label)"
    and c: "collect_loop f reachable jump label 0 None empty_stats = ok st" and g: "groups = idiom_groups f sort1 sort2 st"
    by (auto simp: bcstats_def andthen_eq_ok)
  from collect_loop_sweep [OF assms(1) size] c obtain js where sw: "sweep f 0 = ok js" by blast
  with sweep_listing obtain "is" where l: "listing f 0 is" "js = map (\<lambda>(p, i, n). (p, n)) is" by blast
  have "stats_ok f st (recorded f reachable jump label None js)"
    using collect_loop_records [OF assms(1) sw c stats_ok_empty] by simp
  note i = idiom_groups_count [OF this assms(2,3), folded g]
  have o: "count (recorded f reachable jump label None js) (Bytes bs) = occurs f es is bs" for bs
    using occurrences_occurs [OF assms(1) l(1) r(2,3)] by (simp add: count_recorded l(2))
  show "\<exists>es is. get_entrypoints f = ok es \<and> listing f 0 is \<and> distinct (map (idiom_chars f \<circ> fst) groups) \<and>
       (\<forall>bs. bs \<in> set (map (idiom_chars f \<circ> fst) groups) \<longleftrightarrow> 0 < occurs f es is bs) \<and>
       (\<forall>g \<in> set groups. snd g = occurs f es is (idiom_chars f (fst g))) \<and> sorted_wrt (\<lambda>g h. snd h \<le> snd g) groups"
    using r(1) l(1) counts_chars [OF i(1) o] i(2) by blast
qed

declare mark_loop_stats.simps [code] mark_jumps_loop.simps [code] collect_loop.simps [code] sweep.simps [code]

definition report_marks :: "bool list" where
  "report_marks = map (\<lambda>i. i \<in> set [0, 9, 14, 15, 20]) [0..<21::nat]"

lemma report_file_runs:
  "get_entrypoints report_file = ok [0]" "mark_reachable_instructions report_file [0] = ok report_marks"
  "mark_jumps report_file = ok (replicate 21 False, replicate 21 False)"
  "case collect_loop report_file report_marks (replicate 21 False) (replicate 21 False) 0 None empty_stats of
     Some (Inr st) \<Rightarrow> True | _ \<Rightarrow> False"
  by code_simp+

lemma report_file_insts: "read_inst report_file 0 = ok (Begin 0 0, 9)" "read_inst report_file 9 = ok (Const 1, 14)"
  "read_inst report_file 14 = ok (Drop, 15)" "read_inst report_file 15 = ok (Const 1, 20)" "read_inst report_file 20 = ok (End, 21)"
  by code_simp+

definition report_listing :: "(int \<times> inst \<times> int) list" where
  "report_listing = [(0, Begin 0 0, 9), (9, Const 1, 14), (14, Drop, 15), (15, Const 1, 20), (20, End, 21)]"

lemma report_file_listing: "listing report_file 0 report_listing"
  by (simp add: report_listing_def report_file_insts)

lemma report_reached: "reached report_file [0] p" if "p \<in> {0, 9, 14, 15, 20}" for p
proof -
  have "goes report_file 0 9" "goes report_file 9 14" "goes report_file 14 15" "goes report_file 15 20"
    using report_file_insts by (simp_all add: goes_def falls_through_def)
  then have "(goes report_file)\<^sup>*\<^sup>* 0 p" using that by (auto intro: rtranclp_trans)
  then show ?thesis by (simp add: reached_def)
qed

lemma report_chars: "idiom_chars report_file \<lparr>i_begin = 9, i_end = 14\<rparr> = [16, 1, 0, 0, 0]"
  "idiom_chars report_file \<lparr>i_begin = 15, i_end = 20\<rparr> = [16, 1, 0, 0, 0]"
  by code_simp+

lemma report_occurs: "occurs report_file [0] report_listing [16, 1, 0, 0, 0] = 2"
proof -
  have "idiom_chars report_file \<lparr>i_begin = p, i_end = n\<rparr> \<noteq> [16, 1, 0, 0, 0]" if "nat (n - p) \<noteq> 5" for p n
    using that length_chars [of report_file "\<lparr>i_begin = p, i_end = n\<rparr>"] by auto
  then show ?thesis using report_reached report_chars by (simp add: occurs_def report_listing_def)
qed

text \<open>In the file \<open>CONST 1\<close> occurs twice.\<close>

lemma statistics_count_occurrences_witness:
  "\<exists>groups. bcstats (sort_idioms report_file) sort_groups report_file = ok groups \<and>
     (\<exists>g \<in> set groups. idiom_chars report_file (fst g) = [16, 1, 0, 0, 0] \<and> snd g = 2)"
proof -
  let ?n = "replicate 21 False"
  from report_file_runs(4) obtain st where "collect_loop report_file report_marks ?n ?n 0 None empty_stats = ok st"
    by (auto split: option.splits sum.splits)
  then obtain groups where g: "bcstats (sort_idioms report_file) sort_groups report_file = ok groups"
    using report_file_runs by (simp add: bcstats_def del: report_file_simps)
  from statistics_count_occurrences [OF report_file_ok sort_idioms_sorts sort_groups_sorts, THEN conjunct2, rule_format, OF g]
    report_file_runs(1) obtain "is" where l: "listing report_file 0 is"
      "\<forall>bs. bs \<in> set (map (idiom_chars report_file \<circ> fst) groups) \<longleftrightarrow> 0 < occurs report_file [0] is bs"
      "\<forall>g \<in> set groups. snd g = occurs report_file [0] is (idiom_chars report_file (fst g))" by auto
  have "is = report_listing" by (rule listing_unique [OF l(1) report_file_listing])
  then have "[16, 1, 0, 0, 0] \<in> set (map (idiom_chars report_file \<circ> fst) groups)" using l(2) report_occurs by simp
  then obtain g' where "g' \<in> set groups" "idiom_chars report_file (fst g') = [16, 1, 0, 0, 0]" by auto
  with g l(3) report_occurs \<open>is = report_listing\<close> show ?thesis by auto
qed

text \<open>C34: The dump of an assembled program, whose strings end in the string table and which has no \<open>CALLC\<close>,
  is the listing of the program: a line for every instruction, with the position where its bytes begin, in
  hexadecimal and right-aligned, its name and its operands.\<close>

theorem dump_lists_instructions:
  assumes "bytefile_ok f" and "drop (code_off f) (buffer f) = concat (map encode prog)"
    and "\<forall>i \<in> set prog. encodable f i \<and> listable f S i"
  shows "bcdump f = ok (program_lines S 0 prog)"
  using dump_program [OF assms(1), of 0 prog S] assms by (simp add: bcdump_def bytefile_ok_def)

lemma dump_lists_instructions_witness:
  "\<exists>a b c d e. bcdump report_file = ok [a @ bytes_of ''BEGIN'' @ [9] @ bytes_of ''0 0 '', b @ bytes_of ''CONST'' @ [9] @ bytes_of ''1 '',
     c @ bytes_of ''DROP'' @ [9], d @ bytes_of ''CONST'' @ [9] @ bytes_of ''1 '', e @ bytes_of ''END'' @ [9]] \<and>
     d = bytes_of ''0x       f'' @ [9] \<and> e = bytes_of ''0x      14'' @ [9]"
proof -
  let ?prog = "[Begin 0 0, Const 1, Drop, Const 1, End]"
  have "rev [0..<8] = [7, 6, 5, 4, 3, 2, 1, 0]" by code_simp
  then have c: "address_column 15 = bytes_of ''0x       f'' @ [9]" "address_column 20 = bytes_of ''0x      14'' @ [9]"
    by (simp_all add: address_column_def digit_def bytes_of_def)
  have d: "decimal 0 = [48]" "decimal 1 = [49]" by code_simp+
  have l: "program_lines (\<lambda>_. []) 0 ?prog = [address_column 0 @ bytes_of ''BEGIN'' @ [9] @ bytes_of ''0 0 '',
      address_column 9 @ bytes_of ''CONST'' @ [9] @ bytes_of ''1 '', address_column 14 @ bytes_of ''DROP'' @ [9],
      address_column 15 @ bytes_of ''CONST'' @ [9] @ bytes_of ''1 '', address_column 20 @ bytes_of ''END'' @ [9]]"
    by (simp add: op_def le_bytes_def row_def num_def d bytes_of_def eval_nat_numeral)
  have "drop (code_off report_file) (buffer report_file) = concat (map encode ?prog)"
    by (simp add: op_def le_bytes_def)
  from dump_lists_instructions [OF report_file_ok this, of "\<lambda>_. []"]
  have "bcdump report_file = ok (program_lines (\<lambda>_. []) 0 ?prog)" by simp
  with l show ?thesis by (intro exI conjI) (auto intro: c)
qed

end
