(* ===== verification/RefString.thy ===== *)
theory RefString
  imports Prelude
begin

text \<open>
  08-string-ptr (src/cstring.cpp, src/string_ptr.cpp): strings with a reference count of one bit, which
  is the lowest bit of the address of the characters and stays at 1 once it has got there. This program
  is built for 64-bit machines. The heap is a map from addresses to the characters stored there;
  \<open>aligned_alloc\<close> is a parameter, which returns 0 when it fails. A \<open>CString\<close> object is a number that
  \<open>new\<close> hands out, a \<open>StringPtr\<close> object a variable; the local variable \<open>sptr\<close> of the assignment
  operators is \<open>Temp\<close>. The messages of \<open>DEBUG_MODE\<close> are left out.
\<close>

section \<open>CString\<close>

definition REF_COUNTER_LENGTH :: nat where "REF_COUNTER_LENGTH = 1"
definition ALIGNMENT :: u64 where "ALIGNMENT = push_bit REF_COUNTER_LENGTH 1"
definition REF_COUNTER_MASK :: u64 where "REF_COUNTER_MASK = push_bit REF_COUNTER_LENGTH 1 - 1"
definition REF_COUNT_SATURATION :: u64 where "REF_COUNT_SATURATION = push_bit REF_COUNTER_LENGTH 1 - 1"

lemmas ref_consts = REF_COUNTER_LENGTH_def ALIGNMENT_def REF_COUNTER_MASK_def REF_COUNT_SATURATION_def

text \<open>The ways in which these functions go wrong.\<close>

datatype rc_error =
    NullWrite          \<comment> \<open>\<open>strcpy\<close> to the null pointer that a failed allocation returned\<close>
  | BufferOverflow     \<comment> \<open>\<open>strcpy\<close> writes behind the block\<close>
  | BadFree            \<comment> \<open>\<open>free\<close> of an address that is not allocated\<close>
  | Dangling           \<comment> \<open>a pointer to a \<open>CString\<close> that has been deleted\<close>
  | LogicError         \<comment> \<open>\<open>std::logic_error\<close>\<close>
  | NoVariable         \<comment> \<open>the variable does not exist, or exists already\<close>

type_synonym 'a rc = "rc_error + 'a"

definition rc_bind :: "'a rc \<Rightarrow> ('a \<Rightarrow> 'b rc) \<Rightarrow> 'b rc" where
  "rc_bind r f = (case r of Inl e \<Rightarrow> Inl e | Inr x \<Rightarrow> f x)"

lemma rc_bind_simps [simp]: "rc_bind (Inl e) f = Inl e" "rc_bind (Inr x) f = f x"
  by (simp_all add: rc_bind_def)

datatype holder = Var nat | Temp

record rc_state =
  bufs :: "u64 \<Rightarrow> u8 list option"
  cstrs :: "nat \<Rightarrow> u64 option"
  next_cstr :: nat
  svars :: "holder \<Rightarrow> nat option"

type_synonym aalloc = "(u64 \<Rightarrow> u8 list option) \<Rightarrow> u64 \<Rightarrow> u64"

text \<open>\<open>str\<close> holds the characters before the terminating zero, or is a null pointer.\<close>

definition aligned_length :: "u8 list \<Rightarrow> u64" where
  "aligned_length str = (let length_aligned = word_of_nat (length str) in
     length_aligned + ((length_aligned + ALIGNMENT - 1) AND REF_COUNTER_MASK))"

definition CString_new :: "aalloc \<Rightarrow> u8 list option \<Rightarrow> rc_state \<Rightarrow> (u64 \<times> rc_state) rc" where
  "CString_new al str s = (case str of
     None \<Rightarrow> Inr (REF_COUNT_SATURATION, s)
   | Some cs \<Rightarrow> let p = al (bufs s) (aligned_length cs) in
       if p = 0 then Inl NullWrite
       else if unat (aligned_length cs) < length cs + 1 then Inl BufferOverflow
       else Inr (p, s\<lparr>bufs := (bufs s)(p \<mapsto> cs)\<rparr>))"

definition address_of :: "u64 \<Rightarrow> u64" where
  "address_of p = p AND NOT REF_COUNTER_MASK"

definition free :: "u64 \<Rightarrow> rc_state \<Rightarrow> rc_state rc" where
  "free p s = (if p = 0 then Inr s else if bufs s p = None then Inl BadFree
     else Inr (s\<lparr>bufs := (bufs s)(p := None)\<rparr>))"

definition CString_destroy :: "u64 \<Rightarrow> rc_state \<Rightarrow> rc_state rc" where
  "CString_destroy p = free (address_of p)"

text \<open>\<open>None\<close>: a null pointer.\<close>

definition c_str :: "rc_state \<Rightarrow> u64 \<Rightarrow> u8 list option" where
  "c_str s p = (if address_of p = 0 then None else bufs s (address_of p))"

definition cstr_ref_count :: "u64 \<Rightarrow> u64" where
  "cstr_ref_count p = p AND REF_COUNTER_MASK"

definition inc_ref_count :: "u64 \<Rightarrow> u64" where
  "inc_ref_count p = (let ref_count = p AND REF_COUNTER_MASK in
     if ref_count = REF_COUNT_SATURATION then p else (p AND NOT REF_COUNTER_MASK) OR (ref_count + 1))"

definition dec_ref_count :: "u64 \<Rightarrow> u64 rc" where
  "dec_ref_count p = (let ref_count = p AND REF_COUNTER_MASK in
     if ref_count = 0 then Inl LogicError
     else if ref_count = REF_COUNT_SATURATION then Inr p
     else Inr ((p AND NOT REF_COUNTER_MASK) OR (ref_count - 1)))"

section \<open>StringPtr\<close>

definition null_string :: nat where "null_string = 0"

definition get_cstr :: "nat \<Rightarrow> rc_state \<Rightarrow> u64 rc" where
  "get_cstr c s = (case cstrs s c of None \<Rightarrow> Inl Dangling | Some p \<Rightarrow> Inr p)"

definition get_var :: "holder \<Rightarrow> rc_state \<Rightarrow> nat rc" where
  "get_var v s = (case svars s v of None \<Rightarrow> Inl NoVariable | Some c \<Rightarrow> Inr c)"

definition set_var :: "holder \<Rightarrow> nat option \<Rightarrow> rc_state \<Rightarrow> rc_state" where
  "set_var v c s = s\<lparr>svars := (svars s)(v := c)\<rparr>"

definition fresh_var :: "holder \<Rightarrow> rc_state \<Rightarrow> unit rc" where
  "fresh_var v s = (if svars s v = None then Inr () else Inl NoVariable)"

definition StringPtr_default :: "holder \<Rightarrow> rc_state \<Rightarrow> rc_state rc" where
  "StringPtr_default v s = rc_bind (fresh_var v s) (\<lambda>_. Inr (set_var v (Some null_string) s))"

definition StringPtr_of :: "aalloc \<Rightarrow> holder \<Rightarrow> u8 list option \<Rightarrow> rc_state \<Rightarrow> rc_state rc" where
  "StringPtr_of al v str s = rc_bind (fresh_var v s) (\<lambda>_. rc_bind (CString_new al str s) (\<lambda>(p, s1).
     let c = next_cstr s1 in Inr (set_var v (Some c) (s1\<lparr>cstrs := (cstrs s1)(c \<mapsto> p), next_cstr := Suc c\<rparr>))))"

definition StringPtr_copy :: "holder \<Rightarrow> holder \<Rightarrow> rc_state \<Rightarrow> rc_state rc" where
  "StringPtr_copy v other s = rc_bind (fresh_var v s) (\<lambda>_. rc_bind (get_var other s) (\<lambda>c.
     rc_bind (get_cstr c s) (\<lambda>p. Inr (set_var v (Some c) (s\<lparr>cstrs := (cstrs s)(c \<mapsto> inc_ref_count p)\<rparr>)))))"

definition StringPtr_move :: "holder \<Rightarrow> holder \<Rightarrow> rc_state \<Rightarrow> rc_state rc" where
  "StringPtr_move v other s = rc_bind (fresh_var v s) (\<lambda>_. rc_bind (get_var other s) (\<lambda>c.
     Inr (set_var other (Some null_string) (set_var v (Some c) s))))"

text \<open>The body of the destructor, which the move assignment repeats.\<close>

definition release :: "holder \<Rightarrow> rc_state \<Rightarrow> rc_state rc" where
  "release v s = rc_bind (get_var v s) (\<lambda>c. rc_bind (get_cstr c s) (\<lambda>p.
     if cstr_ref_count p = 0
     then rc_bind (CString_destroy p s) (\<lambda>s1. Inr (s1\<lparr>cstrs := (cstrs s1)(c := None)\<rparr>))
     else rc_bind (dec_ref_count p) (\<lambda>p'. Inr (s\<lparr>cstrs := (cstrs s)(c \<mapsto> p')\<rparr>))))"

definition StringPtr_destroy :: "holder \<Rightarrow> rc_state \<Rightarrow> rc_state rc" where
  "StringPtr_destroy v s = rc_bind (release v s) (\<lambda>s1. Inr (set_var v None s1))"

definition swap_vars :: "holder \<Rightarrow> holder \<Rightarrow> rc_state \<Rightarrow> rc_state" where
  "swap_vars v w s = s\<lparr>svars := (svars s)(v := svars s w, w := svars s v)\<rparr>"

definition assign_copy :: "holder \<Rightarrow> holder \<Rightarrow> rc_state \<Rightarrow> rc_state rc" where
  "assign_copy v other s = rc_bind (get_var v s) (\<lambda>_. if v = other then Inr s
     else rc_bind (StringPtr_copy Temp other s) (\<lambda>s1. StringPtr_destroy Temp (swap_vars v Temp s1)))"

definition assign_move :: "holder \<Rightarrow> holder \<Rightarrow> rc_state \<Rightarrow> rc_state rc" where
  "assign_move v other s = rc_bind (get_var v s) (\<lambda>_. if v = other then Inr s
     else rc_bind (get_var other s) (\<lambda>c. rc_bind (release v s) (\<lambda>s1.
       Inr (set_var other (Some null_string) (set_var v (Some c) s1)))))"

definition assign_str :: "aalloc \<Rightarrow> holder \<Rightarrow> u8 list option \<Rightarrow> rc_state \<Rightarrow> rc_state rc" where
  "assign_str al v str s = rc_bind (get_var v s) (\<lambda>_. rc_bind (StringPtr_of al Temp str s) (\<lambda>s1.
     StringPtr_destroy Temp (swap_vars v Temp s1)))"

definition str_of :: "holder \<Rightarrow> rc_state \<Rightarrow> u8 list option rc" where
  "str_of v s = rc_bind (get_var v s) (\<lambda>c. rc_bind (get_cstr c s) (\<lambda>p. Inr (c_str s p)))"

definition ref_count_of :: "holder \<Rightarrow> rc_state \<Rightarrow> u64 rc" where
  "ref_count_of v s = rc_bind (get_var v s) (\<lambda>c. rc_bind (get_cstr c s) (\<lambda>p. Inr (1 + cstr_ref_count p)))"

section \<open>Programs that use string pointers\<close>

datatype sp_op = Default nat | Of nat "u8 list option" | Copy nat nat | Move nat nat
  | Assign_copy nat nat | Assign_move nat nat | Assign_str nat "u8 list option" | Destroy nat

fun exec_op :: "aalloc \<Rightarrow> sp_op \<Rightarrow> rc_state \<Rightarrow> rc_state rc" where
  "exec_op al (Default v) = StringPtr_default (Var v)"
| "exec_op al (Of v str) = StringPtr_of al (Var v) str"
| "exec_op al (Copy v w) = StringPtr_copy (Var v) (Var w)"
| "exec_op al (Move v w) = StringPtr_move (Var v) (Var w)"
| "exec_op al (Assign_copy v w) = assign_copy (Var v) (Var w)"
| "exec_op al (Assign_move v w) = assign_move (Var v) (Var w)"
| "exec_op al (Assign_str v str) = assign_str al (Var v) str"
| "exec_op al (Destroy v) = StringPtr_destroy (Var v)"

fun exec_ops :: "aalloc \<Rightarrow> sp_op list \<Rightarrow> rc_state \<Rightarrow> rc_state rc" where
  "exec_ops al [] s = Inr s"
| "exec_ops al (x # xs) s = rc_bind (exec_op al x s) (exec_ops al xs)"

text \<open>At the start there is \<open>null_string\<close> only, with a saturated count.\<close>

definition rc_init :: rc_state where
  "rc_init = \<lparr>bufs = (\<lambda>_. None), cstrs = [null_string \<mapsto> REF_COUNT_SATURATION], next_cstr = 1, svars = (\<lambda>_. None)\<rparr>"

section \<open>What they promise: variables that hold values\<close>

type_synonym values_of = "nat \<Rightarrow> u8 list option option"

fun spec_op :: "sp_op \<Rightarrow> values_of \<Rightarrow> values_of option" where
  "spec_op (Default v) m = (if m v = None then Some (m(v \<mapsto> None)) else None)"
| "spec_op (Of v str) m = (if m v = None then Some (m(v \<mapsto> str)) else None)"
| "spec_op (Copy v w) m = (if m v = None \<and> m w \<noteq> None then Some (m(v := m w)) else None)"
| "spec_op (Move v w) m = (if m v = None \<and> m w \<noteq> None then Some (m(v := m w, w := Some None)) else None)"
| "spec_op (Assign_copy v w) m = (if m v \<noteq> None \<and> m w \<noteq> None then Some (m(v := m w)) else None)"
| "spec_op (Assign_move v w) m = (if m v \<noteq> None \<and> m w \<noteq> None
     then Some (if v = w then m else m(v := m w, w := Some None)) else None)"
| "spec_op (Assign_str v str) m = (if m v \<noteq> None then Some (m(v \<mapsto> str)) else None)"
| "spec_op (Destroy v) m = (if m v \<noteq> None then Some (m(v := None)) else None)"

fun spec_ops :: "sp_op list \<Rightarrow> values_of \<Rightarrow> values_of option" where
  "spec_ops [] m = Some m"
| "spec_ops (x # xs) m = Option.bind (spec_op x m) (spec_ops xs)"

definition value_of :: "rc_state \<Rightarrow> holder \<Rightarrow> u8 list option option" where
  "value_of s v = (case str_of v s of Inl e \<Rightarrow> None | Inr r \<Rightarrow> Some r)"

definition abs_of :: "rc_state \<Rightarrow> values_of" where
  "abs_of s v = value_of s (Var v)"

section \<open>The one bit that counts\<close>

lemma ref_consts_eq [simp]: "ALIGNMENT = 2" "REF_COUNTER_MASK = 1" "REF_COUNT_SATURATION = 1"
  by (simp_all add: ref_consts)

lemma and_one_cases: "(p :: u64) AND 1 = (if even p then 0 else 1)"
  by (simp add: and_one_eq odd_iff_mod_2_eq_one even_iff_mod_2_eq_zero)

lemma bit_address_of: "bit (address_of p) n \<longleftrightarrow> bit p n \<and> n \<noteq> 0"
  by (auto simp: address_of_def bit_simps dest: bit_imp_le_length)

lemma inc_ref_count_eq: "inc_ref_count p = p OR 1"
proof (rule bit_word_eqI)
  fix n
  show "bit (inc_ref_count p) n = bit (p OR 1) n"
    by (cases "n = 0") (auto simp: inc_ref_count_def Let_def and_one_cases bit_simps bit_1_iff simp flip: bit_0 split: if_splits)
qed

lemma inc_ref_count_facts [simp]: "address_of (inc_ref_count p) = address_of p" "odd (inc_ref_count p)"
proof -
  show "address_of (inc_ref_count p) = address_of p"
    by (rule bit_word_eqI) (auto simp: bit_address_of inc_ref_count_eq bit_simps)
  show "odd (inc_ref_count p)" by (simp add: inc_ref_count_eq flip: bit_0) (simp add: bit_simps)
qed

lemma address_of_even: "even p \<Longrightarrow> address_of p = p"
  by (rule bit_word_eqI) (auto simp: bit_address_of bit_0 intro: ccontr)

lemma address_of_1 [simp]: "address_of 1 = 0"
  by (simp add: address_of_def)

lemma cstr_ref_count_0: "cstr_ref_count p = 0 \<longleftrightarrow> even p"
  by (simp add: cstr_ref_count_def and_one_cases)

lemma dec_ref_count_odd: "odd p \<Longrightarrow> dec_ref_count p = Inr p"
  by (simp add: dec_ref_count_def and_one_cases)

text \<open>
  The block for a string has one byte more than its length when the length is even, and none more when it
  is odd: then the terminating zero is written behind it.
\<close>

lemma unat_aligned_length:
  assumes "length cs < 9223372036854775807"
  shows "unat (aligned_length cs) = (if even (length cs) then length cs + 1 else length cs)"
proof -
  let ?w = "word_of_nat (length cs) :: u64"
  have u: "unat ?w = length cs" using assms by (simp add: unat_of_nat take_bit_eq_mod)
  have "even ?w = even (length cs)" by simp
  then have "(?w + 2 - 1) AND 1 = (if even (length cs) then 1 else 0)" by (simp add: and_one_cases)
  then show ?thesis
    using u assms by (auto simp: aligned_length_def Let_def unat_word_ariths)
qed

section \<open>The invariant\<close>

text \<open>
  No variable dangles, every string object has a block of its own or none, and a string object whose count
  is 0 is held by one variable only.
\<close>

definition rc_inv :: "rc_state \<Rightarrow> bool" where
  "rc_inv s \<longleftrightarrow> cstrs s null_string = Some 1
     \<and> (\<forall>v c. svars s v = Some c \<longrightarrow> cstrs s c \<noteq> None)
     \<and> (\<forall>c p. cstrs s c = Some p \<longrightarrow> c < next_cstr s \<and> (address_of p = 0 \<or> bufs s (address_of p) \<noteq> None))
     \<and> (\<forall>c d p q. cstrs s c = Some p \<and> cstrs s d = Some q \<and> address_of p = address_of q \<and> address_of p \<noteq> 0 \<longrightarrow> c = d)
     \<and> (\<forall>c p. cstrs s c = Some p \<and> even p \<longrightarrow> p \<noteq> 0)
     \<and> (\<forall>c p v w. cstrs s c = Some p \<and> even p \<and> svars s v = Some c \<and> svars s w = Some c \<longrightarrow> v = w)"

lemma rc_invD:
  assumes "rc_inv s"
  shows "cstrs s null_string = Some 1" "svars s v = Some c \<Longrightarrow> \<exists>p. cstrs s c = Some p"
    "cstrs s c = Some p \<Longrightarrow> c < next_cstr s" "cstrs s c = Some p \<Longrightarrow> address_of p \<noteq> 0 \<Longrightarrow> \<exists>b. bufs s (address_of p) = Some b"
    "cstrs s c = Some p \<Longrightarrow> cstrs s d = Some q \<Longrightarrow> address_of p = address_of q \<Longrightarrow> address_of p \<noteq> 0 \<Longrightarrow> c = d"
    "cstrs s c = Some p \<Longrightarrow> even p \<Longrightarrow> p \<noteq> 0"
    "cstrs s c = Some p \<Longrightarrow> even p \<Longrightarrow> svars s v = Some c \<Longrightarrow> svars s w = Some c \<Longrightarrow> v = w"
  using assms unfolding rc_inv_def by blast+

lemma rc_invI:
  assumes "cstrs s null_string = Some 1" "\<And>v c. svars s v = Some c \<Longrightarrow> cstrs s c \<noteq> None"
    "\<And>c p. cstrs s c = Some p \<Longrightarrow> c < next_cstr s"
    "\<And>c p. cstrs s c = Some p \<Longrightarrow> address_of p \<noteq> 0 \<Longrightarrow> bufs s (address_of p) \<noteq> None"
    "\<And>c d p q. cstrs s c = Some p \<Longrightarrow> cstrs s d = Some q \<Longrightarrow> address_of p = address_of q \<Longrightarrow> address_of p \<noteq> 0 \<Longrightarrow> c = d"
    "\<And>c p. cstrs s c = Some p \<Longrightarrow> even p \<Longrightarrow> p \<noteq> 0"
    "\<And>c p v w. cstrs s c = Some p \<Longrightarrow> even p \<Longrightarrow> svars s v = Some c \<Longrightarrow> svars s w = Some c \<Longrightarrow> v = w"
  shows "rc_inv s"
  using assms unfolding rc_inv_def by blast

lemma rc_inv_init: "rc_inv rc_init"
  by (auto simp: rc_inv_def rc_init_def null_string_def split: if_splits)

lemma value_of_eq:
  "value_of s v = (case svars s v of None \<Rightarrow> None | Some c \<Rightarrow> map_option (c_str s) (cstrs s c))"
  by (auto simp: value_of_def str_of_def get_var_def get_cstr_def split: option.splits)

lemma set_var_simps [simp]:
  "bufs (set_var v c s) = bufs s" "cstrs (set_var v c s) = cstrs s" "next_cstr (set_var v c s) = next_cstr s"
  "svars (set_var v c s) = (svars s)(v := c)" "c_str (set_var v c s) = c_str s"
  "set_var v c (set_var v d s) = set_var v c s"
  by (simp_all add: set_var_def c_str_def fun_eq_iff)

lemma value_of_set_var:
  "value_of (set_var v x s) w = (if w = v then (case x of None \<Rightarrow> None | Some c \<Rightarrow> map_option (c_str s) (cstrs s c)) else value_of s w)"
  by (simp add: value_of_eq split: option.splits)

lemma c_str_fields [simp]: "c_str (s\<lparr>svars := x\<rparr>) = c_str s" "c_str (s\<lparr>cstrs := y\<rparr>) = c_str s"
  by (simp_all add: c_str_def fun_eq_iff)

text \<open>A new reference to \<open>null_string\<close>, or to the string of a variable that loses it.\<close>

lemma rc_inv_null: "rc_inv s \<Longrightarrow> rc_inv (set_var v (Some null_string) s)"
  by (auto simp: rc_inv_def split: if_splits)

lemma rc_inv_drop: "rc_inv s \<Longrightarrow> rc_inv (set_var v None s)"
  unfolding rc_inv_def by (simp, blast)

lemma move_ok:
  assumes i: "rc_inv s" and v: "svars s v = None" and w: "svars s w = Some c"
  shows "rc_inv (set_var w (Some null_string) (set_var v (Some c) s))"
    "value_of (set_var w (Some null_string) (set_var v (Some c) s)) = (value_of s)(v := value_of s w, w := Some None)"
proof -
  have vw: "v \<noteq> w" using v w by auto
  have "rc_inv (set_var v (Some c) (set_var w None s))"
    using i w v vw unfolding rc_inv_def by (simp, blast)
  from rc_inv_null [OF this, of w] vw show "rc_inv (set_var w (Some null_string) (set_var v (Some c) s))"
    by (simp add: set_var_def fun_upd_twist)
  show "value_of (set_var w (Some null_string) (set_var v (Some c) s)) = (value_of s)(v := value_of s w, w := Some None)"
    using rc_invD(1) [OF i] w by (auto simp: fun_eq_iff value_of_set_var value_of_eq c_str_def split: option.splits)
qed

text \<open>What the destructor does.\<close>

lemma release_ok:
  assumes i: "rc_inv s" and v: "svars s v = Some c"
  shows "\<exists>s1. release v s = Inr s1 \<and> rc_inv (set_var v None s1) \<and> svars s1 = svars s
    \<and> (\<forall>w. w \<noteq> v \<longrightarrow> value_of s1 w = value_of s w)"
proof -
  obtain p where p: "cstrs s c = Some p" using rc_invD(2) [OF i v] by blast
  show ?thesis
  proof (cases "even p")
    case False
    then have "release v s = Inr s"
      using p v by (auto simp: release_def get_var_def get_cstr_def cstr_ref_count_0 dec_ref_count_odd fun_upd_idem)
    then show ?thesis using rc_inv_drop [OF i] by simp
  next
    case True
    then have a: "address_of p = p" "p \<noteq> 0" "bufs s p \<noteq> None" and c0: "c \<noteq> null_string"
      and sole: "svars s w = Some c \<Longrightarrow> w = v" for w
      using rc_invD(1) [OF i] rc_invD(4,6,7) [OF i p] v True address_of_even [OF True] p by auto
    let ?s1 = "s\<lparr>bufs := (bufs s)(p := None), cstrs := (cstrs s)(c := None)\<rparr>"
    have "release v s = Inr ?s1"
      using p v True a by (simp add: release_def get_var_def get_cstr_def cstr_ref_count_0 CString_destroy_def free_def)
    moreover have own: "address_of q \<noteq> p" if "cstrs s d = Some q" "d \<noteq> c" for d q
      using rc_invD(5) [OF i p that(1)] a that(2) by metis
    then have "rc_inv (set_var v None ?s1)"
      using rc_invD [OF i] sole c0 by (intro rc_invI) (fastforce split: if_splits)+
    moreover have "value_of ?s1 w = value_of s w" if "w \<noteq> v" for w
      using sole that own by (auto simp: value_of_eq c_str_def split: option.splits intro!: map_option_cong)
    ultimately show ?thesis by simp
  qed
qed

lemma copy_ok:
  assumes i: "rc_inv s" and v: "svars s v = None" and w: "svars s w = Some c"
  shows "\<exists>s1. StringPtr_copy v w s = Inr s1 \<and> rc_inv s1 \<and> svars s1 = (svars s)(v \<mapsto> c)
    \<and> value_of s1 = (value_of s)(v := value_of s w)"
proof -
  obtain p where p: "cstrs s c = Some p" using rc_invD(2) [OF i w] by blast
  let ?s1 = "set_var v (Some c) (s\<lparr>cstrs := (cstrs s)(c \<mapsto> inc_ref_count p)\<rparr>)"
  have n: "inc_ref_count 1 = 1" by (simp add: inc_ref_count_eq)
  have "StringPtr_copy v w s = Inr ?s1"
    using p v w by (simp add: StringPtr_copy_def fresh_var_def get_var_def get_cstr_def)
  moreover have "rc_inv ?s1"
  proof -
    have cell: "\<exists>x'. cstrs s a = Some x' \<and> address_of x = address_of x' \<and> (even x \<longrightarrow> x = x' \<and> a \<noteq> c)"
      if "cstrs ?s1 a = Some x" for a x using that p by (auto split: if_splits)
    show ?thesis
    proof (rule rc_invI)
      show "cstrs ?s1 null_string = Some 1" using rc_invD(1) [OF i] p n by auto
    next
      fix u d assume "svars ?s1 u = Some d"
      then show "cstrs ?s1 d \<noteq> None" using rc_invD(2) [OF i, of u d] by (auto split: if_splits)
    next
      fix a x assume "cstrs ?s1 a = Some x"
      from cell [OF this] show "a < next_cstr ?s1" using rc_invD(3) [OF i, of a] by auto
    next
      fix a x assume "cstrs ?s1 a = Some x" "address_of x \<noteq> 0"
      with cell [of a x] show "bufs ?s1 (address_of x) \<noteq> None" using rc_invD(4) [OF i, of a] by auto
    next
      fix a b x y assume "cstrs ?s1 a = Some x" "cstrs ?s1 b = Some y" "address_of x = address_of y" "address_of x \<noteq> 0"
      then obtain x' y' where "cstrs s a = Some x'" "cstrs s b = Some y'" "address_of x' = address_of y'" "address_of x' \<noteq> 0"
        by (metis cell)
      then show "a = b" by (rule rc_invD(5) [OF i])
    next
      fix a x assume "cstrs ?s1 a = Some x" "even x"
      with cell [of a x] show "x \<noteq> 0" using rc_invD(6) [OF i, of a x] by auto
    next
      fix a x w1 w2 assume "cstrs ?s1 a = Some x" "even x" "svars ?s1 w1 = Some a" "svars ?s1 w2 = Some a"
      moreover from this cell [of a x] have "cstrs s a = Some x" "a \<noteq> c" by auto
      ultimately show "w1 = w2" using rc_invD(7) [OF i, of a x w1 w2] by (auto split: if_splits)
    qed
  qed
  moreover have "c_str ?s1 (inc_ref_count p) = c_str s p" "c_str ?s1 = c_str s" by (simp_all add: c_str_def fun_eq_iff)
  then have "value_of ?s1 = (value_of s)(v := value_of s w)"
    using p w v by (auto simp: fun_eq_iff value_of_eq split: option.splits intro!: map_option_cong)
  ultimately show ?thesis by simp
qed

text \<open>An allocator that returns a free block whose address is a multiple of 2, or fails.\<close>

definition aalloc_ok :: "aalloc \<Rightarrow> bool" where
  "aalloc_ok al \<longleftrightarrow> (\<forall>h n. al h n = 0 \<or> even (al h n) \<and> h (al h n) = None)"

lemma of_ok:
  assumes i: "rc_inv s" and v: "svars s v = None" and a: "aalloc_ok al" and r: "StringPtr_of al v str s = Inr s1"
  shows "rc_inv s1" "\<exists>c. svars s1 = (svars s)(v \<mapsto> c)" "value_of s1 = (value_of s)(v \<mapsto> str)"
proof -
  let ?c = "next_cstr s"
  have fresh: "cstrs s ?c = None" using rc_invD(3) [OF i, of ?c] by (cases "cstrs s ?c") auto
  then have nv: "svars s w \<noteq> Some ?c" for w using rc_invD(2) [OF i, of w ?c] by auto
  obtain p b where s1: "s1 = set_var v (Some ?c) (s\<lparr>bufs := b, cstrs := (cstrs s)(?c \<mapsto> p), next_cstr := Suc ?c\<rparr>)"
    and pb: "p = 1 \<and> b = bufs s \<and> str = None
      \<or> (\<exists>cs. str = Some cs \<and> even p \<and> p \<noteq> 0 \<and> bufs s p = None \<and> b = (bufs s)(p \<mapsto> cs))"
    using r v a by (auto simp: StringPtr_of_def fresh_var_def CString_new_def Let_def aalloc_ok_def set_var_def
        split: option.splits if_splits)
  have cell: "a = ?c \<and> x = p \<or> cstrs s a = Some x \<and> a \<noteq> ?c" if "cstrs s1 a = Some x" for a x
    using that fresh by (auto simp: s1 split: if_splits)
  have block: "address_of p \<noteq> 0 \<Longrightarrow> b (address_of p) \<noteq> None \<and> bufs s (address_of p) = None"
    using pb address_of_even [of p] by auto
  have other: "b (address_of q) = bufs s (address_of q) \<and> address_of q \<noteq> address_of p"
    if "cstrs s d = Some q" "address_of q \<noteq> 0" for d q
  proof -
    note q = that
    obtain x where "bufs s (address_of q) = Some x" using rc_invD(4) [OF i q] by blast
    with pb q(2) address_of_even [of p] show ?thesis by auto
  qed
  have sv: "svars s1 = (svars s)(v \<mapsto> ?c)" "bufs s1 = b" "next_cstr s1 = Suc ?c" by (simp_all add: s1)
  show "rc_inv s1"
  proof (rule rc_invI)
    show "cstrs s1 null_string = Some 1" using rc_invD(1) [OF i] fresh by (auto simp: s1)
  next
    fix w c assume "svars s1 w = Some c"
    then show "cstrs s1 c \<noteq> None" using rc_invD(2) [OF i, of w c] by (auto simp: s1 split: if_splits)
  next
    fix a x assume "cstrs s1 a = Some x"
    from cell [OF this] show "a < next_cstr s1" using rc_invD(3) [OF i, of a x] by (auto simp: sv)
  next
    fix a x assume "cstrs s1 a = Some x" "address_of x \<noteq> 0"
    with cell [of a x] show "bufs s1 (address_of x) \<noteq> None"
      using block other [of a x] rc_invD(4) [OF i, of a x] by (auto simp: sv)
  next
    fix a a' x y assume "cstrs s1 a = Some x" "cstrs s1 a' = Some y" "address_of x = address_of y" "address_of x \<noteq> 0"
    with cell [of a x] cell [of a' y] show "a = a'"
      using other [of a x] other [of a' y] rc_invD(5) [OF i, of a x a' y] by auto
  next
    fix a x assume "cstrs s1 a = Some x" "even x"
    with cell [of a x] show "x \<noteq> 0" using rc_invD(6) [OF i, of a x] pb by auto
  next
    fix a x w1 w2 assume "cstrs s1 a = Some x" "even x" "svars s1 w1 = Some a" "svars s1 w2 = Some a"
    with cell [of a x] show "w1 = w2" using rc_invD(7) [OF i, of a x w1 w2] nv by (auto simp: sv split: if_splits)
  qed
  show "\<exists>c. svars s1 = (svars s)(v \<mapsto> c)" by (auto simp: s1)
  have "c_str s1 p = str" using pb address_of_even [of p] by (auto simp: s1 c_str_def)
  moreover have "c_str s1 q = c_str s q" if "cstrs s d = Some q" for d q
    using other [OF that] by (auto simp: sv c_str_def)
  ultimately show "value_of s1 = (value_of s)(v \<mapsto> str)"
    using fresh nv by (auto simp: fun_eq_iff value_of_eq s1 split: option.splits intro!: map_option_cong)
qed

text \<open>Swapping exchanges values.\<close>

lemma swap_ok:
  "rc_inv s \<Longrightarrow> rc_inv (swap_vars v w s)"
  "value_of (swap_vars v w s) = (value_of s)(v := value_of s w, w := value_of s v)"
proof -
  assume i: "rc_inv s"
  let ?p = "\<lambda>u. if u = w then v else if u = v then w else u"
  have sv: "svars (swap_vars v w s) u = svars s (?p u)" for u by (auto simp: swap_vars_def)
  have inj: "?p a = ?p b \<Longrightarrow> a = b" for a b by (auto split: if_splits)
  have same: "cstrs (swap_vars v w s) = cstrs s" "bufs (swap_vars v w s) = bufs s" "next_cstr (swap_vars v w s) = next_cstr s"
    by (simp_all add: swap_vars_def)
  show "rc_inv (swap_vars v w s)"
  proof (rule rc_invI)
    fix a x w1 w2 assume "cstrs (swap_vars v w s) a = Some x" "even x"
      "svars (swap_vars v w s) w1 = Some a" "svars (swap_vars v w s) w2 = Some a"
    then have "?p w1 = ?p w2" unfolding sv same by (rule rc_invD(7) [OF i])
    then show "w1 = w2" by (rule inj)
  next
    fix u c assume "svars (swap_vars v w s) u = Some c"
    then show "cstrs (swap_vars v w s) c \<noteq> None" unfolding sv same using rc_invD(2) [OF i, of "?p u" c] by simp
  next
    fix c x assume "cstrs (swap_vars v w s) c = Some x" "address_of x \<noteq> 0"
    then show "bufs (swap_vars v w s) (address_of x) \<noteq> None" unfolding same using rc_invD(4) [OF i] by blast
  next
    fix c d p q
    assume "cstrs (swap_vars v w s) c = Some p" "cstrs (swap_vars v w s) d = Some q" "address_of p = address_of q"
      "address_of p \<noteq> 0"
    then show "c = d" unfolding same by (rule rc_invD(5) [OF i])
  next
    fix c p assume "cstrs (swap_vars v w s) c = Some p" "even p"
    then show "p \<noteq> 0" unfolding same by (rule rc_invD(6) [OF i])
  qed (simp_all only: same rc_invD(1,3) [OF i])
next
  show "value_of (swap_vars v w s) = (value_of s)(v := value_of s w, w := value_of s v)"
    by (auto simp: fun_eq_iff value_of_eq swap_vars_def c_str_def split: option.splits)
qed

section \<open>Every operation does what it promises\<close>

lemma destroy_ok:
  assumes i: "rc_inv s" and v: "svars s v = Some c"
  shows "\<exists>s1. StringPtr_destroy v s = Inr s1 \<and> rc_inv s1 \<and> svars s1 = (svars s)(v := None)
    \<and> value_of s1 = (value_of s)(v := None)"
proof -
  from release_ok [OF i v] obtain s1 where "release v s = Inr s1" "rc_inv (set_var v None s1)" "svars s1 = svars s"
    "\<forall>w. w \<noteq> v \<longrightarrow> value_of s1 w = value_of s w" by blast
  then show ?thesis by (auto simp: StringPtr_destroy_def fun_eq_iff value_of_set_var)
qed

text \<open>What both assignment operators with a local variable do after it has been built.\<close>

lemma swap_destroy_ok:
  assumes i: "rc_inv s" and v: "svars s (Var v) = Some d" and t: "svars s Temp = Some c"
  shows "\<exists>s1. StringPtr_destroy Temp (swap_vars (Var v) Temp s) = Inr s1 \<and> rc_inv s1 \<and> svars s1 Temp = None
    \<and> value_of s1 = (value_of s)(Var v := value_of s Temp, Temp := None)"
proof -
  have "svars (swap_vars (Var v) Temp s) Temp = Some d" using v by (simp add: swap_vars_def)
  from destroy_ok [OF swap_ok(1) [OF i] this] show ?thesis by (auto simp: swap_ok(2))
qed

lemma value_of_Some: "rc_inv s \<Longrightarrow> (value_of s v = None) = (svars s v = None)"
  using rc_invD(2) [of s v] by (auto simp: value_of_eq split: option.splits)

definition rc_ready :: "rc_state \<Rightarrow> bool" where
  "rc_ready s \<longleftrightarrow> rc_inv s \<and> svars s Temp = None"

definition refines :: "rc_state rc \<Rightarrow> values_of option \<Rightarrow> bool" where
  "refines r spec \<longleftrightarrow> (case r of
     Inr s \<Rightarrow> rc_ready s \<and> spec = Some (abs_of s)
   | Inl e \<Rightarrow> e = NoVariable \<and> spec = None \<or> e = NullWrite \<or> e = BufferOverflow)"

lemma refinesI: "r = Inr s \<Longrightarrow> rc_inv s \<Longrightarrow> svars s Temp = None \<Longrightarrow> spec = Some (abs_of s) \<Longrightarrow> refines r spec"
  by (simp add: refines_def rc_ready_def)

lemma CString_new_errors: "CString_new al str s = Inl e \<Longrightarrow> e = NullWrite \<or> e = BufferOverflow"
  by (auto simp: CString_new_def Let_def split: option.splits if_splits)

lemma abs_of_upd [simp]:
  "value_of s' = (value_of s)(Var v := x) \<Longrightarrow> abs_of s' = (abs_of s)(v := x)"
  by (auto simp: abs_of_def fun_eq_iff)

lemma rc_readyD:
  assumes "rc_ready s"
  shows "rc_inv s" "svars s Temp = None" "abs_of s v = None \<longleftrightarrow> svars s (Var v) = None" "abs_of s w = value_of s (Var w)"
  using assms by (auto simp: rc_ready_def abs_of_def value_of_Some)

text \<open>Every operation does to the values of the variables what it promises.\<close>

lemma Default_refines:
  assumes r: "rc_ready s"
  shows "refines (exec_op al (Default v) s) (spec_op (Default v) (abs_of s))"
proof -
  note i = rc_readyD(1) [OF r] and t = rc_readyD(2) [OF r] and none = rc_readyD(3) [OF r]
  have "value_of (set_var (Var v) (Some null_string) s) = (value_of s)(Var v \<mapsto> None)"
    using rc_invD(1) [OF i] by (auto simp: fun_eq_iff value_of_set_var c_str_def)
  with rc_inv_null [OF i] t show ?thesis
    by (auto simp: StringPtr_default_def fresh_var_def none refines_def rc_ready_def)
qed

lemma Of_refines:
  assumes r: "rc_ready s" and a: "aalloc_ok al"
  shows "refines (exec_op al (Of v str) s) (spec_op (Of v str) (abs_of s))"
proof -
  note i = rc_readyD(1) [OF r] and t = rc_readyD(2) [OF r] and none = rc_readyD(3) [OF r]
  show ?thesis
  proof (cases "svars s (Var v)")
    case None
    show ?thesis
    proof (cases "StringPtr_of al (Var v) str s")
      case (Inl e)
      then show ?thesis
        by (auto simp: refines_def StringPtr_of_def fresh_var_def None rc_bind_def Let_def
            split: sum.splits dest: CString_new_errors)
    next
      case (Inr s1)
      from of_ok [OF i None a Inr] t none None show ?thesis by (auto simp: Inr refines_def rc_ready_def)
    qed
  qed (simp add: StringPtr_of_def fresh_var_def none refines_def)
qed

lemma Copy_refines:
  assumes r: "rc_ready s"
  shows "refines (exec_op al (Copy v w) s) (spec_op (Copy v w) (abs_of s))"
proof -
  note i = rc_readyD(1) [OF r] and t = rc_readyD(2) [OF r] and none = rc_readyD(3) [OF r] and ab = rc_readyD(4) [OF r]
  show ?thesis
  proof (cases "svars s (Var v) = None \<and> svars s (Var w) \<noteq> None")
    case True
    then obtain c where "svars s (Var w) = Some c" by blast
    from copy_ok [OF i _ this, of "Var v"] True t none ab show ?thesis
      by (auto simp: refines_def rc_ready_def)
  qed (auto simp: StringPtr_copy_def fresh_var_def get_var_def none refines_def)
qed

lemma Move_refines:
  assumes r: "rc_ready s"
  shows "refines (exec_op al (Move v w) s) (spec_op (Move v w) (abs_of s))"
proof -
  note i = rc_readyD(1) [OF r] and t = rc_readyD(2) [OF r] and none = rc_readyD(3) [OF r] and ab = rc_readyD(4) [OF r]
  show ?thesis
  proof (cases "svars s (Var v) = None \<and> svars s (Var w) \<noteq> None")
    case True
    then obtain c where c: "svars s (Var w) = Some c" by blast
    from True c have "StringPtr_move (Var v) (Var w) s = Inr (set_var (Var w) (Some null_string) (set_var (Var v) (Some c) s))"
      by (simp add: StringPtr_move_def fresh_var_def get_var_def)
    with move_ok [OF i _ c, of "Var v"] True t none ab show ?thesis
      by (auto simp: abs_of_def fun_eq_iff intro!: refinesI)
  qed (auto simp: StringPtr_move_def fresh_var_def get_var_def none refines_def)
qed

lemma Assign_copy_refines:
  assumes r: "rc_ready s"
  shows "refines (exec_op al (Assign_copy v w) s) (spec_op (Assign_copy v w) (abs_of s))"
proof -
  note i = rc_readyD(1) [OF r] and t = rc_readyD(2) [OF r] and none = rc_readyD(3) [OF r]
  show ?thesis
  proof (cases "svars s (Var v) \<noteq> None \<and> svars s (Var w) \<noteq> None")
    case True
    then obtain c d where c: "svars s (Var w) = Some c" and d: "svars s (Var v) = Some d" by blast
    show ?thesis
    proof (cases "v = w")
      case True
      then show ?thesis using d none r by (simp add: assign_copy_def get_var_def refines_def)
    next
      case False
      from copy_ok [OF i t c] obtain s1 where s1: "StringPtr_copy Temp (Var w) s = Inr s1" "rc_inv s1"
        "svars s1 = (svars s)(Temp \<mapsto> c)" "value_of s1 = (value_of s)(Temp := value_of s (Var w))" by blast
      from swap_destroy_ok [OF s1(2), of v d c] d s1(3) obtain s2 where
        s2: "StringPtr_destroy Temp (swap_vars (Var v) Temp s1) = Inr s2" "rc_inv s2" "svars s2 Temp = None"
        "value_of s2 = (value_of s1)(Var v := value_of s1 Temp, Temp := None)" by auto
      with s1 False none c d show ?thesis
        by (auto simp: assign_copy_def get_var_def abs_of_def fun_eq_iff intro!: refinesI)
    qed
  qed (auto simp: assign_copy_def StringPtr_copy_def fresh_var_def get_var_def none refines_def t split: option.splits)
qed

lemma Assign_move_refines:
  assumes r: "rc_ready s"
  shows "refines (exec_op al (Assign_move v w) s) (spec_op (Assign_move v w) (abs_of s))"
proof -
  note i = rc_readyD(1) [OF r] and t = rc_readyD(2) [OF r] and none = rc_readyD(3) [OF r]
  show ?thesis
  proof (cases "svars s (Var v) \<noteq> None \<and> svars s (Var w) \<noteq> None")
    case True
    then obtain c d where c: "svars s (Var w) = Some c" and d: "svars s (Var v) = Some d" by blast
    show ?thesis
    proof (cases "v = w")
      case True
      then show ?thesis using d none r by (simp add: assign_move_def get_var_def refines_def)
    next
      case False
      from release_ok [OF i d] obtain s1 where s1: "release (Var v) s = Inr s1" "rc_inv (set_var (Var v) None s1)"
        "svars s1 = svars s" "\<forall>u. u \<noteq> Var v \<longrightarrow> value_of s1 u = value_of s u" by blast
      let ?s2 = "set_var (Var w) (Some null_string) (set_var (Var v) (Some c) (set_var (Var v) None s1))"
      have "assign_move (Var v) (Var w) s = Inr ?s2"
        using False c d s1(1) by (simp add: assign_move_def get_var_def)
      moreover have "svars (set_var (Var v) None s1) (Var w) = Some c" using c s1(3) False by simp
      note m = move_ok [OF s1(2) _ this, of "Var v"]
      have "value_of ?s2 = (value_of s)(Var v := value_of s (Var w), Var w := Some None)"
        using m(2) s1(4) False by (auto simp: fun_eq_iff value_of_set_var)
      ultimately show ?thesis using m(1) s1(3) t False none c d
        by (auto simp: abs_of_def fun_eq_iff intro!: refinesI)
    qed
  qed (auto simp: assign_move_def get_var_def none refines_def split: option.splits)
qed

lemma Assign_str_refines:
  assumes r: "rc_ready s" and a: "aalloc_ok al"
  shows "refines (exec_op al (Assign_str v str) s) (spec_op (Assign_str v str) (abs_of s))"
proof -
  note i = rc_readyD(1) [OF r] and t = rc_readyD(2) [OF r] and none = rc_readyD(3) [OF r]
  show ?thesis
  proof (cases "svars s (Var v)")
    case (Some d)
    show ?thesis
    proof (cases "StringPtr_of al Temp str s")
      case (Inl e)
      then have "e = NullWrite \<or> e = BufferOverflow"
        by (auto simp: StringPtr_of_def fresh_var_def t rc_bind_def Let_def split: sum.splits dest: CString_new_errors)
      then show ?thesis using Inl Some by (auto simp: assign_str_def get_var_def refines_def)
    next
      case (Inr s1)
      note o = of_ok [OF i t a Inr]
      then obtain c where "svars s1 Temp = Some c" by auto
      from swap_destroy_ok [OF o(1) _ this, of v d] o(2) Some obtain s2 where
        "StringPtr_destroy Temp (swap_vars (Var v) Temp s1) = Inr s2" "rc_inv s2" "svars s2 Temp = None"
        "value_of s2 = (value_of s1)(Var v := value_of s1 Temp, Temp := None)" by auto
      with Inr Some o(3) none show ?thesis
        by (auto simp: assign_str_def get_var_def abs_of_def fun_eq_iff intro!: refinesI)
    qed
  qed (simp add: assign_str_def get_var_def none refines_def)
qed

lemma Destroy_refines:
  assumes r: "rc_ready s"
  shows "refines (exec_op al (Destroy v) s) (spec_op (Destroy v) (abs_of s))"
proof -
  note i = rc_readyD(1) [OF r] and t = rc_readyD(2) [OF r] and none = rc_readyD(3) [OF r]
  show ?thesis
  proof (cases "svars s (Var v)")
    case (Some c)
    from destroy_ok [OF i Some] t none Some show ?thesis by (auto simp: refines_def rc_ready_def)
  qed (simp add: StringPtr_destroy_def release_def get_var_def none refines_def)
qed

lemma exec_op_refines:
  assumes "rc_ready s" and "aalloc_ok al"
  shows "refines (exec_op al x s) (spec_op x (abs_of s))"
  by (cases x) (simp_all only: Default_refines [OF assms(1)] Of_refines [OF assms] Copy_refines [OF assms(1)]
      Move_refines [OF assms(1)] Assign_copy_refines [OF assms(1)] Assign_move_refines [OF assms(1)]
      Assign_str_refines [OF assms] Destroy_refines [OF assms(1)])

lemma exec_ops_refines: "rc_ready s \<Longrightarrow> aalloc_ok al \<Longrightarrow> refines (exec_ops al xs s) (spec_ops xs (abs_of s))"
proof (induction xs arbitrary: s)
  case (Cons x xs)
  note x = exec_op_refines [OF Cons.prems, of x]
  show ?case
  proof (cases "exec_op al x s")
    case (Inl e)
    with x show ?thesis by (auto simp: refines_def)
  next
    case (Inr s1)
    with x have "rc_ready s1" "spec_op x (abs_of s) = Some (abs_of s1)" by (simp_all add: refines_def)
    with Cons.IH [OF this(1) Cons.prems(2)] Inr show ?thesis by simp
  qed
qed (simp add: refines_def)

lemma rc_ready_init: "rc_ready rc_init" "abs_of rc_init = (\<lambda>_. None)"
  by (simp_all add: rc_ready_def rc_inv_init abs_of_def value_of_eq fun_eq_iff) (simp_all add: rc_init_def)

end
