(* ===== verification/ParallelCopy.thy ===== *)
theory ParallelCopy
  imports Prelude
begin

text \<open>
  10-parallel-memcpy (src/main.cpp): a thread pool that copies a region of memory in blocks. The caller
  and the workers are the processes of a step relation; what a thread does under the mutex is one step,
  as is each \<open>memcpy\<close>. A worker sleeps in \<open>worker_cv.wait\<close> until it is notified, or without a reason, as
  condition variables may; the parameter \<open>spurious\<close> says whether that happens. The caller sleeps in
  \<open>receiver_cv.wait\<close> likewise, until a worker that is done notifies it. The destructor of the pool is in
  PoolShutdown; the unused queue of tasks and the time measurements are left out.
\<close>

section \<open>The blocks\<close>

definition block_size :: "u64 \<Rightarrow> u64 \<Rightarrow> u64" where
  "block_size sz threads = max 1024 ((sz + threads) div (threads + 1))"

definition tasks_num :: "u64 \<Rightarrow> u64 \<Rightarrow> u64" where
  "tasks_num sz threads = (let bs = block_size sz threads in (sz + bs - 1) div bs)"

text \<open>Offset and length of the block \<open>i\<close>.\<close>

definition task_offset :: "u64 \<Rightarrow> u64 \<Rightarrow> u64 \<Rightarrow> u64" where
  "task_offset sz threads i = block_size sz threads * i"

definition task_size :: "u64 \<Rightarrow> u64 \<Rightarrow> u64 \<Rightarrow> u64" where
  "task_size sz threads i = min (sz - i * block_size sz threads) (block_size sz threads)"

type_synonym memory64 = "u64 \<Rightarrow> u8"

definition memcpy :: "u64 \<Rightarrow> u64 \<Rightarrow> u64 \<Rightarrow> memory64 \<Rightarrow> memory64" where
  "memcpy dst src n m = (\<lambda>x. if x - dst < n then m (src + (x - dst)) else m x)"

section \<open>The pool\<close>

datatype worker_pc = Starting | Sleeping | Woken | Copying | Copied
datatype caller_pc = Calling | Stored | Own_block | Awaiting | Blocked | Returned

record pool =
  pmem :: memory64
  thread_dst :: "nat \<Rightarrow> u64"
  thread_src :: "nat \<Rightarrow> u64"
  thread_size :: "nat \<Rightarrow> u64"
  alive_threads :: u64
  waiting_for :: u64
  wpc :: "nat \<Rightarrow> worker_pc"
  cpc :: caller_pc

text \<open>The arguments of a call, after \<open>threads_num\<close> has been bounded by the number of workers.\<close>

record call =
  c_workers :: nat
  c_dst :: u64
  c_src :: u64
  c_size :: u64
  c_threads :: u64

definition bounded_threads :: "nat \<Rightarrow> u64 \<Rightarrow> u64" where
  "bounded_threads workers threads_num = min (word_of_nat workers) threads_num"

definition set_worker :: "nat \<Rightarrow> worker_pc \<Rightarrow> pool \<Rightarrow> pool" where
  "set_worker i pc s = s\<lparr>wpc := (wpc s)(i := pc)\<rparr>"

text \<open>\<open>receiver_cv.notify_one\<close>: the caller is the only thread that waits there. A notification that finds
  nobody waiting is lost.\<close>

definition notify_receiver :: "pool \<Rightarrow> pool" where
  "notify_receiver s = (if cpc s = Blocked then s\<lparr>cpc := Awaiting\<rparr> else s)"

text \<open>What the caller does before it releases the mutex.\<close>

definition publish :: "call \<Rightarrow> pool \<Rightarrow> pool" where
  "publish c s = (let n = tasks_num (c_size c) (c_threads c);
       mine = (\<lambda>i. i + 1 < unat n);
       off = (\<lambda>i. task_offset (c_size c) (c_threads c) (word_of_nat i)) in
     s\<lparr>waiting_for := n - 1,
       thread_dst := (\<lambda>i. if mine i then c_dst c + off i else thread_dst s i),
       thread_src := (\<lambda>i. if mine i then c_src c + off i else thread_src s i),
       thread_size := (\<lambda>i. if mine i then task_size (c_size c) (c_threads c) (word_of_nat i) else thread_size s i),
       wpc := (\<lambda>i. if 1 < n \<and> wpc s i = Sleeping then Woken else wpc s i),
       cpc := Own_block\<rparr>)"

definition copy_own_block :: "call \<Rightarrow> pool \<Rightarrow> pool" where
  "copy_own_block c s = (let last = tasks_num (c_size c) (c_threads c) - 1;
       off = task_offset (c_size c) (c_threads c) last in
     s\<lparr>pmem := memcpy (c_dst c + off) (c_src c + off) (task_size (c_size c) (c_threads c) last) (pmem s),
       cpc := Awaiting\<rparr>)"

inductive pool_step :: "bool \<Rightarrow> call \<Rightarrow> pool \<Rightarrow> pool \<Rightarrow> bool" for spurious c where
  starts: "i < c_workers c \<Longrightarrow> wpc s i = Starting \<Longrightarrow> pool_step spurious c s (set_worker i Sleeping s)"
| wakes_up: "i < c_workers c \<Longrightarrow> spurious \<Longrightarrow> wpc s i = Sleeping \<Longrightarrow> pool_step spurious c s (set_worker i Woken s)"
| takes_task: "i < c_workers c \<Longrightarrow> wpc s i = Woken \<Longrightarrow>
     pool_step spurious c s (set_worker i (if alive_threads s \<le> word_of_nat i then Sleeping else Copying) s)"
| copies: "i < c_workers c \<Longrightarrow> wpc s i = Copying \<Longrightarrow>
     pool_step spurious c s (set_worker i Copied
       (s\<lparr>pmem := memcpy (thread_dst s i) (thread_src s i) (thread_size s i) (pmem s)\<rparr>))"
| reports: "i < c_workers c \<Longrightarrow> wpc s i = Copied \<Longrightarrow>
     pool_step spurious c s (notify_receiver (set_worker i Sleeping (s\<lparr>waiting_for := waiting_for s - 1\<rparr>)))"
| stores: "cpc s = Calling \<Longrightarrow> pool_step spurious c s (s\<lparr>alive_threads := c_threads c, cpc := Stored\<rparr>)"
| publishes: "cpc s = Stored \<Longrightarrow> pool_step spurious c s (publish c s)"
| own_block: "cpc s = Own_block \<Longrightarrow> pool_step spurious c s (copy_own_block c s)"
| waits: "cpc s = Awaiting \<Longrightarrow> 1 < tasks_num (c_size c) (c_threads c) \<and> waiting_for s \<noteq> 0 \<Longrightarrow>
     pool_step spurious c s (s\<lparr>cpc := Blocked\<rparr>)"
| caller_wakes: "spurious \<Longrightarrow> cpc s = Blocked \<Longrightarrow> pool_step spurious c s (s\<lparr>cpc := Awaiting\<rparr>)"
| returns: "cpc s = Awaiting \<Longrightarrow> \<not> (1 < tasks_num (c_size c) (c_threads c) \<and> waiting_for s \<noteq> 0) \<Longrightarrow>
     pool_step spurious c s (s\<lparr>cpc := Returned\<rparr>)"

inductive pool_reaches :: "bool \<Rightarrow> call \<Rightarrow> pool \<Rightarrow> pool \<Rightarrow> bool" for spurious c s where
  begin': "pool_reaches spurious c s s"
| more: "pool_reaches spurious c s s' \<Longrightarrow> pool_step spurious c s' s'' \<Longrightarrow> pool_reaches spurious c s s''"

inductive_cases pool_stepE: "pool_step spurious c s s'"

section \<open>The blocks tile the region\<close>

lemma block_size_nat:
  assumes "unat sz + unat threads < 4611686018427387904"
  shows "unat (block_size sz threads) = max 1024 ((unat sz + unat threads) div (unat threads + 1))"
proof -
  have "unat (threads + 1) = unat threads + 1" "unat (sz + threads) = unat sz + unat threads"
    using assms by (simp_all add: unat_word_ariths)
  then have "unat ((sz + threads) div (threads + 1)) = (unat sz + unat threads) div (unat threads + 1)"
    by (simp add: unat_div_distrib)
  then show ?thesis by (auto simp: block_size_def max_def word_le_nat_alt)
qed

lemma ceiling_div: "0 < (b :: nat) \<Longrightarrow> n \<le> b * ((n + b - 1) div b)"
proof -
  assume b: "0 < b"
  have "(n + b - 1) mod b < b" using b by simp
  with mult_div_mod_eq [of b "n + b - 1"] b show ?thesis by linarith
qed

lemma block_facts:
  assumes s: "0 < unat sz" and n: "unat sz + unat threads < 4611686018427387904"
  shows "1024 \<le> unat (block_size sz threads)" "unat (block_size sz threads) \<le> unat sz + 1024"
    "unat sz \<le> unat (block_size sz threads) * (unat threads + 1)"
proof -
  note b = block_size_nat [OF n]
  show "1024 \<le> unat (block_size sz threads)" unfolding b by simp
  have "(unat sz + unat threads) div (unat threads + 1) < unat sz + 1"
    using s by (simp add: div_less_iff_less_mult algebra_simps)
  then show "unat (block_size sz threads) \<le> unat sz + 1024" unfolding b by simp
  have "unat sz \<le> (unat threads + 1) * ((unat sz + (unat threads + 1) - 1) div (unat threads + 1))"
    by (rule ceiling_div) simp
  also have "\<dots> \<le> (unat threads + 1) * unat (block_size sz threads)" unfolding b by (intro mult_le_mono2) simp
  finally show "unat sz \<le> unat (block_size sz threads) * (unat threads + 1)" by (simp add: mult.commute)
qed

lemma tasks_facts:
  assumes s: "0 < unat sz" and n: "unat sz + unat threads < 4611686018427387904"
  defines "B \<equiv> unat (block_size sz threads)" and "N \<equiv> unat (tasks_num sz threads)"
  shows "N = (unat sz + B - 1) div B" "0 < N" "N \<le> unat threads + 1" "unat sz \<le> B * N" "B * (N - 1) < unat sz"
proof -
  note b = block_facts [OF s n, folded B_def]
  have u: "unat (sz + block_size sz threads - 1) = unat sz + B - 1"
  proof -
    have a: "unat (sz + block_size sz threads) = unat sz + B"
      using b(2) s n by (simp add: unat_word_ariths B_def [symmetric])
    then have "(1 :: u64) \<le> sz + block_size sz threads" using b(1) by (simp add: word_le_nat_alt)
    then show ?thesis by (simp add: unat_sub a)
  qed
  show N: "N = (unat sz + B - 1) div B"
    unfolding N_def tasks_num_def Let_def unat_div_distrib u by (simp add: B_def)
  show "unat sz \<le> B * N" unfolding N by (rule ceiling_div) (use b in simp)
  then show "0 < N" using s by (cases N) auto
  have "B * N \<le> unat sz + B - 1" unfolding N by (rule times_div_less_eq_dividend)
  then show lt: "B * (N - 1) < unat sz" using \<open>0 < N\<close> s b by (simp add: diff_mult_distrib2)
  have "B * (N - 1) < B * (unat threads + 1)" using lt b(3) by (rule less_le_trans)
  then have "N - 1 < unat threads + 1" by (rule mult_left_less_imp_less) simp
  then show "N \<le> unat threads + 1" by simp
qed

lemma task_facts:
  assumes s: "0 < unat sz" and n: "unat sz + unat threads < 4611686018427387904"
    and i: "i < unat (tasks_num sz threads)"
  shows "unat (task_offset sz threads (word_of_nat i)) = unat (block_size sz threads) * i"
    "unat (task_size sz threads (word_of_nat i)) = min (unat sz - unat (block_size sz threads) * i) (unat (block_size sz threads))"
    "unat (block_size sz threads) * i < unat sz"
proof -
  let ?B = "unat (block_size sz threads)"
  note t = tasks_facts [OF s n]
  have "?B * i \<le> ?B * (unat (tasks_num sz threads) - 1)" using i by (intro mult_le_mono) simp_all
  then show lt: "?B * i < unat sz" using t(5) by linarith
  have iu: "unat (word_of_nat i :: u64) = i"
    using i unsigned_less [where 'a = nat, of "tasks_num sz threads"] by (simp add: unat_of_nat)
  have m: "unat (block_size sz threads * word_of_nat i) = ?B * i"
    using lt n by (simp add: unat_word_ariths iu mod_less)
  then show "unat (task_offset sz threads (word_of_nat i)) = ?B * i" by (simp add: task_offset_def)
  have "unat (sz - word_of_nat i * block_size sz threads) = unat sz - ?B * i"
    using m lt by (simp add: unat_sub word_le_nat_alt mult.commute)
  then show "unat (task_size sz threads (word_of_nat i)) = min (unat sz - ?B * i) ?B"
    by (auto simp: task_size_def min_def word_le_nat_alt)
qed

text \<open>Every byte of the region lies in the block that division gives, and in no other.\<close>

lemma in_task_iff:
  assumes s: "0 < unat sz" and n: "unat sz + unat threads < 4611686018427387904"
    and i: "i < unat (tasks_num sz threads)" and k: "k < sz"
  shows "k - task_offset sz threads (word_of_nat i) < task_size sz threads (word_of_nat i) \<longleftrightarrow>
    unat k div unat (block_size sz threads) = i"
proof -
  let ?B = "unat (block_size sz threads)" and ?o = "task_offset sz threads (word_of_nat i)"
  note f = task_facts [OF s n i]
  have B: "0 < ?B" using block_facts(1) [OF s n] by simp
  have ks: "unat k < unat sz" using k by (simp add: word_less_nat_alt)
  have "unat k div ?B = i \<longleftrightarrow> ?B * i \<le> unat k \<and> unat k < ?B * i + ?B"
  proof
    assume "unat k div ?B = i"
    with times_div_less_eq_dividend [of ?B "unat k"] dividend_less_times_div [OF B, of "unat k"]
    show "?B * i \<le> unat k \<and> unat k < ?B * i + ?B" by simp
  next
    assume "?B * i \<le> unat k \<and> unat k < ?B * i + ?B"
    then show "unat k div ?B = i" by (intro div_nat_eqI) (simp_all add: mult.commute)
  qed
  moreover have "k - ?o < task_size sz threads (word_of_nat i) \<longleftrightarrow> ?B * i \<le> unat k \<and> unat k < ?B * i + ?B"
  proof (cases "?o \<le> k")
    case True
    then have "unat (k - ?o) = unat k - ?B * i" "?B * i \<le> unat k" using f(1) by (simp_all add: unat_sub word_le_nat_alt)
    then show ?thesis using f ks by (auto simp: word_less_nat_alt)
  next
    case False
    then have lt: "unat k < ?B * i" using f(1) by (simp add: word_le_nat_alt)
    then have "unat (k - ?o) = 2 ^ 64 + unat k - ?B * i" using f(1) False by (simp add: unat_sub_if' word_le_nat_alt)
    then have "unat sz - ?B * i \<le> unat (k - ?o)" using unsigned_less [where 'a = nat, of sz] f(3) by simp
    then show ?thesis using f(2) lt by (simp add: word_less_nat_alt)
  qed
  ultimately show ?thesis by simp
qed

lemma task_exists:
  assumes s: "0 < unat sz" and n: "unat sz + unat threads < 4611686018427387904" and k: "k < sz"
  shows "unat k div unat (block_size sz threads) < unat (tasks_num sz threads)"
proof -
  have "unat k < unat (block_size sz threads) * unat (tasks_num sz threads)"
    using k tasks_facts(4) [OF s n] by (simp add: word_less_nat_alt)
  then show ?thesis by (simp add: less_mult_imp_div_less mult.commute)
qed

section \<open>A call that uses every worker it asks for\<close>

definition ready_to_copy :: "call \<Rightarrow> pool \<Rightarrow> bool" where
  "ready_to_copy c s \<longleftrightarrow> cpc s = Calling \<and> (\<forall>i < c_workers c. wpc s i = Sleeping)"

definition regions_apart :: "call \<Rightarrow> bool" where
  "regions_apart c \<longleftrightarrow> unat (c_dst c) + unat (c_size c) \<le> 2 ^ 64 \<and> unat (c_src c) + unat (c_size c) \<le> 2 ^ 64 \<and>
     (unat (c_dst c) + unat (c_size c) \<le> unat (c_src c) \<or> unat (c_src c) + unat (c_size c) \<le> unat (c_dst c))"

text \<open>Every thread that the caller asks for has a block, and the caller has the last one.\<close>

definition well_split :: "call \<Rightarrow> bool" where
  "well_split c \<longleftrightarrow> 0 < c_size c \<and> unat (c_size c) + unat (c_threads c) < 4611686018427387904 \<and>
     tasks_num (c_size c) (c_threads c) = c_threads c + 1 \<and> unat (c_threads c) \<le> c_workers c \<and> c_workers c < 2 ^ 64"

definition task_of :: "call \<Rightarrow> u64 \<Rightarrow> nat" where
  "task_of c k = unat k div unat (block_size (c_size c) (c_threads c))"

definition block_copied :: "call \<Rightarrow> memory64 \<Rightarrow> nat \<Rightarrow> memory64 \<Rightarrow> bool" where
  "block_copied c m0 i m \<longleftrightarrow> (\<forall>k < c_size c. task_of c k = i \<longrightarrow> m (c_dst c + k) = m0 (c_src c + k))"

definition source_kept :: "call \<Rightarrow> memory64 \<Rightarrow> memory64 \<Rightarrow> bool" where
  "source_kept c m0 m \<longleftrightarrow> (\<forall>k < c_size c. m (c_src c + k) = m0 (c_src c + k))"

definition call_offset :: "call \<Rightarrow> nat \<Rightarrow> u64" where
  "call_offset c i = task_offset (c_size c) (c_threads c) (word_of_nat i)"

definition call_length :: "call \<Rightarrow> nat \<Rightarrow> u64" where
  "call_length c i = task_size (c_size c) (c_threads c) (word_of_nat i)"

definition busy :: "call \<Rightarrow> (nat \<Rightarrow> worker_pc) \<Rightarrow> nat set" where
  "busy c w = {i. i < unat (c_threads c) \<and> w i \<noteq> Sleeping}"

definition before_publish :: "call \<Rightarrow> pool \<Rightarrow> bool" where
  "before_publish c s \<longleftrightarrow> (cpc s = Calling \<or> cpc s = Stored \<and> alive_threads s = c_threads c) \<and>
     (\<forall>i < c_workers c. wpc s i = Sleeping)"

definition tasks_stored :: "call \<Rightarrow> pool \<Rightarrow> bool" where
  "tasks_stored c s \<longleftrightarrow> (\<forall>i < unat (c_threads c). thread_dst s i = c_dst c + call_offset c i \<and>
     thread_src s i = c_src c + call_offset c i \<and> thread_size s i = call_length c i)"

definition workers_ok :: "call \<Rightarrow> memory64 \<Rightarrow> memory64 \<Rightarrow> (nat \<Rightarrow> worker_pc) \<Rightarrow> bool" where
  "workers_ok c m0 m w \<longleftrightarrow> (\<forall>i < c_workers c. w i \<noteq> Starting \<and>
     (i < unat (c_threads c) \<longrightarrow> w i = Copied \<or> w i = Sleeping \<longrightarrow> block_copied c m0 i m) \<and>
     (unat (c_threads c) \<le> i \<longrightarrow> w i = Sleeping \<or> w i = Woken))"

definition caller_ok :: "call \<Rightarrow> memory64 \<Rightarrow> pool \<Rightarrow> bool" where
  "caller_ok c m0 s \<longleftrightarrow> (case cpc s of Own_block \<Rightarrow> True
     | Awaiting \<Rightarrow> block_copied c m0 (unat (c_threads c)) (pmem s)
     | Blocked \<Rightarrow> block_copied c m0 (unat (c_threads c)) (pmem s) \<and> waiting_for s \<noteq> 0
     | Returned \<Rightarrow> block_copied c m0 (unat (c_threads c)) (pmem s) \<and> waiting_for s = 0 | _ \<Rightarrow> False)"

definition after_publish :: "call \<Rightarrow> memory64 \<Rightarrow> pool \<Rightarrow> bool" where
  "after_publish c m0 s \<longleftrightarrow> caller_ok c m0 s \<and> alive_threads s = c_threads c \<and> tasks_stored c s \<and>
     workers_ok c m0 (pmem s) (wpc s) \<and> waiting_for s = word_of_nat (card (busy c (wpc s)))"

definition copy_inv :: "call \<Rightarrow> memory64 \<Rightarrow> pool \<Rightarrow> bool" where
  "copy_inv c m0 s \<longleftrightarrow> source_kept c m0 (pmem s) \<and> (before_publish c s \<or> after_publish c m0 s)"

lemma well_splitD:
  assumes "well_split c"
  shows "0 < unat (c_size c)" "unat (c_size c) + unat (c_threads c) < 4611686018427387904"
    "unat (tasks_num (c_size c) (c_threads c)) = unat (c_threads c) + 1" "unat (c_threads c) \<le> c_workers c"
    "c_workers c < 2 ^ 64"
  using assms by (auto simp: well_split_def word_less_nat_alt unat_word_ariths)

text \<open>The effect of copying one block.\<close>

lemma regions_apart_neq:
  assumes "regions_apart c" and "j < c_size c" and "k < c_size c"
  shows "c_dst c + j \<noteq> c_src c + k"
proof
  assume q: "c_dst c + j = c_src c + k"
  have "unat (c_dst c + j) = unat (c_dst c) + unat j" "unat (c_src c + k) = unat (c_src c) + unat k"
    using assms by (auto simp: regions_apart_def word_less_nat_alt intro!: unat_add_lem [THEN iffD1])
  then show False using q assms by (auto simp: regions_apart_def word_less_nat_alt)
qed

lemma copy_block:
  fixes m :: memory64
  assumes w: "well_split c" and ap: "regions_apart c" and i: "i \<le> unat (c_threads c)" and k: "k < c_size c"
  defines "m' \<equiv> memcpy (c_dst c + call_offset c i) (c_src c + call_offset c i) (call_length c i) m"
  shows "m' (c_src c + k) = m (c_src c + k)"
    "m' (c_dst c + k) = (if task_of c k = i then m (c_src c + k) else m (c_dst c + k))"
proof -
  let ?o = "call_offset c i" and ?l = "call_length c i"
  note d = well_splitD [OF w]
  have i': "i < unat (tasks_num (c_size c) (c_threads c))" using i d(3) by simp
  have f: "unat ?o + unat ?l \<le> unat (c_size c)"
    using task_facts [OF d(1,2) i'] by (simp add: call_offset_def call_length_def)
  have inside: "?o + x < c_size c" if "x < ?l" for x
  proof -
    have "unat (?o + x) \<le> unat ?o + unat x" by (simp add: unat_word_ariths)
    then show ?thesis using that f by (simp add: word_less_nat_alt)
  qed
  have "\<not> c_src c + k - (c_dst c + ?o) < ?l"
  proof
    let ?j = "c_src c + k - (c_dst c + ?o)"
    assume "?j < ?l"
    from regions_apart_neq [OF ap inside [OF this] k] show False by simp
  qed
  then show "m' (c_src c + k) = m (c_src c + k)" by (simp add: m'_def memcpy_def)
  have "c_dst c + k - (c_dst c + ?o) = k - ?o" by simp
  moreover have "k - ?o < ?l \<longleftrightarrow> task_of c k = i"
    unfolding call_offset_def call_length_def task_of_def by (rule in_task_iff [OF d(1,2) i' k])
  ultimately show "m' (c_dst c + k) = (if task_of c k = i then m (c_src c + k) else m (c_dst c + k))"
    by (simp add: m'_def memcpy_def)
qed

lemma copy_block_effect:
  fixes m :: memory64
  assumes w: "well_split c" and ap: "regions_apart c" and i: "i \<le> unat (c_threads c)"
    and sk: "source_kept c m0 m"
  defines "m' \<equiv> memcpy (c_dst c + call_offset c i) (c_src c + call_offset c i) (call_length c i) m"
  shows "source_kept c m0 m'" "block_copied c m0 i m'" "block_copied c m0 j m \<Longrightarrow> block_copied c m0 j m'"
  using sk copy_block [OF w ap i, of _ m, folded m'_def] by (auto simp: source_kept_def block_copied_def)

lemma same_caller: "caller_ok c m0 (s\<lparr>wpc := w\<rparr>) \<longleftrightarrow> caller_ok c m0 s"
  by (simp add: caller_ok_def split: caller_pc.splits)

lemma inv_takes_task:
  assumes w: "well_split c" and inv: "after_publish c m0 s" and i: "i < c_workers c" and pc: "wpc s i = Woken"
  shows "after_publish c m0 (set_worker i (if alive_threads s \<le> word_of_nat i then Sleeping else Copying) s)"
proof -
  note d = well_splitD [OF w]
  have "unat (word_of_nat i :: u64) = i" using i d(5) by (simp add: unat_of_nat)
  then have a: "alive_threads s \<le> word_of_nat i \<longleftrightarrow> unat (c_threads c) \<le> i"
    using inv by (simp add: after_publish_def word_le_nat_alt)
  let ?w = "(wpc s)(i := if unat (c_threads c) \<le> i then Sleeping else Copying)"
  have "busy c ?w = busy c (wpc s)" using pc by (auto simp: busy_def)
  moreover have "workers_ok c m0 (pmem s) ?w" using inv by (auto simp: after_publish_def workers_ok_def)
  ultimately show ?thesis
    using inv unfolding after_publish_def set_worker_def a by (simp add: same_caller tasks_stored_def)
qed

lemma workers_ok_mem:
  "workers_ok c m0 m w \<Longrightarrow> (\<And>j. block_copied c m0 j m \<Longrightarrow> block_copied c m0 j m') \<Longrightarrow> workers_ok c m0 m' w"
  unfolding workers_ok_def by blast

lemma caller_ok_mem:
  "caller_ok c m0 s \<Longrightarrow> (\<And>j. block_copied c m0 j (pmem s) \<Longrightarrow> block_copied c m0 j m') \<Longrightarrow>
     caller_ok c m0 (s\<lparr>pmem := m'\<rparr>)"
  by (auto simp: caller_ok_def split: caller_pc.splits)

lemma inv_copies:
  assumes w: "well_split c" and ap: "regions_apart c" and sk: "source_kept c m0 (pmem s)"
    and inv: "after_publish c m0 s" and i: "i < c_workers c" and pc: "wpc s i = Copying"
  defines "m' \<equiv> memcpy (thread_dst s i) (thread_src s i) (thread_size s i) (pmem s)"
  shows "source_kept c m0 m'" "after_publish c m0 (set_worker i Copied (s\<lparr>pmem := m'\<rparr>))"
proof -
  have lt: "i < unat (c_threads c)"
    using inv i pc unfolding after_publish_def workers_ok_def by (metis linorder_not_less worker_pc.distinct)
  then have m': "m' = memcpy (c_dst c + call_offset c i) (c_src c + call_offset c i) (call_length c i) (pmem s)"
    using inv by (simp add: m'_def after_publish_def tasks_stored_def)
  note e = copy_block_effect [OF w ap _ sk, of i, folded m'] and lt' = less_imp_le [OF lt]
  show "source_kept c m0 m'" by (rule e(1) [OF lt'])
  have "busy c ((wpc s)(i := Copied)) = busy c (wpc s)" using pc by (auto simp: busy_def)
  moreover have "workers_ok c m0 m' (wpc s)"
    by (rule workers_ok_mem [of _ _ "pmem s"]) (use inv e(3) [OF lt'] in \<open>auto simp: after_publish_def\<close>)
  then have "workers_ok c m0 m' ((wpc s)(i := Copied))"
    using e(2) [OF lt'] lt by (simp add: workers_ok_def)
  moreover have "caller_ok c m0 (s\<lparr>pmem := m'\<rparr>)"
    by (rule caller_ok_mem) (use inv e(3) [OF lt'] in \<open>auto simp: after_publish_def\<close>)
  ultimately show "after_publish c m0 (set_worker i Copied (s\<lparr>pmem := m'\<rparr>))"
    using inv by (simp add: after_publish_def set_worker_def tasks_stored_def same_caller)
qed

lemma card_busy:
  assumes "well_split c" and "after_publish c m0 s"
  shows "unat (waiting_for s) = card (busy c (wpc s))"
proof -
  have "card (busy c (wpc s)) \<le> card {..< unat (c_threads c)}" by (rule card_mono) (auto simp: busy_def)
  then have "card (busy c (wpc s)) < 2 ^ 64" using unsigned_less [where 'a = nat, of "c_threads c"] by simp
  then show ?thesis using assms(2) by (simp add: after_publish_def unat_of_nat del: word_of_nat_eq_0_iff)
qed

lemma inv_reports:
  assumes w: "well_split c" and inv: "after_publish c m0 s" and i: "i < c_workers c" and pc: "wpc s i = Copied"
  shows "after_publish c m0 (notify_receiver (set_worker i Sleeping (s\<lparr>waiting_for := waiting_for s - 1\<rparr>)))"
proof -
  have lt: "i < unat (c_threads c)"
    using inv i pc unfolding after_publish_def workers_ok_def by (metis linorder_not_less worker_pc.distinct)
  have b: "busy c ((wpc s)(i := Sleeping)) = busy c (wpc s) - {i}" by (auto simp: busy_def)
  have mem: "i \<in> busy c (wpc s)" and fin: "finite (busy c (wpc s))" using lt pc by (auto simp: busy_def)
  have c: "card (busy c (wpc s)) = Suc (card (busy c (wpc s) - {i}))" using card.remove [OF fin mem] .
  note card_busy [OF w inv]
  then have "waiting_for s \<noteq> 0" using c by auto
  then have "caller_ok c m0 (notify_receiver (set_worker i Sleeping (s\<lparr>waiting_for := waiting_for s - 1\<rparr>)))"
    using inv by (auto simp: after_publish_def set_worker_def notify_receiver_def caller_ok_def split: caller_pc.splits)
  moreover have "workers_ok c m0 (pmem s) ((wpc s)(i := Sleeping))"
    using inv pc i by (auto simp: after_publish_def workers_ok_def)
  ultimately show ?thesis using inv
    unfolding after_publish_def by (simp add: set_worker_def notify_receiver_def tasks_stored_def b c)
qed

lemma inv_publish:
  assumes w: "well_split c" and inv: "before_publish c s" and pc: "cpc s = Stored"
  shows "after_publish c m0 (publish c s)"
proof -
  note d = well_splitD [OF w]
  have n: "tasks_num (c_size c) (c_threads c) = c_threads c + 1" using w by (simp add: well_split_def)
  have one: "1 < c_threads c + 1 \<longleftrightarrow> 0 < unat (c_threads c)" using d(3) n by (simp add: word_less_nat_alt)
  have nm: "Suc i < unat (c_threads c + 1) \<longleftrightarrow> i < unat (c_threads c)" for i using d(3) n by simp
  let ?w = "\<lambda>i. if 1 < c_threads c + 1 \<and> wpc s i = Sleeping then Woken else wpc s i"
  have "busy c ?w = {..< unat (c_threads c)}" using inv d(4) by (auto simp: busy_def before_publish_def one)
  then have "word_of_nat (card (busy c ?w)) = c_threads c" by simp
  moreover have "workers_ok c m0 (pmem s) ?w"
    using inv d(4) by (auto simp: workers_ok_def before_publish_def one)
  ultimately show ?thesis using inv pc
    by (auto simp: publish_def after_publish_def caller_ok_def tasks_stored_def before_publish_def n nm Let_def
        call_offset_def call_length_def)
qed

lemma inv_own_block:
  assumes w: "well_split c" and ap: "regions_apart c" and sk: "source_kept c m0 (pmem s)"
    and inv: "after_publish c m0 s" and pc: "cpc s = Own_block"
  shows "source_kept c m0 (pmem (copy_own_block c s))" "after_publish c m0 (copy_own_block c s)"
proof -
  let ?n = "unat (c_threads c)"
  let ?m = "memcpy (c_dst c + call_offset c ?n) (c_src c + call_offset c ?n) (call_length c ?n) (pmem s)"
  have n: "tasks_num (c_size c) (c_threads c) = c_threads c + 1" using w by (simp add: well_split_def)
  have s': "copy_own_block c s = s\<lparr>pmem := ?m, cpc := Awaiting\<rparr>"
    by (simp add: copy_own_block_def n Let_def call_offset_def call_length_def)
  note e = copy_block_effect [OF w ap le_refl sk]
  show "source_kept c m0 (pmem (copy_own_block c s))" using e(1) by (simp add: s')
  have "workers_ok c m0 ?m (wpc s)"
    by (rule workers_ok_mem [of _ _ "pmem s"]) (use inv e(3) in \<open>auto simp: after_publish_def\<close>)
  then show "after_publish c m0 (copy_own_block c s)"
    using inv e(2) by (simp add: after_publish_def s' caller_ok_def tasks_stored_def)
qed

lemma inv_returns:
  assumes w: "well_split c" and inv: "after_publish c m0 s" and pc: "cpc s = Awaiting"
    and r: "\<not> (1 < tasks_num (c_size c) (c_threads c) \<and> waiting_for s \<noteq> 0)"
  shows "after_publish c m0 (s\<lparr>cpc := Returned\<rparr>)"
proof -
  have n: "tasks_num (c_size c) (c_threads c) = c_threads c + 1" using w by (simp add: well_split_def)
  have "waiting_for s = 0"
  proof (cases "c_threads c = 0")
    case True
    then have "busy c (wpc s) = {}" by (simp add: busy_def)
    then show ?thesis using inv by (simp add: after_publish_def)
  next
    case False
    then have "1 < c_threads c + 1" using well_splitD(3) [OF w] n by (simp add: word_less_nat_alt unat_gt_0)
    then show ?thesis using r n by simp
  qed
  then show ?thesis using inv pc by (simp add: after_publish_def caller_ok_def tasks_stored_def)
qed

lemma inv_waits:
  assumes inv: "after_publish c m0 s" and pc: "cpc s = Awaiting" and "waiting_for s \<noteq> 0"
  shows "after_publish c m0 (s\<lparr>cpc := Blocked\<rparr>)"
  using assms by (simp add: after_publish_def caller_ok_def tasks_stored_def)

lemma copy_inv_step:
  assumes w: "well_split c" and ap: "regions_apart c" and inv: "copy_inv c m0 s" and st: "pool_step False c s s'"
  shows "copy_inv c m0 s'"
proof -
  have sk: "source_kept c m0 (pmem s)" using inv by (simp add: copy_inv_def)
  from inv consider (before) "before_publish c s" | (after) "after_publish c m0 s" by (auto simp: copy_inv_def)
  then show ?thesis
  proof cases
    case before
    then have "s' = s\<lparr>alive_threads := c_threads c, cpc := Stored\<rparr> \<or> cpc s = Stored \<and> s' = publish c s"
      using st by (auto simp: before_publish_def elim: pool_stepE)
    then show ?thesis
    proof
      assume s': "s' = s\<lparr>alive_threads := c_threads c, cpc := Stored\<rparr>"
      show ?thesis using before sk unfolding copy_inv_def s' by (simp add: before_publish_def)
    next
      assume p: "cpc s = Stored \<and> s' = publish c s"
      then have "pmem s' = pmem s" by (simp add: publish_def Let_def)
      then show ?thesis using sk inv_publish [OF w before, of m0] p by (simp add: copy_inv_def)
    qed
  next
    case after
    then have "cpc s \<noteq> Calling" "cpc s \<noteq> Stored" "\<And>i. i < c_workers c \<Longrightarrow> wpc s i \<noteq> Starting"
      by (auto simp: after_publish_def caller_ok_def workers_ok_def)
    with st show ?thesis
    proof (cases rule: pool_step.cases)
      case (takes_task i)
      then show ?thesis using sk inv_takes_task [OF w after] by (simp add: copy_inv_def set_worker_def)
    next
      case (copies i)
      then show ?thesis using inv_copies [OF w ap sk after] by (simp add: copy_inv_def set_worker_def)
    next
      case (reports i)
      have "pmem s' = pmem s" unfolding reports(1) by (simp add: notify_receiver_def set_worker_def)
      then show ?thesis using sk inv_reports [OF w after reports(2,3)] reports(1) by (simp add: copy_inv_def)
    next
      case waits
      then show ?thesis using sk inv_waits [OF after] by (simp add: copy_inv_def)
    next
      case own_block
      then show ?thesis using inv_own_block [OF w ap sk after] by (simp add: copy_inv_def)
    next
      case returns
      then show ?thesis using sk inv_returns [OF w after] by (simp add: copy_inv_def)
    qed simp_all
  qed
qed

lemma copy_inv_reaches:
  assumes "pool_reaches False c s s'" and "well_split c" and "regions_apart c" and "ready_to_copy c s"
  shows "copy_inv c (pmem s) s'"
  using assms
proof (induction rule: pool_reaches.induct)
  case begin'
  then show ?case by (simp add: copy_inv_def source_kept_def before_publish_def ready_to_copy_def)
next
  case (more s' s'')
  then show ?case using copy_inv_step by blast
qed

lemma copy_inv_returned:
  assumes w: "well_split c" and inv: "copy_inv c m0 s" and r: "cpc s = Returned" and k: "k < c_size c"
  shows "pmem s (c_dst c + k) = m0 (c_src c + k)"
proof -
  note d = well_splitD [OF w]
  have a: "after_publish c m0 s" using inv r by (auto simp: copy_inv_def before_publish_def)
  have co: "block_copied c m0 (unat (c_threads c)) (pmem s)" and z: "waiting_for s = 0"
    using a r by (auto simp: after_publish_def caller_ok_def)
  have "busy c (wpc s) = {}" using card_busy [OF w a] z by (simp add: busy_def)
  then have "block_copied c m0 i (pmem s)" if "i \<le> unat (c_threads c)" for i
    using that a d(4) co by (cases "i = unat (c_threads c)") (auto simp: busy_def after_publish_def workers_ok_def)
  moreover have "task_of c k \<le> unat (c_threads c)"
    using task_exists [OF d(1,2) k] d(3) by (simp add: task_of_def)
  ultimately have "block_copied c m0 (task_of c k) (pmem s)" .
  then show ?thesis using k by (simp add: block_copied_def)
qed

text \<open>The call makes progress: until it returns some thread can take a step, and every step that is
  not a spurious wakeup brings the end nearer.\<close>

fun worker_weight :: "worker_pc \<Rightarrow> nat" where
  "worker_weight Starting = 1"
| "worker_weight Sleeping = 0"
| "worker_weight Woken = 4"
| "worker_weight Copying = 3"
| "worker_weight Copied = 2"

fun caller_weight :: "nat \<Rightarrow> caller_pc \<Rightarrow> nat" where
  "caller_weight n Calling = 4 * n + 5"
| "caller_weight n Stored = 4 * n + 4"
| "caller_weight n Own_block = 3"
| "caller_weight n Awaiting = 2"
| "caller_weight n Blocked = 1"
| "caller_weight n Returned = 0"

definition workers_weight :: "nat \<Rightarrow> (nat \<Rightarrow> worker_pc) \<Rightarrow> nat" where
  "workers_weight n w = (\<Sum>i < n. worker_weight (w i))"

definition pool_measure :: "call \<Rightarrow> pool \<Rightarrow> nat" where
  "pool_measure c s = workers_weight (c_workers c) (wpc s) + caller_weight (c_workers c) (cpc s)"

lemma workers_weight_less:
  assumes "i < n" and "worker_weight pc < worker_weight (w i)"
  shows "workers_weight n (w(i := pc)) < workers_weight n w"
  unfolding workers_weight_def by (rule sum_strict_mono_ex1) (use assms in auto)

lemma workers_weight_woken:
  "workers_weight n (\<lambda>i. if P \<and> w i = Sleeping then Woken else w i) \<le> workers_weight n w + 4 * n"
proof -
  have "worker_weight (if P \<and> w i = Sleeping then Woken else w i) \<le> worker_weight (w i) + 4" for i by simp
  then have "workers_weight n (\<lambda>i. if P \<and> w i = Sleeping then Woken else w i) \<le> (\<Sum>i < n. worker_weight (w i) + 4)"
    unfolding workers_weight_def by (intro sum_mono)
  then show ?thesis by (simp add: workers_weight_def sum.distrib)
qed

lemma workers_weight_done:
  assumes "i < n" and "w i = Copied"
  shows "workers_weight n (w(i := Sleeping)) + 2 = workers_weight n w"
  using assms by (simp add: workers_weight_def sum.remove [of _ i])

lemma pool_measure_step:
  assumes "pool_step False c s s'"
  shows "pool_measure c s' < pool_measure c s"
  using assms
proof (cases rule: pool_step.cases)
  case publishes
  then show ?thesis using workers_weight_woken [of "c_workers c" "1 < tasks_num (c_size c) (c_threads c)" "wpc s"]
    by (simp add: pool_measure_def publish_def Let_def)
next
  case (reports i)
  then show ?thesis using workers_weight_done [of i "c_workers c" "wpc s"]
    by (simp add: pool_measure_def notify_receiver_def set_worker_def)
qed (auto simp: pool_measure_def set_worker_def copy_own_block_def Let_def intro!: workers_weight_less)

lemma pool_progress:
  assumes w: "well_split c" and inv: "copy_inv c m0 s" and r: "cpc s \<noteq> Returned"
  shows "\<exists>s'. pool_step False c s s'"
proof (cases "cpc s = Blocked")
  case True
  then have a: "after_publish c m0 s" "waiting_for s \<noteq> 0"
    using inv by (auto simp: copy_inv_def before_publish_def after_publish_def caller_ok_def)
  then have "card (busy c (wpc s)) \<noteq> 0" using card_busy [OF w a(1)] by (metis unsigned_eq_0_iff)
  then obtain i where i: "i < unat (c_threads c)" "wpc s i \<noteq> Sleeping"
    unfolding busy_def using card_gt_0_iff by auto
  then have iw: "i < c_workers c" using well_splitD(4) [OF w] by simp
  show ?thesis
    by (cases "wpc s i")
      (use i iw in \<open>auto intro: pool_step.starts [OF iw] pool_step.takes_task [OF iw] pool_step.copies [OF iw]
        pool_step.reports [OF iw]\<close>)
next
  case False
  have "\<exists>s'. pool_step False c s s'" if "cpc s = Awaiting"
    using that pool_step.waits [OF that] pool_step.returns [OF that] by blast
  with False show ?thesis
    by (cases "cpc s") (use r in \<open>auto intro: pool_step.stores pool_step.publishes pool_step.own_block\<close>)
qed

lemma call_can_return:
  assumes w: "well_split c" and ap: "regions_apart c"
  shows "copy_inv c m0 s \<Longrightarrow> \<exists>s'. pool_reaches False c s s' \<and> cpc s' = Returned"
proof (induction "pool_measure c s" arbitrary: s rule: less_induct)
  case less
  show ?case
  proof (cases "cpc s = Returned")
    case True
    then show ?thesis using pool_reaches.begin' by blast
  next
    case False
    from pool_progress [OF w less.prems False] obtain s1 where st: "pool_step False c s s1" by blast
    from less.hyps [OF pool_measure_step [OF st] copy_inv_step [OF w ap less.prems st]]
    obtain s' where "pool_reaches False c s1 s'" and r: "cpc s' = Returned" by blast
    from this(1) have "pool_reaches False c s s'"
      by (induction rule: pool_reaches.induct) (auto intro: pool_reaches.intros st)
    then show ?thesis using r by blast
  qed
qed

end
