(* ===== verification/PoolShutdown.thy ===== *)
theory PoolShutdown
  imports ParallelCopy
begin

text \<open>
  10-parallel-memcpy (src/main.cpp), the destructor of the thread pool and the calls of the benchmark. The
  destructor sets a flag and notifies the workers, without the mutex; then the members are destroyed in the
  order opposite to their declarations, the condition variables and the mutex before the threads, whose
  destructor joins them. A worker is followed from its wait to the test of the flag and back. The parameter
  \<open>spurious\<close> says whether a wait can end without a notification. A worker that uses the mutex, the condition
  variable or the flag after their destruction is undefined behaviour: \<open>d_misuse\<close> notes that it happened,
  and the step is the one that the worker would take if they were still there.
\<close>

section \<open>The destructor\<close>

text \<open>\<open>At_lock\<close>: before the first wait. \<open>Tested\<close>: the flag was clear, and the worker is on its way back to the
  wait, with or without a block to copy.\<close>

datatype closing_pc = At_lock | Waiting | Notified | Tested | Finished
datatype destructor_pc = Set_flag | Notify | Destroy_members | Joining | Joined

record closing =
  d_flag :: bool
  d_worker :: "nat \<Rightarrow> closing_pc"
  d_pc :: destructor_pc
  d_misuse :: bool

text \<open>A worker uses the members and goes on at \<open>pc\<close>.\<close>

definition use_members :: "nat \<Rightarrow> closing_pc \<Rightarrow> closing \<Rightarrow> closing" where
  "use_members i pc s = s\<lparr>d_worker := (d_worker s)(i := pc), d_misuse := (d_misuse s \<or> d_pc s \<in> {Joining, Joined})\<rparr>"

inductive closing_step :: "bool \<Rightarrow> nat \<Rightarrow> closing \<Rightarrow> closing \<Rightarrow> bool" for spurious n where
  locks: "i < n \<Longrightarrow> d_worker s i = At_lock \<Longrightarrow> closing_step spurious n s (use_members i Waiting s)"
| wakes_up: "i < n \<Longrightarrow> spurious \<Longrightarrow> d_worker s i = Waiting \<Longrightarrow>
     closing_step spurious n s (s\<lparr>d_worker := (d_worker s)(i := Notified)\<rparr>)"
| tests: "i < n \<Longrightarrow> d_worker s i = Notified \<Longrightarrow>
     closing_step spurious n s (use_members i (if d_flag s then Finished else Tested) s)"
| waits: "i < n \<Longrightarrow> d_worker s i = Tested \<Longrightarrow> closing_step spurious n s (use_members i Waiting s)"
| sets_flag: "d_pc s = Set_flag \<Longrightarrow> closing_step spurious n s (s\<lparr>d_flag := True, d_pc := Notify\<rparr>)"
| notifies: "d_pc s = Notify \<Longrightarrow> closing_step spurious n s
     (s\<lparr>d_worker := (\<lambda>i. if d_worker s i = Waiting then Notified else d_worker s i), d_pc := Destroy_members\<rparr>)"
| destroys: "d_pc s = Destroy_members \<Longrightarrow> closing_step spurious n s (s\<lparr>d_pc := Joining\<rparr>)"
| joins: "d_pc s = Joining \<Longrightarrow> \<forall>i < n. d_worker s i = Finished \<Longrightarrow> closing_step spurious n s (s\<lparr>d_pc := Joined\<rparr>)"

inductive closing_reaches :: "bool \<Rightarrow> nat \<Rightarrow> closing \<Rightarrow> closing \<Rightarrow> bool" for spurious n s where
  opened: "closing_reaches spurious n s s"
| closed: "closing_reaches spurious n s s' \<Longrightarrow> closing_step spurious n s' s'' \<Longrightarrow> closing_reaches spurious n s s''"

inductive_cases closing_stepE: "closing_step spurious n s s'"

definition all_waiting :: "nat \<Rightarrow> closing \<Rightarrow> bool" where
  "all_waiting n s \<longleftrightarrow> d_pc s = Set_flag \<and> (\<forall>i < n. d_worker s i = Waiting)"

definition closing_inv :: "nat \<Rightarrow> closing \<Rightarrow> bool" where
  "closing_inv n s \<longleftrightarrow> (d_pc s \<in> {Set_flag, Notify} \<longrightarrow> (\<forall>i < n. d_worker s i = Waiting))
     \<and> (d_pc s \<in> {Destroy_members, Joining, Joined} \<longrightarrow> d_flag s \<and> (\<forall>i < n. d_worker s i \<in> {Notified, Finished}))
     \<and> (d_pc s = Notify \<longrightarrow> d_flag s) \<and> (d_pc s = Joined \<longrightarrow> (\<forall>i < n. d_worker s i = Finished))"

lemma closing_inv_step: "closing_step False n s s' \<Longrightarrow> closing_inv n s \<Longrightarrow> closing_inv n s'"
  by (erule closing_stepE) (auto simp: closing_inv_def use_members_def)

lemma closing_inv_reaches:
  assumes "closing_reaches False n s s'" "all_waiting n s"
  shows "closing_inv n s'"
  using assms(1)
proof (induction rule: closing_reaches.induct)
  case opened
  with assms(2) show ?case by (simp add: closing_inv_def all_waiting_def)
qed (rule closing_inv_step)

fun worker_left :: "closing_pc \<Rightarrow> nat" where
  "worker_left Finished = 0"
| "worker_left Notified = 1"
| "worker_left Waiting = 2"
| "worker_left Tested = 3"
| "worker_left At_lock = 3"

fun destructor_left :: "destructor_pc \<Rightarrow> nat" where
  "destructor_left Set_flag = 4"
| "destructor_left Notify = 3"
| "destructor_left Destroy_members = 2"
| "destructor_left Joining = 1"
| "destructor_left Joined = 0"

definition closing_measure :: "nat \<Rightarrow> closing \<Rightarrow> nat" where
  "closing_measure n s = destructor_left (d_pc s) + (\<Sum>i < n. worker_left (d_worker s i))"

lemma worker_moves:
  assumes "(i :: nat) < n" "worker_left pc < worker_left (w i)"
  shows "(\<Sum>j < n. worker_left ((w(i := pc)) j)) < (\<Sum>j < n. worker_left (w j))"
proof (rule sum_strict_mono_ex1)
  show "\<exists>j \<in> {..<n}. worker_left ((w(i := pc)) j) < worker_left (w j)" using assms by (intro bexI [of _ i]) simp_all
qed (use assms(2) in auto)

lemma closing_measure_step:
  assumes "closing_step False n s s'" "closing_inv n s"
  shows "closing_measure n s' < closing_measure n s"
  using assms
proof (cases rule: closing_step.cases)
  case (tests i)
  then have "d_flag s" using assms(2) by (cases "d_pc s") (auto simp: closing_inv_def)
  then show ?thesis using tests worker_moves [of i n Finished "d_worker s"] by (simp add: closing_measure_def use_members_def)
next
  case (locks i)
  then show ?thesis using worker_moves [of i n Waiting "d_worker s"] by (simp add: closing_measure_def use_members_def)
next
  case (waits i)
  then show ?thesis using worker_moves [of i n Waiting "d_worker s"] by (simp add: closing_measure_def use_members_def)
next
  case notifies
  have "(\<Sum>i < n. worker_left (if d_worker s i = Waiting then Notified else d_worker s i))
      \<le> (\<Sum>i < n. worker_left (d_worker s i))" by (rule sum_mono) simp
  with notifies show ?thesis by (simp add: closing_measure_def use_members_def)
qed (simp_all add: closing_measure_def)

lemma closing_progress:
  assumes "closing_inv n s" "d_pc s \<noteq> Joined"
  shows "\<exists>s'. closing_step False n s s'"
proof (cases "d_pc s")
  case Joining
  show ?thesis
  proof (cases "\<forall>i < n. d_worker s i = Finished")
    case False
    then obtain i where "i < n" "d_worker s i = Notified" using assms(1) Joining by (auto simp: closing_inv_def)
    then show ?thesis by (blast intro: closing_step.tests)
  qed (use Joining in \<open>blast intro: closing_step.joins\<close>)
qed (use assms in \<open>blast intro: closing_step.intros\<close>)+

text \<open>Without spurious wakeups, and if the destroyed members went on working, the destructor would join
  workers that all wait: no schedule goes on for ever, none is stuck before, and at the end every worker has
  finished.\<close>

lemma destructor_joins:
  assumes "all_waiting n s" and "closing_reaches False n s s'"
  shows "(if d_pc s' = Joined then \<forall>i < n. d_worker s' i = Finished else \<exists>s''. closing_step False n s' s'') \<and>
    wf {(s2, s1). closing_reaches False n s s1 \<and> closing_step False n s1 s2}"
proof
  have i: "closing_inv n s1" if "closing_reaches False n s s1" for s1 by (rule closing_inv_reaches [OF that assms(1)])
  show "if d_pc s' = Joined then \<forall>i < n. d_worker s' i = Finished else \<exists>s''. closing_step False n s' s''"
    using i [OF assms(2)] closing_progress [of n s'] by (auto simp: closing_inv_def)
  show "wf {(s2, s1). closing_reaches False n s s1 \<and> closing_step False n s1 s2}"
    by (rule wf_subset [OF wf_measure [of "closing_measure n"]]) (auto dest: i closing_measure_step)
qed

text \<open>Runs of a pool with one worker, as lists of states.\<close>

definition one_worker :: "bool \<Rightarrow> closing_pc \<Rightarrow> destructor_pc \<Rightarrow> bool \<Rightarrow> closing" where
  "one_worker flag w pc misuse = \<lparr>d_flag = flag, d_worker = (\<lambda>i. if i = 0 then w else Finished), d_pc = pc, d_misuse = misuse\<rparr>"

lemma one_worker_steps:
  "spurious \<Longrightarrow> closing_step spurious 1 (one_worker b Waiting d m) (one_worker b Notified d m)"
  "closing_step spurious 1 (one_worker False Notified Set_flag m) (one_worker False Tested Set_flag m)"
  "closing_step spurious 1 (one_worker True Notified Joining m) (one_worker True Finished Joining True)"
  "closing_step spurious 1 (one_worker b Tested Destroy_members m) (one_worker b Waiting Destroy_members m)"
  "closing_step spurious 1 (one_worker b w Set_flag m) (one_worker True w Notify m)"
  "closing_step spurious 1 (one_worker b Tested Notify m) (one_worker b Tested Destroy_members m)"
  "closing_step spurious 1 (one_worker b Waiting Notify m) (one_worker b Notified Destroy_members m)"
  "closing_step spurious 1 (one_worker b w Destroy_members m) (one_worker b w Joining m)"
  by (auto simp: one_worker_def use_members_def fun_eq_iff closing_step.simps)

lemma one_worker_stuck: "\<not> closing_step False 1 (one_worker b Waiting Joining m) s"
  by (auto simp: one_worker_def elim!: closing_stepE)

text \<open>The worker that is notified tests the flag after the flag has been destroyed, unless it is fast.\<close>

lemma destructor_misuse:
  "\<exists>s. closing_reaches False 1 (one_worker False Waiting Set_flag False) s \<and> d_misuse s"
proof -
  have "closing_reaches False 1 (one_worker False Waiting Set_flag False) (one_worker True Finished Joining True)"
    by (rule closing_reaches.closed [OF closing_reaches.closed [OF closing_reaches.closed [OF closing_reaches.closed
      [OF closing_reaches.opened one_worker_steps(5)] one_worker_steps(7)] one_worker_steps(8)] one_worker_steps(3)])
  then show ?thesis by (intro exI conjI) (auto simp: one_worker_def)
qed

text \<open>The destructor does not take the mutex: a worker that was notified before and has just found the flag
  clear misses the notification, and the join waits for ever.\<close>

lemma destructor_hangs:
  "\<exists>s. closing_reaches False 1 (one_worker False Notified Set_flag False) s \<and> d_pc s = Joining \<and>
     \<not> (\<exists>s'. closing_step False 1 s s')"
proof -
  have "closing_reaches False 1 (one_worker False Notified Set_flag False) (one_worker True Waiting Joining False)"
    by (rule closing_reaches.closed [OF closing_reaches.closed [OF closing_reaches.closed [OF closing_reaches.closed
      [OF closing_reaches.closed [OF closing_reaches.opened one_worker_steps(2)] one_worker_steps(5)] one_worker_steps(6)]
        one_worker_steps(4)] one_worker_steps(8)])
  then show ?thesis using one_worker_stuck by (intro exI conjI) (auto simp: one_worker_def)
qed

text \<open>So does a worker that waits when the destructor begins and wakes up without a notification at the wrong
  moment: then only another such wakeup can end the wait.\<close>

lemma spurious_wakeup_hangs:
  "\<exists>s. closing_reaches True 1 (one_worker False Waiting Set_flag False) s \<and> d_pc s = Joining \<and>
     \<not> (\<exists>s'. closing_step False 1 s s')"
proof -
  have "closing_reaches True 1 (one_worker False Waiting Set_flag False) (one_worker True Waiting Joining False)"
    by (rule closing_reaches.closed [OF closing_reaches.closed [OF closing_reaches.closed [OF closing_reaches.closed
      [OF closing_reaches.closed [OF closing_reaches.closed [OF closing_reaches.opened one_worker_steps(1)] one_worker_steps(2)]
        one_worker_steps(5)] one_worker_steps(6)] one_worker_steps(4)] one_worker_steps(8)]) simp
  then show ?thesis using one_worker_stuck by (intro exI conjI) (auto simp: one_worker_def)
qed

section \<open>The benchmark\<close>

text \<open>\<open>run_with_n_threads\<close> copies an array of 2^26 integers with a pool of eight workers.\<close>

definition MAX_THREADS :: nat where "MAX_THREADS = 8"

definition benchmark_call :: "u64 \<Rightarrow> u64 \<Rightarrow> u64 \<Rightarrow> call" where
  "benchmark_call dst src threads_num = \<lparr>c_workers = MAX_THREADS, c_dst = dst, c_src = src,
     c_size = push_bit 26 1 * 4, c_threads = bounded_threads MAX_THREADS threads_num\<rparr>"

lemma benchmark_well_split:
  assumes "threads_num \<le> 8"
  shows "well_split (benchmark_call dst src threads_num)"
proof -
  define k where "k = unat threads_num"
  have k: "threads_num = word_of_nat k" by (simp add: k_def)
  have "k \<le> 8" using assms by (simp add: k_def word_le_nat_alt)
  then have "k = 0 \<or> k = 1 \<or> k = 2 \<or> k = 3 \<or> k = 4 \<or> k = 5 \<or> k = 6 \<or> k = 7 \<or> k = 8" by linarith
  then show ?thesis
    by (elim disjE) (simp_all add: k well_split_def benchmark_call_def bounded_threads_def MAX_THREADS_def tasks_num_def
        block_size_def Let_def)
qed

end
