(* ===== verification/Pools.thy ===== *)
theory Pools
  imports Prelude "HOL-Library.Multiset"
begin

text \<open>
  06-mempool and 07-non-blocking-pool (src/main.cpp): pools that give out objects from the end of a
  mapped region downwards. The pages before the objects are protected, so that a write to an object beyond
  the capacity faults; the signal handler looks the address up in a registry of the pools. \<open>mmap\<close> is a
  parameter, and what it and \<open>mprotect\<close> do to the address space is the field \<open>accessible\<close>. These programs
  are built for 64-bit machines. The measurements of time and memory are left out.
\<close>

section \<open>The address space\<close>

record node =
  n_next :: u64
  n_id :: u32

record space =
  accessible :: "u64 \<Rightarrow> bool"
  nodes :: "u64 \<Rightarrow> node"

definition in_range :: "u64 \<Rightarrow> u64 \<Rightarrow> u64 \<Rightarrow> bool" where
  "in_range b n x \<longleftrightarrow> x - b < n"

definition protect :: "bool \<Rightarrow> u64 \<Rightarrow> u64 \<Rightarrow> space \<Rightarrow> space" where
  "protect access b n sp = sp\<lparr>accessible := (\<lambda>x. if in_range b n x then access else accessible sp x)\<rparr>"

definition MAP_FAILED :: u64 where "MAP_FAILED = - 1"

section \<open>The registry of 07-non-blocking-pool\<close>

definition POOL_LIMIT :: nat where "POOL_LIMIT = 256"

text \<open>Begin and end of the pool in each slot; a slot whose begin is null is free.\<close>

type_synonym registry = "(u64 \<times> u64) list"

text \<open>The loop of \<open>add\<close>, up to the exchange of \<open>begin\<close> that succeeds.\<close>

fun claim_slot :: "u64 \<Rightarrow> registry \<Rightarrow> (nat \<times> registry) option" where
  "claim_slot b [] = None"
| "claim_slot b ((b', e') # r) = (if b' = 0 then Some (0, (b, e') # r)
     else case claim_slot b r of None \<Rightarrow> None | Some (i, r') \<Rightarrow> Some (Suc i, (b', e') # r'))"

definition publish_end :: "nat \<Rightarrow> u64 \<Rightarrow> registry \<Rightarrow> registry" where
  "publish_end i e r = r[i := (fst (r ! i), e)]"

definition registry_add :: "u64 \<Rightarrow> u64 \<Rightarrow> registry \<Rightarrow> (nat \<times> registry) option" where
  "registry_add b e r = (case claim_slot b r of None \<Rightarrow> None | Some (i, r') \<Rightarrow> Some (i, publish_end i e r'))"

definition registry_remove :: "nat \<Rightarrow> registry \<Rightarrow> registry" where
  "registry_remove i r = r[i := (0, snd (r ! i))]"

definition registry_init :: registry where
  "registry_init = replicate POOL_LIMIT (0, 0)"

text \<open>The digits that the handler writes, the last one first as it computes them.\<close>

definition hex_digit :: "u64 \<Rightarrow> u8" where
  "hex_digit p = (let next_digit = 48 + ucast (p AND 15) in
     if 57 < next_digit then 97 + ucast (p AND 15) - 10 else next_digit)"

fun hex_digits :: "nat \<Rightarrow> u64 \<Rightarrow> u8 list" where
  "hex_digits 0 p = []"
| "hex_digits (Suc n) p = hex_digits n (drop_bit 4 p) @ [hex_digit p]"

text \<open>The first pool in the registry that the address lies in.\<close>

fun find_pool :: "u64 \<Rightarrow> registry \<Rightarrow> u64 option" where
  "find_pool p [] = None"
| "find_pool p ((b, e) # r) = (if b \<noteq> 0 \<and> b \<le> p \<and> p < e then Some b else find_pool p r)"

text \<open>The handler writes its message to the standard error and ends the process with \<open>exit (3)\<close>, or calls the
  handler that was installed before.\<close>

datatype handled = Exits int "u8 list" | Calls_old_handler

definition bad_alloc_message :: "u8 list" where
  "bad_alloc_message = map (\<lambda>c. word_of_nat (of_char c)) ''Bad alloc in PoolAllocator: pool begins at 0x''"

definition alloc_handler :: "u64 \<Rightarrow> registry \<Rightarrow> handled" where
  "alloc_handler p r = (case find_pool p r of
     Some b \<Rightarrow> Exits 3 (bad_alloc_message @ hex_digits 16 b @ [10])
   | None \<Rightarrow> Calls_old_handler)"

section \<open>The pools\<close>

record mem_pool =
  p_begin :: u64
  p_end :: u64
  p_slot :: nat
  first_free :: u64

datatype pool_error = BadAlloc | NoFreeSlot

definition protected_bytes :: "u64 \<Rightarrow> u64 \<Rightarrow> u64" where
  "protected_bytes page osz = page * ((osz + page - 1) div page)"

definition pool_bytes :: "u64 \<Rightarrow> u64 \<Rightarrow> u64 \<Rightarrow> u64" where
  "pool_bytes page osz capacity = protected_bytes page osz + capacity * osz"

text \<open>\<open>LockedPoolAllocator\<close> rounds its size up to whole pages.\<close>

definition locked_pool_bytes :: "u64 \<Rightarrow> u64 \<Rightarrow> u64 \<Rightarrow> u64" where
  "locked_pool_bytes page osz capacity = (pool_bytes page osz capacity + page - 1) AND NOT (page - 1)"

definition new_pool :: "(u64 \<Rightarrow> u64) \<Rightarrow> u64 \<Rightarrow> u64 \<Rightarrow> u64 \<Rightarrow> space \<Rightarrow> registry \<Rightarrow>
    pool_error + (mem_pool \<times> space \<times> registry)" where
  "new_pool mmap page osz pool_size sp r = (let b = mmap pool_size in
     if b = MAP_FAILED then Inl BadAlloc
     else let sp' = protect False b (protected_bytes page osz) (protect True b pool_size sp); e = b + pool_size in
       case registry_add b e r of None \<Rightarrow> Inl NoFreeSlot
       | Some (slot, r') \<Rightarrow> Inr (\<lparr>p_begin = b, p_end = e, p_slot = slot, first_free = e\<rparr>, sp', r'))"

definition PoolAllocator where
  "PoolAllocator mmap page osz capacity = new_pool mmap page osz (pool_bytes page osz capacity)"

definition LockedPoolAllocator where
  "LockedPoolAllocator mmap page osz capacity = new_pool mmap page osz (locked_pool_bytes page osz capacity)"

definition LockFreePoolAllocator where
  "LockFreePoolAllocator mmap page osz capacity = new_pool mmap page osz (pool_bytes page osz capacity)"

definition allocate :: "u64 \<Rightarrow> mem_pool \<Rightarrow> u64 \<times> mem_pool" where
  "allocate osz pl = (let p = first_free pl - osz in (p, pl\<lparr>first_free := p\<rparr>))"

definition delete_pool :: "mem_pool \<Rightarrow> space \<Rightarrow> registry \<Rightarrow> space \<times> registry" where
  "delete_pool pl sp r = (protect False (p_begin pl) (p_end pl - p_begin pl) sp, registry_remove (p_slot pl) r)"

section \<open>Lists in a pool\<close>

definition sizeof_Node :: u64 where "sizeof_Node = 16"

text \<open>A write to a node faults at its first byte that is not accessible.\<close>

definition fault_of :: "space \<Rightarrow> u64 \<Rightarrow> u64 option" where
  "fault_of sp p = find (\<lambda>x. \<not> accessible sp x) (map (\<lambda>i. p + word_of_nat i) [0..<unat sizeof_Node])"

fun create_list_loop :: "nat \<Rightarrow> u32 \<Rightarrow> u64 \<Rightarrow> mem_pool \<Rightarrow> space \<Rightarrow> u64 + (u64 \<times> mem_pool \<times> space)" where
  "create_list_loop 0 i list pl sp = Inr (list, pl, sp)"
| "create_list_loop (Suc k) i list pl sp = (let (node, pl') = allocate sizeof_Node pl in
     case fault_of sp node of Some x \<Rightarrow> Inl x
     | None \<Rightarrow> create_list_loop k (i + 1) node pl'
         (sp\<lparr>nodes := (nodes sp)(node := \<lparr>n_next = list, n_id = i\<rparr>)\<rparr>))"

definition create_list :: "u32 \<Rightarrow> mem_pool \<Rightarrow> space \<Rightarrow> u64 + (u64 \<times> mem_pool \<times> space)" where
  "create_list n = create_list_loop (unat n) 0 0"

text \<open>\<open>deallocate\<close> does nothing; the result lists the numbers of the nodes that are visited.\<close>

partial_function (option) delete_list :: "space \<Rightarrow> u64 \<Rightarrow> u32 list option" where
  "delete_list sp list = (if list = 0 then Some []
     else Option.bind (delete_list sp (n_next (nodes sp list))) (\<lambda>xs. Some (n_id (nodes sp list) # xs)))"

section \<open>Pools that threads share\<close>

text \<open>
  What a thread is doing in \<open>allocate\<close>. Under the lock \<open>first_free -= sizeof(Object)\<close> is a read and a
  write; without it there is the atomic \<open>fetch_sub\<close>. A thread keeps the objects it got.
\<close>

datatype thread_pc = Idle | Holding | Read u64 | Taken u64 | Fetched u64

record shared =
  s_first_free :: u64
  s_lock :: "nat option"
  s_pc :: "nat \<Rightarrow> thread_pc"
  s_objects :: "nat \<Rightarrow> u64 list"

definition goto :: "nat \<Rightarrow> thread_pc \<Rightarrow> shared \<Rightarrow> shared" where
  "goto t pc s = s\<lparr>s_pc := (s_pc s)(t := pc)\<rparr>"

definition keep_object :: "nat \<Rightarrow> u64 \<Rightarrow> shared \<Rightarrow> shared" where
  "keep_object t p s = goto t Idle (s\<lparr>s_objects := (s_objects s)(t := p # s_objects s t)\<rparr>)"

inductive locked_step :: "u64 \<Rightarrow> nat \<Rightarrow> shared \<Rightarrow> shared \<Rightarrow> bool" for osz n where
  locks: "t < n \<Longrightarrow> s_pc s t = Idle \<Longrightarrow> s_lock s = None \<Longrightarrow> locked_step osz n s (goto t Holding (s\<lparr>s_lock := Some t\<rparr>))"
| reads: "t < n \<Longrightarrow> s_pc s t = Holding \<Longrightarrow> locked_step osz n s (goto t (Read (s_first_free s)) s)"
| writes: "t < n \<Longrightarrow> s_pc s t = Read v \<Longrightarrow> locked_step osz n s (goto t (Taken (v - osz)) (s\<lparr>s_first_free := v - osz\<rparr>))"
| unlocks: "t < n \<Longrightarrow> s_pc s t = Taken p \<Longrightarrow> locked_step osz n s (keep_object t p (s\<lparr>s_lock := None\<rparr>))"

inductive lock_free_step :: "u64 \<Rightarrow> nat \<Rightarrow> shared \<Rightarrow> shared \<Rightarrow> bool" for osz n where
  fetches: "t < n \<Longrightarrow> s_pc s t = Idle \<Longrightarrow>
     lock_free_step osz n s (goto t (Fetched (s_first_free s)) (s\<lparr>s_first_free := s_first_free s - osz\<rparr>))"
| gets: "t < n \<Longrightarrow> s_pc s t = Fetched v \<Longrightarrow> lock_free_step osz n s (keep_object t (v - osz) s)"

inductive_cases locked_stepE: "locked_step osz n s s'"
inductive_cases lock_free_stepE: "lock_free_step osz n s s'"

definition fresh_shared :: "u64 \<Rightarrow> shared" where
  "fresh_shared e = \<lparr>s_first_free = e, s_lock = None, s_pc = (\<lambda>_. Idle), s_objects = (\<lambda>_. [])\<rparr>"

text \<open>The objects that a thread has or is about to get, and those of all threads.\<close>

fun pending :: "u64 \<Rightarrow> thread_pc \<Rightarrow> u64 multiset" where
  "pending osz (Taken p) = {#p#}"
| "pending osz (Fetched v) = {#v - osz#}"
| "pending osz _ = {#}"

definition in_hand :: "u64 \<Rightarrow> shared \<Rightarrow> nat \<Rightarrow> u64 multiset" where
  "in_hand osz s t = pending osz (s_pc s t) + mset (s_objects s t)"

definition held :: "u64 \<Rightarrow> nat \<Rightarrow> shared \<Rightarrow> u64 multiset" where
  "held osz n s = (\<Sum>t < n. in_hand osz s t)"

lemma held_change:
  assumes "t < n" and "\<And>u. u \<noteq> t \<Longrightarrow> in_hand osz s' u = in_hand osz s u"
    and "in_hand osz s' t = in_hand osz s t + x"
  shows "held osz n s' = held osz n s + x"
proof -
  have "(\<Sum>u < n. f u) = f t + (\<Sum>u \<in> {..<n} - {t}. f u)" for f :: "nat \<Rightarrow> u64 multiset"
    using assms(1) by (intro sum.remove) simp_all
  moreover have "(\<Sum>u \<in> {..<n} - {t}. in_hand osz s' u) = (\<Sum>u \<in> {..<n} - {t}. in_hand osz s u)"
    by (rule sum.cong) (simp_all add: assms(2))
  ultimately show ?thesis unfolding held_def using assms(3) by simp
qed

text \<open>Both pools hand out the region in order, whatever the interleaving.\<close>

locale dispenser =
  fixes step :: "'s \<Rightarrow> 's \<Rightarrow> bool" and top :: "'s \<Rightarrow> u64" and given :: "'s \<Rightarrow> u64 multiset"
    and inv :: "'s \<Rightarrow> bool" and width :: u64
  assumes inv_step: "inv s \<Longrightarrow> step s s' \<Longrightarrow> inv s'"
    and gives: "inv s \<Longrightarrow> step s s' \<Longrightarrow> top s' = top s \<and> given s' = given s \<or>
      top s' = top s - width \<and> given s' = given s + {#top s - width#}"
begin

lemma gives_in_order:
  assumes "step\<^sup>*\<^sup>* s s'" and "inv s" and "given s = {#}"
  shows "inv s' \<and> top s' = top s - word_of_nat (size (given s')) * width \<and>
    given s' = mset (map (\<lambda>j. top s - word_of_nat (Suc j) * width) [0..<size (given s')])"
  using assms
proof (induction rule: rtranclp_induct)
  case (step s1 s2)
  then have 1: "inv s1" "top s1 = top s - word_of_nat (size (given s1)) * width"
    "given s1 = mset (map (\<lambda>j. top s - word_of_nat (Suc j) * width) [0..<size (given s1)])" by simp_all
  define k where "k = size (given s1)"
  define f where "f j = top s - word_of_nat (Suc j) * width" for j
  have g: "given s1 = mset (map f [0..<k])" "top s1 = top s - word_of_nat k * width"
    using 1(3,2) unfolding k_def f_def .
  have "given s2 = mset (map f [0..<size (given s2)]) \<and> top s2 = top s - word_of_nat (size (given s2)) * width"
    using gives [OF 1(1) step(2)]
  proof
    assume "top s2 = top s1 \<and> given s2 = given s1"
    then show ?thesis using g unfolding k_def by simp
  next
    assume a: "top s2 = top s1 - width \<and> given s2 = given s1 + {#top s1 - width#}"
    have fk: "top s1 - width = f k" by (simp add: g(2) f_def algebra_simps)
    have "size (given s2) = Suc k" using a by (simp add: k_def)
    moreover have "given s2 = mset (map f ([0..<k] @ [k]))" using a g(1) by (simp only: fk map_append mset_append) simp
    ultimately show ?thesis using a g(2) by (simp add: algebra_simps)
  qed
  then show ?case using inv_step [OF 1(1) step(2)] unfolding f_def by blast
qed simp

end

interpretation lock_free: dispenser "lock_free_step osz n" s_first_free "held osz n" "\<lambda>_. True" osz for osz n
proof unfold_locales
  fix s s'
  assume "lock_free_step osz n s s'"
  then show "s_first_free s' = s_first_free s \<and> held osz n s' = held osz n s \<or>
      s_first_free s' = s_first_free s - osz \<and> held osz n s' = held osz n s + {#s_first_free s - osz#}"
  proof cases
    case (fetches t)
    then have "held osz n s' = held osz n s + {#s_first_free s - osz#}"
      by (intro held_change [of t]) (simp_all add: in_hand_def goto_def)
    then show ?thesis using fetches by (simp add: goto_def)
  next
    case (gets t v)
    then have "held osz n s' = held osz n s + {#}"
      by (intro held_change [of t]) (simp_all add: in_hand_def goto_def keep_object_def)
    then show ?thesis using gets by (simp add: goto_def keep_object_def)
  qed
qed simp

text \<open>Only the holder of the lock is in the critical section, and what it has read is still there.\<close>

definition lock_inv :: "nat \<Rightarrow> shared \<Rightarrow> bool" where
  "lock_inv n s \<longleftrightarrow> (\<forall>t < n. (s_pc s t \<noteq> Idle \<longrightarrow> s_lock s = Some t) \<and>
     (\<forall>v. s_pc s t = Read v \<longrightarrow> v = s_first_free s) \<and> (\<forall>v. s_pc s t \<noteq> Fetched v))"

lemma lock_inv_others:
  assumes "lock_inv n s" and "t < n" and "s_pc s t \<noteq> Idle" and "u < n" and "u \<noteq> t"
  shows "s_pc s u = Idle"
  using assms unfolding lock_inv_def by (metis option.inject)

lemma lock_inv_step:
  assumes inv: "lock_inv n s" and st: "locked_step osz n s s'"
  shows "lock_inv n s'"
  using st
proof cases
  case (locks t)
  then show ?thesis using inv by (auto simp: lock_inv_def goto_def)
next
  case (reads t)
  then show ?thesis using inv lock_inv_others [OF inv, of t] by (auto simp: lock_inv_def goto_def)
next
  case (writes t v)
  then show ?thesis using inv lock_inv_others [OF inv, of t] by (auto simp: lock_inv_def goto_def)
next
  case (unlocks t p)
  then show ?thesis using inv lock_inv_others [OF inv, of t] by (auto simp: lock_inv_def goto_def keep_object_def)
qed

interpretation locked: dispenser "locked_step osz n" s_first_free "held osz n" "lock_inv n" osz for osz n
proof (unfold_locales, rule lock_inv_step)
  fix s s'
  assume inv: "lock_inv n s" and "locked_step osz n s s'"
  from this(2) show "s_first_free s' = s_first_free s \<and> held osz n s' = held osz n s \<or>
      s_first_free s' = s_first_free s - osz \<and> held osz n s' = held osz n s + {#s_first_free s - osz#}"
  proof cases
    case (writes t v)
    then have v: "v = s_first_free s" using inv by (simp add: lock_inv_def)
    have "held osz n s' = held osz n s + {#s_first_free s - osz#}"
      using writes v by (intro held_change [of t]) (simp_all add: in_hand_def goto_def)
    then show ?thesis using writes v by (simp add: goto_def)
  next
    case (locks t)
    then have "held osz n s' = held osz n s + {#}"
      by (intro held_change [of t]) (simp_all add: in_hand_def goto_def)
    then show ?thesis using locks by (simp add: goto_def)
  next
    case (reads t)
    then have "held osz n s' = held osz n s + {#}"
      by (intro held_change [of t]) (simp_all add: in_hand_def goto_def)
    then show ?thesis using reads by (simp add: goto_def)
  next
    case (unlocks t p)
    then have "held osz n s' = held osz n s + {#}"
      by (intro held_change [of t]) (simp_all add: in_hand_def goto_def keep_object_def)
    then show ?thesis using unlocks by (simp add: goto_def keep_object_def)
  qed
qed

section \<open>Where the objects lie\<close>

text \<open>The size of the protected pages, and a region at \<open>b\<close> of \<open>sz\<close> bytes with room for them and for the objects.\<close>

definition guard :: "u64 \<Rightarrow> u64 \<Rightarrow> nat" where
  "guard page osz = unat page * ((unat osz + unat page - 1) div unat page)"

definition room_for :: "u64 \<Rightarrow> u64 \<Rightarrow> u64 \<Rightarrow> u64 \<Rightarrow> u64 \<Rightarrow> bool" where
  "room_for page osz capacity b sz \<longleftrightarrow> 0 < page \<and> 0 < osz \<and> unat osz + unat page \<le> 2 ^ 64 \<and> b \<noteq> 0 \<and>
     guard page osz + unat capacity * unat osz \<le> unat sz \<and> unat b + unat sz < 2 ^ 64"

definition apart :: "u64 \<Rightarrow> nat \<Rightarrow> nat \<Rightarrow> u64 multiset \<Rightarrow> bool" where
  "apart osz lo hi M \<longleftrightarrow> (\<forall>p \<in># M. lo \<le> unat p \<and> unat p + unat osz \<le> hi \<and> count M p = 1) \<and>
     (\<forall>p \<in># M. \<forall>q \<in># M. p \<noteq> q \<longrightarrow> unat p + unat osz \<le> unat q \<or> unat q + unat osz \<le> unat p)"

lemma room_forD:
  assumes "room_for page osz capacity b sz"
  shows "0 < unat page" "0 < unat osz" "unat osz + unat page \<le> 18446744073709551616" "b \<noteq> 0"
    "guard page osz + unat capacity * unat osz \<le> unat sz" "unat b + unat sz < 18446744073709551616"
    "unat (b + sz) = unat b + unat sz"
  using assms by (auto simp: room_for_def word_less_nat_alt unat_word_ariths)

lemma guard_ge:
  assumes "0 < unat page"
  shows "unat osz \<le> guard page osz"
proof -
  have "(unat osz + unat page - 1) mod unat page < unat page" using assms by simp
  with mult_div_mod_eq [of "unat page" "unat osz + unat page - 1"] assms show ?thesis
    unfolding guard_def by linarith
qed

lemma protected_bytes_nat:
  assumes "room_for page osz capacity b sz"
  shows "unat (protected_bytes page osz) = guard page osz"
proof -
  note d = room_forD [OF assms]
  have "unat (osz + page - 1) = unat osz + unat page - 1"
  proof -
    have add: "unat (osz + x) = unat osz + unat x" if "unat osz + unat x < 18446744073709551616" for x
      using that by (simp add: unat_word_ariths)
    have "unat (page - 1) = unat page - 1" using d(1) by (simp add: unat_sub word_le_nat_alt)
    with add [of "page - 1"] d(1,3) show ?thesis by (simp add: add_diff_eq)
  qed
  then have q: "unat ((osz + page - 1) div page) = (unat osz + unat page - 1) div unat page"
    by (simp add: unat_div_distrib)
  have mul: "unat (page * x) = unat page * unat x" if "unat page * unat x < 18446744073709551616" for x
    using that by (simp add: unat_word_ariths)
  have "guard page osz < 18446744073709551616" using d(5,6) by linarith
  then show ?thesis using mul [of "(osz + page - 1) div page"] by (simp only: protected_bytes_def guard_def q)
qed

lemma pool_bytes_nat:
  assumes "room_for page osz capacity b sz"
  shows "unat (pool_bytes page osz capacity) = guard page osz + unat capacity * unat osz"
  using room_forD(5,6) [OF assms] protected_bytes_nat [OF assms]
  by (simp add: pool_bytes_def unat_word_ariths)

lemma object_address:
  assumes r: "room_for page osz capacity b sz" and k: "k * unat osz \<le> unat b + unat sz"
  shows "unat (b + sz - word_of_nat k * osz) = unat b + unat sz - k * unat osz"
proof -
  note d = room_forD [OF r]
  have "k \<le> k * unat osz" using d(2) by simp
  then have "k < 18446744073709551616" using k d(6) by linarith
  then have "unat (word_of_nat k * osz) = k * unat osz" using k d(6) by (simp add: unat_word_ariths unat_of_nat)
  then show ?thesis using d(7) k by (simp add: unat_sub word_le_nat_alt)
qed

lemma apart_dispensed:
  assumes r: "room_for page osz capacity b sz" and k: "k \<le> unat capacity"
  shows "apart osz (unat b + guard page osz) (unat b + unat sz)
    (mset (map (\<lambda>j. b + sz - word_of_nat (Suc j) * osz) [0..<k]))"
proof -
  note d = room_forD [OF r]
  let ?f = "\<lambda>j. b + sz - word_of_nat (Suc j) * osz"
  have f: "unat (?f j) = unat b + unat sz - Suc j * unat osz" "Suc j * unat osz \<le> unat sz - guard page osz" if "j < k" for j
  proof -
    have "Suc j * unat osz \<le> unat capacity * unat osz" using that k by (intro mult_le_mono1) simp
    then show "Suc j * unat osz \<le> unat sz - guard page osz" using d(5) by linarith
    then show "unat (?f j) = unat b + unat sz - Suc j * unat osz" by (intro object_address [OF r]) simp
  qed
  have sep: "unat (?f j) + unat osz \<le> unat (?f i)" if "i < j" "j < k" for i j
  proof -
    have "Suc i * unat osz + unat osz \<le> Suc j * unat osz" using mult_le_mono1 [of "Suc (Suc i)" "Suc j" "unat osz"] that by simp
    then show ?thesis using f [of i] f [of j] that by linarith
  qed
  have "distinct (map ?f [0..<k])"
    unfolding distinct_map
  proof (rule conjI [OF distinct_upt], rule inj_onI)
    fix i j assume "i \<in> set [0..<k]" "j \<in> set [0..<k]" "?f i = ?f j"
    then show "i = j" using sep [of i j] sep [of j i] d(2) by (cases i j rule: linorder_cases) auto
  qed
  then have one: "count (mset (map ?f [0..<k])) p = 1" if "p \<in> set (map ?f [0..<k])" for p
    using that by (simp only: distinct_count_atmost_1 if_True)
  have dist: "unat (?f i) + unat osz \<le> unat (?f j) \<or> unat (?f j) + unat osz \<le> unat (?f i)"
    if "i < k" "j < k" "?f i \<noteq> ?f j" for i j
    using that sep [of i j] sep [of j i] by (cases i j rule: linorder_cases) auto
  have lo: "unat b + guard page osz \<le> unat (?f j)" "unat (?f j) + unat osz \<le> unat b + unat sz" if "j < k" for j
    using f [OF that] d(5) by auto
  show ?thesis unfolding apart_def
  proof (intro conjI ballI impI)
    fix p assume p: "p \<in># mset (map ?f [0..<k])"
    then have p': "p \<in> set (map ?f [0..<k])" by simp
    then obtain j where j: "j < k" "p = ?f j" by auto
    show "unat b + guard page osz \<le> unat p" "unat p + unat osz \<le> unat b + unat sz" using lo [OF j(1)] j(2) by simp_all
    show "count (mset (map ?f [0..<k])) p = 1" by (rule one [OF p'])
    fix q assume "q \<in># mset (map ?f [0..<k])" "p \<noteq> q"
    then obtain i where i: "i < k" "q = ?f i" by auto
    show "unat p + unat osz \<le> unat q \<or> unat q + unat osz \<le> unat p"
      using dist [OF j(1) i(1)] \<open>p \<noteq> q\<close> unfolding j(2) i(2) by blast
  qed
qed

end
