(* ===== verification/PoolLists.thy ===== *)
theory PoolLists
  imports Pools
begin

text \<open>
  What the registry, the signal handler and the lists in a pool (theory Pools) do: the handler reports
  the pool that a fault lies in, in hexadecimal digits; a list within the capacity is built and visited
  in reverse order; the first object beyond the capacity faults.
\<close>

section \<open>The digits of an address\<close>

definition digit_value :: "u8 \<Rightarrow> nat" where
  "digit_value c = (if 97 \<le> c then unat c - 87 else unat c - 48)"

definition of_hex :: "u8 list \<Rightarrow> nat" where
  "of_hex ds = foldl (\<lambda>a d. 16 * a + digit_value d) 0 ds"

lemma digit_value_hex_digit: "digit_value (hex_digit p) = unat p mod 16"
proof -
  have a: "unat (p AND 15) = unat p mod 16"
    using take_bit_eq_mask [of 4 "unat p"] by (simp add: unsigned_and_eq take_bit_eq_mod mask_eq_exp_minus_1)
  have u: "unat (ucast (p AND 15) :: u8) = unat p mod 16"
    by (simp add: unsigned_ucast_eq a take_bit_eq_mod)
  have "unat (48 + ucast (p AND 15) :: u8) = 48 + unat p mod 16"
    "unat (97 + ucast (p AND 15) - 10 :: u8) = 87 + unat p mod 16"
    by (simp_all add: unat_word_ariths u)
  then show ?thesis
    by (auto simp: digit_value_def hex_digit_def Let_def word_less_nat_alt word_le_nat_alt)
qed

lemma of_hex_digits: "of_hex (hex_digits n p) = unat p mod 16 ^ n"
proof (induction n arbitrary: p)
  case (Suc n)
  have "unat (drop_bit 4 p) = unat p div 16" by (simp add: drop_bit_eq_div unat_div_distrib)
  then have "of_hex (hex_digits (Suc n) p) = 16 * ((unat p div 16) mod 16 ^ n) + unat p mod 16"
    using Suc.IH [of "drop_bit 4 p"] by (simp add: of_hex_def digit_value_hex_digit)
  then show ?case by (simp add: mod_mult2_eq)
qed (simp add: of_hex_def)

section \<open>The registry\<close>

definition covers :: "u64 \<Rightarrow> u64 \<times> u64 \<Rightarrow> bool" where
  "covers p x \<longleftrightarrow> fst x \<noteq> 0 \<and> fst x \<le> p \<and> p < snd x"

lemma find_pool_none: "find_pool p r = None \<longleftrightarrow> (\<forall>x \<in> set r. \<not> covers p x)"
  by (induction p r rule: find_pool.induct) (auto simp: covers_def)

lemma find_pool_update:
  "i < length r \<Longrightarrow> \<forall>x \<in> set r. \<not> covers p x \<Longrightarrow> find_pool p (r[i := (b, e)]) = (if covers p (b, e) then Some b else None)"
proof (induction r arbitrary: i)
  case (Cons x r)
  then have "find_pool p r = None" by (simp add: find_pool_none)
  then show ?case using Cons by (cases x; cases i) (auto simp: covers_def)
qed simp

lemma claim_slot_Some:
  "claim_slot b r = Some (i, r') \<Longrightarrow> i < length r \<and> fst (r ! i) = 0 \<and> r' = r[i := (b, snd (r ! i))]"
  by (induction b r arbitrary: i r' rule: claim_slot.induct) (auto split: if_splits option.splits)

lemma claim_slot_None: "claim_slot b r = None \<longleftrightarrow> (\<forall>x \<in> set r. fst x \<noteq> 0)"
  by (induction b r rule: claim_slot.induct) (auto split: option.splits)

lemma registry_add_Some:
  "registry_add b e r = Some (i, r') \<Longrightarrow> i < length r \<and> fst (r ! i) = 0 \<and> r' = r[i := (b, e)]"
  using claim_slot_Some [of b r] by (auto simp: registry_add_def publish_end_def split: option.splits)

lemma registry_add_None: "registry_add b e r = None \<longleftrightarrow> (\<forall>x \<in> set r. fst x \<noteq> 0)"
  using claim_slot_None [of b r] by (auto simp: registry_add_def split: option.splits)

section \<open>A pool that has just been made\<close>

text \<open>\<open>obj b sz j\<close> is the object that the \<open>j\<close>th call of \<open>allocate\<close> returns.\<close>

definition obj :: "u64 \<Rightarrow> u64 \<Rightarrow> nat \<Rightarrow> u64" where
  "obj b sz j = b + sz - word_of_nat j * sizeof_Node"

lemma obj_Suc: "obj b sz j - sizeof_Node = obj b sz (Suc j)"
  by (simp add: obj_def algebra_simps)

text \<open>The protected pages are not accessible, and the rest of the region is.\<close>

definition space_ok :: "u64 \<Rightarrow> u64 \<Rightarrow> u64 \<Rightarrow> space \<Rightarrow> bool" where
  "space_ok page b sz sp \<longleftrightarrow> (\<forall>x. unat b \<le> unat x \<and> unat x < unat b + unat sz \<longrightarrow>
     (accessible sp x \<longleftrightarrow> unat b + guard page sizeof_Node \<le> unat x))"

lemma in_range_nat: "unat b + unat n < 18446744073709551616 \<Longrightarrow> in_range b n x \<longleftrightarrow> unat b \<le> unat x \<and> unat x < unat b + unat n"
  using unsigned_less [where 'a = nat, of x] unsigned_less [where 'a = nat, of b]
  by (auto simp: in_range_def word_less_nat_alt unat_sub_if' split: if_splits)

lemma new_pool_ok:
  assumes m: "mmap sz = b" and r: "room_for page sizeof_Node capacity b sz"
    and n: "new_pool mmap page sizeof_Node sz sp reg = Inr (pl, sp', reg')"
  shows "first_free pl = obj b sz 0" "p_begin pl = b" "space_ok page b sz sp'"
    "\<exists>i < length reg. reg' = reg[i := (b, b + sz)]"
proof -
  note d = room_forD [OF r]
  note p = protected_bytes_nat [OF r]
  have g: "guard page sizeof_Node \<le> unat sz" using d(5) by simp
  from n show "first_free pl = obj b sz 0" "p_begin pl = b" "\<exists>i < length reg. reg' = reg[i := (b, b + sz)]"
    using m by (auto simp: new_pool_def Let_def obj_def split: if_splits option.splits dest!: registry_add_Some)
  have "sp' = protect False b (protected_bytes page sizeof_Node) (protect True b sz sp)"
    using n m by (auto simp: new_pool_def Let_def split: if_splits option.splits)
  then show "space_ok page b sz sp'"
    using d(6) g by (auto simp: space_ok_def protect_def in_range_nat p)
qed

lemma new_pool_reported:
  assumes m: "mmap sz = b" and r: "room_for page sizeof_Node capacity b sz"
    and n: "new_pool mmap page sizeof_Node sz sp reg = Inr (pl, sp', reg')"
    and x: "unat b \<le> unat x" "unat x < unat b + unat sz" and c: "\<forall>y \<in> set reg. \<not> covers x y"
  shows "alloc_handler x reg' = Exits 3 (bad_alloc_message @ hex_digits 16 b @ [10])"
proof -
  note d = room_forD [OF r]
  from new_pool_ok(4) [OF m r n] obtain i where "i < length reg" "reg' = reg[i := (b, b + sz)]" by blast
  moreover have "covers x (b, b + sz)"
    using x d(4,7) by (simp add: covers_def word_le_nat_alt word_less_nat_alt)
  ultimately show ?thesis by (simp add: alloc_handler_def find_pool_update [OF _ c])
qed

section \<open>Building a list\<close>

text \<open>The node \<open>m\<close> of the list is the \<open>m\<close>th object and points to the one before it.\<close>

definition list_at :: "u64 \<Rightarrow> u64 \<Rightarrow> nat \<Rightarrow> u64" where
  "list_at b sz j = (if j = 0 then 0 else obj b sz j)"

definition chain :: "u64 \<Rightarrow> u64 \<Rightarrow> nat \<Rightarrow> space \<Rightarrow> bool" where
  "chain b sz j sp \<longleftrightarrow> (\<forall>m < j. nodes sp (obj b sz (Suc m)) = \<lparr>n_next = list_at b sz m, n_id = word_of_nat m\<rparr>)"

lemma obj_nat:
  assumes r: "room_for page sizeof_Node capacity b sz" and j: "j \<le> unat capacity"
  shows "unat (obj b sz j) = unat b + unat sz - 16 * j" "16 * j + guard page sizeof_Node \<le> unat sz"
proof -
  note d = room_forD [OF r]
  have "j * 16 \<le> unat capacity * 16" using j by simp
  then show g: "16 * j + guard page sizeof_Node \<le> unat sz" using d(5) by (simp add: sizeof_Node_def)
  then show "unat (obj b sz j) = unat b + unat sz - 16 * j"
    using object_address [OF r, of j] by (simp add: obj_def sizeof_Node_def mult.commute)
qed

lemma fault_of_none:
  assumes sp: "space_ok page b sz sp" and r: "room_for page sizeof_Node capacity b sz" and j: "j < unat capacity"
  shows "fault_of sp (obj b sz (Suc j)) = None"
proof -
  note d = room_forD [OF r] and o = obj_nat [OF r Suc_leI [OF j]]
  have "accessible sp (obj b sz (Suc j) + word_of_nat i)" if i: "i < 16" for i
  proof -
    obtain D where D: "unat sz = 16 * Suc j + D" "guard page sizeof_Node \<le> D"
      using o(2) le_Suc_ex [of "16 * Suc j" "unat sz"] by auto
    have "unat (word_of_nat i :: u64) = i" using i by (simp add: unat_of_nat)
    then have "unat (obj b sz (Suc j) + word_of_nat i) = unat b + D + i"
      using i o(1) d(6) D(1) by (simp add: unat_word_ariths)
    with sp [unfolded space_ok_def, rule_format, of "obj b sz (Suc j) + word_of_nat i"] D i show ?thesis by simp
  qed
  then show ?thesis by (auto simp: fault_of_def find_None_iff sizeof_Node_def)
qed

lemma allocate_obj:
  "first_free pl = obj b sz j \<Longrightarrow> allocate sizeof_Node pl = (obj b sz (Suc j), pl\<lparr>first_free := obj b sz (Suc j)\<rparr>)"
  by (simp add: allocate_def obj_Suc Let_def)

lemma create_list_step:
  assumes r: "room_for page sizeof_Node capacity b sz" and sp: "space_ok page b sz sp" and ch: "chain b sz j sp"
    and f: "first_free pl = obj b sz j" and j: "j < unat capacity"
  obtains pl' sp' where "create_list_loop (Suc k) (word_of_nat j) (list_at b sz j) pl sp =
      create_list_loop k (word_of_nat (Suc j)) (list_at b sz (Suc j)) pl' sp'"
    "space_ok page b sz sp'" "chain b sz (Suc j) sp'" "first_free pl' = obj b sz (Suc j)"
proof
  let ?node = "obj b sz (Suc j)"
  let ?sp = "sp\<lparr>nodes := (nodes sp)(?node := \<lparr>n_next = list_at b sz j, n_id = word_of_nat j\<rparr>)\<rparr>"
  let ?pl = "pl\<lparr>first_free := ?node\<rparr>"
  show "create_list_loop (Suc k) (word_of_nat j) (list_at b sz j) pl sp =
      create_list_loop k (word_of_nat (Suc j)) (list_at b sz (Suc j)) ?pl ?sp"
    by (simp add: allocate_obj [OF f] fault_of_none [OF sp r j] list_at_def add.commute)
  have "obj b sz (Suc m) \<noteq> ?node" if "m < j" for m
    using obj_nat [OF r, of "Suc j"] obj_nat [OF r, of "Suc m"] that j by auto
  then show "chain b sz (Suc j) ?sp" using ch by (auto simp: chain_def less_Suc_eq)
  show "space_ok page b sz ?sp" using sp by (simp add: space_ok_def)
qed simp

lemma create_list_loop_ok:
  assumes r: "room_for page sizeof_Node capacity b sz"
  shows "space_ok page b sz sp \<Longrightarrow> chain b sz j sp \<Longrightarrow> first_free pl = obj b sz j \<Longrightarrow> j + k \<le> unat capacity \<Longrightarrow>
    \<exists>pl' sp'. create_list_loop k (word_of_nat j) (list_at b sz j) pl sp = Inr (list_at b sz (j + k), pl', sp') \<and>
      chain b sz (j + k) sp'"
proof (induction k arbitrary: j pl sp)
  case (Suc k)
  have "j < unat capacity" using Suc.prems(4) by simp
  from create_list_step [OF r Suc.prems(1,2,3) this, of k] obtain pl' sp' where
    st: "create_list_loop (Suc k) (word_of_nat j) (list_at b sz j) pl sp =
      create_list_loop k (word_of_nat (Suc j)) (list_at b sz (Suc j)) pl' sp'"
    "space_ok page b sz sp'" "chain b sz (Suc j) sp'" "first_free pl' = obj b sz (Suc j)" .
  from Suc.IH [OF st(2-4)] Suc.prems(4) show ?case unfolding st(1) by simp
qed simp

lemma delete_chain:
  assumes r: "room_for page sizeof_Node capacity b sz"
  shows "chain b sz j sp \<Longrightarrow> j \<le> unat capacity \<Longrightarrow> delete_list sp (list_at b sz j) = Some (map word_of_nat (rev [0..<j]))"
proof (induction j)
  case (Suc j)
  have "0 < unat b" using room_forD(4) [OF r] by (simp add: unat_gt_0)
  then have "unat (obj b sz (Suc j)) \<noteq> 0" using obj_nat [OF r Suc.prems(2)] by linarith
  then have "list_at b sz (Suc j) \<noteq> 0" by (auto simp: list_at_def)
  moreover have "delete_list sp (list_at b sz j) = Some (map word_of_nat (rev [0..<j]))"
    using Suc by (simp add: chain_def)
  ultimately show ?case
    using Suc.prems(1) by (subst delete_list.simps) (simp add: chain_def list_at_def)
qed (simp add: list_at_def delete_list.simps)

text \<open>In a pool without room to spare the first byte of the object beyond the capacity is protected.\<close>

lemma fault_beyond:
  assumes r: "room_for page sizeof_Node capacity b sz" and full: "unat sz = guard page sizeof_Node + unat capacity * 16"
    and sp: "space_ok page b sz sp"
  defines "x \<equiv> obj b sz (Suc (unat capacity))"
  shows "fault_of sp x = Some x" "unat b \<le> unat x" "unat x < unat b + unat sz"
proof -
  note d = room_forD [OF r]
  have g: "16 \<le> guard page sizeof_Node" using guard_ge [OF d(1), of sizeof_Node] by (simp add: sizeof_Node_def)
  then have u: "unat x = unat b + guard page sizeof_Node - 16"
    using object_address [OF r, of "Suc (unat capacity)"] full by (simp add: x_def obj_def sizeof_Node_def)
  then show b: "unat b \<le> unat x" "unat x < unat b + unat sz" using g full by linarith+
  then have "\<not> accessible sp x" using sp [unfolded space_ok_def, rule_format, of x] u g by linarith
  then show "fault_of sp x = Some x" by (simp add: fault_of_def sizeof_Node_def upt_rec)
qed

lemma create_list_loop_faults:
  assumes r: "room_for page sizeof_Node capacity b sz"
    and full: "unat sz = guard page sizeof_Node + unat capacity * 16"
  shows "space_ok page b sz sp \<Longrightarrow> chain b sz j sp \<Longrightarrow> first_free pl = obj b sz j \<Longrightarrow> j \<le> unat capacity \<Longrightarrow>
    unat capacity < j + k \<Longrightarrow>
    create_list_loop k (word_of_nat j) (list_at b sz j) pl sp = Inl (obj b sz (Suc (unat capacity)))"
proof (induction k arbitrary: j pl sp)
  case (Suc k)
  show ?case
  proof (cases "j = unat capacity")
    case True
    then show ?thesis
      using fault_beyond(1) [OF r full Suc.prems(1)] by (simp add: allocate_obj [OF Suc.prems(3)])
  next
    case False
    then have j: "j < unat capacity" using Suc.prems(4) by simp
    from create_list_step [OF r Suc.prems(1,2,3) j, of k] obtain pl' sp' where
      st: "create_list_loop (Suc k) (word_of_nat j) (list_at b sz j) pl sp =
        create_list_loop k (word_of_nat (Suc j)) (list_at b sz (Suc j)) pl' sp'"
      "space_ok page b sz sp'" "chain b sz (Suc j) sp'" "first_free pl' = obj b sz (Suc j)" .
    from Suc.IH [OF st(2-4)] j Suc.prems(5) show ?thesis unfolding st(1) by simp
  qed
qed simp

section \<open>Rounding to whole pages\<close>

lemma unat_exp:
  assumes "j < 64"
  shows "unat (2 ^ j :: u64) = 2 ^ j"
proof -
  have "(2 :: nat) ^ j < 2 ^ 64" using assms by (intro power_strict_increasing) simp_all
  then have "unat (word_of_nat (2 ^ j) :: u64) = 2 ^ j" by (simp only: unat_of_nat take_bit_eq_mod) simp
  then show ?thesis by simp
qed

lemma and_not_low_bits:
  assumes j: "j < 64"
  shows "unat ((x :: u64) AND NOT (2 ^ j - 1)) = 2 ^ j * (unat x div 2 ^ j)"
proof -
  have m: "(2 ^ j - 1 :: u64) = mask j" by (simp add: mask_eq_exp_minus_1)
  have "x AND NOT (2 ^ j - 1) = push_bit j (drop_bit j x)"
    unfolding m by (rule bit_word_eqI) (auto simp: bit_simps)
  also have "\<dots> = 2 ^ j * (x div 2 ^ j)" by (simp add: push_bit_eq_mult drop_bit_eq_div mult.commute)
  finally have e: "x AND NOT (2 ^ j - 1) = 2 ^ j * (x div 2 ^ j)" .
  have p: "unat (2 ^ j :: u64) = 2 ^ j" by (rule unat_exp [OF j])
  have q: "unat (x div 2 ^ j) = unat x div 2 ^ j" by (simp add: unat_div_distrib p)
  have "2 ^ j * (unat x div 2 ^ j) < 18446744073709551616"
    using unsigned_less [where 'a = nat, of x] by (simp add: le_less_trans [OF times_div_less_eq_dividend])
  then show ?thesis unfolding e by (simp add: unat_word_ariths(2) p q)
qed

lemma locked_pool_bytes_nat:
  assumes j: "j < 64" and page: "page = 2 ^ j" and n: "unat (pool_bytes page osz capacity) + unat page \<le> 18446744073709551616"
  shows "unat (pool_bytes page osz capacity) \<le> unat (locked_pool_bytes page osz capacity)"
    "unat (locked_pool_bytes page osz capacity) < unat (pool_bytes page osz capacity) + unat page"
    "unat page dvd unat (locked_pool_bytes page osz capacity)"
proof -
  let ?n = "unat (pool_bytes page osz capacity)"
  have p: "unat page = 2 ^ j" unfolding page by (rule unat_exp [OF j])
  have add: "unat (pool_bytes page osz capacity + x) = ?n + unat x" if "?n + unat x < 18446744073709551616" for x
    using that by (simp add: unat_word_ariths)
  have "unat (page - 1) = unat page - 1" using p by (simp add: unat_sub word_le_nat_alt)
  then have "unat (pool_bytes page osz capacity + page - 1) = ?n + unat page - 1"
    using add [of "page - 1"] n p by (simp add: add_diff_eq)
  then have l: "unat (locked_pool_bytes page osz capacity) = unat page * ((?n + unat page - 1) div unat page)"
    unfolding locked_pool_bytes_def by (simp add: page and_not_low_bits [OF j] p [unfolded page])
  have "(?n + unat page - 1) mod unat page < unat page" using p by simp
  with mult_div_mod_eq [of "unat page" "?n + unat page - 1"]
  show "?n \<le> unat (locked_pool_bytes page osz capacity)"
    "unat (locked_pool_bytes page osz capacity) < ?n + unat page"
    unfolding l using p by linarith+
  show "unat page dvd unat (locked_pool_bytes page osz capacity)" unfolding l by simp
qed

end
