(* ===== verification/Registry.thy ===== *)
theory Registry
  imports Pools
begin

text \<open>
  The registry of 06-mempool (src/main.cpp): an array of pools with a queue of slots that have become
  free, and the spinlock around it. The pools are numbers that stand for the addresses of \<open>MemPool\<close>
  objects; \<open>None\<close> in the array is the null pointer.
\<close>

datatype pool_kind = SIMPLE | LOCKED | LOCK_FREE
datatype register_status = IDLE | UPDATING | BAD_ALLOC

record known_pool =
  k_begin :: u64
  k_end :: u64
  k_kind :: pool_kind

record pool_registry =
  known_pools :: "known_pool option list"
  first_free_pool_slot :: nat
  free_pool_slots :: "nat list"

definition POOL_LIMIT_06 :: nat where "POOL_LIMIT_06 = 100"

definition registry_06_init :: pool_registry where
  "registry_06_init = \<lparr>known_pools = replicate POOL_LIMIT_06 None, first_free_pool_slot = 0, free_pool_slots = []\<rparr>"

text \<open>\<open>compare_exchange_strong\<close>: whether it succeeded, and the new status.\<close>

definition compare_exchange :: "'a \<Rightarrow> 'a \<Rightarrow> 'a \<Rightarrow> bool \<times> 'a" where
  "compare_exchange expected new status = (if status = expected then (True, new) else (False, status))"

partial_function (option) pool_registry_spinlock :: "register_status \<Rightarrow> register_status \<Rightarrow> register_status option" where
  "pool_registry_spinlock lock_status status = (let (ok, status') = compare_exchange IDLE lock_status status in
     if ok then pool_registry_spinlock lock_status status' else Some status')"

text \<open>Between locking and unlocking; \<open>None\<close> is the exception.\<close>

definition pool_registry_add :: "known_pool \<Rightarrow> pool_registry \<Rightarrow> (nat \<times> pool_registry) option" where
  "pool_registry_add pool r = (case free_pool_slots r of
     i # q \<Rightarrow> Some (i, r\<lparr>free_pool_slots := q, known_pools := (known_pools r)[i := Some pool]\<rparr>)
   | [] \<Rightarrow> if first_free_pool_slot r = POOL_LIMIT_06 then None
       else let i = first_free_pool_slot r in
         Some (i, r\<lparr>first_free_pool_slot := i + 1, known_pools := (known_pools r)[i := Some pool]\<rparr>))"

definition pool_registry_remove :: "nat \<Rightarrow> pool_registry \<Rightarrow> pool_registry" where
  "pool_registry_remove i r = r\<lparr>free_pool_slots := free_pool_slots r @ [i], known_pools := (known_pools r)[i := None]\<rparr>"

text \<open>A pool of this program; what \<open>allocate\<close> and the lists do is in theories Pools and PoolLists.\<close>

definition PoolAllocator_06 :: "(u64 \<Rightarrow> u64) \<Rightarrow> u64 \<Rightarrow> u64 \<Rightarrow> u64 \<Rightarrow> space \<Rightarrow> pool_registry \<Rightarrow>
    pool_error + (mem_pool \<times> space \<times> pool_registry)" where
  "PoolAllocator_06 mmap page osz capacity sp r = (let pool_size = pool_bytes page osz capacity; b = mmap pool_size in
     if b = MAP_FAILED then Inl BadAlloc
     else let sp' = protect False b (protected_bytes page osz) (protect True b pool_size sp); e = b + pool_size in
       case pool_registry_add \<lparr>k_begin = b, k_end = e, k_kind = SIMPLE\<rparr> r of None \<Rightarrow> Inl NoFreeSlot
       | Some (slot, r') \<Rightarrow> Inr (\<lparr>p_begin = b, p_end = e, p_slot = slot, first_free = e\<rparr>, sp', r'))"

definition delete_pool_06 :: "mem_pool \<Rightarrow> space \<Rightarrow> pool_registry \<Rightarrow> space \<times> pool_registry" where
  "delete_pool_06 pl sp r = (protect False (p_begin pl) (p_end pl - p_begin pl) sp, pool_registry_remove (p_slot pl) r)"

text \<open>The handler ends the process with the kind of pool the address lies in, or without a message
  (\<open>Inr None\<close>); \<open>Inl\<close> is the access to a null pointer in the slot.\<close>

fun segv_search :: "u64 \<Rightarrow> known_pool option list \<Rightarrow> nat \<Rightarrow> nat + pool_kind option" where
  "segv_search p [] i = Inr None"
| "segv_search p (None # ks) i = Inl i"
| "segv_search p (Some k # ks) i = (if k_begin k \<le> p \<and> p < k_end k then Inr (Some (k_kind k)) else segv_search p ks (Suc i))"

definition segv_handler :: "u64 \<Rightarrow> pool_registry \<Rightarrow> nat + pool_kind option" where
  "segv_handler p r = segv_search p (known_pools r) 0"

section \<open>Slots\<close>

text \<open>Every slot below the first free one holds a pool or waits in the queue, once.\<close>

definition slots_ok :: "pool_registry \<Rightarrow> bool" where
  "slots_ok r \<longleftrightarrow> length (known_pools r) = POOL_LIMIT_06 \<and> first_free_pool_slot r \<le> POOL_LIMIT_06 \<and>
     distinct (free_pool_slots r) \<and>
     (\<forall>i < POOL_LIMIT_06. known_pools r ! i = None \<longleftrightarrow> i \<in> set (free_pool_slots r) \<or> first_free_pool_slot r \<le> i) \<and>
     (\<forall>i \<in> set (free_pool_slots r). i < first_free_pool_slot r)"

lemma slots_ok_init: "slots_ok registry_06_init"
  by (simp add: slots_ok_def registry_06_init_def)

lemma slots_ok_add:
  assumes "slots_ok r" and "pool_registry_add pool r = Some (i, r')"
  shows "slots_ok r' \<and> i < POOL_LIMIT_06 \<and> known_pools r ! i = None \<and> known_pools r' = (known_pools r)[i := Some pool]"
proof (cases "free_pool_slots r")
  case Nil
  then show ?thesis using assms
    by (auto simp: slots_ok_def pool_registry_add_def Let_def nth_list_update split: if_splits)
next
  case (Cons j q)
  then have "i = j" "r' = r\<lparr>free_pool_slots := q, known_pools := (known_pools r)[j := Some pool]\<rparr>"
    using assms(2) by (auto simp: pool_registry_add_def)
  then show ?thesis using assms(1) Cons by (auto simp: slots_ok_def nth_list_update)
qed

lemma slots_ok_remove:
  assumes "slots_ok r" and "i < POOL_LIMIT_06" and "known_pools r ! i \<noteq> None"
  shows "slots_ok (pool_registry_remove i r)"
  using assms by (auto simp: slots_ok_def pool_registry_remove_def nth_list_update)

lemma pool_registry_add_full:
  assumes "slots_ok r"
  shows "pool_registry_add pool r = None \<longleftrightarrow> (\<forall>i < POOL_LIMIT_06. known_pools r ! i \<noteq> None)"
proof (cases "free_pool_slots r")
  case Nil
  show ?thesis
  proof (cases "first_free_pool_slot r = POOL_LIMIT_06")
    case True
    then show ?thesis using assms Nil by (auto simp: slots_ok_def pool_registry_add_def)
  next
    case False
    then have "first_free_pool_slot r < POOL_LIMIT_06" "known_pools r ! first_free_pool_slot r = None"
      using assms by (auto simp: slots_ok_def)
    with False Nil show ?thesis by (auto simp: pool_registry_add_def Let_def)
  qed
next
  case (Cons j q)
  then have "j < POOL_LIMIT_06" "known_pools r ! j = None" using assms by (auto simp: slots_ok_def)
  with Cons show ?thesis by (auto simp: pool_registry_add_def)
qed

text \<open>Making and deleting pools keeps the slots in order.\<close>

lemma slots_ok_pools:
  assumes "slots_ok r"
  shows "PoolAllocator_06 mmap page osz capacity sp r = Inr (pl, sp', r') \<Longrightarrow>
      slots_ok r' \<and> p_slot pl < POOL_LIMIT_06 \<and> known_pools r' ! p_slot pl = Some \<lparr>k_begin = p_begin pl, k_end = p_end pl, k_kind = SIMPLE\<rparr>"
    "p_slot pl < POOL_LIMIT_06 \<Longrightarrow> known_pools r ! p_slot pl \<noteq> None \<Longrightarrow> slots_ok (snd (delete_pool_06 pl sp r))"
proof -
  show "slots_ok (snd (delete_pool_06 pl sp r))" if "p_slot pl < POOL_LIMIT_06" "known_pools r ! p_slot pl \<noteq> None"
    using slots_ok_remove [OF assms that] by (simp add: delete_pool_06_def)
  have l: "length (known_pools r) = POOL_LIMIT_06" using assms by (simp add: slots_ok_def)
  assume "PoolAllocator_06 mmap page osz capacity sp r = Inr (pl, sp', r')"
  then show "slots_ok r' \<and> p_slot pl < POOL_LIMIT_06 \<and> known_pools r' ! p_slot pl = Some \<lparr>k_begin = p_begin pl, k_end = p_end pl, k_kind = SIMPLE\<rparr>"
    using slots_ok_add [OF assms] l
    by (auto simp: PoolAllocator_06_def Let_def split: if_splits option.splits)
qed

section \<open>The lock and the handler\<close>

text \<open>The loop runs while the exchange succeeds: it never waits for another thread.\<close>

lemma pool_registry_spinlock_never_waits:
  assumes "lock_status \<noteq> IDLE"
  shows "pool_registry_spinlock lock_status status = Some (if status = IDLE then lock_status else status)"
  using assms by (subst pool_registry_spinlock.simps, subst pool_registry_spinlock.simps)
    (simp add: compare_exchange_def)

text \<open>The handler accesses the null pointer of the first empty slot when no pool before it contains the
  address.\<close>

definition contains :: "u64 \<Rightarrow> known_pool \<Rightarrow> bool" where
  "contains p k \<longleftrightarrow> k_begin k \<le> p \<and> p < k_end k"

lemma segv_search_null:
  "segv_search p ks i = Inl n \<longleftrightarrow> (\<exists>m < length ks. n = i + m \<and> ks ! m = None \<and>
     (\<forall>j < m. \<exists>k. ks ! j = Some k \<and> \<not> contains p k))"
proof (induction p ks i rule: segv_search.induct)
  case (2 p ks i)
  have "(\<forall>j < m. \<exists>k. (None # ks) ! j = Some k \<and> \<not> contains p k) \<longleftrightarrow> m = 0" for m
    by (cases m) auto
  then show ?case by auto
next
  case (3 p k ks i)
  have "(\<exists>m < length (Some k # ks). n = i + m \<and> (Some k # ks) ! m = None \<and> (\<forall>j < m. \<exists>k'. (Some k # ks) ! j = Some k' \<and> \<not> contains p k'))
    \<longleftrightarrow> \<not> contains p k \<and> (\<exists>m < length ks. n = Suc i + m \<and> ks ! m = None \<and> (\<forall>j < m. \<exists>k'. ks ! j = Some k' \<and> \<not> contains p k'))"
    (is "(\<exists>m < _. ?P m) \<longleftrightarrow> _ \<and> (\<exists>m < _. ?Q m)")
  proof -
    have "?P (Suc m) \<longleftrightarrow> \<not> contains p k \<and> ?Q m" for m by (auto simp: All_less_Suc2)
    moreover have "\<not> ?P 0" by simp
    ultimately show ?thesis unfolding Ex_less_Suc2 length_Cons by blast
  qed
  then show ?case using 3 by (auto simp: contains_def)
qed simp

lemma segv_handler_null:
  "segv_handler p r = Inl n \<longleftrightarrow> n < length (known_pools r) \<and> known_pools r ! n = None \<and>
     (\<forall>j < n. \<exists>k. known_pools r ! j = Some k \<and> \<not> contains p k)"
  by (auto simp: segv_handler_def segv_search_null)

end
