(* ===== verification/CacheMetrics.thy ===== *)
theory CacheMetrics
  imports Prelude
begin

text \<open>
  01-cache-metrics (src/main.cpp): chains of pointers through an array, which are followed to measure the
  cache, and the choice of the capacity from the table of results. An element of the array is given by
  its index, and a pointer to it too. The sizes are below 2^20, so that \<open>ptrdiff_t\<close> does not wrap and is
  \<open>int\<close>. The measurement of time, the tables of floating-point times and the output are left out.
\<close>

section \<open>Chains\<close>

type_synonym chain_array = "int \<Rightarrow> int"

definition ARRAY_SIZE :: int where "ARRAY_SIZE = 1048576"

definition chain_size :: "int \<Rightarrow> int \<Rightarrow> int" where
  "chain_size stride spots = min ARRAY_SIZE (stride * spots)"

text \<open>The loop of \<open>run_with_stride\<close>, from the element \<open>i\<close> on.\<close>

function fill_stride_from :: "int \<Rightarrow> int \<Rightarrow> int \<Rightarrow> chain_array \<Rightarrow> chain_array" where
  "fill_stride_from stride sz i jump =
     (if i < sz
      then fill_stride_from stride sz (i + 1) (jump(i := if 0 \<le> i - stride then i - stride else i + sz - stride))
      else jump)"
  by auto
termination by (relation "measure (\<lambda>(stride, sz, i, jump). nat (sz - i))") auto

declare fill_stride_from.simps [simp del]

definition fill_stride :: "int \<Rightarrow> int \<Rightarrow> chain_array \<Rightarrow> chain_array" where
  "fill_stride stride spots jump = fill_stride_from stride (chain_size stride spots) 0 jump"

text \<open>The loop of \<open>run_with_two_strides\<close>, from the last iteration backwards.\<close>

definition fill_spot :: "int \<Rightarrow> int \<Rightarrow> int \<Rightarrow> int \<Rightarrow> chain_array \<Rightarrow> chain_array" where
  "fill_spot small_stride big_stride sz i jump =
     (jump(i + small_stride := if i + big_stride < sz then i + small_stride + big_stride - small_stride
        else i + small_stride + big_stride - small_stride - sz))(i := i + small_stride)"

function fill_two_strides :: "int \<Rightarrow> int \<Rightarrow> int \<Rightarrow> int \<Rightarrow> chain_array \<Rightarrow> chain_array" where
  "fill_two_strides small_stride big_stride sz i jump =
     (if i < sz \<and> 0 < big_stride
      then fill_two_strides small_stride big_stride sz (i + big_stride) (fill_spot small_stride big_stride sz i jump)
      else jump)"
  by auto
termination by (relation "measure (\<lambda>(s, b, sz, i, jump). nat (sz - i))") auto

declare fill_two_strides.simps [simp del]

text \<open>\<open>STEP\<close> follows the chain once; \<open>lap\<close> does so 256 times and then, timed, 1024 times.\<close>

definition walk :: "chain_array \<Rightarrow> nat \<Rightarrow> int" where
  "walk jump n = (jump ^^ n) 0"

definition lap :: "chain_array \<Rightarrow> int" where
  "lap jump = walk jump (256 + 1024)"

section \<open>The choice of the capacity\<close>

text \<open>The table counts in how many of the 100 runs a time rose; \<open>runs * threshold\<close> is 30.\<close>

definition candidate :: "nat \<Rightarrow> nat \<Rightarrow> nat \<times> nat" where
  "candidate r c = (2 ^ c * (r - 1) * 8, r - 1)"

definition try_cell :: "nat \<Rightarrow> nat \<Rightarrow> nat \<Rightarrow> nat \<times> nat \<Rightarrow> nat \<times> nat" where
  "try_cell r c n best = (if 30 < n then
     let (cap, assoc) = candidate r c in
       if cap < fst best \<or> cap = fst best \<and> assoc < snd best then (cap, assoc) else best
     else best)"

definition cells :: "(nat \<times> nat) list" where
  "cells = List.product [2..<20] [1..<20]"

definition cache_geometry :: "(nat \<Rightarrow> nat \<Rightarrow> nat) \<Rightarrow> nat \<times> nat" where
  "cache_geometry stat = fold (\<lambda>(r, c). try_cell r c (stat r c)) cells (2 ^ 64 - 1, 2 ^ 64 - 1)"

section \<open>The chains visit what they should\<close>

lemma fill_stride_from_closed:
  "fill_stride_from stride sz i jump =
     (\<lambda>x. if i \<le> x \<and> x < sz then if 0 \<le> x - stride then x - stride else x + sz - stride else jump x)"
proof (induction stride sz i jump rule: fill_stride_from.induct)
  case (1 stride sz i jump)
  show ?case
  proof (cases "i < sz")
    case True
    then have "fill_stride_from stride sz i jump =
        fill_stride_from stride sz (i + 1) (jump(i := if 0 \<le> i - stride then i - stride else i + sz - stride))"
      by (subst fill_stride_from.simps) simp
    also note 1 [OF True]
    finally show ?thesis using True by (auto simp: fun_eq_iff)
  qed (subst fill_stride_from.simps, auto)
qed

lemma stride_walk:
  assumes s: "0 < stride" and p: "0 < spots" and a: "stride * spots \<le> ARRAY_SIZE"
  shows "walk (fill_stride stride spots jump) n = (- int n) mod spots * stride"
proof (induction n)
  case (Suc n)
  let ?k = "(- int n) mod spots"
  have sz: "chain_size stride spots = spots * stride" using a by (simp add: chain_size_def mult.commute)
  have k: "0 \<le> ?k" "?k < spots" using p by simp_all
  have l: "0 \<le> ?k * stride" "?k * stride < spots * stride" using k s by simp_all
  have w: "walk (fill_stride stride spots jump) (Suc n) = fill_stride stride spots jump (?k * stride)"
    using Suc by (simp add: walk_def)
  have m: "(- int (Suc n)) mod spots = (?k - 1) mod spots"
  proof -
    have "- int (Suc n) = - int n - 1" by simp
    then show ?thesis by (simp only: mod_diff_left_eq)
  qed
  show ?case
  proof (cases "?k = 0")
    case True
    then have "(- int (Suc n)) mod spots = spots - 1" using m p by (simp add: zmod_minus1)
    moreover have "fill_stride stride spots jump (?k * stride) = (spots - 1) * stride"
      using True s p sz by (simp add: fill_stride_def fill_stride_from_closed left_diff_distrib)
    ultimately show ?thesis using w by (simp only:)
  next
    case False
    then have "(- int (Suc n)) mod spots = ?k - 1" using m k by simp
    moreover have "stride \<le> ?k * stride" using False k s by simp
    moreover have "fill_stride stride spots jump (?k * stride) = (?k - 1) * stride"
      using \<open>stride \<le> ?k * stride\<close> l sz by (simp add: fill_stride_def fill_stride_from_closed left_diff_distrib)
    ultimately show ?thesis using w by (simp only:)
  qed
qed (simp add: walk_def)

lemma fill_spot_other: "x < i \<Longrightarrow> 0 < small_stride \<Longrightarrow> fill_spot small_stride big_stride sz i jump x = jump x"
  by (simp add: fill_spot_def)

lemma fill_two_strides_other:
  "x < i \<Longrightarrow> 0 < small_stride \<Longrightarrow> fill_two_strides small_stride big_stride sz i jump x = jump x"
proof (induction small_stride big_stride sz i jump rule: fill_two_strides.induct)
  case (1 small_stride big_stride sz i jump)
  show ?case
  proof (cases "i < sz \<and> 0 < big_stride")
    case True
    then show ?thesis using 1 by (subst fill_two_strides.simps) (simp add: fill_spot_other)
  next
    case False
    then show ?thesis by (subst fill_two_strides.simps) (simp only: if_False)
  qed
qed

text \<open>What stands at the spot \<open>m\<close> and next to it.\<close>

lemma fill_two_strides_at:
  assumes st: "0 < small_stride" "small_stride < big_stride"
  shows "0 \<le> i \<Longrightarrow> i = int j * big_stride \<Longrightarrow> j \<le> m \<Longrightarrow> int m * big_stride < sz \<Longrightarrow>
    fill_two_strides small_stride big_stride sz i jump (int m * big_stride) = int m * big_stride + small_stride \<and>
    fill_two_strides small_stride big_stride sz i jump (int m * big_stride + small_stride) =
      (if int m * big_stride + big_stride < sz then int m * big_stride + big_stride else int m * big_stride + big_stride - sz)"
proof (induction "m - j" arbitrary: i j jump)
  case 0
  then have j: "j = m" and i: "i = int m * big_stride" "i < sz" by simp_all
  let ?jump = "fill_spot small_stride big_stride sz i jump"
  have "fill_two_strides small_stride big_stride sz i jump x = ?jump x" if "x < i + big_stride" for x
    using i st fill_two_strides_other [OF that, of small_stride big_stride sz ?jump]
    by (subst fill_two_strides.simps) simp
  from this [of i] this [of "i + small_stride"] st show ?case
    unfolding i(1) [symmetric] by (simp add: fill_spot_def)
next
  case (Suc k)
  then have "j < m" by simp
  then have "i < sz" using Suc.prems st by (smt (verit) mult_right_mono of_nat_mono less_imp_le)
  moreover have "i + big_stride = int (Suc j) * big_stride" using Suc.prems(2) by (simp add: algebra_simps)
  ultimately show ?case
    using Suc.hyps(1) [of "Suc j" "i + big_stride" "fill_spot small_stride big_stride sz i jump"] Suc.hyps(2) Suc.prems st
    by (subst (1 2) fill_two_strides.simps) (simp add: \<open>j < m\<close> Suc_leI)
qed

lemma two_stride_walk:
  fixes jump :: chain_array
  assumes st: "0 < small_stride" "small_stride < big_stride" and p: "0 < spots" and a: "big_stride * int spots \<le> ARRAY_SIZE"
  defines "chain \<equiv> fill_two_strides small_stride big_stride (chain_size big_stride (int spots)) 0 jump"
  shows "walk chain (2 * n) = int (n mod spots) * big_stride"
    "walk chain (2 * n + 1) = int (n mod spots) * big_stride + small_stride"
proof -
  have sz: "chain_size big_stride (int spots) = int spots * big_stride" using a by (simp add: chain_size_def mult.commute)
  have at: "chain (int m * big_stride) = int m * big_stride + small_stride"
    "chain (int m * big_stride + small_stride) = int (Suc m mod spots) * big_stride" if m: "m < spots" for m
  proof -
    have lt: "int m * big_stride < int spots * big_stride" using m st by simp
    note e = fill_two_strides_at [OF st, of 0 0 m "int spots * big_stride" jump] lt
    then show "chain (int m * big_stride) = int m * big_stride + small_stride" by (simp add: chain_def sz)
    have n: "int m * big_stride + big_stride = int (Suc m) * big_stride" by (simp add: algebra_simps)
    show "chain (int m * big_stride + small_stride) = int (Suc m mod spots) * big_stride"
    proof (cases "Suc m = spots")
      case True
      then show ?thesis using e by (simp add: chain_def sz n del: of_nat_Suc)
    next
      case False
      then have "int (Suc m) * big_stride < int spots * big_stride" using m st by simp
      then show ?thesis using e False m by (simp add: chain_def sz n del: of_nat_Suc)
    qed
  qed
  have "walk chain (2 * n) = int (n mod spots) * big_stride \<and> walk chain (2 * n + 1) = int (n mod spots) * big_stride + small_stride"
  proof (induction n)
    case 0
    show ?case using at(1) [OF p] by (simp add: walk_def)
  next
    case (Suc n)
    have m: "n mod spots < spots" using p by simp
    have "walk chain (2 * Suc n) = chain (walk chain (2 * n + 1))" by (simp add: walk_def)
    also have "\<dots> = int (Suc n mod spots) * big_stride" using Suc at(2) [OF m] by (simp add: mod_Suc_eq)
    finally have w: "walk chain (2 * Suc n) = int (Suc n mod spots) * big_stride" .
    have "walk chain (2 * Suc n + 1) = chain (walk chain (2 * Suc n))" by (simp add: walk_def)
    with w at(1) [of "Suc n mod spots"] p show ?case by simp
  qed
  then show "walk chain (2 * n) = int (n mod spots) * big_stride"
    "walk chain (2 * n + 1) = int (n mod spots) * big_stride + small_stride" by blast+
qed

section \<open>The smallest candidate\<close>

definition smaller :: "nat \<times> nat \<Rightarrow> nat \<times> nat \<Rightarrow> bool" where
  "smaller p q \<longleftrightarrow> fst p < fst q \<or> fst p = fst q \<and> snd p \<le> snd q"

lemma fold_least:
  assumes g: "\<And>x b. smaller (g x b) b" "\<And>x b. P x \<Longrightarrow> smaller (g x b) (cand x)" "\<And>x b. g x b = b \<or> P x \<and> g x b = cand x"
  shows "smaller (fold g xs b) b \<and> (\<forall>x \<in> set xs. P x \<longrightarrow> smaller (fold g xs b) (cand x)) \<and>
    (fold g xs b = b \<or> (\<exists>x \<in> set xs. P x \<and> fold g xs b = cand x))"
proof (induction xs rule: rev_induct)
  case (snoc x xs)
  have trans: "smaller p q \<Longrightarrow> smaller q z \<Longrightarrow> smaller p z" for p q z by (auto simp: smaller_def)
  have f: "fold g (xs @ [x]) b = g x (fold g xs b)" by simp
  show ?case unfolding f using snoc g(2) [of x "fold g xs b"] g(3) [of x "fold g xs b"] trans [OF g(1) [of x "fold g xs b"]]
    by auto
qed (simp add: smaller_def)

text \<open>The capacity and the associativity that are chosen are those of the smallest cell of the table that
  counts enough runs, or the initial values when there is none.\<close>

lemma cache_geometry_least:
  shows "\<forall>(r, c) \<in> set cells. 30 < stat r c \<longrightarrow> smaller (cache_geometry stat) (candidate r c)"
    "cache_geometry stat = (2 ^ 64 - 1, 2 ^ 64 - 1) \<or> (\<exists>(r, c) \<in> set cells. 30 < stat r c \<and> cache_geometry stat = candidate r c)"
proof -
  let ?g = "\<lambda>x. try_cell (fst x) (snd x) (stat (fst x) (snd x))" and ?c = "\<lambda>x. candidate (fst x) (snd x)"
  have "smaller (?g x b) b" "30 < stat (fst x) (snd x) \<Longrightarrow> smaller (?g x b) (?c x)"
    "?g x b = b \<or> 30 < stat (fst x) (snd x) \<and> ?g x b = ?c x" for x b
    by (auto simp: try_cell_def smaller_def split: prod.splits)
  note l = fold_least [of ?g "\<lambda>x. 30 < stat (fst x) (snd x)" ?c, OF this, of cells "(2 ^ 64 - 1, 2 ^ 64 - 1)"]
  show "\<forall>(r, c) \<in> set cells. 30 < stat r c \<longrightarrow> smaller (cache_geometry stat) (candidate r c)"
    "cache_geometry stat = (2 ^ 64 - 1, 2 ^ 64 - 1) \<or> (\<exists>(r, c) \<in> set cells. 30 < stat r c \<and> cache_geometry stat = candidate r c)"
    unfolding cache_geometry_def split_beta using l by blast+
qed

end
