(* ===== verification/SafeRead.thy ===== *)
theory SafeRead
  imports Prelude
begin

text \<open>
  09-safe-byte-read/src/safe_read.cpp: a read that returns \<open>nullopt\<close> where the access faults. The
  dispositions of the signals and the buffer \<open>JMP\<close> belong to the process, the signal mask to the thread, the
  argument and the saved dispositions to the frame of the call. A thread runs in its own frame, until a
  \<open>siglongjmp\<close> with a buffer that another thread has filled takes it to the frame of that thread, where it
  goes on. \<open>access\<close> stands for the machine: the signal that a read raises, or the byte.
  \<open>sa_mask\<close>, which the code does not initialise, is an arbitrary set of signals.
\<close>

section \<open>Signals and threads\<close>

datatype signal = SIGSEGV | SIGBUS

datatype disposition = Default_action | Safe_handler | Other_handler nat

text \<open>How a signal can end the process instead of a call: by default action, in a handler that is not
  this file's, or in a jump to a frame that is not there or no longer there.\<close>

datatype ending = Killed signal | Handled_elsewhere nat | Bad_jump

datatype reader_pc =
  Not_reading
| Install_segv
| Install_bus
| Set_jump
| Read_byte
| Restore_segv "u8 option"
| Restore_bus "u8 option"
| Done "u8 option"

record reader =
  r_pc :: reader_pc
  r_frame :: nat
  r_mask :: "signal list"

text \<open>The frame of the call of a thread.\<close>

record read_frame =
  f_live :: bool
  f_ptr :: u64
  f_old_segv :: disposition
  f_old_bus :: disposition

text \<open>\<open>JMP\<close> holds the frame that it describes and the mask that \<open>sigsetjmp (JMP, 1)\<close> saved.\<close>

record process =
  dispositions :: "signal \<Rightarrow> disposition"
  JMP :: "(nat \<times> signal list) option"
  readers :: "nat \<Rightarrow> reader"
  frames :: "nat \<Rightarrow> read_frame"
  ended :: "ending option"

definition set_reader :: "nat \<Rightarrow> reader \<Rightarrow> process \<Rightarrow> process" where
  "set_reader t r s = s\<lparr>readers := (readers s)(t := r)\<rparr>"

definition set_frame :: "nat \<Rightarrow> read_frame \<Rightarrow> process \<Rightarrow> process" where
  "set_frame k f s = s\<lparr>frames := (frames s)(k := f)\<rparr>"

section \<open>The code\<close>

text \<open>\<open>sigaction\<close>: the old disposition and the new state.\<close>

definition sigaction :: "signal \<Rightarrow> disposition \<Rightarrow> process \<Rightarrow> disposition \<times> process" where
  "sigaction sig d s = (dispositions s sig, s\<lparr>dispositions := (dispositions s)(sig := d)\<rparr>)"

text \<open>\<open>siglongjmp (JMP, 1)\<close> in the thread \<open>t\<close>: \<open>sigsetjmp\<close> returns again in the frame that the buffer
  describes, now with 1, and the mask is the saved one.\<close>

definition safe_handler :: "nat \<Rightarrow> process \<Rightarrow> process" where
  "safe_handler t s = (case JMP s of
     Some (k, saved) \<Rightarrow>
       if f_live (frames s k)
       then set_reader t ((readers s t)\<lparr>r_pc := Restore_segv None, r_frame := k, r_mask := saved\<rparr>) s
       else s\<lparr>ended := Some Bad_jump\<rparr>
   | None \<Rightarrow> s\<lparr>ended := Some Bad_jump\<rparr>)"

text \<open>The delivery of a signal that an instruction of thread \<open>t\<close> has raised. \<open>SA_NODEFER\<close> keeps the signal
  itself out of the mask of the handler; a fault whose signal is blocked kills.\<close>

definition deliver :: "signal list \<Rightarrow> signal \<Rightarrow> nat \<Rightarrow> process \<Rightarrow> process" where
  "deliver sa_mask sig t s =
     (if sig \<in> set (r_mask (readers s t)) then s\<lparr>ended := Some (Killed sig)\<rparr>
      else case dispositions s sig of
        Default_action \<Rightarrow> s\<lparr>ended := Some (Killed sig)\<rparr>
      | Other_handler h \<Rightarrow> s\<lparr>ended := Some (Handled_elsewhere h)\<rparr>
      | Safe_handler \<Rightarrow>
          safe_handler t (set_reader t ((readers s t)\<lparr>r_mask := sa_mask @ r_mask (readers s t)\<rparr>) s))"

text \<open>One statement of \<open>safe_read_byte\<close> in the thread \<open>t\<close>.\<close>

definition safe_read_step ::
    "(u64 \<Rightarrow> signal + u8) \<Rightarrow> signal list \<Rightarrow> nat \<Rightarrow> process \<Rightarrow> process" where
  "safe_read_step access sa_mask t s = (let r = readers s t; k = r_frame r; f = frames s k in
     if ended s \<noteq> None then s
     else case r_pc r of
       Install_segv \<Rightarrow> (let (old, s1) = sigaction SIGSEGV Safe_handler s in
         set_reader t (r\<lparr>r_pc := Install_bus\<rparr>) (set_frame k (f\<lparr>f_old_segv := old\<rparr>) s1))
     | Install_bus \<Rightarrow> (let (old, s1) = sigaction SIGBUS Safe_handler s in
         set_reader t (r\<lparr>r_pc := Set_jump\<rparr>) (set_frame k (f\<lparr>f_old_bus := old\<rparr>) s1))
     | Set_jump \<Rightarrow> set_reader t (r\<lparr>r_pc := Read_byte\<rparr>) (s\<lparr>JMP := Some (k, r_mask r)\<rparr>)
     | Read_byte \<Rightarrow> (case access (f_ptr f) of
         Inr b \<Rightarrow> set_reader t (r\<lparr>r_pc := Restore_segv (Some b)\<rparr>) s
       | Inl sig \<Rightarrow> deliver sa_mask sig t s)
     | Restore_segv res \<Rightarrow>
         set_reader t (r\<lparr>r_pc := Restore_bus res\<rparr>) (snd (sigaction SIGSEGV (f_old_segv f) s))
     | Restore_bus res \<Rightarrow>
         set_reader t (r\<lparr>r_pc := Done res\<rparr>)
           (set_frame k (f\<lparr>f_live := False\<rparr>) (snd (sigaction SIGBUS (f_old_bus f) s)))
     | Not_reading \<Rightarrow> s
     | Done res \<Rightarrow> s)"

text \<open>A call in the thread \<open>t\<close> begins, with a frame of its own; \<open>safe_read_byte\<close> is the whole call when
  nothing comes between its six statements.\<close>

definition begin_read :: "nat \<Rightarrow> u64 \<Rightarrow> process \<Rightarrow> process" where
  "begin_read t p s = set_reader t ((readers s t)\<lparr>r_pc := Install_segv, r_frame := t\<rparr>)
     (set_frame t ((frames s t)\<lparr>f_live := True, f_ptr := p\<rparr>) s)"

fun run_readers :: "(u64 \<Rightarrow> signal + u8) \<Rightarrow> signal list \<Rightarrow> nat list \<Rightarrow> process \<Rightarrow> process" where
  "run_readers access sa_mask [] s = s"
| "run_readers access sa_mask (t # ts) s = run_readers access sa_mask ts (safe_read_step access sa_mask t s)"

definition safe_read_byte ::
    "(u64 \<Rightarrow> signal + u8) \<Rightarrow> signal list \<Rightarrow> nat \<Rightarrow> u64 \<Rightarrow> process \<Rightarrow> process" where
  "safe_read_byte access sa_mask t p s = run_readers access sa_mask (replicate 6 t) (begin_read t p s)"

section \<open>A call on its own\<close>

definition read_result :: "signal + u8 \<Rightarrow> u8 option" where
  "read_result x = (case x of Inr b \<Rightarrow> Some b | Inl sig \<Rightarrow> None)"

definition may_read :: "nat \<Rightarrow> process \<Rightarrow> bool" where
  "may_read t s \<longleftrightarrow> ended s = None \<and> r_mask (readers s t) = []"

lemmas read_defs = safe_read_step_def sigaction_def set_reader_def set_frame_def deliver_def safe_handler_def Let_def

lemma dispositions_restored [simp]:
  "(\<lambda>x. if x = SIGBUS then f SIGBUS else if x = SIGSEGV then f SIGSEGV else g x) = (f :: signal \<Rightarrow> disposition)"
proof
  fix x show "(if x = SIGBUS then f SIGBUS else if x = SIGSEGV then f SIGSEGV else g x) = f x"
    by (cases x) simp_all
qed

lemma safe_read_byte_state:
  assumes "may_read t s"
  shows "safe_read_byte access sa_mask t p s = s\<lparr>JMP := Some (t, []),
     readers := (readers s)(t := (readers s t)\<lparr>r_pc := Done (read_result (access p)), r_frame := t\<rparr>),
     frames := (frames s)(t := (frames s t)\<lparr>f_live := False, f_ptr := p, f_old_segv := dispositions s SIGSEGV,
       f_old_bus := dispositions s SIGBUS\<rparr>)\<rparr>"
proof -
  have 0: "ended s = None" "r_mask (readers s t) = []" using assms by (simp_all add: may_read_def)
  consider b where "access p = Inr b" | "access p = Inl SIGSEGV" | "access p = Inl SIGBUS"
    by (metis signal.exhaust sum.exhaust)
  then show ?thesis
    using 0 by cases (cases "readers s t"; cases "frames s t";
      simp add: safe_read_byte_def begin_read_def numeral_eq_Suc read_result_def read_defs)+
qed

text \<open>Calls one after another, in the same thread or in different ones.\<close>

fun read_all ::
    "(u64 \<Rightarrow> signal + u8) \<Rightarrow> signal list \<Rightarrow> (nat \<times> u64) list \<Rightarrow> process \<Rightarrow> reader_pc list \<times> process" where
  "read_all access sa_mask [] s = ([], s)"
| "read_all access sa_mask ((t, p) # xs) s =
     (let s1 = safe_read_byte access sa_mask t p s; (rs, s2) = read_all access sa_mask xs s1
      in (r_pc (readers s1 t) # rs, s2))"

lemma read_all_results:
  assumes "\<forall>(t, p) \<in> set xs. may_read t s"
  shows "fst (read_all access sa_mask xs s) = map (\<lambda>(t, p). Done (read_result (access p))) xs \<and>
    dispositions (snd (read_all access sa_mask xs s)) = dispositions s \<and>
    ended (snd (read_all access sa_mask xs s)) = ended s"
  using assms
proof (induction xs arbitrary: s)
  case (Cons x xs)
  obtain t p where x: "x = (t, p)" by (cases x)
  let ?s1 = "safe_read_byte access sa_mask t p s"
  have s1: "r_pc (readers ?s1 t) = Done (read_result (access p))" "dispositions ?s1 = dispositions s"
    "ended ?s1 = ended s" "\<And>u. r_mask (readers ?s1 u) = r_mask (readers s u)"
    using Cons.prems x by (simp_all add: safe_read_byte_state)
  have "\<forall>(u, q) \<in> set xs. may_read u ?s1" using Cons.prems s1(3,4) by (auto simp: may_read_def)
  from Cons.IH [OF this] show ?case using s1 x by (simp add: Let_def split_beta)
qed simp

section \<open>Calls side by side\<close>

text \<open>Two calls that overlap can leave the handler installed for good, kill the process by a fault that the
  second call should have caught, or send the thread whose read faults into the frame of the other one,
  where it returns \<open>nullopt\<close> for a read that does not fault.\<close>

definition two_readers :: process where
  "two_readers = \<lparr>dispositions = (\<lambda>_. Default_action), JMP = None,
     readers = (\<lambda>t. \<lparr>r_pc = Install_segv, r_frame = t, r_mask = []\<rparr>),
     frames = (\<lambda>t. \<lparr>f_live = True, f_ptr = of_nat t, f_old_segv = Default_action, f_old_bus = Default_action\<rparr>),
     ended = None\<rparr>"

definition second_faults :: "u64 \<Rightarrow> signal + u8" where
  "second_faults p = (if p = 1 then Inl SIGSEGV else Inr 7)"

lemma overlapping_reads_keep_handler:
  "dispositions (run_readers (\<lambda>p. Inr 7) [] [0, 1, 0, 0, 0, 0, 0, 1, 1, 1, 1, 1] two_readers) SIGSEGV = Safe_handler"
  by code_simp

lemma overlapping_reads_kill:
  "ended (run_readers second_faults [] [0, 1, 0, 0, 0, 0, 1, 1, 1] two_readers) = Some (Killed SIGSEGV)"
  by code_simp

lemma overlapping_reads_jump:
  "let s = run_readers second_faults [] [0, 0, 1, 1, 1, 0, 1, 1, 1] two_readers in
     ended s = None \<and> r_frame (readers s 1) = 0 \<and> r_pc (readers s 1) = Done None \<and>
     second_faults (f_ptr (frames s 0)) = Inr 7"
  by code_simp

text \<open>A jump to a call that has returned.\<close>

lemma overlapping_reads_bad_jump:
  "ended (run_readers (\<lambda>p. if p = 0 then Inl SIGSEGV else Inr 7) [] [0, 0, 0, 1, 1, 1, 1, 1, 1, 0] two_readers) = Some Bad_jump"
  by code_simp

end
