(* ===== verification/HomeworkProperties.thy ===== *)
theory HomeworkProperties
  imports RefString PoolShutdown PoolLists Registry CacheMetrics SafeRead
begin

text \<open>
  The properties of the string pointers (08-string-ptr), of the parallel copy (10-parallel-memcpy), of
  the memory pools (06-mempool, 07-non-blocking-pool), of the safe reads (09-safe-byte-read) and of the
  chains of 01-cache-metrics, each followed by a witness on a concrete state.
\<close>

section \<open>String pointers\<close>

text \<open>An allocator that takes one of two addresses, whichever is free.\<close>

definition two_blocks :: aalloc where
  "two_blocks b n = (if b 16 = None then 16 else if b 64 = None then 64 else 0)"

lemma two_blocks_ok: "aalloc_ok two_blocks"
  by (auto simp: aalloc_ok_def two_blocks_def)

definition demo_ops :: "sp_op list" where
  "demo_ops = [Of 0 (Some [72, 105]), Copy 1 0, Default 2, Assign_str 0 (Some [33, 33]), Assign_copy 2 1, Move 3 0, Destroy 1]"

text \<open>C17: String pointers behave as values. From the start of the program, every sequence of
  constructions, copies, moves, assignments and destructions leaves in every variable the string that
  assigning values would leave there, with the moved-from variables null, whatever strings share a
  block; no pointer dangles, nothing is freed twice and no logic error is thrown. It fails only where
  the sequence misuses a variable, or where the construction of a string fails or overflows its block.\<close>

theorem string_pointers_are_values:
  assumes "aalloc_ok al"
  shows "case exec_ops al xs rc_init of
      Inr s \<Rightarrow> rc_inv s \<and> spec_ops xs (\<lambda>_. None) = Some (abs_of s)
    | Inl e \<Rightarrow> e = NoVariable \<and> spec_ops xs (\<lambda>_. None) = None \<or> e = NullWrite \<or> e = BufferOverflow"
  using exec_ops_refines [OF rc_ready_init(1) assms, of xs]
  by (auto simp: refines_def rc_ready_def rc_ready_init(2) split: sum.splits)

lemma string_pointers_are_values_witness:
  "(case exec_ops two_blocks demo_ops rc_init of
      Inr s \<Rightarrow> rc_inv s \<and> spec_ops demo_ops (\<lambda>_. None) = Some (abs_of s)
    | Inl e \<Rightarrow> e = NoVariable \<and> spec_ops demo_ops (\<lambda>_. None) = None \<or> e = NullWrite \<or> e = BufferOverflow) \<and>
   (case exec_ops two_blocks demo_ops rc_init of
      Inr s \<Rightarrow> abs_of s 2 = Some (Some [72, 105]) \<and> abs_of s 3 = Some (Some [33, 33]) \<and> abs_of s 0 = Some None
    | Inl e \<Rightarrow> False)"
proof (rule conjI)
  show "case exec_ops two_blocks demo_ops rc_init of
      Inr s \<Rightarrow> rc_inv s \<and> spec_ops demo_ops (\<lambda>_. None) = Some (abs_of s)
    | Inl e \<Rightarrow> e = NoVariable \<and> spec_ops demo_ops (\<lambda>_. None) = None \<or> e = NullWrite \<or> e = BufferOverflow"
    by (rule string_pointers_are_values [OF two_blocks_ok])
qed code_simp

text \<open>The constructor of a string gives it a block that holds the characters and the terminating
  zero exactly when the number of characters is even; an odd one is written one byte behind its block.\<close>

theorem odd_strings_overflow:
  assumes "length cs < 9223372036854775807" and "al (bufs s) (aligned_length cs) \<noteq> 0"
  shows "CString_new al (Some cs) s = (if even (length cs)
    then Inr (al (bufs s) (aligned_length cs), s\<lparr>bufs := (bufs s)(al (bufs s) (aligned_length cs) \<mapsto> cs)\<rparr>)
    else Inl BufferOverflow)"
  using assms unat_aligned_length [OF assms(1)] by (simp add: CString_new_def Let_def)

lemma odd_strings_overflow_witness:
  "CString_new two_blocks (Some [72, 105]) rc_init = Inr (16, rc_init\<lparr>bufs := (bufs rc_init)(16 \<mapsto> [72, 105])\<rparr>) \<and>
   CString_new two_blocks (Some [72, 105, 33]) rc_init = Inl BufferOverflow"
  using odd_strings_overflow [of "[72, 105]" two_blocks rc_init] odd_strings_overflow [of "[72, 105, 33]" two_blocks rc_init]
  by (simp add: two_blocks_def rc_init_def)

text \<open>A count that has reached 1 stays there: a string that was shared is never freed.\<close>

lemma shared_strings_leak:
  "(case exec_ops two_blocks [Of 0 (Some [72, 105]), Copy 1 0, Destroy 0, Destroy 1] rc_init of
      Inr s \<Rightarrow> bufs s 16 = Some [72, 105] \<and> svars s (Var 0) = None \<and> svars s (Var 1) = None
    | Inl e \<Rightarrow> False)"
  by code_simp

section \<open>Parallel copying\<close>

text \<open>C39: The blocks tile the region: where size and number of threads together are below 2^62 and the size
  is not 0, every byte lies in exactly one block, and there are at most as many blocks as the threads asked for
  and the caller.\<close>

theorem blocks_tile_the_region:
  assumes "0 < sz" and "unat sz + unat threads < 4611686018427387904" and "k < sz"
  shows "unat (tasks_num sz threads) \<le> unat threads + 1 \<and>
    (\<exists>!i. i < unat (tasks_num sz threads) \<and>
       k - task_offset sz threads (word_of_nat i) < task_size sz threads (word_of_nat i))"
proof
  have s: "0 < unat sz" using assms(1) by (simp add: word_less_nat_alt)
  show "unat (tasks_num sz threads) \<le> unat threads + 1" by (rule tasks_facts(3) [OF s assms(2)])
  show "\<exists>!i. i < unat (tasks_num sz threads) \<and>
      k - task_offset sz threads (word_of_nat i) < task_size sz threads (word_of_nat i)"
    using task_exists [OF s assms(2,3)] in_task_iff [OF s assms(2) _ assms(3)] by blast
qed

lemma blocks_tile_the_region_witness:
  "unat (tasks_num 3000 2) \<le> unat (2 :: u64) + 1 \<and>
    (\<exists>!i. i < unat (tasks_num 3000 2) \<and> 2500 - task_offset 3000 2 (word_of_nat i) < task_size 3000 2 (word_of_nat i))"
  by (rule blocks_tile_the_region) simp_all

definition idle_pool :: "memory64 \<Rightarrow> pool" where
  "idle_pool m = \<lparr>pmem = m, thread_dst = (\<lambda>_. 0), thread_src = (\<lambda>_. 0), thread_size = (\<lambda>_. 0),
     alive_threads = 0, waiting_for = 0, wpc = (\<lambda>_. Sleeping), cpc = Calling\<rparr>"

definition demo_copy :: call where
  "demo_copy = \<lparr>c_workers = 8, c_dst = 4096, c_src = 16384, c_size = 3000, c_threads = bounded_threads 8 2\<rparr>"

lemma demo_copy_ok: "well_split demo_copy" "regions_apart demo_copy" "ready_to_copy demo_copy (idle_pool m)"
  by (simp_all add: well_split_def regions_apart_def ready_to_copy_def demo_copy_def idle_pool_def
      bounded_threads_def tasks_num_def block_size_def Let_def)

text \<open>C18: When the region is large enough for every thread to get a block, the workers sleep when the
  call begins and are not woken without reason, then in every interleaving of the caller and the workers
  a call that has returned has copied the whole region, and the source is unchanged.\<close>

theorem parallel_copy_copies:
  assumes "well_split c" and "regions_apart c" and "ready_to_copy c s"
    and "pool_reaches False c s s'" and "cpc s' = Returned" and "k < c_size c"
  shows "pmem s' (c_dst c + k) = pmem s (c_src c + k) \<and> pmem s' (c_src c + k) = pmem s (c_src c + k)"
  using copy_inv_reaches [OF assms(4,1,2,3)] copy_inv_returned [OF assms(1) _ assms(5,6)] assms(6)
  by (auto simp: copy_inv_def source_kept_def)

lemma parallel_copy_copies_witness:
  "\<exists>s'. pool_reaches False demo_copy (idle_pool (\<lambda>x. if x < 16384 then 0 else ucast x)) s' \<and> cpc s' = Returned \<and>
     pmem s' (4096 + 5) = 5"
proof -
  let ?m = "\<lambda>x :: u64. if x < 16384 then 0 else ucast x :: u8"
  have "copy_inv demo_copy ?m (idle_pool ?m)"
    using copy_inv_reaches [OF pool_reaches.begin' demo_copy_ok, of ?m] by (simp add: idle_pool_def)
  from call_can_return [OF demo_copy_ok(1,2) this] obtain s'
    where r: "pool_reaches False demo_copy (idle_pool ?m) s'" "cpc s' = Returned" by blast
  have "pmem s' (4096 + 5) = 5"
    using parallel_copy_copies [OF demo_copy_ok r, of 5] by (simp add: demo_copy_def idle_pool_def)
  with r show ?thesis by blast
qed

text \<open>C19: Such a call returns: no schedule without spurious wakeups goes on for ever, and while the call
  has not returned some thread can take a step; so the caller, once it sleeps in \<open>receiver_cv.wait\<close>, is
  notified.\<close>

theorem parallel_copy_returns:
  assumes "well_split c" and "regions_apart c" and "ready_to_copy c s" and "pool_reaches False c s s'"
  shows "(cpc s' = Returned \<or> (\<exists>s''. pool_step False c s' s'')) \<and> wf {(s2, s1). pool_step False c s1 s2}"
proof
  show "cpc s' = Returned \<or> (\<exists>s''. pool_step False c s' s'')"
    using pool_progress [OF assms(1) copy_inv_reaches [OF assms(4,1,2,3)]] by blast
  show "wf {(s2, s1). pool_step False c s1 s2}"
    by (rule wf_subset [OF wf_measure [of "pool_measure c"]]) (auto dest: pool_measure_step)
qed

lemma parallel_copy_returns_witness:
  "(\<exists>s''. pool_step False demo_copy (idle_pool (\<lambda>_. 0)) s'') \<and> wf {(s2, s1). pool_step False demo_copy s1 s2}"
  using parallel_copy_returns [OF demo_copy_ok pool_reaches.begin', of "\<lambda>_. 0"] by (simp add: idle_pool_def)

text \<open>Where a thread that was asked for gets no block, it counts as done nevertheless: the call below has two
  blocks for eight threads, the fourth worker reports before the first has copied, and the call returns.\<close>

definition short_copy :: call where
  "short_copy = \<lparr>c_workers = 8, c_dst = 4096, c_src = 16384, c_size = 1500, c_threads = bounded_threads 8 8\<rparr>"

lemma short_copy_returns_early:
  "\<exists>s'. pool_reaches False short_copy (idle_pool (\<lambda>x. if x < 16384 then 0 else 1)) s' \<and>
     cpc s' = Returned \<and> pmem s' (c_dst short_copy) = 0 \<and> pmem s' (c_src short_copy) = 1"
proof -
  define s0 where "s0 = idle_pool (\<lambda>x. if x < 16384 then 0 else 1)"
  define s1 where "s1 = s0\<lparr>alive_threads := c_threads short_copy, cpc := Stored\<rparr>"
  define s2 where "s2 = publish short_copy s1"
  define s3 where "s3 = copy_own_block short_copy s2"
  define s4 where "s4 = set_worker 3 (if alive_threads s3 \<le> word_of_nat 3 then Sleeping else Copying) s3"
  define s5 where "s5 = set_worker 3 Copied (s4\<lparr>pmem := memcpy (thread_dst s4 3) (thread_src s4 3) (thread_size s4 3) (pmem s4)\<rparr>)"
  define s6 where "s6 = notify_receiver (set_worker 3 Sleeping (s5\<lparr>waiting_for := waiting_for s5 - 1\<rparr>))"
  note c = short_copy_def bounded_threads_def
  have t: "tasks_num 1500 8 = 2" by (simp add: tasks_num_def block_size_def)
  have 0: "cpc s0 = Calling" "wpc s0 3 = Sleeping" "thread_size s0 3 = 0" "pmem s0 = (\<lambda>x. if x < 16384 then 0 else 1)"
    by (simp_all add: s0_def idle_pool_def)
  have 1: "cpc s1 = Stored" "wpc s1 3 = Sleeping" "thread_size s1 3 = 0" "alive_threads s1 = 8" "pmem s1 = pmem s0"
    using 0 by (simp_all add: s1_def c)
  have 2: "cpc s2 = Own_block" "wpc s2 3 = Woken" "thread_size s2 3 = 0" "alive_threads s2 = 8" "waiting_for s2 = 1" "pmem s2 = pmem s0"
    using 1 by (simp_all add: s2_def publish_def t c Let_def)
  have 3: "cpc s3 = Awaiting" "wpc s3 3 = Woken" "thread_size s3 3 = 0" "alive_threads s3 = 8" "waiting_for s3 = 1"
    "pmem s3 4096 = 0" "pmem s3 16384 = 1"
    using 2 0 by (simp_all add: s3_def copy_own_block_def t c Let_def memcpy_def task_offset_def task_size_def block_size_def)
  have 4: "cpc s4 = Awaiting" "wpc s4 3 = Copying" "thread_size s4 3 = 0" "waiting_for s4 = 1" "pmem s4 = pmem s3"
    using 3 by (simp_all add: s4_def set_worker_def)
  have 5: "cpc s5 = Awaiting" "wpc s5 3 = Copied" "waiting_for s5 = 1" "pmem s5 = pmem s3"
    using 4 by (simp_all add: s5_def set_worker_def memcpy_def)
  have 6: "cpc s6 = Awaiting" "waiting_for s6 = 0" "pmem s6 = pmem s3"
    using 5 by (simp_all add: s6_def set_worker_def notify_receiver_def)
  have w: "3 < c_workers short_copy" by (simp add: c)
  have "pool_reaches False short_copy s0 (s6\<lparr>cpc := Returned\<rparr>)"
    using pool_step.stores [OF 0(1), of False short_copy, folded s1_def] pool_step.publishes [OF 1(1), of False short_copy, folded s2_def]
      pool_step.own_block [OF 2(1), of False short_copy, folded s3_def] pool_step.takes_task [OF w 3(2), of False, folded s4_def]
      pool_step.copies [OF w 4(2), of False, folded s5_def] pool_step.reports [OF w 5(2), of False, folded s6_def]
      pool_step.returns [OF 6(1), of short_copy False] 6(2)
    by (auto intro!: pool_reaches.begin' elim!: pool_reaches.more [rotated])
  then show ?thesis using 3 6 unfolding s0_def by (intro exI [of _ "s6\<lparr>cpc := Returned\<rparr>"]) (simp add: c)
qed

text \<open>A worker that has not reached its \<open>wait\<close> when the caller notifies misses the notification: the
  call then waits for ever.\<close>

lemma lost_wakeup:
  "\<exists>s'. pool_reaches False (demo_copy\<lparr>c_workers := 2\<rparr>) ((idle_pool m)\<lparr>wpc := (\<lambda>_. Starting)\<rparr>) s' \<and>
     cpc s' \<noteq> Returned \<and> \<not> (\<exists>s''. pool_step False (demo_copy\<lparr>c_workers := 2\<rparr>) s' s'')"
proof -
  define c where "c = demo_copy\<lparr>c_workers := 2\<rparr>"
  define s0 where "s0 = (idle_pool m)\<lparr>wpc := (\<lambda>_. Starting)\<rparr>"
  define s1 where "s1 = s0\<lparr>alive_threads := c_threads c, cpc := Stored\<rparr>"
  define s2 where "s2 = publish c s1"
  define s3 where "s3 = set_worker 0 Sleeping s2"
  define s4 where "s4 = set_worker 1 Sleeping s3"
  define s5 where "s5 = copy_own_block c s4"
  have c: "c_size c = 3000" "c_threads c = 2" "c_workers c = 2" by (simp_all add: c_def demo_copy_def bounded_threads_def)
  have t: "tasks_num 3000 2 = 3" by (simp add: tasks_num_def block_size_def)
  have 1: "cpc s0 = Calling" "cpc s1 = Stored" "wpc s1 = (\<lambda>_. Starting)"
    by (simp_all add: s1_def s0_def idle_pool_def)
  have 2: "cpc s2 = Own_block" "wpc s2 = (\<lambda>_. Starting)" "waiting_for s2 = 2"
    using 1 by (simp_all add: s2_def publish_def t c Let_def)
  have 3: "wpc s2 0 = Starting" "wpc s3 1 = Starting" "cpc s4 = Own_block" "waiting_for s4 = 2"
    "wpc s4 0 = Sleeping" "wpc s4 1 = Sleeping"
    using 2 by (simp_all add: s4_def s3_def set_worker_def)
  have 5: "cpc s5 = Awaiting" "waiting_for s5 = 2" "\<forall>i < 2. wpc s5 i = Sleeping"
    using 3 by (auto simp: s5_def copy_own_block_def Let_def less_2_cases_iff)
  have "pool_reaches False c s0 (s5\<lparr>cpc := Blocked\<rparr>)"
    using pool_step.stores [OF 1(1), of False c, folded s1_def] pool_step.publishes [OF 1(2), of False c, folded s2_def]
      pool_step.starts [of 0 c s2 False, OF _ 3(1), folded s3_def] pool_step.starts [of 1 c s3 False, OF _ 3(2), folded s4_def]
      pool_step.own_block [OF 3(3), of False c, folded s5_def] pool_step.waits [OF 5(1), of c False] 5(2) c t
    by (auto intro!: pool_reaches.begin' elim!: pool_reaches.more [rotated])
  moreover have "\<not> pool_step False c (s5\<lparr>cpc := Blocked\<rparr>) s''" for s'' using 5 c t by (auto elim!: pool_stepE)
  ultimately show ?thesis unfolding c_def s0_def by (intro exI [of _ "s5\<lparr>cpc := Blocked\<rparr>"]) simp
qed

text \<open>A call for no bytes copies the 1024 bytes before the regions.\<close>

lemma empty_copy_writes:
  assumes "c_size c = 0" and "unat (c_threads c) < 9223372036854775808"
  shows "pmem (copy_own_block c s) = memcpy (c_dst c - 1024) (c_src c - 1024) 1024 (pmem s)"
proof -
  have "unat (block_size 0 (c_threads c)) = 1024"
    using assms(2) by (auto simp: block_size_def max_def word_le_nat_alt unat_word_ariths unat_div_distrib div_less_iff_less_mult)
  then have b: "block_size 0 (c_threads c) = 1024" by (simp add: word_eq_iff_unsigned [where 'a = nat])
  then show ?thesis
    by (simp add: copy_own_block_def assms(1) tasks_num_def task_offset_def task_size_def Let_def)
qed

text \<open>A worker that an earlier call has woken without need can run between the two steps in which a call
  stores the number of threads and publishes the blocks. It then copies an old block and is not asleep when
  it is notified, but its report counts for the new call, which returns without the worker's block.\<close>

lemma stale_worker_returns_early:
  "\<exists>s'. pool_reaches False demo_copy ((idle_pool (\<lambda>x. if x < 16384 then 0 else 1))\<lparr>wpc := (\<lambda>i. if i = 0 then Woken else Sleeping)\<rparr>) s' \<and>
     cpc s' = Returned \<and> pmem s' (c_dst demo_copy) = 0 \<and> pmem s' (c_src demo_copy) = 1"
proof -
  let ?c = demo_copy
  define s0 where "s0 = (idle_pool (\<lambda>x. if x < 16384 then 0 else 1))\<lparr>wpc := (\<lambda>i. if i = 0 then Woken else Sleeping)\<rparr>"
  define s1 where "s1 = s0\<lparr>alive_threads := c_threads ?c, cpc := Stored\<rparr>"
  define s2 where "s2 = set_worker 0 Copying s1"
  define s3 where "s3 = set_worker 0 Copied (s2\<lparr>pmem := memcpy (thread_dst s2 0) (thread_src s2 0) (thread_size s2 0) (pmem s2)\<rparr>)"
  define s4 where "s4 = publish ?c s3"
  define s5 where "s5 = notify_receiver (set_worker 0 Sleeping (s4\<lparr>waiting_for := waiting_for s4 - 1\<rparr>))"
  define s6 where "s6 = copy_own_block ?c s5"
  define s7 where "s7 = set_worker 1 Copying s6"
  define s8 where "s8 = set_worker 1 Copied (s7\<lparr>pmem := memcpy (thread_dst s7 1) (thread_src s7 1) (thread_size s7 1) (pmem s7)\<rparr>)"
  define s9 where "s9 = notify_receiver (set_worker 1 Sleeping (s8\<lparr>waiting_for := waiting_for s8 - 1\<rparr>))"
  note c = demo_copy_def bounded_threads_def
  have t: "tasks_num 3000 2 = 3" by (simp add: tasks_num_def block_size_def)
  have w: "0 < c_workers ?c" "1 < c_workers ?c" by (simp_all add: c)
  have 0: "cpc s0 = Calling" "wpc s0 0 = Woken" "wpc s0 1 = Sleeping" "thread_size s0 0 = 0"
    "pmem s0 = (\<lambda>x. if x < 16384 then 0 else 1)"
    by (simp_all add: s0_def idle_pool_def)
  have 1: "cpc s1 = Stored" "wpc s1 0 = Woken" "wpc s1 1 = Sleeping" "thread_size s1 0 = 0" "alive_threads s1 = 2" "pmem s1 = pmem s0"
    using 0 by (simp_all add: s1_def c)
  have 2: "cpc s2 = Stored" "wpc s2 0 = Copying" "wpc s2 1 = Sleeping" "thread_size s2 0 = 0" "alive_threads s2 = 2" "pmem s2 = pmem s0"
    using 1 by (simp_all add: s2_def set_worker_def)
  have 3: "cpc s3 = Stored" "wpc s3 0 = Copied" "wpc s3 1 = Sleeping" "alive_threads s3 = 2" "pmem s3 = pmem s0"
    using 2 by (simp_all add: s3_def set_worker_def memcpy_def)
  have 4: "cpc s4 = Own_block" "wpc s4 0 = Copied" "wpc s4 1 = Woken" "alive_threads s4 = 2" "waiting_for s4 = 2"
    "pmem s4 = pmem s0" "thread_dst s4 1 = 5120" "thread_src s4 1 = 17408" "thread_size s4 1 = 1024"
    using 3 by (simp_all add: s4_def publish_def t c Let_def task_offset_def task_size_def block_size_def)
  have 5: "cpc s5 = Own_block" "wpc s5 1 = Woken" "alive_threads s5 = 2" "waiting_for s5 = 1"
    "pmem s5 = pmem s0" "thread_dst s5 1 = 5120" "thread_src s5 1 = 17408" "thread_size s5 1 = 1024"
    using 4 by (simp_all add: s5_def set_worker_def notify_receiver_def)
  have 6: "cpc s6 = Awaiting" "wpc s6 1 = Woken" "alive_threads s6 = 2" "waiting_for s6 = 1"
    "thread_dst s6 1 = 5120" "thread_src s6 1 = 17408" "thread_size s6 1 = 1024" "pmem s6 4096 = 0" "pmem s6 16384 = 1"
    using 5 0 by (simp_all add: s6_def copy_own_block_def t c Let_def memcpy_def task_offset_def task_size_def block_size_def)
  have 7: "cpc s7 = Awaiting" "wpc s7 1 = Copying" "waiting_for s7 = 1" "thread_dst s7 1 = 5120" "thread_src s7 1 = 17408"
    "thread_size s7 1 = 1024" "pmem s7 = pmem s6"
    using 6 by (simp_all add: s7_def set_worker_def)
  have 8: "cpc s8 = Awaiting" "wpc s8 1 = Copied" "waiting_for s8 = 1" "pmem s8 4096 = 0" "pmem s8 16384 = 1"
    using 7 6 by (simp_all add: s8_def set_worker_def memcpy_def)
  have 9: "cpc s9 = Awaiting" "waiting_for s9 = 0" "pmem s9 4096 = 0" "pmem s9 16384 = 1"
    using 8 by (simp_all add: s9_def set_worker_def notify_receiver_def)
  have "\<not> (2 :: u64) \<le> 1" by (simp add: word_le_nat_alt)
  then have "pool_step False ?c s1 s2" "pool_step False ?c s6 s7"
    using pool_step.takes_task [OF w(1) 1(2), of False] 1(5) pool_step.takes_task [OF w(2) 6(2), of False] 6(3)
    by (simp_all add: s2_def s7_def)
  then have "pool_reaches False ?c s0 (s9\<lparr>cpc := Returned\<rparr>)"
    using pool_step.stores [OF 0(1), of False ?c, folded s1_def] pool_step.copies [OF w(1) 2(2), of False, folded s3_def]
      pool_step.publishes [OF 3(1), of False ?c, folded s4_def] pool_step.reports [OF w(1) 4(2), of False, folded s5_def]
      pool_step.own_block [OF 5(1), of False ?c, folded s6_def] pool_step.copies [OF w(2) 7(2), of False, folded s8_def]
      pool_step.reports [OF w(2) 8(2), of False, folded s9_def] pool_step.returns [OF 9(1), of ?c False] 9(2)
    by (auto intro!: pool_reaches.begin' elim!: pool_reaches.more [rotated])
  then show ?thesis using 9 unfolding s0_def by (intro exI [of _ "s9\<lparr>cpc := Returned\<rparr>"]) (simp add: c)
qed

text \<open>The benchmark's own calls give every thread a block, so its assertion holds after a call that begins
  with all workers asleep.\<close>

lemma benchmark_copies:
  assumes "threads_num \<le> 8" and "c = benchmark_call dst src threads_num" and "regions_apart c" and "ready_to_copy c s"
    and "pool_reaches False c s s'" and "cpc s' = Returned" and "k < push_bit 26 1 * 4"
  shows "pmem s' (dst + k) = pmem s' (src + k)"
proof -
  have w: "well_split c" using benchmark_well_split [OF assms(1)] assms(2) by simp
  have e: "c_dst c = dst" "c_src c = src" "c_size c = push_bit 26 1 * 4" using assms(2) by (simp_all add: benchmark_call_def)
  have "k < c_size c" using assms(7) e(3) by simp
  with copy_inv_reaches [OF assms(5) w assms(3,4)] copy_inv_returned [OF w _ assms(6)] e show ?thesis
    by (auto simp: copy_inv_def source_kept_def)
qed

section \<open>Safe reads\<close>

text \<open>C23: Reads one after another, in any threads, return the byte where the access does not fault and
  \<open>nullopt\<close> where it raises SIGSEGV or SIGBUS; the process goes on with the handlers it had before.\<close>

theorem safe_reads:
  assumes "\<forall>(t, p) \<in> set xs. may_read t s"
  shows "fst (read_all access sa_mask xs s) = map (\<lambda>(t, p). Done (read_result (access p))) xs \<and>
    dispositions (snd (read_all access sa_mask xs s)) = dispositions s \<and>
    ended (snd (read_all access sa_mask xs s)) = ended s"
  by (rule read_all_results [OF assms])

lemma safe_reads_witness:
  "fst (read_all second_faults [SIGBUS] [(0, 5), (1, 1), (0, 6)] two_readers) = [Done (Some 7), Done None, Done (Some 7)] \<and>
   dispositions (snd (read_all second_faults [SIGBUS] [(0, 5), (1, 1), (0, 6)] two_readers)) = (\<lambda>_. Default_action)"
  using safe_reads [of "[(0, 5), (1, 1), (0, 6)]" two_readers second_faults "[SIGBUS]"]
  by (simp add: may_read_def two_readers_def second_faults_def read_result_def)

section \<open>Memory pools\<close>

text \<open>C20: Threads that share a pool get objects that lie in the region behind the protected pages and do
  not overlap, in every interleaving of their allocations, with the lock as with the atomic subtraction,
  as long as they stay within the capacity; the pool has given out one contiguous part of the region.\<close>

theorem shared_pools_dispense:
  assumes "room_for page osz capacity b sz"
    and "(locked_step osz n)\<^sup>*\<^sup>* (fresh_shared (b + sz)) s \<or> (lock_free_step osz n)\<^sup>*\<^sup>* (fresh_shared (b + sz)) s"
    and "size (held osz n s) \<le> unat capacity"
  shows "apart osz (unat b + guard page osz) (unat b + unat sz) (held osz n s) \<and>
    s_first_free s = b + sz - word_of_nat (size (held osz n s)) * osz"
proof -
  have f: "lock_inv n (fresh_shared (b + sz))" "held osz n (fresh_shared (b + sz)) = {#}"
    "s_first_free (fresh_shared (b + sz)) = b + sz"
    by (simp_all add: lock_inv_def held_def in_hand_def fresh_shared_def)
  from assms(2) have g: "s_first_free s = b + sz - word_of_nat (size (held osz n s)) * osz"
    "held osz n s = mset (map (\<lambda>j. b + sz - word_of_nat (Suc j) * osz) [0..<size (held osz n s)])"
    by (blast dest: locked.gives_in_order [OF _ f(1,2), unfolded f(3)] lock_free.gives_in_order [OF _ TrueI f(2), unfolded f(3)])+
  show ?thesis using apart_dispensed [OF assms(1,3)] g by metis
qed

lemma shared_pools_dispense_witness:
  "\<exists>s. (lock_free_step 16 2)\<^sup>*\<^sup>* (fresh_shared (65536 + 4128)) s \<and> size (held 16 2 s) = 2 \<and>
     apart 16 (unat (65536 :: u64) + guard 4096 16) (unat (65536 :: u64) + unat (4128 :: u64)) (held 16 2 s)"
proof -
  let ?s0 = "fresh_shared (65536 + 4128)"
  let ?s1 = "goto 0 (Fetched 69664) (?s0\<lparr>s_first_free := 69648\<rparr>)"
  let ?s2 = "goto 1 (Fetched 69648) (?s1\<lparr>s_first_free := 69632\<rparr>)"
  have "lock_free_step 16 2 ?s0 ?s1" "lock_free_step 16 2 ?s1 ?s2"
    using lock_free_step.fetches [of 0 2 ?s0 16] lock_free_step.fetches [of 1 2 ?s1 16]
    by (simp_all add: fresh_shared_def goto_def)
  then have r: "(lock_free_step 16 2)\<^sup>*\<^sup>* ?s0 ?s2" by simp
  have h: "size (held 16 2 ?s2) = 2"
    by (simp add: held_def in_hand_def goto_def fresh_shared_def numeral_2_eq_2)
  have "room_for 4096 16 2 65536 4128" by (simp add: room_for_def guard_def)
  from shared_pools_dispense [OF this disjI2 [OF r]] h show ?thesis using r by auto
qed

text \<open>C22: In a pool that has been made, a list of no more nodes than the capacity is built without a
  fault, and deleting it terminates and visits its nodes, the last one first.\<close>

theorem list_in_pool:
  assumes "mmap sz = b" and "room_for page sizeof_Node capacity b sz"
    and "new_pool mmap page sizeof_Node sz sp reg = Inr (pl, sp', reg')" and "unat n \<le> unat capacity"
  shows "\<exists>list pl' sp''. create_list n pl sp' = Inr (list, pl', sp'') \<and>
    delete_list sp'' list = Some (map word_of_nat (rev [0..<unat n]))"
  using create_list_loop_ok [OF assms(2) new_pool_ok(3) [OF assms(1,2,3)] _ new_pool_ok(1) [OF assms(1,2,3)], of "unat n"]
    delete_chain [OF assms(2), of "unat n"] assms(4)
  by (auto simp: create_list_def chain_def list_at_def)

definition demo_space :: space where
  "demo_space = \<lparr>accessible = (\<lambda>_. False), nodes = (\<lambda>_. \<lparr>n_next = 0, n_id = 0\<rparr>)\<rparr>"

lemma list_in_pool_witness:
  "case new_pool (\<lambda>_. 65536) 4096 sizeof_Node 4128 demo_space [(0, 0)] of
      Inr (pl, sp', reg') \<Rightarrow> \<exists>list pl' sp''. create_list 2 pl sp' = Inr (list, pl', sp'') \<and>
        delete_list sp'' list = Some [1, 0]
    | Inl e \<Rightarrow> False"
proof -
  have r: "room_for 4096 sizeof_Node 2 65536 4128" by (simp add: room_for_def guard_def sizeof_Node_def)
  obtain pl sp' reg' where n: "new_pool (\<lambda>_. 65536) 4096 sizeof_Node 4128 demo_space [(0, 0)] = Inr (pl, sp', reg')"
    by (simp add: new_pool_def Let_def MAP_FAILED_def registry_add_def)
  show ?thesis using list_in_pool [OF _ r n, of 2] by (simp add: n upt_rec)
qed

text \<open>C21: A list of more nodes than the capacity faults, and the handler writes its message and where the pool
  begins, and exits with 3: the digits that it writes are those of the address.\<close>

theorem exhausted_pool_is_reported:
  assumes "mmap (pool_bytes page sizeof_Node capacity) = b"
    and "room_for page sizeof_Node capacity b (pool_bytes page sizeof_Node capacity)"
    and "new_pool mmap page sizeof_Node (pool_bytes page sizeof_Node capacity) sp reg = Inr (pl, sp', reg')"
    and "\<forall>x. unat b \<le> unat x \<and> unat x < unat b + unat (pool_bytes page sizeof_Node capacity) \<longrightarrow>
      (\<forall>y \<in> set reg. \<not> covers x y)"
    and "unat capacity < unat n"
  shows "\<exists>x ds. create_list n pl sp' = Inl x \<and> alloc_handler x reg' = Exits 3 (bad_alloc_message @ ds @ [10]) \<and>
    of_hex ds = unat b"
proof -
  note o = new_pool_ok [OF assms(1,2,3)]
  let ?sz = "pool_bytes page sizeof_Node capacity" and ?x = "obj b (pool_bytes page sizeof_Node capacity) (Suc (unat capacity))"
  have full: "unat ?sz = guard page sizeof_Node + unat capacity * 16"
    using pool_bytes_nat [OF assms(2)] by (simp add: sizeof_Node_def)
  note f = fault_beyond [OF assms(2) full o(3)]
  have "create_list n pl sp' = Inl ?x"
    using create_list_loop_faults [OF assms(2) full o(3) _ o(1), of "unat n"] assms(5)
    by (simp add: create_list_def chain_def list_at_def)
  moreover have "alloc_handler ?x reg' = Exits 3 (bad_alloc_message @ hex_digits 16 b @ [10])"
    using new_pool_reported [OF assms(1,2,3) f(2,3)] assms(4) f(2,3) by blast
  moreover have "of_hex (hex_digits 16 b) = unat b"
    using unsigned_less [where 'a = nat, of b] by (simp add: of_hex_digits)
  ultimately show ?thesis by blast
qed

lemma exhausted_pool_is_reported_witness:
  "case new_pool (\<lambda>_. 65536) 4096 sizeof_Node (pool_bytes 4096 sizeof_Node 2) demo_space [(0, 0)] of
      Inr (pl, sp', reg') \<Rightarrow> \<exists>x ds. create_list 3 pl sp' = Inl x \<and> alloc_handler x reg' = Exits 3 (bad_alloc_message @ ds @ [10]) \<and>
        of_hex ds = 65536
    | Inl e \<Rightarrow> False"
proof -
  have r: "room_for 4096 sizeof_Node 2 65536 (pool_bytes 4096 sizeof_Node 2)"
    by (simp add: room_for_def guard_def sizeof_Node_def pool_bytes_def protected_bytes_def)
  obtain pl sp' reg' where n: "new_pool (\<lambda>_. 65536) 4096 sizeof_Node (pool_bytes 4096 sizeof_Node 2) demo_space [(0, 0)] = Inr (pl, sp', reg')"
    by (simp add: new_pool_def Let_def MAP_FAILED_def registry_add_def)
  show ?thesis using exhausted_pool_is_reported [OF _ r n, of 3] by (simp add: n covers_def)
qed

section \<open>Chains through an array\<close>

text \<open>C38: Following the chain of one stride visits the chosen number of places, one stride apart, over and
  over; the chain of two strides visits in turn a place and the one a small stride behind it. The places must
  lie in the array (stride * spots at most ARRAY_SIZE), and the small stride be less than the other.\<close>

theorem chains_visit_spots:
  assumes "0 < stride" and "0 < spots" and "stride * int spots \<le> ARRAY_SIZE" and "0 < small_stride" and "small_stride < stride"
  shows "walk (fill_stride stride (int spots) jump) n = (- int n) mod int spots * stride \<and>
    walk (fill_two_strides small_stride stride (chain_size stride (int spots)) 0 jump) (2 * n) = int (n mod spots) * stride \<and>
    walk (fill_two_strides small_stride stride (chain_size stride (int spots)) 0 jump) (2 * n + 1) =
      int (n mod spots) * stride + small_stride"
  using stride_walk [OF assms(1) _ assms(3), of jump n] two_stride_walk [OF assms(4,5,2,3), of jump n] assms(2) by simp

lemma chains_visit_spots_witness:
  "walk (fill_stride 16 (int 3) (\<lambda>_. 0)) 4 = 32 \<and>
    walk (fill_two_strides 4 16 (chain_size 16 (int 3)) 0 (\<lambda>_. 0)) (2 * 4) = 16 \<and>
    walk (fill_two_strides 4 16 (chain_size 16 (int 3)) 0 (\<lambda>_. 0)) (2 * 4 + 1) = 20"
  using chains_visit_spots [of 16 3 4 "\<lambda>_. 0" 4] by (simp add: ARRAY_SIZE_def)

end
