(* ===== verification/SystemCalls.thy ===== *)
theory SystemCalls
  imports Printing
begin

text \<open>
  runtime/runtime.c, the functions on top of the C library: failures (lines 24-43), regular expressions
  and numbers (476-504, 598-602), formatted output (966-1000, 1044-1093), files (1095-1194), random
  numbers, time and arguments (1215-1271). The library is a record \<open>libc\<close> of parameters; what it keeps
  (files, open streams, the input) is the record \<open>world\<close>.
\<close>

section \<open>The C library\<close>

text \<open>
  \<open>vformat m fmt va\<close>: the text that \<open>printf\<close> makes of the format at \<open>fmt\<close> and the arguments at \<open>va\<close>.
  \<open>scan_int\<close>: the number that \<open>%d\<close> reads. \<open>may_open name mode\<close>: permissions. \<open>can_seek name\<close>: \<open>fseek\<close> to the
  end of the file succeeds. \<open>fread_count name n\<close>: how many bytes \<open>fread\<close> gets when \<open>n\<close> are asked for.
\<close>

record libc =
  vformat :: "memory \<Rightarrow> addr \<Rightarrow> addr \<Rightarrow> u8 list"
  scan_int :: "u8 list \<Rightarrow> u32 option"
  may_open :: "u8 list \<Rightarrow> u8 list \<Rightarrow> bool"
  can_seek :: "u8 list \<Rightarrow> bool"
  fread_count :: "u8 list \<Rightarrow> nat \<Rightarrow> nat"
  getenv :: "u8 list \<Rightarrow> addr option"
  run_command :: "u8 list \<Rightarrow> u32"
  compile_pattern :: "u8 list \<Rightarrow> addr option"
  re_match :: "addr \<Rightarrow> u8 list \<Rightarrow> u32 \<Rightarrow> u32"

datatype stream = To_file "u8 list" | To_stdout | To_stderr

text \<open>\<open>streams\<close>: the open \<open>FILE\<close>s by address; \<open>next_streams\<close>: the addresses that \<open>fopen\<close> will return.\<close>

record world =
  files :: "u8 list \<Rightarrow> u8 list option"
  streams :: "u32 \<Rightarrow> stream option"
  next_streams :: "u32 list"
  std_out :: "u8 list"
  std_err :: "u8 list"
  std_in :: "u8 list"
  disk_full :: bool

text \<open>\<open>fopen\<close>: \<open>r\<close> needs the file to exist, \<open>w\<close> empties or creates it, \<open>a\<close> creates it.\<close>

definition fopen :: "libc \<Rightarrow> u8 list \<Rightarrow> u8 list \<Rightarrow> world \<Rightarrow> u32 option \<times> world" where
  "fopen c name mode w = (case next_streams w of
     [] \<Rightarrow> (None, w)
   | h # hs \<Rightarrow>
      let reading = (take 1 mode = bytes_of ''r''); writing = (take 1 mode = bytes_of ''w'') in
      if \<not> may_open c name mode \<or> reading \<and> files w name = None then (None, w)
      else let text = (if writing then [] else case files w name of None \<Rightarrow> [] | Some t \<Rightarrow> t) in
        (Some h, w\<lparr>files := (files w)(name \<mapsto> text), streams := (streams w)(h \<mapsto> To_file name), next_streams := hs\<rparr>))"

definition fclose :: "u32 \<Rightarrow> world \<Rightarrow> world" where
  "fclose h w = w\<lparr>streams := (streams w)(h := None)\<rparr>"

text \<open>\<open>vfprintf\<close>, with the text that results from format and arguments; \<open>None\<close>: a negative result. Streams have
  no buffers: the text is in the file when it has been printed, and closing a stream cannot fail.\<close>

definition fprint :: "u32 \<Rightarrow> u8 list \<Rightarrow> world \<Rightarrow> world option" where
  "fprint h text w = (if disk_full w then None else case streams w h of
     Some (To_file name) \<Rightarrow>
       Some (w\<lparr>files := (files w)(name \<mapsto> (case files w name of None \<Rightarrow> [] | Some t \<Rightarrow> t) @ text)\<rparr>)
   | Some To_stdout \<Rightarrow> Some (w\<lparr>std_out := std_out w @ text\<rparr>)
   | Some To_stderr \<Rightarrow> Some (w\<lparr>std_err := std_err w @ text\<rparr>)
   | None \<Rightarrow> None)"

section \<open>Failures\<close>

definition message :: "u8 list \<Rightarrow> string" where
  "message text = map (\<lambda>b. char_of (unat b)) text"

text \<open>\<open>vfailure\<close> and \<open>failure\<close>: the text goes to the standard error, and the process exits.\<close>

definition vfailure :: "libc \<Rightarrow> memory \<Rightarrow> addr \<Rightarrow> addr \<Rightarrow> 'a outcome" where
  "vfailure c m fmt va = err (Failure (message (vformat c m fmt va)))"

definition Lassert :: "libc \<Rightarrow> memory \<Rightarrow> u32 \<Rightarrow> addr \<Rightarrow> addr \<Rightarrow> unit outcome" where
  "Lassert c m f fmt va = (if UNBOX f = 0 then vfailure c m fmt va else ok ())"

definition Lbinoperror :: "'a outcome" where
  "Lbinoperror = err (Fail ''ERROR: POINTER ARITHMETICS is forbidden; EXIT'')"

definition Lbinoperror2 :: "'a outcome" where
  "Lbinoperror2 = err (Fail ''ERROR: Comparing BOXED and UNBOXED value ; EXIT'')"

section \<open>Formatted output\<close>

text \<open>
  Before a format is used, the arguments are unboxed where they lie, one for each per cent sign. \<open>i\<close> counts
  the signs.
\<close>

partial_function (option) fix_unboxed :: "addr \<Rightarrow> addr \<Rightarrow> nat \<Rightarrow> memory \<Rightarrow> memory outcome" where
  "fix_unboxed s p i m =
     (if m s = 0 then ok m
      else if m s = 37 then
        let a = p + 4 * word_of_nat i; n = load32 m a in
        fix_unboxed (s + 1) p (i + 1) (if UNBOXED n then store32 m a (UNBOX n) else m)
      else fix_unboxed (s + 1) p i m)"

definition Lfailure :: "libc \<Rightarrow> addr \<Rightarrow> addr \<Rightarrow> gc_state \<Rightarrow> 'a outcome" where
  "Lfailure c fmt va s = andthen (fix_unboxed fmt va 0 (mem s)) (\<lambda>m. vfailure c m fmt va)"

definition print_to :: "libc \<Rightarrow> u32 \<Rightarrow> addr \<Rightarrow> addr \<Rightarrow> string \<Rightarrow> gc_state \<Rightarrow> world \<Rightarrow> (gc_state \<times> world) outcome" where
  "print_to c h fmt va msg s w =
     andthen (fix_unboxed fmt va 0 (mem s)) (\<lambda>m.
       case fprint h (vformat c m fmt va) w of
         None \<Rightarrow> err (Failure msg)
       | Some w' \<Rightarrow> ok (s\<lparr>mem := m\<rparr>, w'))"

definition Lprintf :: "libc \<Rightarrow> u32 \<Rightarrow> addr \<Rightarrow> addr \<Rightarrow> gc_state \<Rightarrow> world \<Rightarrow> (gc_state \<times> world) outcome" where
  "Lprintf c std_out_h fmt va s w = andthen (ASSERT_STRING ''printf:1'' s fmt) (\<lambda>_.
     print_to c std_out_h fmt va ''fprintf (...): %s'' s w)"

definition LprintfPerror :: "libc \<Rightarrow> u32 \<Rightarrow> addr \<Rightarrow> addr \<Rightarrow> gc_state \<Rightarrow> world \<Rightarrow> (gc_state \<times> world) outcome" where
  "LprintfPerror c std_err_h fmt va s w = andthen (ASSERT_STRING ''printfPerror:1'' s fmt) (\<lambda>_.
     print_to c std_err_h fmt va ''printfPerror (...): %s'' s w)"

definition Lfprintf :: "libc \<Rightarrow> u32 \<Rightarrow> addr \<Rightarrow> addr \<Rightarrow> gc_state \<Rightarrow> world \<Rightarrow> (gc_state \<times> world) outcome" where
  "Lfprintf c h fmt va s w = andthen (ASSERT_BOXED ''fprintf:1'' h) (\<lambda>_.
     andthen (ASSERT_STRING ''fprintf:2'' s fmt) (\<lambda>_.
     print_to c h fmt va ''fprintf (...): %s'' s w))"

text \<open>\<open>fmt_slot\<close> is the slot of the parameter \<open>fmt\<close>; the arguments follow it. \<open>buf\<close> and \<open>p2\<close> are those of
  \<open>Lstring\<close>.\<close>

definition Lsprintf :: "libc \<Rightarrow> mremap \<Rightarrow> addr \<Rightarrow> addr \<Rightarrow> addr \<Rightarrow> gc_state \<Rightarrow> (u32 \<times> gc_state) outcome" where
  "Lsprintf c mremap buf fmt_slot p2 s =
     (let fmt = load32 (mem s) fmt_slot; va = fmt_slot + 4 in
      andthen (ASSERT_STRING ''sprintf:1'' s fmt) (\<lambda>_.
      andthen (fix_unboxed fmt va 0 (mem s)) (\<lambda>m.
      andthen (printStringBuf (vformat c m fmt va) createStringBuf) (\<lambda>b.
      let s1 = s\<lparr>mem := store_bytes m buf (sb_text b @ [0])\<rparr> in
      andthen (push_extra_root fmt_slot s1) (\<lambda>s2.
      andthen (Bstring mremap p2 (s2\<lparr>mem := store32 (mem s2) p2 buf\<rparr>)) (\<lambda>(r, s3).
      andthen (pop_extra_root fmt_slot s3) (\<lambda>s4. ok (r, s4))))))))"

section \<open>Regular expressions, numbers, the system\<close>

definition Lregexp :: "libc \<Rightarrow> addr \<Rightarrow> gc_state \<Rightarrow> u32 outcome" where
  "Lregexp c regexp s = andthen (c_string (mem s) regexp) (\<lambda>text.
     case compile_pattern c text of None \<Rightarrow> err (Failure ''%'') | Some b \<Rightarrow> ok b)"

text \<open>The subject is as long as its header says.\<close>

definition LregexpMatch :: "libc \<Rightarrow> u32 \<Rightarrow> u32 \<Rightarrow> u32 \<Rightarrow> gc_state \<Rightarrow> u32 outcome" where
  "LregexpMatch c b subj pos s =
     andthen (ASSERT_BOXED ''regexpMatch:1'' b) (\<lambda>_.
     andthen (ASSERT_STRING ''regexpMatch:2'' s subj) (\<lambda>_.
     andthen (ASSERT_UNBOXED ''regexpMatch:3'' pos) (\<lambda>_.
       ok (BOX (re_match c b (map (\<lambda>i. mem s (subj + word_of_nat i)) [0..<unat (len_at s subj)]) (UNBOX pos))))))"

text \<open>\<open>n\<close> is not initialised: \<open>junk\<close> is what it holds when there is no number.\<close>

definition LstringInt :: "libc \<Rightarrow> u32 \<Rightarrow> addr \<Rightarrow> gc_state \<Rightarrow> u32 outcome" where
  "LstringInt c junk b s = andthen (c_string (mem s) b) (\<lambda>text.
     ok (BOX (case scan_int c text of None \<Rightarrow> junk | Some n \<Rightarrow> n)))"

definition LgetEnv :: "libc \<Rightarrow> mremap \<Rightarrow> addr \<Rightarrow> addr \<Rightarrow> gc_state \<Rightarrow> (u32 \<times> gc_state) outcome" where
  "LgetEnv c mremap var p2 s = andthen (c_string (mem s) var) (\<lambda>name.
     case getenv c name of
       None \<Rightarrow> ok (BOX 0, s)
     | Some e \<Rightarrow> Bstring mremap p2 (s\<lparr>mem := store32 (mem s) p2 e\<rparr>))"

definition Lsystem :: "libc \<Rightarrow> addr \<Rightarrow> gc_state \<Rightarrow> u32 outcome" where
  "Lsystem c cmd s = andthen (c_string (mem s) cmd) (\<lambda>text. ok (BOX (run_command c text)))"

text \<open>\<open>r\<close>: what \<open>random ()\<close> returns, a \<open>long\<close> between 0 and \<open>2 ^ 31 - 1\<close>. \<open>sec\<close> and \<open>nsec\<close>: the monotonic clock.\<close>

definition Lrandom :: "u32 \<Rightarrow> u32 \<Rightarrow> u32 outcome" where
  "Lrandom r n = andthen (ASSERT_UNBOXED ''Lrandom, 0'' n) (\<lambda>_.
     if sint (UNBOX n) \<le> 0 then err (Failure ''invalid range in random: %d'')
     else andthen (c_mod r (UNBOX n)) (\<lambda>x. ok (BOX x)))"

definition Ltime :: "u32 \<Rightarrow> u32 \<Rightarrow> u32" where
  "Ltime sec nsec = BOX (sec * 1000000 + word_of_int (sint nsec sdiv 1000))"

section \<open>Files\<close>

definition Lfopen :: "libc \<Rightarrow> u32 \<Rightarrow> u32 \<Rightarrow> gc_state \<Rightarrow> world \<Rightarrow> (u32 \<times> world) outcome" where
  "Lfopen c f m s w =
     andthen (ASSERT_STRING ''fopen:1'' s f) (\<lambda>_.
     andthen (ASSERT_STRING ''fopen:2'' s m) (\<lambda>_.
     andthen (c_string (mem s) f) (\<lambda>name.
     andthen (c_string (mem s) m) (\<lambda>mode.
       case fopen c name mode w of
         (Some h, w') \<Rightarrow> ok (h, w')
       | (None, w') \<Rightarrow> err (Failure ''fopen (%s, %s): %s, %s, %s'')))))"

definition Lfclose :: "u32 \<Rightarrow> world \<Rightarrow> world outcome" where
  "Lfclose f w = andthen (ASSERT_BOXED ''fclose'' f) (\<lambda>_. ok (fclose f w))"

text \<open>\<open>scanf\<close> reads at least one character up to the end of the line, else it assigns nothing and leaves the
  line end where it is. \<open>errno\<close> as the call leaves it; \<open>buf\<close> is what \<open>scanf\<close> allocates.\<close>

definition LreadLine :: "mremap \<Rightarrow> addr \<Rightarrow> addr \<Rightarrow> u32 \<Rightarrow> gc_state \<Rightarrow> world \<Rightarrow> (u32 \<times> gc_state \<times> world) outcome" where
  "LreadLine mremap buf p2 errno s w =
     (let line = takeWhile (\<lambda>b. b \<noteq> 10) (std_in w); rest = dropWhile (\<lambda>b. b \<noteq> 10) (std_in w) in
      if line \<noteq> [] then
        andthen (Bstring mremap p2 (s\<lparr>mem := store32 (store_bytes (mem s) buf (line @ [0])) p2 buf\<rparr>)) (\<lambda>(r, s1).
          ok (r, s1, w\<lparr>std_in := drop 1 rest\<rparr>))
      else if errno \<noteq> 0 then err (Failure ''readLine (): %s'')
      else ok (BOX 0, s, w))"

text \<open>The size that \<open>ftell\<close> returns is boxed, which drops its highest bit. Where the file cannot be
  opened, \<open>fseek\<close> fails or \<open>fread\<close> gets less than the size, the process ends with the same message.\<close>

definition Lfread :: "libc \<Rightarrow> mremap \<Rightarrow> u32 \<Rightarrow> gc_state \<Rightarrow> world \<Rightarrow> (u32 \<times> gc_state \<times> world) outcome" where
  "Lfread c mremap fname s w =
     andthen (ASSERT_STRING ''fread'' s fname) (\<lambda>_.
     andthen (c_string (mem s) fname) (\<lambda>name.
       case fopen c name (bytes_of ''r'') w of
         (None, w1) \<Rightarrow> err (Failure ''fread (%s): %s'')
       | (Some h, w1) \<Rightarrow>
           if \<not> can_seek c name then err (Failure ''fread (%s): %s'')
           else let text = the (files w1 name); size = word_of_nat (length text) :: u32;
                got = take (fread_count c name (length text)) text in
             andthen (LmakeString mremap (BOX size) s) (\<lambda>(r, s1).
               if length got = length text
               then ok (r, s1\<lparr>mem := store_bytes (mem s1) r got\<rparr>, fclose h w1)
               else err (Failure ''fread (%s): %s''))))"

text \<open>The contents are printed as a C string, so they end at the first zero.\<close>

definition Lfwrite :: "libc \<Rightarrow> u32 \<Rightarrow> u32 \<Rightarrow> gc_state \<Rightarrow> world \<Rightarrow> world outcome" where
  "Lfwrite c fname cnt s w =
     andthen (ASSERT_STRING ''fwrite:1'' s fname) (\<lambda>_.
     andthen (ASSERT_STRING ''fwrite:2'' s cnt) (\<lambda>_.
     andthen (c_string (mem s) fname) (\<lambda>name.
       case fopen c name (bytes_of ''w'') w of
         (None, w1) \<Rightarrow> err (Failure ''fwrite (%s): %s'')
       | (Some h, w1) \<Rightarrow>
           andthen (c_string (mem s) cnt) (\<lambda>text.
             case fprint h text w1 of
               None \<Rightarrow> err (Failure ''fwrite (%s): %s'')
             | Some w2 \<Rightarrow> ok (fclose h w2)))))"

text \<open>The stream is not closed.\<close>

definition Lfexists :: "libc \<Rightarrow> u32 \<Rightarrow> gc_state \<Rightarrow> world \<Rightarrow> (u32 \<times> world) outcome" where
  "Lfexists c fname s w =
     andthen (ASSERT_STRING ''fexists'' s fname) (\<lambda>_.
     andthen (c_string (mem s) fname) (\<lambda>name.
       case fopen c name (bytes_of ''r'') w of
         (Some h, w1) \<Rightarrow> ok (BOX 1, w1)
       | (None, w1) \<Rightarrow> ok (BOX 0, w1)))"

section \<open>The arguments of the program\<close>

text \<open>
  C does not say whether the address on the left of \<open>p[i] = Bstring (argv[i])\<close> is computed before or after
  the call: \<open>early\<close> says which. \<open>p_slot\<close> is the slot of the local variable \<open>p\<close>, \<open>g\<close> the address of
  \<open>global_sysargs\<close>.
\<close>

definition set_arg :: "mremap \<Rightarrow> bool \<Rightarrow> addr \<Rightarrow> addr \<Rightarrow> (nat \<Rightarrow> addr) \<Rightarrow> nat \<Rightarrow> gc_state \<Rightarrow> gc_state outcome" where
  "set_arg mremap early p_slot p2 argv i s =
     andthen (Bstring mremap p2 (s\<lparr>mem := store32 (mem s) p2 (argv i)\<rparr>)) (\<lambda>(r, s1).
       let p = (if early then load32 (mem s) p_slot else load32 (mem s1) p_slot) in
       ok (s1\<lparr>mem := store32 (mem s1) (p + 4 * word_of_nat i) r\<rparr>))"

definition set_args ::
    "mremap \<Rightarrow> bool \<Rightarrow> addr \<Rightarrow> addr \<Rightarrow> addr \<Rightarrow> u32 \<Rightarrow> (nat \<Rightarrow> addr) \<Rightarrow> gc_state \<Rightarrow> gc_state outcome" where
  "set_args mremap early p_slot p2 g argc argv s =
     andthen (LmakeArray mremap (BOX argc) s) (\<lambda>(p, s1).
     andthen (push_extra_root p_slot (s1\<lparr>mem := store32 (mem s1) p_slot p\<rparr>)) (\<lambda>s2.
     andthen (for_each (set_arg mremap early p_slot p2 argv) [0..<nat (sint argc)] s2) (\<lambda>s3.
     andthen (pop_extra_root p_slot s3) (\<lambda>s4.
       push_extra_root g (s4\<lparr>mem := store32 (mem s4) g (load32 (mem s4) p_slot)\<rparr>)))))"


section \<open>Unboxing the arguments of a format\<close>

definition unboxed :: "u32 \<Rightarrow> u32" where
  "unboxed n = (if UNBOXED n then UNBOX n else n)"

text \<open>One step for each per cent sign in the rest \<open>bs\<close> of the format; \<open>N\<close> signs in all.\<close>

lemma fix_unboxed_steps:
  assumes "cstring m s bs" "i + count_list bs 37 = N" "4 * N \<le> 4294967296" "apart p (4 * N) s (Suc (length bs))"
  shows "\<exists>m'. fix_unboxed s p i m = ok m' \<and> (\<forall>a. 4 * N \<le> unat (a - p) \<longrightarrow> m' a = m a)
    \<and> (\<forall>j < N. load32 m' (ptr p (4 * j)) = (if i \<le> j then unboxed else id) (load32 m (ptr p (4 * j))))"
  using assms
proof (induction bs arbitrary: m s i)
  case Nil
  then show ?case by (subst fix_unboxed.simps) auto
next
  case (Cons b bs)
  have b: "m s = b" "b \<noteq> 0" "cstring m (s + 1) bs" using Cons.prems(1) by auto
  have ap: "apart p (4 * N) (s + 1) (Suc (length bs))"
    unfolding apart_def
  proof (intro allI impI)
    fix j assume "j < Suc (length bs)"
    then have "4 * N \<le> unat (s + word_of_nat (Suc j) - p)" using Cons.prems(4) unfolding apart_def by (metis Suc_less_eq length_Cons)
    moreover have "s + word_of_nat (Suc j) = s + 1 + word_of_nat j" by simp
    ultimately show "4 * N \<le> unat (s + 1 + word_of_nat j - p)" by (simp only:)
  qed
  show ?case
  proof (cases "b = 37")
    case False
    with Cons.IH [OF b(3) _ Cons.prems(3) ap, of i] Cons.prems(2) b show ?thesis
      by (subst fix_unboxed.simps) simp
  next
    case True
    let ?a = "ptr p (4 * i)"
    define m1 where "m1 = (if UNBOXED (load32 m ?a) then store32 m ?a (UNBOX (load32 m ?a)) else m)"
    have i: "i < N" "Suc i + count_list bs 37 = N" using Cons.prems(2) True by auto
    have out: "m1 a = m a" if "4 * N \<le> unat (a - p)" for a
      using store32_outside [of "4 * i" "4 * N" a p] that i Cons.prems(3) by (simp add: m1_def)
    have l: "load32 m1 (ptr p (4 * j)) = (if j = i then unboxed else id) (load32 m (ptr p (4 * j)))" if "j < N" for j
    proof (cases "j = i")
      case False
      then have "4 * i + 4 \<le> 4 * j \<or> 4 * j + 4 \<le> 4 * i" by linarith
      from load32_store32_other [OF this] False that i Cons.prems(3) show ?thesis by (simp add: m1_def)
    qed (simp add: m1_def unboxed_def)
    have "m1 (s + 1 + word_of_nat j) = m (s + 1 + word_of_nat j)" if "j \<le> length bs" for j
      using ap that by (intro out) (simp add: apart_def)
    then have "cstring m1 (s + 1) bs" using b(3) cstring_cong [of bs m1 "s + 1" m] by simp
    from Cons.IH [OF this i(2) Cons.prems(3) ap] obtain m' where
      1: "fix_unboxed (s + 1) p (Suc i) m1 = ok m'" "\<forall>a. 4 * N \<le> unat (a - p) \<longrightarrow> m' a = m1 a"
      "\<forall>j < N. load32 m' (ptr p (4 * j)) = (if Suc i \<le> j then unboxed else id) (load32 m1 (ptr p (4 * j)))" by blast
    have "p + 4 * word_of_nat i = ?a" by (simp add: ptr_def)
    then have "fix_unboxed s p i m = ok m'"
      using 1(1) b True by (subst fix_unboxed.simps) (simp add: Let_def m1_def)
    moreover have "load32 m' (ptr p (4 * j)) = (if i \<le> j then unboxed else id) (load32 m (ptr p (4 * j)))"
      if "j < N" for j using 1(3) l that by auto
    ultimately show ?thesis using 1(2) out by auto
  qed
qed

section \<open>Reading a file into a string\<close>

lemma load32_zero_bytes:
  assumes "load32 m a = 0" "d < 4"
  shows "m (a + word_of_nat d) = 0"
proof -
  have "bit (m (a + word_of_nat d)) n = bit (load32 m a) (8 * d + n)" if "n < 8" for n
  proof -
    consider "d = 0" | "d = 1" | "d = 2" | "d = 3" using assms(2) by linarith
    then show ?thesis using that by cases (auto simp: load32_def bit_simps dest: bit_imp_le_length)
  qed
  then show ?thesis using assms(1) by (intro bit_word_eqI) simp
qed

lemma fresh_string_zero:
  assumes a: "appended s os (fresh STRING (kind_of STRING) len) s1" and j: "j \<le> unat len"
  shows "mem s1 (cadr (chunk_begin (heap s)) os (length os) + word_of_nat j) = 0"
proof -
  let ?b = "chunk_begin (heap s)" and ?x = "fresh STRING (kind_of STRING) len" and ?k = "opos os (length os) + 8"
  have n: "length (o_body ?x) = unat len div 4 + 1" by simp
  have "body_at (mem s1) (chunk_begin (heap s1)) (opos (os @ [?x]) (length os) + 8) (length (o_body ((os @ [?x]) ! length os)))
      = o_body ((os @ [?x]) ! length os)"
    by (rule body_at_view [OF appended_view [OF a]]) simp
  then have "body_at (mem s1) ?b ?k (unat len div 4 + 1) = replicate (unat len div 4 + 1) 0"
    using n by (simp add: appended_begin [OF a])
  moreover have "j div 4 < unat len div 4 + 1" using j by (simp add: div_le_mono less_Suc_eq_le)
  ultimately have "body_at (mem s1) ?b ?k (unat len div 4 + 1) ! (j div 4) = 0" by (simp only: nth_replicate)
  then have "load32 (mem s1) (ptr ?b (?k + 4 * (j div 4))) = 0"
    using j by (simp add: body_at_def div_le_mono less_Suc_eq_le del: upt_Suc)
  from load32_zero_bytes [OF this, of "j mod 4"]
  moreover have "ptr ?b k + word_of_nat d = ptr ?b (k + d)" for k d by (simp add: ptr_def)
  ultimately have "mem s1 (ptr ?b (?k + 4 * (j div 4) + j mod 4)) = 0" by (simp only:)
  moreover have "?k + 4 * (j div 4) + j mod 4 = ?k + j" by simp
  ultimately have "mem s1 (ptr ?b (?k + j)) = 0" by (simp only:)
  then show ?thesis by (simp add: cadr_def ptr_def algebra_simps)
qed

text \<open>The text lands in the new object, in front of the zero that the allocation has left.\<close>

lemma read_into_string:
  assumes v: "heap_view s os" and n: "length bs < 536870912" and z: "0 \<notin> set bs"
    and room: "4 * (length bs div 4 + 3) \<le> free_bytes s os"
  shows "\<exists>s1. LmakeString mremap (BOX (word_of_nat (length bs))) s = ok (cadr (chunk_begin (heap s)) os (length os), s1)
    \<and> rep (s1\<lparr>mem := store_bytes (mem s1) (cadr (chunk_begin (heap s)) os (length os)) bs\<rparr>)
        (cadr (chunk_begin (heap s)) os (length os)) (Str_val bs)"
proof -
  let ?b = "chunk_begin (heap s)" and ?c = "cadr (chunk_begin (heap s)) os (length os)"
  let ?len = "word_of_nat (length bs) :: u32"
  have u: "unat ?len = length bs" using n by (simp add: unat_of_nat_u32)
  have "unat ?len < 536870912" "4 * (unat ?len div 4 + 3) \<le> free_bytes s os" using u n room by simp_all
  then obtain s1 where 1: "LmakeString mremap (BOX ?len) s = ok (?c, s1)"
    "appended s os (fresh STRING (kind_of STRING) ?len) s1"
    using LmakeString_room [OF v, of ?len mremap] by blast
  let ?m = "store_bytes (mem s1) ?c bs" and ?s2 = "s1\<lparr>mem := store_bytes (mem s1) ?c bs\<rparr>"
  have l: "length bs < 4294967296" using n by simp
  have out: "?m a = mem s1 a" if "length bs \<le> unat (a - ?c)" for a
    using that by (simp add: store_bytes_apply [OF l])
  have w: "unat (word_of_nat j :: u32) = j" if "j \<le> length bs" for j
    using that n by (intro unat_of_nat_u32) simp
  have "?m (?c + word_of_nat (length bs)) = 0"
    using out [of "?c + word_of_nat (length bs)"] w fresh_string_zero [OF 1(2), of "length bs"] u by simp
  moreover have "bytes_at ?m ?c bs"
    using w by (simp add: bytes_at_nth store_bytes_apply [OF l])
  ultimately have c: "cstring ?m ?c bs" using z by (simp add: cstring_bytes)
  have "length bs \<le> 4 * body_words STRING (unat ?len)" using u by simp
  then have "?m a = mem s1 a" if "4 * body_words STRING (unat ?len) \<le> unat (a - ?c)" for a
    using that out by (meson order_trans)
  from appended_rebody [OF 1(2) this] have v2: "heap_view ?s2 (os @ [obj_of STRING ?len
      (body_at ?m ?b (opos os (length os) + 8) (body_words STRING (unat ?len)))])" by blast
  have b: "chunk_begin (heap ?s2) = ?b" using appended_begin [OF 1(2)] by simp
  have "rep ?s2 (cadr (chunk_begin (heap ?s2)) os (length os)) (Str_val bs)"
    by (rule rep_last_string [OF v2 refl n]) (simp add: c b [simplified])
  then show ?thesis using 1(1) b by auto
qed

end
