(* ===== verification/ShowValues.thy ===== *)
theory ShowValues
  imports Printing Updating
begin

text \<open>
  What the printer of runtime.c should write: the text of a value, as a function on finite values, and the
  theorem that \<open>printValue\<close> appends it to the buffer. A list is printed as the texts of its elements
  between braces; a value that looks like a list and is not one is left out (\<open>printable\<close>).
\<close>

section \<open>The text of a value\<close>

fun separated :: "u8 list list \<Rightarrow> u8 list" where
  "separated [] = []"
| "separated [t] = t"
| "separated (t # ts) = t @ bytes_of '', '' @ separated ts"

definition tag_text :: "u32 \<Rightarrow> u8 list" where
  "tag_text t = (case de_hash t of Some (Inr n) \<Rightarrow> n | _ \<Rightarrow> [])"

definition named :: "u32 \<Rightarrow> bool" where
  "named t \<longleftrightarrow> (case de_hash t of Some (Inr n) \<Rightarrow> True | _ \<Rightarrow> False)"

abbreviation is_cons :: "u32 \<Rightarrow> bool" where
  "is_cons t \<equiv> tag_text t = bytes_of ''cons''"

text \<open>A list: cells of two fields, the last of which ends in an integer.\<close>

fun proper :: "val \<Rightarrow> bool" where
  "proper (Sexp_val t [v, rest]) = (is_cons t \<and> (is_int rest \<or> proper rest))"
| "proper _ = False"

fun elements :: "val \<Rightarrow> val list" where
  "elements (Sexp_val t [v, rest]) = v # elements rest"
| "elements _ = []"

lemma size_elements: "x \<in> set (elements v) \<Longrightarrow> size x < size v"
  by (induction v rule: elements.induct) auto

function show_val :: "val \<Rightarrow> u8 list" where
  "show_val (Int_val w) = show_int (sint (UNBOX w))"
| "show_val (Raw_val w) = show_hex w"
| "show_val (Str_val bs) = [34] @ bs @ [34]"
| "show_val (Arr_val vs) = bytes_of ''['' @ separated (map show_val vs) @ bytes_of '']''"
| "show_val (Clo_val e vs) = bytes_of ''<closure '' @ separated (show_hex e # map show_val vs) @ bytes_of ''>''"
| "show_val (Sexp_val t vs) =
     (if is_cons t then bytes_of ''{'' @ separated (map show_val (elements (Sexp_val t vs))) @ bytes_of ''}''
      else tag_text t @ (if vs = [] then [] else bytes_of '' ('' @ separated (map show_val vs) @ bytes_of '')''))"
  by pat_completeness auto
termination
proof (relation "measure size")
  show "(x, Sexp_val t vs) \<in> measure size" if "x \<in> set (elements (Sexp_val t vs))" for x t vs
    using size_elements [OF that] by simp
qed (auto simp: less_Suc_eq_le size_list_estimation')

declare show_val.simps(6) [simp del]

text \<open>Strings hold no zero byte, constructors have names that can be computed back, and what is named
  like a list is one.\<close>

fun printable :: "val \<Rightarrow> bool" where
  "printable (Str_val bs) = (0 \<notin> set bs)"
| "printable (Arr_val vs) = (\<forall>v \<in> set vs. printable v)"
| "printable (Clo_val e vs) = (\<forall>v \<in> set vs. printable v)"
| "printable (Sexp_val t vs) =
     (named t \<and> (is_cons t \<longrightarrow> proper (Sexp_val t vs)) \<and> (\<forall>v \<in> set vs. printable v))"
| "printable _ = True"

lemma printable_elements: "printable v \<Longrightarrow> x \<in> set (elements v) \<Longrightarrow> printable x"
  by (induction v rule: elements.induct) auto

lemma de_hash_named: "named t \<Longrightarrow> de_hash t = ok (tag_text t)"
  by (auto simp: named_def tag_text_def split: option.splits sum.splits)

section \<open>Operations that append to the buffer\<close>

definition appends :: "(string_buf \<Rightarrow> string_buf outcome) \<Rightarrow> u8 list \<Rightarrow> bool" where
  "appends f t \<longleftrightarrow> (\<forall>b. sb_inv b \<and> length (sb_text b) + length t < 536870912 \<longrightarrow>
     (\<exists>b'. f b = ok b' \<and> sb_inv b' \<and> sb_text b' = sb_text b @ t))"

lemma appendsD:
  "appends f t \<Longrightarrow> sb_inv b \<Longrightarrow> length (sb_text b) + length t < 536870912 \<Longrightarrow>
   \<exists>b'. f b = ok b' \<and> sb_inv b' \<and> sb_text b' = sb_text b @ t"
  by (simp add: appends_def)

lemma appends_text: "appends (printStringBuf t) t"
  using printStringBuf_appends by (simp add: appends_def)

lemma appends_nothing: "appends ok []"
  by (simp add: appends_def)

lemma appends_then:
  assumes "appends f t" "appends g u"
  shows "appends (\<lambda>b. andthen (f b) g) (t @ u)"
  unfolding appends_def
proof (intro allI impI)
  fix b assume b: "sb_inv b \<and> length (sb_text b) + length (t @ u) < 536870912"
  then obtain b1 where 1: "f b = ok b1" "sb_inv b1" "sb_text b1 = sb_text b @ t"
    using appendsD [OF assms(1), of b] by auto
  then show "\<exists>b'. andthen (f b) g = ok b' \<and> sb_inv b' \<and> sb_text b' = sb_text b @ t @ u"
    using appendsD [OF assms(2), of b1] b by auto
qed

text \<open>The loops over fields: \<open>n\<close> texts, with a separator behind each but the last.\<close>

lemma separated_Cons: "separated (t # ts) = t @ (if ts = [] then [] else bytes_of '', '' @ separated ts)"
  by (cases ts) simp_all

lemma appends_fields:
  assumes "\<And>j. j < length ts \<Longrightarrow> appends (pr (i + j)) (ts ! j)" "i + length ts = n"
  shows "appends (for_each (\<lambda>j b. andthen (pr j b)
    (\<lambda>b. if j \<noteq> n - 1 then printStringBuf (bytes_of '', '') b else ok b)) [i..<n]) (separated ts)"
  using assms
proof (induction ts arbitrary: i)
  case Nil
  then show ?case by (simp add: appends_def)
next
  case (Cons t ts)
  let ?sep = "\<lambda>j b. if j \<noteq> n - 1 then printStringBuf (bytes_of '', '') b else ok b"
  have "appends (pr (Suc i + j)) (ts ! j)" if "j < length ts" for j
    using Cons.prems(1) [of "Suc j"] that by simp
  then have rest: "appends (for_each (\<lambda>j b. andthen (pr j b) (?sep j)) [Suc i..<n]) (separated ts)"
    using Cons.IH [of "Suc i"] Cons.prems(2) by simp
  have "appends (?sep i) (if ts = [] then [] else bytes_of '', '')"
  proof (cases ts)
    case Nil
    then have "i = n - 1" using Cons.prems(2) by simp
    with Nil show ?thesis by (simp add: appends_nothing)
  next
    case (Cons u us)
    then have "i \<noteq> n - 1" using Cons.prems(2) by simp
    with Cons show ?thesis using appends_text by simp
  qed
  with Cons.prems(1) [of 0] have "appends (\<lambda>b. andthen (pr i b) (?sep i)) (t @ (if ts = [] then [] else bytes_of '', ''))"
    by (intro appends_then) simp_all
  from appends_then [OF this rest]
  have "appends (\<lambda>b. andthen (andthen (pr i b) (?sep i)) (for_each (\<lambda>j b. andthen (pr j b) (?sep j)) [Suc i..<n]))
      (separated (t # ts))"
    by (cases ts) simp_all
  moreover have "[i..<n] = i # [Suc i..<n]" using Cons.prems(2) by (simp add: upt_conv_Cons)
  ultimately show ?case by (simp add: appends_def)
qed

section \<open>The printer\<close>

lemma words_of_nth: "j < n \<Longrightarrow> words_of s p i n ! j = word_at s p (i + j)"
  by (simp add: words_of_def)

text \<open>Fields whose printing is known, from the word \<open>k\<close> on.\<close>

definition prints :: "gc_state \<Rightarrow> val \<Rightarrow> bool" where
  "prints s v \<longleftrightarrow> (\<forall>p. rep s p v \<longrightarrow> appends (printer s (Inl p)) (show_val v))"

lemma prints_field:
  assumes "list_all2 (rep s) (words_of s p k (length vs)) vs" "\<forall>v \<in> set vs. prints s v" "j < length vs"
  shows "appends (printer s (Inl (word_at s p (k + j)))) (map show_val vs ! j)"
  using assms list_all2_nthD2 [OF assms(1,3)] by (simp add: prints_def words_of_nth)

lemma prints_cells:
  assumes "rep s p v" "proper v" "\<forall>x \<in> set (elements v). prints s x"
  shows "appends (printer s (Inr (TO_SEXP p))) (separated (map show_val (elements v)))"
  using assms
proof (induction v arbitrary: p rule: proper.induct)
  case (1 t v rest)
  from 1(2) have r: "unat (len_at s p) = 2" "rep s (word_at s p 1) v" "rep s (word_at s p 2) rest"
    by (auto simp: rep_Sexp words_of_Suc numeral_2_eq_2)
  have l: "LEN (data_header (mem s) (TO_SEXP p)) \<noteq> 0"
    using r(1) by (auto simp: len_at_def TO_SEXP_def TO_DATA_def)
  have w: "load32 (mem s) (TO_SEXP p + 12) = word_at s p 1" "load32 (mem s) (TO_SEXP p + 16) = word_at s p 2"
    by (simp_all add: word_at_def TO_SEXP_def TO_DATA_def contents_def add.commute)
  have v: "appends (printer s (Inl (word_at s p 1))) (show_val v)"
    using 1(4) r(2) by (simp add: prints_def)
  show ?case
  proof (cases "is_int rest")
    case True
    then have "UNBOXED (word_at s p 2)" "elements rest = []" using r(3) by (cases rest; auto simp: rep_Int)+
    then show ?thesis using appends_then [OF v appends_nothing] l w
      by (simp add: appends_def printer.simps [of s "Inr (TO_SEXP p)"])
  next
    case False
    then have pr: "proper rest" using 1(3) by simp
    then have u: "\<not> UNBOXED (word_at s p 2)" "elements rest \<noteq> []"
      using r(3) by (cases rest rule: proper.cases; auto simp: rep_Sexp heap_pointer_boxed)+
    have "appends (printer s (Inr (TO_SEXP (word_at s p 2)))) (separated (map show_val (elements rest)))"
      using 1(1) [OF r(3) pr] 1(4) by simp
    from appends_then [OF v appends_then [OF appends_text this]]
    show ?thesis using l w u by (simp add: appends_def printer.simps [of s "Inr (TO_SEXP p)"] separated_Cons)
  qed
qed simp_all

theorem printer_shows: "printable v \<Longrightarrow> prints s v"
proof (induction v rule: show_val.induct)
  case (1 w)
  show ?case using appends_text by (auto simp: prints_def rep_Int appends_def printer.simps [of s "Inl p" for p])
next
  case (2 w)
  show ?case using appends_text by (auto simp: prints_def rep_Raw appends_def printer.simps [of s "Inl p" for p])
next
  case (3 bs)
  show ?case unfolding prints_def
  proof (intro allI impI)
    fix p assume "rep s p (Str_val bs)"
    note r = this [unfolded rep_Str]
    then have "\<not> UNBOXED p" "c_string (mem s) p = ok bs" by (auto simp: heap_pointer_boxed intro: c_string_cstring)
    with r have "printer s (Inl p) = printStringBuf ([34] @ bs @ [34])"
      by (intro ext) (simp add: printer.simps [of s "Inl p"])
    then show "appends (printer s (Inl p)) (show_val (Str_val bs))" using appends_text by simp
  qed
next
  case (4 vs)
  show ?case unfolding prints_def
  proof (intro allI impI)
    fix p assume "rep s p (Arr_val vs)"
    note r = this [unfolded rep_Arr]
    have "appends (printer s (Inl (word_at s p (0 + j)))) (map show_val vs ! j)" if "j < length vs" for j
      using prints_field [of s p 0 vs j] r 4 that by auto
    then have f: "appends (for_each (\<lambda>j b. andthen (printer s (Inl (word_at s p j)) b)
        (\<lambda>b. if j \<noteq> length vs - 1 then printStringBuf (bytes_of '', '') b else ok b)) [0..<length vs])
        (separated (map show_val vs))"
      by (intro appends_fields) simp_all
    show "appends (printer s (Inl p)) (show_val (Arr_val vs))"
      using appends_then [OF appends_text appends_then [OF f appends_text]] r heap_pointer_boxed [of s p]
      by (simp add: appends_def printer.simps [of s "Inl p"] Let_def)
  qed
next
  case (5 e vs)
  show ?case unfolding prints_def
  proof (intro allI impI)
    fix p assume "rep s p (Clo_val e vs)"
    note r = this [unfolded rep_Clo]
    let ?pr = "\<lambda>j b. if j \<noteq> 0 then printer s (Inl (word_at s p j)) b else printStringBuf (show_hex (word_at s p j)) b"
    let ?ts = "show_hex e # map show_val vs"
    have "appends (?pr (0 + j)) (?ts ! j)" if "j < length ?ts" for j
    proof (cases j)
      case 0
      then show ?thesis using r appends_text by simp
    next
      case (Suc k)
      then show ?thesis using prints_field [of s p 1 vs k] r 5 that by auto
    qed
    then have f: "appends (for_each (\<lambda>j b. andthen (?pr j b)
        (\<lambda>b. if j \<noteq> Suc (length vs) - 1 then printStringBuf (bytes_of '', '') b else ok b)) [0..<Suc (length vs)])
        (separated ?ts)"
      by (intro appends_fields) simp_all
    show "appends (printer s (Inl p)) (show_val (Clo_val e vs))"
      using appends_then [OF appends_text appends_then [OF f appends_text]] r heap_pointer_boxed [of s p]
      by (simp add: appends_def printer.simps [of s "Inl p"] Let_def del: upt_Suc)
  qed
next
  case (6 t vs)
  have n: "de_hash t = ok (tag_text t)" using 6(3) by (intro de_hash_named) simp
  show ?case unfolding prints_def
  proof (intro allI impI)
    fix p assume rep: "rep s p (Sexp_val t vs)"
    note r = rep [unfolded rep_Sexp]
    show "appends (printer s (Inl p)) (show_val (Sexp_val t vs))"
    proof (cases "is_cons t")
      case True
      then have "\<forall>x \<in> set (elements (Sexp_val t vs)). prints s x"
        using 6(1) printable_elements [OF 6(3)] by blast
      from prints_cells [OF rep _ this] 6(3) True
      have f: "appends (printer s (Inr (TO_SEXP p))) (separated (map show_val (elements (Sexp_val t vs))))" by simp
      show ?thesis
        using appends_then [OF appends_text appends_then [OF f appends_text]] r True n heap_pointer_boxed [of s p]
        by (simp add: appends_def printer.simps [of s "Inl p"] Let_def show_val.simps(6))
    next
      case False
      have "\<forall>x \<in> set vs. prints s x" using 6(2) [OF False] 6(3) by (cases vs) auto
      then have "appends (printer s (Inl (word_at s p (0 + j + 1)))) (map show_val vs ! j)" if "j < length vs" for j
        using prints_field [of s p 1 vs j] r that by auto
      then have f: "appends (for_each (\<lambda>j b. andthen (printer s (Inl (word_at s p (j + 1))) b)
          (\<lambda>b. if j \<noteq> length vs - 1 then printStringBuf (bytes_of '', '') b else ok b)) [0..<length vs])
          (separated (map show_val vs))"
        by (intro appends_fields) simp_all
      show ?thesis
        using appends_then [OF appends_text appends_then [OF appends_text appends_then [OF f appends_text]]]
          appends_text [of "tag_text t"] r False n heap_pointer_boxed [of s p]
        by (auto simp: appends_def printer.simps [of s "Inl p"] Let_def show_val.simps(6))
    qed
  qed
qed

section \<open>The string of a value\<close>

lemma digit_nonzero: "n < 16 \<Longrightarrow> digit n \<noteq> 0"
proof -
  assume n: "n < 16"
  have "(word_of_nat k :: u8) \<noteq> 0" if "0 < k" "k < 256" for k
    using that by (simp add: word_unat_eq_iff unat_of_nat)
  with n show ?thesis by (simp add: digit_def del: of_nat_add)
qed

lemma show_nat_nonzero: "1 < b \<Longrightarrow> b \<le> 16 \<Longrightarrow> 0 \<notin> set (show_nat b n)"
proof (induction b n rule: show_nat.induct)
  case (1 b n)
  have "n mod b < 16" using 1(2,3) by (metis less_le_trans mod_less_divisor order_less_trans zero_less_one)
  with 1 show ?case using digit_nonzero [of n] digit_nonzero [of "n mod b"] by (subst show_nat.simps) auto
qed

lemma show_numbers_nonzero: "0 \<notin> set (show_int z)" "0 \<notin> set (show_hex w)"
  using show_nat_nonzero by (auto simp: show_int_def show_hex_def bytes_of_def)

lemma de_hash_nonzero: "de_hash t = ok n \<Longrightarrow> 0 \<notin> set n"
proof -
  have c: "length chars = 64" "0 \<notin> set chars" by (simp_all add: chars_def bytes_of_def)
  have d: "chars ! unat (w AND 0x3F) \<noteq> 0" for w :: u32
  proof -
    have "unat (w AND 0x3F) \<le> unat (0x3F :: u32)" using word_and_le1 [of w "0x3F"] by (simp only: word_le_nat_alt)
    then have "unat (w AND 0x3F) < length chars" using c(1) by simp
    then show ?thesis using c(2) nth_mem by metis
  qed
  have "de_hash_loop w buf = ok n \<Longrightarrow> 0 \<notin> set buf \<Longrightarrow> 0 \<notin> set n" for w buf
  proof (induction "5 - length buf" arbitrary: w buf rule: less_induct)
    case less
    show ?case
    proof (cases "w = 0 \<or> 5 \<le> length buf")
      case True
      then show ?thesis using less.prems by (auto simp: de_hash_loop.simps [of w] split: if_splits)
    next
      case False
      then have "de_hash_loop (signed_drop_bit 6 w) (chars ! unat (w AND 0x3F) # buf) = ok n"
        using less.prems(1) by (simp add: de_hash_loop.simps [of w])
      moreover have "5 - length (chars ! unat (w AND 0x3F) # buf) < 5 - length buf"
        using False by simp linarith
      moreover have "0 \<notin> set (chars ! unat (w AND 0x3F) # buf)" using d [of w] less.prems(2) by auto
      ultimately show ?thesis by (intro less.hyps)
    qed
  qed
  then show "de_hash t = ok n \<Longrightarrow> 0 \<notin> set n" by (simp add: de_hash_def)
qed

lemma separated_set: "x \<in> set (separated ts) \<Longrightarrow> x \<in> set (bytes_of '', '') \<or> (\<exists>t \<in> set ts. x \<in> set t)"
  by (induction ts rule: separated.induct) auto

lemma separated_nonzero: "\<forall>t \<in> set ts. 0 \<notin> set t \<Longrightarrow> 0 \<notin> set (separated ts)"
  using separated_set [of 0 ts] by (auto simp: bytes_of_def)

lemma show_val_nonzero: "printable v \<Longrightarrow> 0 \<notin> set (show_val v)"
proof (induction v rule: show_val.induct)
  case (4 vs)
  then show ?case using separated_nonzero [of "map show_val vs"] by (auto simp: bytes_of_def)
next
  case (5 e vs)
  then show ?case using separated_nonzero [of "show_hex e # map show_val vs"] show_numbers_nonzero(2) [of e]
    by (auto simp: bytes_of_def)
next
  case (6 t vs)
  have n: "0 \<notin> set (tag_text t)" using 6(3) by (intro de_hash_nonzero [OF de_hash_named]) simp
  show ?case
  proof (cases "is_cons t")
    case True
    then have "\<forall>x \<in> set (elements (Sexp_val t vs)). 0 \<notin> set (show_val x)"
      using 6(1) printable_elements [OF 6(3)] by blast
    then have "0 \<notin> set (separated (map show_val (elements (Sexp_val t vs))))" by (intro separated_nonzero) simp
    with True show ?thesis by (auto simp: show_val.simps(6) bytes_of_def)
  next
    case False
    have "\<forall>x \<in> set vs. 0 \<notin> set (show_val x)" using 6(2) [OF False] 6(3) by (cases vs) auto
    then have "0 \<notin> set (separated (map show_val vs))" by (intro separated_nonzero) simp
    with False n show ?thesis by (auto simp: show_val.simps(6) bytes_of_def)
  qed
qed (simp_all add: show_numbers_nonzero)

text \<open>\<open>clear_bytes\<close>: the \<open>n\<close> bytes from \<open>q\<close> on lie outside the chunk of the heap.\<close>

definition clear_bytes :: "gc_state \<Rightarrow> addr \<Rightarrow> nat \<Rightarrow> bool" where
  "clear_bytes s q n \<longleftrightarrow> (\<forall>j < n. 4 * unat (chunk_size (heap s)) \<le> unat (q + word_of_nat j - chunk_begin (heap s)))"

lemma heap_view_store_bytes:
  assumes "heap_view s os" "clear_bytes s q (length bs)" "length bs < 4294967296"
  shows "heap_view (s\<lparr>mem := store_bytes (mem s) q bs\<rparr>) os"
proof (rule heap_view_mem_cong [OF assms(1)])
  fix x assume x: "unat (x - chunk_begin (heap s)) < opos os (length os)"
  have "\<not> unat (x - q) < length bs"
  proof
    assume "unat (x - q) < length bs"
    then have "4 * unat (chunk_size (heap s)) \<le> unat (q + word_of_nat (unat (x - q)) - chunk_begin (heap s))"
      using assms(2) unfolding clear_bytes_def by blast
    then show False using x chunk_total [OF assms(1)] by simp
  qed
  then show "store_bytes (mem s) q bs x = mem s x" by (simp add: store_bytes_apply [OF assms(3)])
qed

lemma store32_bytes: "store32 m a v = store_bytes m a [ucast v, ucast (drop_bit 8 v), ucast (drop_bit 16 v), ucast (drop_bit 24 v)]"
  by (simp add: store32_def add.assoc)

lemma heap_view_store_word:
  assumes "heap_view s os" "off_heap s a"
  shows "heap_view (s\<lparr>mem := store32 (mem s) a v\<rparr>) os"
  unfolding store32_bytes
proof (rule heap_view_store_bytes [OF assms(1)])
  have "4 * unat (chunk_size (heap s)) \<le> unat (a + word_of_nat j - chunk_begin (heap s))" if "j < 4" for j
  proof -
    from that have "j = 0 \<or> j = 1 \<or> j = 2 \<or> j = 3" by linarith
    then show ?thesis using assms(2) by (elim disjE) (simp_all add: off_heap_def)
  qed
  then show "clear_bytes s a (length [ucast v, ucast (drop_bit 8 v), ucast (drop_bit 16 v), ucast (drop_bit 24 v)])"
    by (simp add: clear_bytes_def)
qed simp

text \<open>The buffer that holds the text ends up as the source of \<open>Bstring\<close>.\<close>

lemma buffer_cstring:
  assumes "0 \<notin> set t" "length t < 536870912" "apart q (Suc (length t)) a 4"
  shows "cstring (store32 (store_bytes m q (t @ [0])) a v) q t"
proof -
  let ?m = "store_bytes m q (t @ [0])"
  have l: "length (t @ [0]) < 4294967296" "length [ucast v :: u8, ucast (drop_bit 8 v), ucast (drop_bit 16 v), ucast (drop_bit 24 v)] < 4294967296"
    using assms(2) by simp_all
  have w: "unat (word_of_nat j :: u32) = j" if "j \<le> length t" for j
    using that assms(2) by (intro unat_of_nat_u32) simp
  have "store32 ?m a v (q + word_of_nat j) = ?m (q + word_of_nat j)" if j: "j \<le> length t" for j
  proof -
    have "\<not> unat (q + word_of_nat j - a) < 4"
    proof
      assume "unat (q + word_of_nat j - a) < 4"
      then have "Suc (length t) \<le> unat (a + word_of_nat (unat (q + word_of_nat j - a)) - q)"
        using assms(3) unfolding apart_def by blast
      then show False using w [OF j] j by simp
    qed
    then show ?thesis unfolding store32_bytes by (simp add: store_bytes_apply [OF l(2), simplified])
  qed
  then have "store32 ?m a v (q + word_of_nat j) = (t @ [0]) ! j" if "j \<le> length t" for j
    using that w [OF that] by (simp add: store_bytes_apply [OF l(1)])
  then show ?thesis using assms(1) by (simp add: cstring_bytes bytes_at_nth nth_append)
qed

lemma rep_string_roots: "rep (s\<lparr>extra_roots := r\<rparr>) p (Str_val bs) = rep s p (Str_val bs)"
  by (simp add: rep_Str is_valid_heap_pointer_def tag_at_def len_at_def)

theorem Lstring_view:
  assumes v: "heap_view s os" and r: "rep s (load32 (mem s) p_slot) x" "printable x"
    and n: "length (show_val x) < 536870912" and room: "4 * (length (show_val x) div 4 + 3) \<le> free_bytes s os"
    and buf: "clear_bytes s buf (Suc (length (show_val x)))" and p2: "off_heap s p2" "apart buf (Suc (length (show_val x))) p2 4"
    and root: "can_root p_slot s 2" "root_allowed p2 s"
  shows "\<exists>s'. Lstring mremap buf p_slot p2 s = ok (cadr (chunk_begin (heap s)) os (length os), s')
    \<and> rep s' (cadr (chunk_begin (heap s)) os (length os)) (Str_val (show_val x)) \<and> live_roots s' = live_roots s"
proof -
  let ?t = "show_val x" and ?c = "cadr (chunk_begin (heap s)) os (length os)"
  have z: "0 \<notin> set ?t" by (rule show_val_nonzero [OF r(2)])
  have "appends (printValue s (load32 (mem s) p_slot)) ?t"
    using printer_shows [OF r(2)] r(1) by (simp add: prints_def printValue_def)
  from appendsD [OF this createStringBuf_inv] n obtain b where
    b: "printValue s (load32 (mem s) p_slot) createStringBuf = ok b" "sb_text b = ?t"
    by (auto simp: createStringBuf_def)
  let ?s1 = "s\<lparr>mem := store_bytes (mem s) buf (?t @ [0])\<rparr>"
  have l1: "length (?t @ [0]) < 4294967296" using n by simp
  have v1: "heap_view ?s1 os" using heap_view_store_bytes [OF v _ l1] buf by simp
  have c1: "can_root p_slot ?s1 (Suc 1)"
    using root(1) roots_inv_cong [of ?s1 s] live_roots_cong [of ?s1 s]
    by (simp add: can_root_def root_allowed_def numeral_2_eq_2)
  from root_push [OF c1] obtain er where
    2: "push_extra_root p_slot ?s1 = ok (?s1\<lparr>extra_roots := er\<rparr>)" "roots_inv (?s1\<lparr>extra_roots := er\<rparr>)"
      "live_roots (?s1\<lparr>extra_roots := er\<rparr>) = p_slot # live_roots ?s1" by blast
  let ?s2 = "?s1\<lparr>extra_roots := er\<rparr>"
  let ?s3 = "?s2\<lparr>mem := store32 (mem ?s2) p2 buf\<rparr>"
  have v2: "heap_view ?s2 os" using v1 by (simp only: heap_view_roots)
  have o2: "off_heap ?s2 p2" using p2(1) by (simp add: off_heap_def)
  have v3: "heap_view ?s3 os" by (rule heap_view_store_word [OF v2 o2])
  have o3: "off_heap ?s3 p2" using p2(1) by (simp add: off_heap_def)
  have ld: "load32 (mem ?s3) p2 = buf" by simp
  have c: "cstring (mem ?s3) (load32 (mem ?s3) p2) ?t" using buffer_cstring [OF z n p2(2)] by simp
  have nf: "string_not_free ?s3 os (load32 (mem ?s3) p2) (length ?t)"
    unfolding ld using buf by (simp add: string_not_free_def not_free_def clear_bytes_def less_Suc_eq_le)
  have rm: "4 * (length ?t div 4 + 3) \<le> free_bytes ?s3 os" using room by (simp add: free_bytes_def)
  have lr: "length (live_roots s) + 2 \<le> MAX_EXTRA_ROOTS_NUMBER" using root(1) by (simp add: can_root_def)
  have cr: "can_root p2 ?s3 1"
    using 2(2,3) root(2) lr by (simp add: can_root_def roots_inv_def root_allowed_def live_roots_def)
  from Bstring_view [OF v3 c n nf o3 rm cr, of mremap] obtain s4 where
    4: "Bstring mremap p2 ?s3 = ok (?c, s4)" "rep s4 ?c (Str_val ?t)" "live_roots s4 = live_roots ?s3" "roots_inv s4"
    by auto
  have "live_roots s4 = p_slot # live_roots s" using 4(3) 2(3) by (simp add: live_roots_def)
  from root_pop [OF 4(4) this refl] obtain r5 where
    5: "pop_extra_root p_slot s4 = ok (s4\<lparr>extra_roots := r5\<rparr>)" "live_roots (s4\<lparr>extra_roots := r5\<rparr>) = live_roots s" by blast
  have "Lstring mremap buf p_slot p2 s = ok (?c, s4\<lparr>extra_roots := r5\<rparr>)"
    using b 2(1) 4(1) 5(1) by (simp add: Lstring_def Let_def)
  then show ?thesis using 4(2) 5(2) by (auto simp: rep_string_roots)
qed

end
