(* ===== verification/SystemProperties.thy ===== *)
theory SystemProperties
  imports SystemCalls ShowValues RuntimeProperties
begin

text \<open>
  The properties of the runtime functions on top of the C library: the string of a value, the arguments
  of formats, files and random numbers. The witnesses use a heap with one string, which serves as the name of a file and as its
  contents.
\<close>

section \<open>A heap with one string\<close>

definition scrap_mem :: memory where
  "scrap_mem = (\<lambda>_. 0)(4096 := 17, 4104 := 104, 4105 := 105)"

definition scrap :: gc_state where
  "scrap = \<lparr>mem = scrap_mem, heap = \<lparr>chunk_begin = 4096, chunk_end = 4352, chunk_current = 4108, chunk_size = 64\<rparr>,
     extra_roots = \<lparr>current_free = 0, roots = replicate 32 0\<rparr>,
     gc_stack_top = 8192, gc_stack_bottom = 8200, start_custom_data = 9000, stop_custom_data = 9000\<rparr>"

definition scrap_objs :: "obj list" where
  "scrap_objs = [\<lparr>o_hdr = 17, o_fwd = 0, o_body = [26984]\<rparr>]"

lemma scrap_loads: "load32 scrap_mem 4096 = 17" "load32 scrap_mem 4100 = 0" "load32 scrap_mem 4104 = 26984"
  by (simp_all add: load32_def scrap_mem_def)

lemma scrap_opos: "opos scrap_objs 0 = 0" "opos scrap_objs (Suc 0) = 12"
  by (simp_all add: opos_def scrap_objs_def osz_def)

lemma scrap_view: "heap_view scrap scrap_objs"
  using scrap_opos
  by (simp add: heap_view_def chunk_ok_def scrap_def scrap_objs_def objs_at_def obj_at_def words_at_def ptr_def scrap_loads
      wf_obj_def otype_def) (simp add: TAG_def LEN_def tag_defs)

lemma scrap_rep: "rep scrap 4104 (Str_val [104, 105])"
  by (rule rep_str) (simp_all add: is_valid_heap_pointer_def UNBOXED_def tag_at_def len_at_def data_header_def TO_DATA_def
      DATA_HEADER_SZ_def scrap_loads TAG_def LEN_def tag_defs scrap_def, simp add: scrap_mem_def)

section \<open>The string of a value\<close>

text \<open>
  C10: when there is room, the string that the runtime makes of a finite value is the text of the value
  as \<open>show_val\<close> writes it, however deep the value is: a list between braces, an array between brackets,
  a constructor with its name and its arguments. The extra roots are as before.
\<close>

theorem Lstring_shows_value:
  assumes "heap_view s os" "rep s (load32 (mem s) p_slot) x" "printable x"
    and "length (show_val x) < 536870912" "4 * (length (show_val x) div 4 + 3) \<le> free_bytes s os"
    and "clear_bytes s buf (Suc (length (show_val x)))" "off_heap s p2" "apart buf (Suc (length (show_val x))) p2 4"
    and "can_root p_slot s 2" "root_allowed p2 s"
  shows "\<exists>s'. Lstring mremap buf p_slot p2 s = ok (cadr (chunk_begin (heap s)) os (length os), s')
    \<and> rep s' (cadr (chunk_begin (heap s)) os (length os)) (Str_val (show_val x)) \<and> live_roots s' = live_roots s"
  by (rule Lstring_view [OF assms])

lemma demo_text: "show_val (Arr_val [Arr_val [], Int_val 11]) = bytes_of ''[[], 5]''"
  by (simp add: show_int_def show_nat.simps digit_def UNBOX_def bytes_of_def)

lemma Lstring_shows_value_witness:
  "\<exists>s'. Lstring (\<lambda>m a o' n. None) 12288 8196 8192 demo = ok (4136, s') \<and> rep s' 4136 (Str_val (bytes_of ''[[], 5]''))"
proof -
  have l: "load32 (mem demo) 8196 = 4104" by (simp add: demo_loads)
  have n: "length (bytes_of ''[[], 5]'') = 7" by (simp add: bytes_of_def)
  have "j < 8 \<longleftrightarrow> j \<in> {0, 1, 2, 3, 4, 5, 6, 7}" for j :: nat by auto
  then have c: "clear_bytes demo 12288 (Suc 7)" by (auto simp: clear_bytes_def)
  have "j < 4 \<longleftrightarrow> j \<in> {0, 1, 2, 3}" for j :: nat by auto
  then have a: "apart 12288 (Suc 7) 8192 4" by (auto simp: apart_def)
  have "off_heap demo 8192" by (simp add: off_heap_def)
  moreover have "can_root 8196 demo 2" by (simp add: can_root_def demo_pool MAX_EXTRA_ROOTS_NUMBER_def)
  moreover have "root_allowed 8192 demo" by (simp add: root_allowed_def demo_def)
  ultimately show ?thesis
    using Lstring_shows_value [OF demo_view, of 8196 "Arr_val [Arr_val [], Int_val 11]" 12288 8192 "\<lambda>m a o' n. None",
        unfolded demo_text n l, OF demo_rep] c a
    by (auto simp: demo_free cadr_def demo_length demo_opos demo_ptr)
qed

section \<open>Formats\<close>

text \<open>
  C37: before a format is used, as many arguments as it has per cent signs are unboxed: integers are
  replaced by their values, pointers stay, and nothing else in memory changes.
\<close>

theorem fix_unboxed_args:
  assumes "cstring m s bs" "4 * count_list bs 37 \<le> 4294967296" "apart p (4 * count_list bs 37) s (Suc (length bs))"
  shows "\<exists>m'. fix_unboxed s p 0 m = ok m' \<and>
    arg_values m' p (count_list bs 37) = map unboxed (arg_values m p (count_list bs 37)) \<and>
    (\<forall>a. 4 * count_list bs 37 \<le> unat (a - p) \<longrightarrow> m' a = m a)"
  using fix_unboxed_steps [of m s bs 0 "count_list bs 37" p] assms
  by (auto simp: arg_values_def ptr_def)

lemma fix_unboxed_args_witness:
  "\<exists>m'. fix_unboxed 4104 8192 0 (store32 (scrap_mem(4105 := 37, 4106 := 100)) 8192 (BOX 6)) = ok m' \<and> load32 m' 8192 = 6"
proof -
  let ?m = "store32 (scrap_mem(4105 := 37, 4106 := 100)) 8192 (BOX 6)"
  have c: "cstring ?m 4104 [104, 37, 100]" by (simp add: store32_def scrap_mem_def)
  have "j < 4 \<longleftrightarrow> j = 0 \<or> j = 1 \<or> j = 2 \<or> j = 3" for j :: nat by auto
  then have "apart 8192 4 4104 4" by (auto simp: apart_def)
  moreover have "(4 :: nat) = Suc (Suc (Suc (Suc 0)))" by simp
  ultimately have "apart 8192 4 4104 (Suc (Suc (Suc (Suc 0))))" by metis
  with c obtain m' where 1: "fix_unboxed 4104 8192 0 ?m = ok m'" "arg_values m' 8192 1 = map unboxed (arg_values ?m 8192 1)"
    using fix_unboxed_args [of ?m 4104 "[104, 37, 100]" 8192] by auto
  then have "load32 m' 8192 = unboxed (BOX 6)" by (simp add: arg_values_def)
  also have "\<dots> = 6" by (simp add: unboxed_def UNBOXED_def BOX_def UNBOX_def)
  finally show ?thesis using 1(1) by blast
qed

section \<open>Files\<close>

text \<open>
  C24: what is written to a file is read back: where \<open>fopen\<close> and \<open>fseek\<close> succeed, the disk is not full and
  \<open>fread\<close> gets the whole file, the string that comes from a file just written has the value of the string
  that went into it, and no stream is left open.
\<close>

theorem file_round_trip:
  assumes "heap_view s os" "rep s fname (Str_val name)" "rep s cnt (Str_val bs)"
    and "may_open c name (bytes_of ''r'')" "may_open c name (bytes_of ''w'')" "\<not> disk_full w"
    and "can_seek c name" "length bs \<le> fread_count c name (length bs)"
    and "next_streams w = h1 # h2 # hs" "4 * (length bs div 4 + 3) \<le> free_bytes s os"
  shows "\<exists>w' r s' w''. Lfwrite c fname cnt s w = ok w' \<and> Lfread c mremap fname s w' = ok (r, s', w'') \<and>
    rep s' r (Str_val bs) \<and> files w'' = (files w)(name \<mapsto> bs) \<and> streams w'' = (streams w)(h1 := None, h2 := None)"
proof -
  note r = assms(2,3) [unfolded rep_Str]
  have cs: "c_string (mem s) fname = ok name" "c_string (mem s) cnt = ok bs"
    using r by (auto intro: c_string_cstring)
  have n: "length bs < 536870912" "0 \<notin> set bs" using r by (auto simp: cstring_bytes)
  have a: "ASSERT_STRING memo s fname = ok ()" "ASSERT_STRING memo s cnt = ok ()" for memo
    using r by (auto simp: ASSERT_STRING_def)
  let ?w' = "w\<lparr>files := (files w)(name \<mapsto> bs), streams := (streams w)(h1 := None), next_streams := h2 # hs\<rparr>"
  have w: "Lfwrite c fname cnt s w = ok ?w'"
    using assms(5,6,9) by (simp add: Lfwrite_def a cs fopen_def fprint_def fclose_def Let_def bytes_of_def)
  from read_into_string [OF assms(1) n assms(10), of mremap] obtain s1 where
    s1: "LmakeString mremap (BOX (word_of_nat (length bs))) s = ok (cadr (chunk_begin (heap s)) os (length os), s1)"
    "rep (s1\<lparr>mem := store_bytes (mem s1) (cadr (chunk_begin (heap s)) os (length os)) bs\<rparr>)
        (cadr (chunk_begin (heap s)) os (length os)) (Str_val bs)" by blast
  have "Lfread c mremap fname s ?w' = ok (cadr (chunk_begin (heap s)) os (length os),
      s1\<lparr>mem := store_bytes (mem s1) (cadr (chunk_begin (heap s)) os (length os)) bs\<rparr>,
      ?w'\<lparr>streams := (streams w)(h1 := None, h2 := None), next_streams := hs\<rparr>)"
    using assms(4,7,8) by (simp add: Lfread_def a cs fopen_def fclose_def Let_def s1(1) bytes_of_def fun_upd_idem)
  with w s1(2) show ?thesis by fastforce
qed

definition plain_libc :: libc where
  "plain_libc = \<lparr>vformat = (\<lambda>m f a. []), scan_int = (\<lambda>_. None), may_open = (\<lambda>n m. True), can_seek = (\<lambda>n. True), fread_count = (\<lambda>n k. k), getenv = (\<lambda>_. None),
     run_command = (\<lambda>_. 0), compile_pattern = (\<lambda>_. None), re_match = (\<lambda>_ _ _. 0)\<rparr>"

definition empty_disk :: world where
  "empty_disk = \<lparr>files = Map.empty, streams = Map.empty, next_streams = [100, 104], std_out = [], std_err = [],
     std_in = [], disk_full = False\<rparr>"

lemma file_round_trip_witness:
  "\<exists>w' r s' w''. Lfwrite plain_libc 4104 4104 scrap empty_disk = ok w' \<and>
     Lfread plain_libc (\<lambda>m a o' n. None) 4104 scrap w' = ok (r, s', w'') \<and> rep s' r (Str_val [104, 105])"
proof -
  have "4 * (length [104 :: u8, 105] div 4 + 3) \<le> free_bytes scrap scrap_objs"
    using scrap_opos by (simp add: free_bytes_def scrap_def) (simp add: scrap_objs_def)
  from file_round_trip [OF scrap_view scrap_rep scrap_rep _ _ _ _ _ _ this, of plain_libc empty_disk 100 104 "[]" "\<lambda>m a o' n. None"]
  show ?thesis by (auto simp: plain_libc_def empty_disk_def)
qed

text \<open>Where \<open>fread\<close> gets less than the file has, or \<open>fseek\<close> fails, the process ends.\<close>

lemma fread_fails:
  assumes "rep s fname (Str_val name)" "may_open c name (bytes_of ''r'')" "files w name = Some t" "next_streams w = h # hs"
    and "\<not> can_seek c name \<or> fread_count c name (length t) < length t \<and> LmakeString mremap (BOX (word_of_nat (length t))) s = ok (r, s1)"
  shows "Lfread c mremap fname s w = err (Failure ''fread (%s): %s'')"
proof -
  note r = assms(1) [unfolded rep_Str]
  have "c_string (mem s) fname = ok name" using r by (auto intro: c_string_cstring)
  with r assms(2-5) show ?thesis by (auto simp: Lfread_def ASSERT_STRING_def fopen_def Let_def fun_upd_idem bytes_of_def)
qed

text \<open>A zero byte ends the text that is written, and the test for a file leaves its stream open.\<close>

lemma fexists_leaks:
  assumes "rep s fname (Str_val name)" "may_open c name (bytes_of ''r'')" "files w name = Some t" "next_streams w = h # hs"
  shows "\<exists>w'. Lfexists c fname s w = ok (BOX 1, w') \<and> streams w' h = Some (To_file name)"
proof -
  note r = assms(1) [unfolded rep_Str]
  have "c_string (mem s) fname = ok name" using r by (auto intro: c_string_cstring)
  with r assms(2-4) show ?thesis by (auto simp: Lfexists_def ASSERT_STRING_def fopen_def Let_def)
qed

text \<open>A line without characters returns 0 and is not consumed: the next call finds it again.\<close>

lemma readLine_stuck: "std_in w = 10 # rest \<Longrightarrow> LreadLine mremap buf p2 0 s w = ok (BOX 0, s, w)"
  by (simp add: LreadLine_def)

section \<open>Random numbers\<close>

text \<open>
  C40: for a positive range, the random number is at least 0 and below the range, and every other argument
  ends the program with a message.
\<close>

theorem Lrandom_in_range:
  assumes "sint r \<ge> 0"
  shows "if UNBOXED n \<and> 0 < ival n then \<exists>v. Lrandom r n = ok v \<and> UNBOXED v \<and> 0 \<le> ival v \<and> ival v < ival n
    else \<exists>msg. Lrandom r n = err (Failure msg)"
proof (cases "UNBOXED n \<and> 0 < ival n")
  case True
  then have u: "sint (UNBOX n) = ival n" by (simp add: ival_def)
  moreover have "UNBOX n \<noteq> - 1" using True u by (metis less_irrefl not_less_iff_gr_or_eq signed_minus_1 zero_less_one neg_less_0_iff_less)
  ultimately have "\<not> div_traps r (UNBOX n)" using True UNBOX_zero_iff [of n] by (auto simp: div_traps_def)
  then have e: "Lrandom r n = ok (BOX (word_of_int (sint r smod ival n)))"
    using True u by (simp add: Lrandom_def ASSERT_UNBOXED_def c_mod_def)
  have m: "0 \<le> sint r smod ival n" "sint r smod ival n < ival n"
    using assms True by (simp_all add: smod_int_compares)
  then have "fits31 (sint r smod ival n)" using fits31_ival [of n] by (simp add: fits31_def)
  then have "ival (BOX (word_of_int (sint r smod ival n))) = sint r smod ival n" by (simp add: ival_BOX_int wrap31_fits)
  with True e m show ?thesis by (simp add: UNBOXED_BOX)
qed (auto simp: Lrandom_def ASSERT_UNBOXED_def ival_def)

lemma Lrandom_in_range_witness: "\<exists>v. Lrandom 17 (BOX 6) = ok v \<and> 0 \<le> ival v \<and> ival v < 6"
proof -
  have "ival (BOX 6) = 6" using ival_BOX_int [of 6] by (simp add: wrap31_fits fits31_def)
  then show ?thesis using Lrandom_in_range [of 17 "BOX 6"] by (auto simp: UNBOXED_BOX)
qed

end
