(* ===== verification/Driver.thy ===== *)
theory Driver
  imports Verifier Interpreter
begin

text \<open>
  tools/interpreter.cpp: the program that verifies a file and interprets it from its public symbol \<open>main\<close>.
  The measurement of time is left out; \<open>offset\<close> is the variable that the verifier leaves uninitialised.
\<close>

text \<open>\<open>strcmp (...) == 0\<close> for a string that is followed by the rest of the file.\<close>

fun str_equal :: "u8 list \<Rightarrow> u8 list \<Rightarrow> bool outcome" where
  "str_equal (x # xs) (y # ys) = (if x \<noteq> y then ok False else if x = 0 then ok True else str_equal xs ys)"
| "str_equal xs ys = err OutOfBounds"

definition main_name :: "u8 list" where
  "main_name = bytes_of ''main'' @ [0]"

fun find_main :: "bytefile \<Rightarrow> u32 list \<Rightarrow> int option outcome" where
  "find_main f [] = ok None"
| "find_main f (i # is) = andthen (get_public_name f i) (\<lambda>name.
     andthen (str_equal (drop (string_off f + name) (buffer f)) main_name) (\<lambda>eq.
       if eq then andthen (get_public_offset f i) (\<lambda>ip. ok (Some ip)) else find_main f is))"

definition main_symbol :: "bytefile \<Rightarrow> int option outcome" where
  "main_symbol f = find_main f (map word_of_nat [0..<nat (sint (public_symbols_number f))])"

definition verify_and_run :: "env \<Rightarrow> mmap \<Rightarrow> u32 \<Rightarrow> istate \<Rightarrow> istate outcome" where
  "verify_and_run e mmap offset st = andthen (get_entrypoints (e_file e)) (\<lambda>entrypoints.
     andthen (verify_reachable_instructions (e_file e) entrypoints offset) (\<lambda>_.
     andthen (main_symbol (e_file e)) (\<lambda>ip.
     andthen (ASSERT (ip \<noteq> None) ''main symbol not found'') (\<lambda>_. interprete e mmap ip st))))"

lemma collect_set: "collect g xs = ok ys \<Longrightarrow> x \<in> set xs \<Longrightarrow> g x = ok y \<Longrightarrow> y \<in> set ys"
  by (induction xs arbitrary: ys) (auto simp: andthen_eq_ok)

lemma find_main_offset: "find_main f is = ok (Some ip) \<Longrightarrow> \<exists>i \<in> set is. get_public_offset f i = ok ip"
  by (induction "is") (auto simp: andthen_eq_ok split: if_splits)

lemma main_is_entrypoint: "get_entrypoints f = ok es \<Longrightarrow> main_symbol f = ok (Some ip) \<Longrightarrow> ip \<in> set es"
  unfolding main_symbol_def get_entrypoints_def by (blast dest: find_main_offset intro: collect_set)

text \<open>What runs is a function that the verifier has taken for an entry point.\<close>

lemma verify_and_run_main:
  assumes "verify_and_run e mmap offset st = ok st'"
  shows "\<exists>entrypoints ip begins vis. get_entrypoints (e_file e) = ok entrypoints \<and>
    reachable_instructions (e_file e) entrypoints = ok (begins, vis) \<and> ip \<in> set entrypoints \<and>
    interprete e mmap (Some ip) st = ok st'"
proof -
  from assms obtain es ip where g: "get_entrypoints (e_file e) = ok es" and v: "verify_reachable_instructions (e_file e) es offset = ok ()"
    and m: "main_symbol (e_file e) = ok (Some ip)" and r: "interprete e mmap (Some ip) st = ok st'"
    by (auto simp: verify_and_run_def andthen_eq_ok)
  from v obtain begins vis where "reachable_instructions (e_file e) es = ok (begins, vis)"
    by (auto simp: verify_reachable_instructions_def andthen_eq_ok)
  moreover have "ip \<in> set es" by (rule main_is_entrypoint [OF g m])
  ultimately show ?thesis using g r by blast
qed

end
