(* ===== verification/VerifiedRuns.thy ===== *)
theory VerifiedRuns
  imports Driver Execution ControlFlow
begin

text \<open>
  The verifier and the interpreter together: which positions a run of an accepted program visits. A
  closure call jumps to a word of the heap, and a byte that applies no functor has no successor for the
  verifier; programs without them never leave the positions that the verifier has followed, through any
  calls and returns.
\<close>

definition first_order :: "inst \<Rightarrow> bool" where
  "first_order i = (case i of CallC n \<Rightarrow> False | No_functor x \<Rightarrow> False | _ \<Rightarrow> True)"

text \<open>The positions that control flow reaches from the entry points.\<close>

definition followed :: "bytefile \<Rightarrow> int list \<Rightarrow> int set" where
  "followed f es = {p. \<exists>e \<in> set es. (flow f)\<^sup>*\<^sup>* e p}"

definition first_order_code :: "bytefile \<Rightarrow> int list \<Rightarrow> bool" where
  "first_order_code f es \<longleftrightarrow> (\<forall>p \<in> followed f es. \<forall>i n. read_inst f p = ok (i, n) \<longrightarrow> first_order i)"

lemma followed_successor:
  assumes "p \<in> followed f es" "read_inst f p = ok (i, n)" "t \<in> set (successors i n)"
  shows "t \<in> followed f es"
proof -
  have "flow f p t" using assms(2,3) by (rule flow.intros)
  then show ?thesis using assms(1) by (auto simp: followed_def intro: rtranclp.rtrancl_into_rtrancl)
qed

lemma followed_settled:
  assumes "reachable_instructions f es = ok (begins, vis)" "p \<in> followed f es"
  shows "settled f vis p"
  using reachable_settled [OF assms(1)] assms(2) by (auto simp: followed_def)

text \<open>A position to go to or to return to: one that has been followed, or the end of the program.\<close>

definition on_path :: "bytefile \<Rightarrow> int list \<Rightarrow> int option \<Rightarrow> bool" where
  "on_path f es ip \<longleftrightarrow> (\<forall>p. ip = Some p \<longrightarrow> p \<in> followed f es)"

definition returns_on_path :: "bytefile \<Rightarrow> int list \<Rightarrow> istate \<Rightarrow> bool" where
  "returns_on_path f es st \<longleftrightarrow> (\<forall>k. ctop st \<le> k \<and> k < CSTACK_SIZE \<longrightarrow> on_path f es (return_ip (cframes st k)))"

lemma returns_on_path_mono:
  assumes "returns_on_path f es st" "callers_kept st st'" "ctop st \<le> ctop st'"
  shows "returns_on_path f es st'"
  using assms by (auto simp: returns_on_path_def callers_kept_def return_data_def)

text \<open>An instruction other than a call or a return goes to a successor and leaves the frames alone.\<close>

lemma straight_target:
  assumes "straight i" "exec_inst e n i st = ok (st', adv)" "first_order i"
  shows "\<exists>t \<in> set (successors i n). next_ip n adv = Some t"
proof (cases i)
  case (CJmpZ t)
  then show ?thesis using assms(2) by (auto simp: popped_def andthen_eq_ok next_ip_def)
next
  case (CJmpNZ t)
  then show ?thesis using assms(2) by (auto simp: popped_def andthen_eq_ok next_ip_def)
next
  case (Fail_at l c)
  then show ?thesis using assms(2) by (auto simp: normal_def exec_Fail_def popped_def Bmatch_failure_def andthen_eq_ok split: prod.splits)
qed (use assms in \<open>auto simp: first_order_def next_ip_def normal_def andthen_eq_ok\<close>)

lemma step_on_path:
  assumes rd: "read_inst (e_file e) p = ok (i, n)" and fo: "first_order i" and p: "p \<in> followed (e_file e) es"
    and m: "machine_inv e st" "ctop st < CSTACK_SIZE" "small_operands i"
    and r: "returns_on_path (e_file e) es st" and x: "exec_inst e n i st = ok (st', adv)"
  shows "on_path (e_file e) es (next_ip n adv) \<and> returns_on_path (e_file e) es st'"
proof -
  note succ = followed_successor [OF p rd]
  note kept = exec_inst_callers [OF m x]
  consider (straight) "straight i" | (begin') args locals where "i = Begin args locals \<or> i = CBegin args locals"
    | (call) offset args where "i = Call offset args" | (end') "i = End \<or> i = Ret"
    using fo by (cases i) (auto simp: first_order_def)
  then show ?thesis
  proof cases
    case straight
    have "vs_inv (e_vstack e) (gs st)" using m(1) by (simp add: machine_inv_def)
    from yieldsD [OF straight_effect [OF this straight] x] have "ctop st' = ctop st" by (simp add: shifted_def)
    with returns_on_path_mono [OF r kept] straight_target [OF straight x fo] succ show ?thesis
      by (auto simp: on_path_def)
  next
    case begin'
    then obtain adv': "adv = Normal" and c: "cstack_alloc e locals st = ok st'"
      using x by (auto simp: normal_def andthen_eq_ok)
    from c have "ctop st' = ctop st" by (auto simp: cstack_alloc_def ASSERT_def split: if_splits)
    with returns_on_path_mono [OF r kept] adv' begin' succ show ?thesis by (auto simp: on_path_def next_ip_def)
  next
    case call
    then obtain adv': "adv = Jump_to (Some (sint offset))" and c: "cstack_call n args False st = ok st'"
      using x by (auto simp: exec_Call_def jumping_def andthen_eq_ok)
    have a: "args \<le> 65536" using m(3) call by simp
    note ck = cstack_call_ok [OF m(1,2) a c]
    have "on_path (e_file e) es (return_ip (cframes st' k))" if "ctop st' \<le> k" "k < CSTACK_SIZE" for k
    proof (cases "k = ctop st'")
      case True
      then show ?thesis using ck(5) succ call by (auto simp: on_path_def)
    next
      case False
      then show ?thesis using ck(4,6) r that by (auto simp: returns_on_path_def)
    qed
    then show ?thesis using adv' call succ by (auto simp: returns_on_path_def on_path_def next_ip_def)
  next
    case end'
    then obtain ip where c: "cstack_end e st = ok (ip, st')" and adv': "adv = Jump_to ip"
      using x by (auto simp: exec_end_def andthen_eq_ok)
    note ce = cstack_end_ok [OF m(1,2) c]
    have "on_path (e_file e) es ip" using ce(3) r m(2) by (simp add: returns_on_path_def)
    with returns_on_path_mono [OF r kept] ce(2) adv' show ?thesis by (simp add: next_ip_def)
  qed
qed

lemma run_on_path:
  assumes "machine_reaches e c c'" and acc: "reachable_instructions (e_file e) es = ok (begins, vis)"
    and ops: "operands_small e" and fo: "first_order_code (e_file e) es"
    and m: "machine_inv e (snd c)" "running (fst c) (snd c)"
    and r: "on_path (e_file e) es (fst c)" "returns_on_path (e_file e) es (snd c)"
  shows "on_path (e_file e) es (fst c') \<and> returns_on_path (e_file e) es (snd c')"
  using assms(1)
proof (induction rule: machine_reaches.induct)
  case start
  with r show ?case by simp
next
  case (more c' c'')
  from more.hyps(2) obtain p i n adv where c': "fst c' = Some p" and rd: "read_inst (e_file e) p = ok (i, n)"
    and x: "exec_inst e n i (snd c') = ok (snd c'', adv)" "fst c'' = next_ip n adv"
    by (cases rule: machine_step.cases) (auto simp: step_def andthen_eq_ok)
  have k: "machine_inv e (snd c')" "ctop (snd c') < CSTACK_SIZE"
    using machine_reaches_inv [OF more.hyps(1) ops m] c' by (simp_all add: running_def)
  have p: "p \<in> followed (e_file e) es" using more.IH c' by (simp add: on_path_def)
  with fo rd have "first_order i" by (auto simp: first_order_code_def)
  moreover have "small_operands i" using ops rd unfolding operands_small_def by blast
  ultimately show ?case using step_on_path [OF rd _ p k _ _ x(1)] more.IH x(2) by simp
qed

text \<open>At the start there is one frame, which returns to the end of the program.\<close>

lemma interp_start_returns:
  assumes "interp_start e mmap st = ok st'"
  shows "returns_on_path f es st'"
proof -
  have "ctop st' = CSTACK_SIZE - 1" "return_ip (cframes st' (CSTACK_SIZE - 1)) = None"
    using assms by (auto simp: interp_start_def andthen_eq_ok cstack_init_def Let_def)
  moreover have "k = CSTACK_SIZE - 1" if "CSTACK_SIZE - 1 \<le> k" "k < CSTACK_SIZE" for k using that by linarith
  ultimately show ?thesis by (metis on_path_def option.simps(3) returns_on_path_def)
qed

theorem accepted_run_on_path:
  assumes "placed (e_vstack e)" "global_area_size (e_file e) \<le> 65535" "operands_small e"
    "args_count (cframes st0 (CSTACK_SIZE - 1)) = 0" "\<not> fr_closure (cframes st0 (CSTACK_SIZE - 1))"
    and acc: "reachable_instructions (e_file e) es = ok (begins, vis)" "ip0 \<in> set es" "first_order_code (e_file e) es"
    and run: "interp_start e mmap st0 = ok st1" "machine_reaches e (Some ip0, st1) (Some ip, st)"
  shows "ip \<in> followed (e_file e) es" "settled (e_file e) vis ip" "ctop st < CSTACK_SIZE"
proof -
  note m = interp_start_inv [OF assms(1,2,4,5) run(1)]
  have "running (Some ip0) st1" using m(2) by (simp add: running_def)
  moreover have "on_path (e_file e) es (Some ip0)" using acc(2) by (auto simp: on_path_def followed_def)
  ultimately show p: "ip \<in> followed (e_file e) es"
    using run_on_path [OF run(2) acc(1) assms(3) acc(3)] m(1) interp_start_returns [OF run(1)] by (simp add: on_path_def)
  show "settled (e_file e) vis ip" by (rule followed_settled [OF acc(1) p])
  show "ctop st < CSTACK_SIZE"
    using machine_reaches_inv [OF run(2) assms(3)] m by (simp add: running_def)
qed

end
