(* ===== verification/Locals.thy ===== *)
theory Locals
  imports VerifiedRuns
begin

text \<open>
  The locals of the frames. BEGIN reserves them from the top of the stack, and they are addressed from
  the base of the frame, which a call sets to the top: the two agree where BEGIN is the first instruction
  after the call. In an accepted program without closure calls, in which no other way leads to a BEGIN, the
  locals of every frame lie in the array.
\<close>

definition begins_at :: "bytefile \<Rightarrow> int \<Rightarrow> bool" where
  "begins_at f p \<longleftrightarrow> (\<exists>args locals n. read_inst f p \<in> {ok (Begin args locals, n), ok (CBegin args locals, n)})"

text \<open>Where an instruction leads inside its function: a call comes back to the next one.\<close>

fun inner_successors :: "inst \<Rightarrow> int \<Rightarrow> int list" where
  "inner_successors (Call offset args) next = [next]"
| "inner_successors (Closure offset captured) next = [next]"
| "inner_successors i next = successors i next"

definition entered_by_calls :: "bytefile \<Rightarrow> int list \<Rightarrow> bool" where
  "entered_by_calls f es \<longleftrightarrow> (\<forall>p \<in> followed f es. \<forall>i n. read_inst f p = ok (i, n) \<longrightarrow>
     (\<forall>t \<in> set (inner_successors i n). \<not> begins_at f t))"

lemma inner_target:
  assumes "straight i" "exec_inst e n i st = ok (st', adv)" "first_order i"
  shows "\<exists>t \<in> set (inner_successors i n). next_ip n adv = Some t"
proof (cases i)
  case (Closure t cs)
  with assms(2) show ?thesis by (auto simp: normal_def andthen_eq_ok next_ip_def)
qed (use straight_target [OF assms] assms(1) in simp_all)

section \<open>The frames of a run\<close>

definition frame_fits :: "env \<Rightarrow> istate \<Rightarrow> nat \<Rightarrow> bool" where
  "frame_fits e st k \<longleftrightarrow> unat (locals_count (cframes st k)) \<le> Suc (base_index (e_vstack e) (cframes st k))"

lemma locals_fit_frame: "locals_fit e st \<longleftrightarrow> frame_fits e st (ctop st)"
  by (simp add: locals_fit_def frame_fits_def)

text \<open>The frames of the callers have their locals and return into their functions. So has the frame at the
  top, unless BEGIN comes next: then the stack is as the call has left it.\<close>

definition frames_fit :: "env \<Rightarrow> int option \<Rightarrow> istate \<Rightarrow> bool" where
  "frames_fit e ip st \<longleftrightarrow> (\<forall>k. ctop st < k \<and> k < CSTACK_SIZE \<longrightarrow> frame_fits e st k)
     \<and> (\<forall>k q. ctop st \<le> k \<and> k < CSTACK_SIZE \<and> return_ip (cframes st k) = Some q \<longrightarrow> \<not> begins_at (e_file e) q)
     \<and> (\<forall>p. ip = Some p \<longrightarrow> (if begins_at (e_file e) p then gc_stack_top (gs st) = fr_base (cframes st (ctop st))
          else frame_fits e st (ctop st)))"

lemma frame_fits_same: "cframes st' k = cframes st k \<Longrightarrow> frame_fits e st' k = frame_fits e st k"
  by (simp add: frame_fits_def)

lemma frames_fitI:
  assumes "\<And>k. ctop st < k \<Longrightarrow> k < CSTACK_SIZE \<Longrightarrow> frame_fits e st k"
    and "\<And>k q. ctop st \<le> k \<Longrightarrow> k < CSTACK_SIZE \<Longrightarrow> return_ip (cframes st k) = Some q \<Longrightarrow> \<not> begins_at (e_file e) q"
    and "\<And>p. ip = Some p \<Longrightarrow> begins_at (e_file e) p \<Longrightarrow> gc_stack_top (gs st) = fr_base (cframes st (ctop st))"
    and "\<And>p. ip = Some p \<Longrightarrow> \<not> begins_at (e_file e) p \<Longrightarrow> frame_fits e st (ctop st)"
  shows "frames_fit e ip st"
  using assms by (auto simp: frames_fit_def)

lemma frames_fitD:
  assumes "frames_fit e ip st"
  shows "ctop st < k \<Longrightarrow> k < CSTACK_SIZE \<Longrightarrow> frame_fits e st k"
    "ctop st \<le> k \<Longrightarrow> k < CSTACK_SIZE \<Longrightarrow> return_ip (cframes st k) = Some q \<Longrightarrow> \<not> begins_at (e_file e) q"
    "ip = Some p \<Longrightarrow> begins_at (e_file e) p \<Longrightarrow> gc_stack_top (gs st) = fr_base (cframes st (ctop st))"
    "ip = Some p \<Longrightarrow> \<not> begins_at (e_file e) p \<Longrightarrow> frame_fits e st (ctop st)"
  using assms by (auto simp: frames_fit_def)

lemma frames_fit_straight:
  assumes fit: "frames_fit e (Some p) st" and nb: "\<not> begins_at (e_file e) p" "\<not> begins_at (e_file e) t"
    and same: "cframes st' = cframes st" "ctop st' = ctop st"
  shows "frames_fit e (Some t) st'"
  using assms by (simp add: frames_fit_def frame_fits_def)

lemma frames_fit_begin:
  assumes m: "machine_inv e st" "ctop st < CSTACK_SIZE" and n: "locals \<le> 65536" and c: "cstack_alloc e locals st = ok st'"
    and fit: "frames_fit e (Some p) st" and b: "begins_at (e_file e) p" "\<not> begins_at (e_file e) t"
  shows "frames_fit e (Some t) st'"
proof -
  note a = cstack_alloc_ok [OF m(1) n c] and f = frames_fitD [OF fit]
  have "base_index (e_vstack e) (cframes st (ctop st)) = top_index (e_vstack e) (gs st)"
    using f(3) b(1) by (simp add: base_index_def top_index_def)
  with a(4) have top: "frame_fits e st' (ctop st)" by (simp add: frame_fits_def a(7) base_index_def)
  have k: "frame_fits e st' k = frame_fits e st k" if "k \<noteq> ctop st" for k
    by (rule frame_fits_same) (simp add: a(7) that)
  have r: "return_ip (cframes st' k) = return_ip (cframes st k)" for k by (simp add: a(7))
  show ?thesis
  proof (rule frames_fitI)
    fix k assume "ctop st' < k" "k < CSTACK_SIZE"
    then show "frame_fits e st' k" using f(1) [of k] k [of k] a(2) by simp
  next
    fix k q assume "ctop st' \<le> k" "k < CSTACK_SIZE" "return_ip (cframes st' k) = Some q"
    then show "\<not> begins_at (e_file e) q" using f(2) a(2) r by metis
  qed (use b(2) top a(2) in simp_all)
qed

lemma frames_fit_call:
  assumes m: "machine_inv e st" "ctop st < CSTACK_SIZE" and n: "args \<le> 65536" and c: "cstack_call ret args False st = ok st'"
    and fit: "frames_fit e (Some p) st" and b: "\<not> begins_at (e_file e) p" "\<not> begins_at (e_file e) ret" "begins_at (e_file e) t"
  shows "frames_fit e (Some t) st'"
proof -
  note k = cstack_call_ok [OF m n c, simplified] and f = frames_fitD [OF fit]
  have same: "cframes st' j = cframes st j" if "ctop st \<le> j" for j using that k(4,6) by simp
  show ?thesis
  proof (rule frames_fitI)
    fix j assume j: "ctop st' < j" "j < CSTACK_SIZE"
    then have "ctop st \<le> j" using k(4) by linarith
    then have "frame_fits e st j" using f(1) [of j] f(4) [OF refl b(1)] j(2) by (cases "j = ctop st") simp_all
    then show "frame_fits e st' j" by (simp only: frame_fits_same [OF same [OF \<open>ctop st \<le> j\<close>]])
  next
    fix j q assume j: "ctop st' \<le> j" "j < CSTACK_SIZE" "return_ip (cframes st' j) = Some q"
    show "\<not> begins_at (e_file e) q"
    proof (cases "j = ctop st'")
      case True
      then show ?thesis using j(3) k(5) b(2) by simp
    next
      case False
      then have "ctop st \<le> j" using j(1) k(4) by linarith
      then show ?thesis using f(2) j(2,3) same by metis
    qed
  qed (use b(3) k(3,5) in simp_all)
qed

lemma frames_fit_end:
  assumes m: "machine_inv e st" "ctop st < CSTACK_SIZE" and c: "cstack_end e st = ok (ip, st')"
    and fit: "frames_fit e (Some p) st" and r: "running ip st'"
  shows "frames_fit e ip st'"
proof -
  note k = cstack_end_ok [OF m c] and f = frames_fitD [OF fit]
  have same: "frame_fits e st' j = frame_fits e st j" for j by (rule frame_fits_same) (simp only: k(4))
  have q: "\<not> begins_at (e_file e) q" if "ip = Some q" for q using that f(2) [OF order.refl m(2)] k(3) by simp
  show ?thesis
  proof (rule frames_fitI)
    fix j assume "ctop st' < j" "j < CSTACK_SIZE"
    then show "frame_fits e st' j" using f(1) [of j] k(2) same by simp
  next
    fix j q assume "ctop st' \<le> j" "j < CSTACK_SIZE" "return_ip (cframes st' j) = Some q"
    then show "\<not> begins_at (e_file e) q" using f(2) [of j q] k(2,4) by simp
  next
    fix q assume "ip = Some q"
    then have "ctop st' < CSTACK_SIZE" using r by (simp add: running_def)
    then show "frame_fits e st' (ctop st')" using f(1) [of "ctop st'"] k(2) same by simp
  qed (use q in blast)
qed

lemma called_begins:
  assumes "reachable_instructions f es = ok (begins, vis)" "p \<in> followed f es" "read_inst f p = ok (Call offset args, n)"
  shows "begins_at f (sint offset)"
proof -
  have t: "sint offset \<in> followed f es" using followed_successor [OF assms(2,3)] by simp
  have "peek f (sint offset) = ok opcode_Begin"
    using followed_settled [OF assms(1,2)] assms(3) by (auto simp: settled_def well_targeted_def)
  then have b: "byte_at f (sint offset) = opcode_Begin" by (simp add: peek_def split: if_splits)
  obtain i m where r: "read_inst f (sint offset) = ok (i, m)"
    using followed_settled [OF assms(1) t] by (auto simp: settled_def)
  with b have "\<exists>a l. i = Begin a l"
    by (auto simp: read_inst_def read_byte_def andthen_eq_ok opcode_Begin_def read_operands_def read2_def split: if_splits)
  with r show ?thesis by (auto simp: begins_at_def)
qed

lemma step_frames_fit:
  assumes rd: "read_inst (e_file e) p = ok (i, n)" and fo: "first_order i" and p: "p \<in> followed (e_file e) es"
    and acc: "reachable_instructions (e_file e) es = ok (begins, vis)" and bc: "entered_by_calls (e_file e) es"
    and m: "machine_inv e st" "ctop st < CSTACK_SIZE" "small_operands i"
    and fit: "frames_fit e (Some p) st" and x: "exec_inst e n i st = ok (st', adv)" and r: "running (next_ip n adv) st'"
  shows "frames_fit e (next_ip n adv) st'"
proof -
  have inner: "\<not> begins_at (e_file e) t" if "t \<in> set (inner_successors i n)" for t
    using bc p rd that by (auto simp: entered_by_calls_def)
  have nb: "begins_at (e_file e) p \<longleftrightarrow> (\<exists>a l. i \<in> {Begin a l, CBegin a l})" using rd by (auto simp: begins_at_def)
  consider (straight) "straight i" | (begin') args locals where "i = Begin args locals \<or> i = CBegin args locals"
    | (call) offset args where "i = Call offset args" | (end') "i = End \<or> i = Ret"
    using fo by (cases i) (auto simp: first_order_def)
  then show ?thesis
  proof cases
    case straight
    then have "\<not> begins_at (e_file e) p" unfolding nb by auto
    moreover have "vs_inv (e_vstack e) (gs st)" using m(1) by (simp add: machine_inv_def)
    from yieldsD [OF straight_effect [OF this straight] x] have "cframes st' = cframes st" "ctop st' = ctop st"
      by (simp_all add: shifted_def)
    ultimately show ?thesis using inner_target [OF straight x fo] inner frames_fit_straight [OF fit] by auto
  next
    case begin'
    then have "adv = Normal" "cstack_alloc e locals st = ok st'" "locals \<le> 65536"
      using x m(3) by (auto simp: normal_def andthen_eq_ok)
    moreover have "begins_at (e_file e) p" "\<not> begins_at (e_file e) n" using nb inner begin' by auto
    ultimately show ?thesis using frames_fit_begin [OF m(1,2) _ _ fit] by (simp add: next_ip_def)
  next
    case call
    then have "adv = Jump_to (Some (sint offset))" "cstack_call n args False st = ok st'" "args \<le> 65536"
      using x m(3) by (auto simp: exec_Call_def jumping_def andthen_eq_ok)
    moreover have "\<not> begins_at (e_file e) p" "\<not> begins_at (e_file e) n" using nb inner call by auto
    moreover have "begins_at (e_file e) (sint offset)" using called_begins [OF acc p] rd call by blast
    ultimately show ?thesis using frames_fit_call [OF m(1,2) _ _ fit] by (simp add: next_ip_def)
  next
    case end'
    then obtain ip where c: "cstack_end e st = ok (ip, st')" and "adv = Jump_to ip"
      using x by (auto simp: exec_end_def andthen_eq_ok)
    then show ?thesis using frames_fit_end [OF m(1,2) c fit] r by (simp add: next_ip_def)
  qed
qed

text \<open>At the start the stack is at the base of the frame, and its count of locals is the zero of a static
  variable.\<close>

lemma interp_start_fits:
  assumes "interp_start e mmap st = ok st'" and "locals_count (cframes st (CSTACK_SIZE - 1)) = 0"
  shows "frames_fit e (Some p) st'"
proof -
  have "ctop st' = CSTACK_SIZE - 1" "return_ip (cframes st' (CSTACK_SIZE - 1)) = None"
    "fr_base (cframes st' (CSTACK_SIZE - 1)) = gc_stack_top (gs st')" "locals_count (cframes st' (CSTACK_SIZE - 1)) = 0"
    using assms by (auto simp: interp_start_def andthen_eq_ok cstack_init_def Let_def)
  moreover have "k = CSTACK_SIZE - 1" if "CSTACK_SIZE - 1 \<le> k" "k < CSTACK_SIZE" for k using that by linarith
  ultimately show ?thesis unfolding frames_fit_def frame_fits_def by (metis le_eq_less_or_eq less_le_not_le option.distinct(1) unsigned_0 zero_le)
qed

theorem accepted_run_fits:
  assumes "placed (e_vstack e)" "global_area_size (e_file e) \<le> 65535" "operands_small e"
    "args_count (cframes st0 (CSTACK_SIZE - 1)) = 0" "\<not> fr_closure (cframes st0 (CSTACK_SIZE - 1))"
    "locals_count (cframes st0 (CSTACK_SIZE - 1)) = 0"
    and acc: "reachable_instructions (e_file e) es = ok (begins, vis)" "ip0 \<in> set es" "first_order_code (e_file e) es"
      "entered_by_calls (e_file e) es"
    and start: "interp_start e mmap st0 = ok st1" and run: "machine_reaches e (Some ip0, st1) c"
  shows "frames_fit e (fst c) (snd c)"
  using run
proof (induction rule: machine_reaches.induct)
  case start
  show ?case using interp_start_fits [OF assms(11,6)] by simp
next
  case (more c' c'')
  from more.hyps(2) obtain p i n adv where c': "c' = (Some p, snd c')" and rd: "read_inst (e_file e) p = ok (i, n)"
    and x: "exec_inst e n i (snd c') = ok (snd c'', adv)" "fst c'' = next_ip n adv"
    by (cases rule: machine_step.cases) (auto simp: step_def andthen_eq_ok)
  have reach: "machine_reaches e (Some ip0, st1) (Some p, snd c')" using more.hyps(1) c' by metis
  note on = accepted_run_on_path [OF assms(1-5) acc(1-3) assms(11) reach]
  note m = interp_start_inv [OF assms(1,2,4,5) assms(11)]
  have r1: "running (Some ip0) st1" using m(2) by (simp add: running_def)
  note k = machine_reaches_inv [OF more.hyps(1) assms(3), simplified, OF m(1) r1]
    and k' = machine_reaches_inv [OF machine_reaches.more [OF more.hyps] assms(3), simplified, OF m(1) r1]
  have "first_order i" using on(1) rd acc(3) by (auto simp: first_order_code_def)
  moreover have "small_operands i" using assms(3) rd unfolding operands_small_def by blast
  moreover have "fst c' = Some p" using c' by (metis fst_conv)
  ultimately show ?case
    using step_frames_fit [OF rd _ on(1) acc(1,4) _ on(3) _ _ x(1)] more.IH k k' x(2) by simp
qed

end
