(* ===== verification/ProgramProperties.thy ===== *)
theory ProgramProperties
  imports InterpreterProperties Locals
begin

text \<open>
  The whole of tools/interpreter.cpp: what the verification of a file says of its execution from \<open>main\<close>.
  The witness is a file with one public symbol, whose code is BEGIN with one local, CONST 1, END.
\<close>

section \<open>A file with a main symbol\<close>

definition main_file :: "inst list \<Rightarrow> bytefile" where
  "main_file is = (let c = concat (map encode is) in
     \<lparr>bf_size = 45 + word_of_nat (length c), stringtab_size = 5, global_area_size = 0, public_symbols_number = 1,
      buffer = [0, 0, 0, 0, 0, 0, 0, 0] @ [109, 97, 105, 110, 0] @ c\<rparr>)"

declare reach_loop.simps [code] function_size.simps [code] function_loop.simps [code]
  calls_size.simps [code] calls_loop.simps [code]

definition one_file :: bytefile where "one_file = main_file [Begin 0 1, Const 1, End]"

lemma one_file_simps [simp]:
  "bf_size one_file = 60" "stringtab_size one_file = 5" "global_area_size one_file = 0" "public_symbols_number one_file = 1"
  "code_off one_file = 13"
  "buffer one_file = [0, 0, 0, 0, 0, 0, 0, 0, 109, 97, 105, 110, 0, 82, 0, 0, 0, 0, 1, 0, 0, 0, 16, 1, 0, 0, 0, 22]"
  by (simp_all add: one_file_def main_file_def code_off_def string_off_def op_def le_bytes_def)

lemma one_file_ok: "bytefile_ok one_file"
  by (simp add: bytefile_ok_def SIZEOF_BYTEFILE_def)

lemma one_file_verified: "get_entrypoints one_file = ok [0]" "main_symbol one_file = ok (Some 0)"
  "verify_reachable_instructions one_file [0] 0 = ok ()"
  by code_simp+

lemma one_file_insts: "read_inst one_file 0 = ok (Begin 0 1, 9)" "read_inst one_file 9 = ok (Const 1, 14)"
  "read_inst one_file 14 = ok (End, 15)"
  by code_simp+

definition one_env :: env where "one_env = demo_env\<lparr>e_file := one_file\<rparr>"

lemma one_operands: "operands_small one_env"
  unfolding operands_small_def
proof (intro allI impI)
  fix ip i nxt
  assume "read_inst (e_file one_env) ip = ok (i, nxt)"
  then have r: "read_inst one_file ip = ok (i, nxt)" by (simp add: one_env_def)
  then have "0 \<le> ip" "ip < 15"
    by (auto simp: read_inst_def read_byte_def andthen_eq_ok assert_can_read_iff [OF one_file_ok] in_code_def split: if_splits)
  then have "ip \<in> {0, 1, 2, 3, 4, 5, 6, 7, 8, 9, 10, 11, 12, 13, 14}" by (simp; presburger)
  then have "ip = 0 \<or> unat (byte_at one_file ip) \<notin> {82, 83, 85, 86}" by (auto simp: byte_at_def)
  then show "small_operands i"
  proof
    assume "ip = 0"
    with r one_file_insts(1) show ?thesis by auto
  qed (rule small_unless [OF r])
qed

lemma one_first_order: "first_order_code one_file [0]"
proof -
  have "p \<in> {0, 9, 14}" if "(flow one_file)\<^sup>*\<^sup>* 0 p" for p
    using that by (induction rule: rtranclp_induct) (auto simp: flow_iff one_file_insts)
  then show ?thesis
    by (fastforce simp: first_order_code_def followed_def one_file_insts first_order_def)
qed

section \<open>Accepted programs\<close>

text \<open>
  C1: when the verifier accepts a file without closure calls and without bytes that apply no functor, and
  the interpreter runs it from its main symbol, then in every state of the run, through any calls and
  returns, the next instruction decodes, is well targeted and lies where control flow leads from an entry
  point; the call stack is not exhausted downwards. Frames and code lie outside the memory that STI and STA
  change (theory Interpreter), so programs that store through forged pointers are idealised.
\<close>

theorem accepted_programs_stay_in_code:
  assumes "get_entrypoints (e_file e) = ok es" "verify_reachable_instructions (e_file e) es offset = ok ()"
    "main_symbol (e_file e) = ok (Some main)" "first_order_code (e_file e) es"
    and "placed (e_vstack e)" "global_area_size (e_file e) \<le> 65535" "operands_small e"
    and "args_count (cframes st0 (CSTACK_SIZE - 1)) = 0" "\<not> fr_closure (cframes st0 (CSTACK_SIZE - 1))"
    and "interp_start e mmap st0 = ok st1" "machine_reaches e (Some main, st1) (Some ip, st)"
  shows "(\<exists>b \<in> set es. (flow (e_file e))\<^sup>*\<^sup>* b ip) \<and>
    (\<exists>i n. read_inst (e_file e) ip = ok (i, n) \<and> well_targeted (e_file e) i) \<and> ctop st < CSTACK_SIZE"
proof -
  from assms(2) obtain begins vis where r: "reachable_instructions (e_file e) es = ok (begins, vis)"
    by (auto simp: verify_reachable_instructions_def andthen_eq_ok)
  have "main \<in> set es" by (rule main_is_entrypoint [OF assms(1,3)])
  from accepted_run_on_path [OF assms(5-9) r this assms(4,10,11)] show ?thesis
    by (auto simp: followed_def settled_def)
qed

lemma one_start: "\<exists>st1 st2. interp_start one_env (\<lambda>m n. Some (4096, m)) demo_main = ok st1 \<and> step one_env 0 st1 = ok (Some 9, st2)"
  by (simp add: interp_start_def gc_init_def Let_def vs_alloc_globals_def ASSERT_def VSTACK_SIZE_def one_env_def
      step_def one_file_insts normal_def cstack_alloc_def next_ip_def cstack_init_def vs_init_def demo_env_def)

theorem accepted_programs_stay_in_code_witness:
  "\<exists>st1 st2. machine_reaches one_env (Some 0, st1) (Some 9, st2) \<and> (flow one_file)\<^sup>*\<^sup>* 0 9 \<and> ctop st2 < CSTACK_SIZE"
proof -
  from one_start obtain st1 st2 where s: "interp_start one_env (\<lambda>m n. Some (4096, m)) demo_main = ok st1"
    "step one_env 0 st1 = ok (Some 9, st2)" by blast
  have r: "machine_reaches one_env (Some 0, st1) (Some 9, st2)"
    by (rule machine_reaches.more [OF machine_reaches.start machine_step.turn [OF s(2)]])
  have f: "e_file one_env = one_file" "e_vstack one_env = 1048576" by (simp_all add: one_env_def)
  have m: "args_count (cframes demo_main (CSTACK_SIZE - 1)) = 0" "\<not> fr_closure (cframes demo_main (CSTACK_SIZE - 1))"
    by (simp_all add: demo_main_def demo_frame_def)
  from accepted_programs_stay_in_code [of one_env, unfolded f, OF one_file_verified(1,3,2) one_first_order demo_placed _
      one_operands m s(1) r] r
  show ?thesis by auto
qed




text \<open>
  The verifier does not compare the depths of the paths that meet at an instruction. The loop below takes
  a value from the stack in every round; it is accepted, and in the end it takes the values of its callers.
\<close>

lemma draining_loop_accepted:
  "verify_reachable_instructions (main_file [Begin 0 0, Const 1, Const 1, Drop, Jmp 19, End]) [0] 0 = ok ()"
  by code_simp

end
