(* ===== verification/Spec2Isabelle.thy ===== *)
theory Spec2Isabelle
  imports HeapProperties RuntimeProperties ToolProperties InterpreterProperties ReportProperties
    HomeworkProperties SystemProperties ProgramProperties
begin

text \<open>
  A verification development for a set of systems-programming homeworks: the Lama tools, which are the
  runtime library of the Lama language with its garbage collector (src/lama-tools/runtime) and the
  programs that read, verify, run, print and count its bytecode (src/lama-tools/tools); and the smaller
  homeworks beside them (src/01-cache-metrics, src/06-mempool, src/07-non-blocking-pool,
  src/08-string-ptr, src/09-safe-byte-read, src/10-parallel-memcpy).

  \<^bold>\<open>The Lama tools.\<close> A compiled program is a bytecode file. \<open>bytefile.cpp\<close> reads it into a struct with
  a table of public symbols, a string table and the code. \<open>inst_reader.h\<close> decodes one instruction at a
  position and hands it to a functor. The verifier (\<open>verify.cpp\<close> with the functors \<open>successors.h\<close> and
  \<open>stack_depth.h\<close>) follows control flow with it, the interpreter (\<open>interprete.cpp\<close>) runs it, \<open>bcdump.cpp\<close>
  prints it and \<open>bcstats.cpp\<close> counts its idioms. The interpreter keeps a stack of values and a stack of
  frames and calls the runtime: \<open>runtime.c\<close> holds the operators, constructors, patterns, comparison,
  hashing and printing, and allocates through \<open>gc.c\<close>, a mark-and-compact collector over one chunk of
  memory, whose roots are the interpreter's stack and the slots in a pool of extra roots, where the
  runtime registers what its own C code holds during an allocation.

  \<^bold>\<open>The homeworks.\<close> 01 measures the cache by walking chains of pointers; 06 and 07 are memory pools
  with a registry from which a SIGSEGV handler finds the pool that has run out; 08 is a string with a
  reference count in the low bit of its pointer; 09 reads a byte and jumps out of the signal handler where
  the access faults; 10 copies memory with a pool of threads.

  \<^bold>\<open>Modelling.\<close> The Lama tools are built with 32-bit words, the homeworks with 64-bit words; \<open>int\<close>,
  \<open>size_t\<close> and pointers are \<open>32 word\<close> or \<open>64 word\<close> and wrap. Memory is a function from addresses to
  bytes. A C function that can fail returns an \<open>outcome\<close> (theory Prelude): \<open>None\<close> when it does not
  return, an error for each exit, failed assertion and trap, or a value. Loops are recursive:
  structurally, or as \<open>partial_function\<close> where the loop may run forever, with a theorem that it returns.
  The global variables of \<open>gc.c\<close> are the fields of the record \<open>gc_state\<close>, which the functions take and
  return; those of the interpreter are added in the record \<open>machine\<close>. Code that threads share is a step
  relation over every interleaving. What the program takes from outside is an argument: \<open>mmap\<close>,
  \<open>mremap\<close>, \<open>aligned_alloc\<close>, \<open>std::sort\<close> (any function that permutes and sorts), the contents of the
  input, whether a file opens or seeks and how much of it \<open>fread\<close> gets, the text that \<open>printf\<close> makes of a
  format and its arguments. A parameter of a C function whose address is registered as a root is given by
  the address of its slot.

  \<^bold>\<open>Theories of the runtime.\<close>
  \<^item> Prelude: words, pointers into a region, outcomes, memory with little-endian words. Formats: decimal
    and hexadecimal output.
  \<^item> Repr (\<open>runtime_common.h\<close>): tags, headers, boxing. Objects (\<open>gc.h\<close>, \<open>gc.c\<close>): header access, sizes,
    mark words, iterators over objects and fields.
  \<^item> Stacks: the locales \<open>bounded_stack\<close>, \<open>value_stack\<close> and \<open>checked_stack\<close>; interpreted in
    VirtStack (\<open>virt_stack.c\<close>) and Roots (the pool of extra roots).
  \<^item> Collector (\<open>gc.c\<close>): marking, compaction, allocation, start-up.
  \<^item> Layout: the abstract heap, a list of objects, and \<open>heap_view\<close>, which says that the bytes of the
    chunk hold it. Marking and Reachability: the queue that the marking threads through the mark
    words, and the theorem that exactly the reachable objects are marked. Forwarding, Updating and
    Relocation: the three passes of the compaction, each as a function on the abstract heap.
    Collection: the passes together, with the roots; Survival: the values of the roots survive.
    Allocation: the locale \<open>allocator\<close> (room for an object means that it is appended) and its
    interpretations on the four allocation functions.
  \<^item> Values, CStrings, Compare, TagHash, Builders, Printing (\<open>runtime.c\<close>): operators, elements and
    patterns; the C string functions; comparison and hashing with the relation \<open>rep\<close> between words and
    finite values; tags; the functions that allocate; the string buffer and the printer. Bodies,
    Building and StringObjects: what the allocating functions do to the abstract heap.
  \<^item> ShowValues: the text of a value as a function on finite values, which the printer appends to its
    buffer.
  \<^item> SystemCalls (\<open>runtime.c\<close>): the functions on top of the C library: formats, files, input, regular
    expressions, random numbers, time, the arguments of the program. Files and open streams are a state.

  \<^bold>\<open>Theories of the bytecode tools.\<close>
  \<^item> Bytefile (\<open>bytefile.cpp\<close>), Instructions (\<open>opcode.h\<close>, \<open>inst_reader.h\<close>), ControlFlow
    (\<open>successors.h\<close>, first part of \<open>verify.cpp\<close>), StackDepth (\<open>stack_depth.h\<close>), Verifier (the rest of
    \<open>verify.cpp\<close>).
  \<^item> Interpreter (\<open>interprete.cpp\<close>): both stacks, locations, one definition per group of instructions,
    the main loop. Frame: what the runtime's functions leave unchanged of memory outside the heap.
    Machine and Execution: the invariant that both stacks lie in their arrays, preserved by every
    operation and every step.
  \<^item> Driver (\<open>interpreter.cpp\<close>): the search for the main symbol, verification and the run.
    VerifiedRuns: an invariant of the run of an accepted program, that the position and all return
    addresses are positions which the verifier has followed. Locals: where only calls lead to a BEGIN, the
    frame at the top and those of its callers have the locals that BEGIN reserved.
  \<^item> Statistics and Counting (\<open>bcstats.cpp\<close>): the marking of jumps, the tables and their contents as a
    sweep over the code; sorting, grouping and printing. Occurrences: what should be counted, stated on the
    instructions without the code's marks. Dump (\<open>print_inst.h\<close>, \<open>bcdump.cpp\<close>); Disassembly: the text of
    every instruction as a table and the column of the addresses digit by digit, which the dump of an
    assembled program is proved to print.

  \<^bold>\<open>Theories of the homeworks.\<close>
  \<^item> RefString (08): strings, pointers and their operations, refining an assignment of values.
  \<^item> ParallelCopy (10): the blocks; the step relation of the caller and the workers, which sleep in their
    condition variables until they are notified, its invariant and a measure that every step lowers.
    PoolShutdown: the destructor against the workers, with spurious wakeups and the destruction of the
    members before the join, which can hang or use destroyed members: only schedules that show so are
    stated of it, and what would hold otherwise; and the calls of the benchmark.
  \<^item> Pools (07): registry, handler, the three allocators, and the locale \<open>dispenser\<close> of a shared pool
    with its interpretations on the locked and the lock-free allocation. PoolLists: lists in a pool.
    Registry (06): the registry with its lock.
  \<^item> SafeRead (09): signals, handlers, the jump buffer and the frames of the calls, with one step of a thread
    for each statement. A jump with another thread's buffer goes on in that thread's frame; reads one after
    another are proved right, and schedules show how reads that overlap go wrong.
  \<^item> CacheMetrics (01): the chains and the choice of the capacity.

  \<^bold>\<open>Properties.\<close> HeapProperties, RuntimeProperties, SystemProperties, ToolProperties,
  InterpreterProperties, ProgramProperties, ReportProperties and HomeworkProperties hold the properties,
  numbered C1, C2, \<dots>, each with a hypothesis followed by a witness on a concrete state, and the lemmas that
  show where the code departs from what it means to do. The comparison of the verifier's depth with the
  interpreter's covers the instructions that neither call nor return nor reserve locals (\<open>straight\<close>: not
  CALL, CALLC, END, RET, BEGIN, CBEGIN).

  \<^bold>\<open>Bounds.\<close> The heap theorems hold for a chunk that does not reach the end of the address space, which
  \<open>heap_view\<close> includes. A collection is proved to keep the values in the slots of the stack and the extra
  roots; the custom data area is scanned for roots, but the code does not fix its references. Theorems on
  comparison and hashing assume a finite value, so cyclic objects are left out: on them the code does not
  return. The theorem on printing also leaves out values that are named like a list and are not one
  (\<open>printable\<close>): the printer takes any boxed tail for a cell. The theorems on the interpreter bound the operands of CALL, CALLC, BEGIN and CBEGIN, whose
  sums the code lets wrap, and place the arrays where they do not reach the end of the address space.
  The theorems on accepted programs leave out closure calls, which jump to a word of the heap, and bytes
  that apply no functor, which the verifier does not follow; the one on locals also leaves out code in which
  a jump leads to a BEGIN. In the model a store of STI or STA changes the byte memory only: the call stack, the
  collector's pointers and the code are not in it, so what a store through a forged pointer does to them is
  not modelled. The theorem on allocation is for lengths other than 0. The dump is described for assembled
  programs without CALLC. Files are read and written without buffers, and closing one cannot fail. The copy
  is proved for a size and a number of threads whose sum is below 2^62, without spurious wakeups, where every
  thread gets a block and sleeps when the call begins. The pool theorems assume that \<open>mmap\<close> gives a region that does not
  wrap (\<open>room_for\<close>).

  \<^bold>\<open>Not modelled.\<close> Code under \<open>DEBUG_VERSION\<close> and \<open>DEBUG_MODE\<close>; the C library itself, which is a
  parameter; the test drivers of 06 and 07, the measured times of 01, 06, 07 and 10 and what is computed
  from them in floating point; the tests of the runtime. The order in which C evaluates the two sides of
  the assignment in \<open>set_args\<close> is a parameter, and no theorem is stated on it.
\<close>

end
